(* ===== verification/Prelude.thy ===== *)
theory Prelude
  imports Main "HOL-Library.Word" "HOL-Library.Signed_Division"
begin

unbundle bit_operations_syntax

text \<open>
  Shared vocabulary of the development.  Bytes are 8-bit words; a \<open>std::string\<close> is a list of
  HOL characters (one per byte); the two are related by \<open>byte_of_char\<close> and \<open>char_of_byte\<close>.
  The theory also holds the locale \<open>codec\<close> (an encoder with a decoder that inverts it on the
  values it is used for), the generic list facts that several components share, and the named
  collections of simplification rules.
\<close>

named_theorems queue_simps \<open>definitions of the download queue operations\<close>
named_theorems stream_simps \<open>equations of the streaming (chunked) operations\<close>

section \<open>Bytes and characters\<close>

type_synonym byte = "8 word"

definition byte_of_char :: "char \<Rightarrow> byte" where
  "byte_of_char c = word_of_nat (of_char c)"

definition char_of_byte :: "byte \<Rightarrow> char" where
  "char_of_byte b = char_of (unat b)"

definition str_bytes :: "string \<Rightarrow> byte list" where
  "str_bytes s = map byte_of_char s"

definition bytes_str :: "byte list \<Rightarrow> string" where
  "bytes_str bs = map char_of_byte bs"

lemma unat_byte_of_char: "unat (byte_of_char c) = of_char c"
proof -
  have "(of_char c :: nat) < 2 ^ 8"
    using nat_of_char_less_256 [of c] by simp
  then show ?thesis
    by (simp add: byte_of_char_def unsigned_of_nat take_bit_nat_eq_self)
qed

lemma char_of_byte_of_char [simp]: "char_of_byte (byte_of_char c) = c"
  by (simp add: char_of_byte_def unat_byte_of_char)

lemma byte_of_char_of_byte [simp]: "byte_of_char (char_of_byte b) = b"
proof -
  have "unat b < 256"
    using unsigned_less [of b] by simp
  then have "unat (byte_of_char (char_of_byte b)) = unat b"
    by (simp add: unat_byte_of_char) (simp add: char_of_byte_def)
  then show ?thesis
    by (simp add: unsigned_word_eqI)
qed

lemma bytes_str_bytes [simp]: "bytes_str (str_bytes s) = s"
  by (simp add: bytes_str_def str_bytes_def o_def)

lemma str_bytes_str [simp]: "str_bytes (bytes_str b) = b"
  by (simp add: bytes_str_def str_bytes_def o_def)

section \<open>Bits of bytes\<close>

lemma bit_times_two: "bit (w * 2 :: byte) n \<longleftrightarrow> 0 < n \<and> n < 8 \<and> bit w (n - 1)"
proof -
  have "w * 2 = push_bit 1 w" by (simp add: push_bit_eq_mult)
  then show ?thesis by (simp only: bit_simps) auto
qed

lemma byte_eqI:
  fixes x y :: byte
  assumes "bit x 0 = bit y 0" "bit x 1 = bit y 1" "bit x 2 = bit y 2" "bit x 3 = bit y 3"
    "bit x 4 = bit y 4" "bit x 5 = bit y 5" "bit x 6 = bit y 6" "bit x 7 = bit y 7"
  shows "x = y"
proof (rule bit_word_eqI)
  fix n assume "n < LENGTH(8)"
  then have "n \<in> {0, 1, 2, 3, 4, 5, 6, 7}" by auto
  then show "bit x n = bit y n" using assms by auto
qed

lemma byte_bit_ge: "8 \<le> n \<Longrightarrow> \<not> bit (b :: byte) n"
  using bit_imp_le_length [of b n] by auto

lemma Suc_Suc_Suc_bits: "Suc (Suc 0) = 2" "Suc (Suc (Suc 0)) = 3"
  by simp_all

lemmas byte_bit_simps = bit_simps bit_times_two Suc_Suc_Suc_bits byte_bit_ge

section \<open>Lists\<close>

lemma replicate_add_same: "replicate n x @ replicate m x = replicate (n + m) x"
  by (simp add: replicate_add)

text \<open>Writing into the cell that follows a decoded prefix.\<close>

lemma list_update_append_here [simp]: "(pre @ x # xs)[length pre := y] = pre @ y # xs"
  by (induction pre) auto

lemma nth_append_here [simp]: "(pre @ x # xs) ! length pre = x"
  by (induction pre) auto

text \<open>Induction that peels five elements at a time, with the short lists as base cases.\<close>

lemma list_induct_by5 [case_names short step]:
  assumes short: "\<And>xs. length xs < 5 \<Longrightarrow> P xs"
    and step: "\<And>a b c d e xs. P xs \<Longrightarrow> P (a # b # c # d # e # xs)"
  shows "P xs"
proof (induction xs rule: length_induct)
  case (1 xs)
  show ?case
  proof (cases "length xs < 5")
    case True
    then show ?thesis by (rule short)
  next
    case False
    then obtain a b c d e ys where xs: "xs = a # b # c # d # e # ys"
      by (auto simp: not_less numeral_eq_Suc Suc_le_length_iff)
    then have "P ys" using 1 by simp
    then show ?thesis unfolding xs by (rule step)
  qed
qed

section \<open>Division\<close>

text \<open>\<open>sdiv\<close> truncates as the division of C++ does.\<close>

lemma sdiv_nonneg: "0 \<le> a \<Longrightarrow> 0 < b \<Longrightarrow> a sdiv b = a div (b :: int)"
  by (cases "a = 0") (simp_all add: signed_divide_int_def)

lemma smod_nonneg: "0 \<le> a \<Longrightarrow> 0 < b \<Longrightarrow> a smod b = a mod (b :: int)"
  by (simp add: signed_modulo_int_def sgn_if)

section \<open>Buffers\<close>

text \<open>\<open>memcpy(dst + off, src, n)\<close>.\<close>

definition memcpy_at :: "nat \<Rightarrow> byte list \<Rightarrow> byte list \<Rightarrow> byte list" where
  "memcpy_at off bs dst = take off dst @ bs @ drop (off + length bs) dst"

section \<open>Interfaces\<close>

text \<open>
  A codec: an encoder and a decoder that may fail, with the laws that the values of \<open>valid\<close>
  survive the round trip.  The encoder is then injective on them.
\<close>

locale codec =
  fixes enc :: "'a \<Rightarrow> 'b"
    and dec :: "'b \<Rightarrow> 'a option"
    and valid :: "'a \<Rightarrow> bool"
  assumes round_trip: "valid x \<Longrightarrow> dec (enc x) = Some x"
begin

lemma enc_inject: "valid x \<Longrightarrow> valid y \<Longrightarrow> enc x = enc y \<longleftrightarrow> x = y"
  by (metis option.inject round_trip)

lemma enc_inj_on: "inj_on enc {x. valid x}"
  by (auto simp: inj_on_def enc_inject)

end

end
