(* ===== verification/Base32.thy ===== *)
theory Base32
  imports Prelude "HOL-Library.Char_ord"
begin

text \<open>
  \<^bold>\<open>hash/value/Encoder.cpp\<close>: base32 (the textual form of CIDs, TTH roots and SIDs' longer
  cousins in the ADC protocol) and base16 decoding.  Both loops are translated with their
  running bit \<open>index\<close>; C strings end at the first NUL character.  The destination buffer of the
  decoder is a byte list of the requested length that the loop updates in place.
\<close>

section \<open>Definitions\<close>

definition base32Alphabet :: string where
  "base32Alphabet = ''ABCDEFGHIJKLMNOPQRSTUVWXYZ234567''"

definition base32Table :: "int list" where
  "base32Table =
   [-1,-1,-1,-1,-1,-1,-1,-1,-1,-1,-1,-1,-1,-1,-1,-1,
    -1,-1,-1,-1,-1,-1,-1,-1,-1,-1,-1,-1,-1,-1,-1,-1,
    -1,-1,-1,-1,-1,-1,-1,-1,-1,-1,-1,-1,-1,-1,-1,-1,
    -1,-1,26,27,28,29,30,31,-1,-1,-1,-1,-1,-1,-1,-1,
    -1, 0, 1, 2, 3, 4, 5, 6, 7, 8, 9,10,11,12,13,14,
    15,16,17,18,19,20,21,22,23,24,25,-1,-1,-1,-1,-1,
    -1, 0, 1, 2, 3, 4, 5, 6, 7, 8, 9,10,11,12,13,14,
    15,16,17,18,19,20,21,22,23,24,25,-1,-1,-1,-1,-1,
    -1,-1,-1,-1,-1,-1,-1,-1,-1,-1,-1,-1,-1,-1,-1,-1,
    -1,-1,-1,-1,-1,-1,-1,-1,-1,-1,-1,-1,-1,-1,-1,-1,
    -1,-1,-1,-1,-1,-1,-1,-1,-1,-1,-1,-1,-1,-1,-1,-1,
    -1,-1,-1,-1,-1,-1,-1,-1,-1,-1,-1,-1,-1,-1,-1,-1,
    -1,-1,-1,-1,-1,-1,-1,-1,-1,-1,-1,-1,-1,-1,-1,-1,
    -1,-1,-1,-1,-1,-1,-1,-1,-1,-1,-1,-1,-1,-1,-1,-1,
    -1,-1,-1,-1,-1,-1,-1,-1,-1,-1,-1,-1,-1,-1,-1,-1,
    -1,-1,-1,-1,-1,-1,-1,-1,-1,-1,-1,-1,-1,-1,-1,-1]"

definition base32_digit :: "byte \<Rightarrow> char" where
  "base32_digit w = base32Alphabet ! unat w"

function toBase32_loop :: "byte list \<Rightarrow> nat \<Rightarrow> nat \<Rightarrow> string" where
  "toBase32_loop src i index =
     (if length src \<le> i then []
      else if 3 < index then
        (let w = src ! i AND drop_bit index 0xFF;
             index' = (index + 5) mod 8;
             w = push_bit index' w;
             w = (if i + 1 < length src then w OR drop_bit (8 - index') (src ! (i + 1)) else w)
         in base32_digit w # toBase32_loop src (i + 1) index')
      else
        (let w = drop_bit (8 - (index + 5)) (src ! i) AND 0x1F;
             index' = (index + 5) mod 8
         in base32_digit w # toBase32_loop src (if index' = 0 then i + 1 else i) index'))"
  by pat_completeness auto
termination
proof (relation "measure (\<lambda>(src, i, index). 2 * (length src - i) + (if index \<le> 3 then 1 else 0))",
       goal_cases)
  case (3 src i index w index')
  then have "index = 0 \<or> index = 1 \<or> index = 2 \<or> index = 3" by auto
  with 3 show ?case by auto
qed auto

declare toBase32_loop.simps [simp del]

definition toBase32 :: "byte list \<Rightarrow> string" where
  "toBase32 src = toBase32_loop src 0 0"

fun fromBase32_loop :: "nat \<Rightarrow> string \<Rightarrow> nat \<Rightarrow> nat \<Rightarrow> byte list \<Rightarrow> byte list" where
  "fromBase32_loop len [] index offset dst = dst"
| "fromBase32_loop len (c # cs) index offset dst =
     (if c = CHR 0x00 then dst
      else if base32Table ! of_char c = -1 then fromBase32_loop len cs index offset dst
      else
        (let tmp = word_of_int (base32Table ! of_char c) :: byte;
             index' = (index + 5) mod 8
         in if index \<le> 3 then
              if index' = 0 then
                let dst = dst[offset := dst ! offset OR tmp]
                in if offset + 1 = len then dst else fromBase32_loop len cs index' (offset + 1) dst
              else
                fromBase32_loop len cs index' offset
                  (dst[offset := dst ! offset OR push_bit (8 - index') tmp])
            else
              let dst = dst[offset := dst ! offset OR drop_bit index' tmp]
              in if offset + 1 = len then dst
                 else fromBase32_loop len cs index' (offset + 1)
                        (dst[offset + 1 := dst ! (offset + 1) OR push_bit (8 - index') tmp])))"

definition fromBase32 :: "string \<Rightarrow> nat \<Rightarrow> byte list" where
  "fromBase32 src len = fromBase32_loop len src 0 0 (replicate len 0)"

fun isBase32 :: "string \<Rightarrow> bool" where
  "isBase32 [] = True"
| "isBase32 (c # cs) =
     (if c = CHR 0x00 then True
      else if base32Table ! of_char c = -1 then False
      else isBase32 cs)"

text \<open>\<open>decode16\<close> throws \<open>Exception("can't decode")\<close>: the left summand.\<close>

datatype decode_error = CantDecode

definition decode16 :: "char \<Rightarrow> decode_error + byte" where
  "decode16 c =
     (if CHR ''0'' \<le> c \<and> c \<le> CHR ''9'' then Inr (byte_of_char c - byte_of_char (CHR ''0''))
      else if CHR ''A'' \<le> c \<and> c \<le> CHR ''F'' then Inr (byte_of_char c - byte_of_char (CHR ''A''))
      else if CHR ''a'' \<le> c \<and> c \<le> CHR ''f'' then Inr (byte_of_char c - byte_of_char (CHR ''a''))
      else Inl CantDecode)"

fun fromBase16_loop :: "string \<Rightarrow> nat \<Rightarrow> nat \<Rightarrow> byte list \<Rightarrow> decode_error + byte list" where
  "fromBase16_loop (c1 # c2 # cs) i len dst =
     (if c1 = CHR 0x00 \<or> c2 = CHR 0x00 \<or> \<not> i < len * 2 then Inr dst
      else (case decode16 c1 of
              Inl e \<Rightarrow> Inl e
            | Inr tmp \<Rightarrow>
                (case decode16 c2 of
                   Inl e \<Rightarrow> Inl e
                 | Inr tmp2 \<Rightarrow>
                     fromBase16_loop cs (i + 2) len (dst[i div 2 := push_bit 4 tmp + tmp2]))))"
| "fromBase16_loop _ i len dst = Inr dst"

definition fromBase16 :: "string \<Rightarrow> nat \<Rightarrow> decode_error + byte list" where
  "fromBase16 src len = fromBase16_loop src 0 len (replicate len 0)"

section \<open>The alphabet and the table\<close>

lemma byte_32_cases:
  fixes w :: byte
  assumes "w < 32"
  obtains n where "n < 32" and "w = word_of_nat n"
proof
  show "unat w < 32"
    using assms by (simp add: word_less_nat_alt)
  show "w = word_of_nat (unat w)" by simp
qed

lemma base32_all_digits:
  "\<forall>n \<in> set [0..<32]. base32_digit (word_of_nat n) \<noteq> CHR 0x00 \<and>
     base32Table ! of_char (base32_digit (word_of_nat n)) = int n"
  by (code_simp)

lemma base32_digit_lookup:
  assumes "w < 32"
  shows "base32_digit w \<noteq> CHR 0x00"
    and "base32Table ! of_char (base32_digit w) = uint w"
proof -
  from assms obtain n where n: "n < 32" "w = word_of_nat n" by (rule byte_32_cases)
  have "uint w = int n"
    using n by (simp add: unsigned_of_nat take_bit_nat_eq_self)
  with n base32_all_digits
  show "base32_digit w \<noteq> CHR 0x00" and "base32Table ! of_char (base32_digit w) = uint w"
    by auto
qed

lemma fromBase32_step:
  assumes "w < 32"
  shows "fromBase32_loop len (base32_digit w # cs) index offset dst =
     (let index' = (index + 5) mod 8
      in if index \<le> 3 then
           if index' = 0 then
             let dst = dst[offset := dst ! offset OR w]
             in if offset + 1 = len then dst else fromBase32_loop len cs index' (offset + 1) dst
           else
             fromBase32_loop len cs index' offset
               (dst[offset := dst ! offset OR push_bit (8 - index') w])
         else
           let dst = dst[offset := dst ! offset OR drop_bit index' w]
           in if offset + 1 = len then dst
              else fromBase32_loop len cs index' (offset + 1)
                     (dst[offset + 1 := dst ! (offset + 1) OR push_bit (8 - index') w]))"
proof -
  have "uint w \<noteq> -1"
    using uint_ge_0 [of w] by linarith
  then show ?thesis
    using base32_digit_lookup [OF assms] by (simp add: Let_def)
qed

declare fromBase32_loop.simps(2) [simp del]

section \<open>The five-bit groups of five bytes\<close>

definition g0 :: "byte \<Rightarrow> byte" where "g0 a = drop_bit 3 a AND 31"
definition g1 :: "byte \<Rightarrow> byte \<Rightarrow> byte" where "g1 a b = push_bit 2 (a AND 7) OR drop_bit 6 b"
definition g2 :: "byte \<Rightarrow> byte" where "g2 b = drop_bit 1 b AND 31"
definition g3 :: "byte \<Rightarrow> byte \<Rightarrow> byte" where "g3 b c = push_bit 4 (b AND 1) OR drop_bit 4 c"
definition g4 :: "byte \<Rightarrow> byte \<Rightarrow> byte" where "g4 c d = push_bit 1 (c AND 15) OR drop_bit 7 d"
definition g5 :: "byte \<Rightarrow> byte" where "g5 d = drop_bit 2 d AND 31"
definition g6 :: "byte \<Rightarrow> byte \<Rightarrow> byte" where "g6 d e = push_bit 3 (d AND 3) OR drop_bit 5 e"
definition g7 :: "byte \<Rightarrow> byte" where "g7 e = e AND 31"

lemmas group_defs = g0_def g1_def g2_def g3_def g4_def g5_def g6_def g7_def

lemma byte_less_32I:
  fixes w :: byte
  assumes "w AND 31 = w"
  shows "w < 32"
proof -
  have "w AND 31 \<le> 31" by (rule word_and_le1)
  with assms show ?thesis by (simp add: word_le_nat_alt word_less_nat_alt)
qed

lemma groups_less_32:
  "g0 a < 32" "g1 a b < 32" "g2 a < 32" "g3 a b < 32" "g4 a b < 32" "g5 a < 32" "g6 a b < 32"
  "g7 a < 32"
  by (rule byte_less_32I, rule byte_eqI, (simp add: group_defs byte_bit_simps; fail)+)+

lemma groups_decode:
  "push_bit 3 (g0 a) OR drop_bit 2 (g1 a b) = a"
  "(push_bit 6 (g1 a b) OR g2 b * 2) OR drop_bit 4 (g3 b c) = b"
  "push_bit 4 (g3 b c) OR drop_bit (Suc 0) (g4 c d) = c"
  "(push_bit 7 (g4 c d) OR push_bit 2 (g5 d)) OR drop_bit 3 (g6 d e) = d"
  "push_bit 5 (g6 d e) OR g7 e = e"
  by (rule byte_eqI, (simp add: group_defs byte_bit_simps; fail)+)+

section \<open>Encoding by groups\<close>

lemma toBase32_loop_shift: "toBase32_loop (x # src) (Suc i) index = toBase32_loop src i index"
proof (induction src i index rule: toBase32_loop.induct)
  case (1 src i index)
  consider "length src \<le> i" | "i < length src" "3 < index" | "i < length src" "\<not> 3 < index"
    by linarith
  then show ?case
  proof cases
    case 1
    then show ?thesis by (simp add: toBase32_loop.simps)
  next
    case 2
    then show ?thesis using "1.IH"(1)
      by (simp add: toBase32_loop.simps [of "x # src" "Suc i" index] toBase32_loop.simps [of src i index] Let_def)
  next
    case 3
    then show ?thesis using "1.IH"(2) [OF _ _ refl refl]
      by (cases "(index + 5) mod 8 = 0")
        (simp_all add: toBase32_loop.simps [of "x # src" "Suc i" index] toBase32_loop.simps [of src i index] Let_def)
  qed
qed

lemma toBase32_steps:
  "toBase32_loop [] 0 index = []"
  "toBase32_loop (a # s) 0 0 = base32_digit (g0 a) # toBase32_loop (a # s) 0 5"
  "toBase32_loop (a # s) 0 5 = base32_digit (g1 a (if s = [] then 0 else hd s)) # toBase32_loop s 0 2"
  "toBase32_loop (a # s) 0 2 = base32_digit (g2 a) # toBase32_loop (a # s) 0 7"
  "toBase32_loop (a # s) 0 7 = base32_digit (g3 a (if s = [] then 0 else hd s)) # toBase32_loop s 0 4"
  "toBase32_loop (a # s) 0 4 = base32_digit (g4 a (if s = [] then 0 else hd s)) # toBase32_loop s 0 1"
  "toBase32_loop (a # s) 0 (Suc 0) = base32_digit (g5 a) # toBase32_loop (a # s) 0 6"
  "toBase32_loop (a # s) 0 6 = base32_digit (g6 a (if s = [] then 0 else hd s)) # toBase32_loop s 0 3"
  "toBase32_loop (a # s) 0 3 = base32_digit (g7 a) # toBase32_loop s 0 0"
proof -
  have "(a AND 15) * 2 = a * 2 AND (30 :: byte)"
    by (rule byte_eqI) (simp_all add: byte_bit_simps)
  moreover have "toBase32_loop (a # s) 1 i = toBase32_loop s 0 i" for i
    by (simp add: toBase32_loop_shift)
  moreover note toBase32_loop.simps [of "[]" 0 index] toBase32_loop.simps [of "a # s" 0 0]
    toBase32_loop.simps [of "a # s" 0 1] toBase32_loop.simps [of "a # s" 0 2]
    toBase32_loop.simps [of "a # s" 0 3] toBase32_loop.simps [of "a # s" 0 4]
    toBase32_loop.simps [of "a # s" 0 5] toBase32_loop.simps [of "a # s" 0 6]
    toBase32_loop.simps [of "a # s" 0 7]
  ultimately show
    "toBase32_loop [] 0 index = []"
    "toBase32_loop (a # s) 0 0 = base32_digit (g0 a) # toBase32_loop (a # s) 0 5"
    "toBase32_loop (a # s) 0 5 = base32_digit (g1 a (if s = [] then 0 else hd s)) # toBase32_loop s 0 2"
    "toBase32_loop (a # s) 0 2 = base32_digit (g2 a) # toBase32_loop (a # s) 0 7"
    "toBase32_loop (a # s) 0 7 = base32_digit (g3 a (if s = [] then 0 else hd s)) # toBase32_loop s 0 4"
    "toBase32_loop (a # s) 0 4 = base32_digit (g4 a (if s = [] then 0 else hd s)) # toBase32_loop s 0 1"
    "toBase32_loop (a # s) 0 (Suc 0) = base32_digit (g5 a) # toBase32_loop (a # s) 0 6"
    "toBase32_loop (a # s) 0 6 = base32_digit (g6 a (if s = [] then 0 else hd s)) # toBase32_loop s 0 3"
    "toBase32_loop (a # s) 0 3 = base32_digit (g7 a) # toBase32_loop s 0 0"
    by (simp_all add: group_defs hd_conv_nth)
qed

lemma toBase32_loop_by5:
  "toBase32_loop (a # b # c # d # e # xs) 0 0 =
     base32_digit (g0 a) # base32_digit (g1 a b) # base32_digit (g2 b) # base32_digit (g3 b c)
     # base32_digit (g4 c d) # base32_digit (g5 d) # base32_digit (g6 d e) # base32_digit (g7 e)
     # toBase32_loop xs 0 0"
  by (simp add: toBase32_steps)

lemma short_list_cases:
  assumes "length xs < 5"
  obtains "xs = []" | a where "xs = [a]" | a b where "xs = [a, b]" | a b c where "xs = [a, b, c]"
    | a b c d where "xs = [a, b, c, d]"
  using assms
  by (auto simp: numeral_eq_Suc less_Suc_eq_le le_Suc_eq length_Suc_conv)

section \<open>Decoding an encoding\<close>

lemma fromBase32_decode:
  "fromBase32_loop (length pre + length src) (toBase32_loop src 0 0) 0 (length pre)
     (pre @ replicate (length src) 0) = pre @ src"
proof (induction src arbitrary: pre rule: list_induct_by5)
  case (short xs)
  then show ?case
    by (rule short_list_cases)
      (simp_all add: toBase32_steps fromBase32_step groups_less_32 groups_decode list_update_append nth_append)
next
  case (step a b c d e xs)
  show ?case using step [of "pre @ [a, b, c, d, e]"]
    by (cases "xs = []")
      (simp_all add: toBase32_loop_by5 fromBase32_step groups_less_32 groups_decode
        list_update_append nth_append toBase32_steps)
qed

lemma length_toBase32_loop:
  "length (toBase32_loop src 0 0) = (8 * length src + 4) div 5"
proof (induction src rule: list_induct_by5)
  case (short xs)
  then show ?case by (rule short_list_cases) (simp_all add: toBase32_steps)
next
  case (step a b c d e xs)
  then show ?case by (simp add: toBase32_loop_by5)
qed

lemma isBase32_digit: "w < 32 \<Longrightarrow> isBase32 (base32_digit w # cs) = isBase32 cs"
proof -
  assume "w < 32"
  moreover have "uint w \<noteq> -1" using uint_ge_0 [of w] by linarith
  ultimately show ?thesis using base32_digit_lookup [of w] by simp
qed

lemma isBase32_toBase32_loop: "isBase32 (toBase32_loop src 0 0)"
proof (induction src rule: list_induct_by5)
  case (short xs)
  then show ?case
    by (rule short_list_cases)
      (simp_all add: toBase32_steps isBase32_digit groups_less_32 del: isBase32.simps(2))
next
  case (step a b c d e xs)
  then show ?case
    by (simp add: toBase32_loop_by5 isBase32_digit groups_less_32 del: isBase32.simps(2))
qed

section \<open>Hash values\<close>

text \<open>
  \<^bold>\<open>hash/value/HashValue.h\<close>: a hash value is an array of \<open>BYTES = 24\<close> bytes; it is compared as
  \<open>memcmp\<close> does and printed and read in base32.
\<close>

definition HASH_BYTES :: nat where
  "HASH_BYTES = 24"

fun memcmp_less :: "byte list \<Rightarrow> byte list \<Rightarrow> bool" where
  "memcmp_less (x # xs) (y # ys) = (if x = y then memcmp_less xs ys else x < y)"
| "memcmp_less _ _ = False"

definition HashValue_less :: "byte list \<Rightarrow> byte list \<Rightarrow> bool" where
  "HashValue_less a b = memcmp_less a b"

definition HashValue_toBase32 :: "byte list \<Rightarrow> string" where
  "HashValue_toBase32 d = toBase32 d"

definition HashValue_fromBase32 :: "string \<Rightarrow> byte list" where
  "HashValue_fromBase32 s = fromBase32 s HASH_BYTES"

definition HashValue_bool :: "byte list \<Rightarrow> bool" where
  "HashValue_bool d = list_ex (\<lambda>c. c \<noteq> 0) d"

lemma fromBase32_toBase32_aux: "fromBase32 (toBase32 src) (length src) = src"
  using fromBase32_decode [of "[]" src] by (simp add: fromBase32_def toBase32_def)

interpretation hash_text: codec HashValue_toBase32 "\<lambda>s. Some (HashValue_fromBase32 s)"
    "\<lambda>d. length d = HASH_BYTES"
  by unfold_locales
    (metis HashValue_fromBase32_def HashValue_toBase32_def fromBase32_toBase32_aux)

lemma memcmp_less_irrefl: "\<not> memcmp_less xs xs"
  by (induction xs) auto

lemma memcmp_less_trans:
  "memcmp_less xs ys \<Longrightarrow> memcmp_less ys zs \<Longrightarrow> memcmp_less xs zs"
proof (induction xs ys arbitrary: zs rule: memcmp_less.induct)
  case (1 x xs y ys)
  then show ?case by (cases zs) (auto split: if_splits)
qed auto

lemma memcmp_less_total:
  "length xs = length ys \<Longrightarrow> memcmp_less xs ys \<or> xs = ys \<or> memcmp_less ys xs"
  by (induction xs ys rule: memcmp_less.induct) auto

section \<open>Properties\<close>

text \<open>
  C1: base32 decoding with the buffer size of the encoded data returns exactly that data.
\<close>

theorem base32_round_trip: "fromBase32 (toBase32 src) (length src) = src"
  by (rule fromBase32_toBase32_aux)

text \<open>
  the text of an encoding has one character per started group of five bits, and every one
  of them is accepted by \<open>isBase32\<close>.
\<close>

lemma toBase32_shape:
  "length (toBase32 src) = (8 * length src + 4) div 5 \<and> isBase32 (toBase32 src)"
  by (simp add: toBase32_def length_toBase32_loop isBase32_toBase32_loop)

text \<open>
  two hash values of 24 bytes have the same text only when they are the same value, and
  reading the text gives the value back.
\<close>

lemma hash_text_identifies:
  assumes "length d = HASH_BYTES" and "length e = HASH_BYTES"
  shows "(HashValue_toBase32 d = HashValue_toBase32 e \<longleftrightarrow> d = e)
    \<and> HashValue_fromBase32 (HashValue_toBase32 d) = d"
  using hash_text.enc_inject [OF assms] hash_text.round_trip [OF assms(1)] by auto

lemma hash_text_identifies_witness:
  "HashValue_toBase32 (replicate 24 7) \<noteq> HashValue_toBase32 (replicate 24 8)
   \<and> HashValue_fromBase32 (HashValue_toBase32 (replicate 24 7)) = replicate 24 7"
  using hash_text_identifies [of "replicate 24 7" "replicate 24 8"]
  by (simp add: HASH_BYTES_def numeral_eq_Suc)

text \<open>The worth of a hexadecimal digit.\<close>

fun hex_value :: "char \<Rightarrow> nat option" where
  "hex_value c =
     (if c \<in> set ''0123456789'' then Some (of_char c - 48)
      else if c \<in> set ''ABCDEF'' then Some (of_char c - 55)
      else if c \<in> set ''abcdef'' then Some (of_char c - 87)
      else None)"

lemma decode16_digits:
  "list_all (\<lambda>c. decode16 c = Inr (word_of_nat (the (hex_value c)))) ''0123456789''"
  "list_all (\<lambda>c. decode16 c \<noteq> Inr (word_of_nat (the (hex_value c)))
     \<and> decode16 c = Inr (word_of_nat (the (hex_value c) - 10))) ''ABCDEFabcdef''"
  "list_all (\<lambda>c. the (hex_value c) < 10) ''0123456789''"
  "list_all (\<lambda>c. 10 \<le> the (hex_value c)) ''ABCDEFabcdef''"
  by code_simp+

lemma hex_value_Some: "hex_value c = Some v \<Longrightarrow> c \<in> set ''0123456789'' \<or> c \<in> set ''ABCDEFabcdef''"
  by (auto split: if_splits)

text \<open>
  the hexadecimal decoder is right on the decimal digits only: on a letter digit it returns
  the letter's distance from \<open>A\<close> (or \<open>a\<close>) without the ten that the digit is worth.
\<close>

lemma decode16_hex_digit:
  assumes "hex_value c = Some v"
  shows "(decode16 c = Inr (word_of_nat v) \<longleftrightarrow> v < 10)
    \<and> decode16 c = Inr (word_of_nat (if v < 10 then v else v - 10))"
  using hex_value_Some [OF assms] decode16_digits assms
  by (fastforce simp: list_all_iff simp del: hex_value.simps set_simps)

lemma decode16_hex_digit_witness:
  "decode16 (CHR ''B'') = Inr 1 \<and> hex_value (CHR ''B'') = Some 11 \<and> fromBase16 ''4B'' 1 = Inr [0x41]"
proof -
  have "hex_value (CHR ''B'') = Some 11" by code_simp
  moreover have "fromBase16 ''4B'' 1 = Inr [0x41]" by code_simp
  ultimately show ?thesis using decode16_hex_digit [of "CHR ''B''" 11] by simp
qed
end
