(* ===== verification/Merkle.thy ===== *)
theory Merkle
  imports Base32
begin

text \<open>
  \<^bold>\<open>hash/value/MerkleTree.h\<close>, \<open>MerkleCheckOutputStream.h\<close> and \<open>MerkleTreeOutputStream.h\<close>: the tree
  hash that identifies files and verifies downloaded data.  The template parameters
  \<open>Hasher\<close> and \<open>baseBlockSize\<close> are the first arguments \<open>H\<close> (the digest of the bytes given to
  \<open>update\<close>, whatever their division into calls) and \<open>base\<close> of the operations.  The vector \<open>blocks\<close>
  is a list whose head is \<open>blocks.back()\<close>; the other vectors are lists in the code's order.
  \<open>int64_t\<close> sizes are integers.  A value the code reads out of the bounds of a vector, and a loop
  of the code that does not end, are \<open>None\<close>.
\<close>

type_synonym hasher = "byte list \<Rightarrow> byte list"
type_synonym hash_value = "byte list"

record merkle_tree =
  mt_blocks :: "(hash_value \<times> int) list"
  mt_leaves :: "hash_value list"
  mt_root :: hash_value
  mt_fileSize :: int
  mt_blockSize :: int

section \<open>Block sizes\<close>

text \<open>
  The loop of \<open>calcBlockSize\<close> starts from a positive \<open>tmp\<close> and a positive \<open>maxHashes\<close>; the guard
  says so.
\<close>

function calcBlockSize_loop :: "int \<Rightarrow> int \<Rightarrow> int \<Rightarrow> int" where
  "calcBlockSize_loop maxHashes aFileSize tmp =
     (if 0 < maxHashes \<and> 0 < tmp \<and> maxHashes * tmp < aFileSize
      then calcBlockSize_loop maxHashes aFileSize (tmp * 2) else tmp)"
  by pat_completeness auto
termination
proof (relation "measure (\<lambda>(h, f, t). nat (f - h * t))", goal_cases)
  case (2 h f t)
  then have "h * t < h * (t * 2)" by simp
  with 2 show ?case by simp
qed simp

declare calcBlockSize_loop.simps [simp del]

definition calcBlockSize :: "nat \<Rightarrow> int \<Rightarrow> nat \<Rightarrow> int" where
  "calcBlockSize base aFileSize maxLevels =
     (let tmp = int base; maxHashes = push_bit (maxLevels - 1) 1
      in calcBlockSize_loop maxHashes aFileSize tmp)"

definition calcBlocks :: "int \<Rightarrow> int \<Rightarrow> nat" where
  "calcBlocks aFileSize aBlockSize =
     max (nat ((aFileSize + aBlockSize - 1) sdiv aBlockSize)) 1"

definition calcBlocks16 :: "nat \<Rightarrow> int \<Rightarrow> 16 word" where
  "calcBlocks16 base aFileSize = of_nat (calcBlocks aFileSize (calcBlockSize base aFileSize 10))"

section \<open>Building a tree\<close>

text \<open>
  The constructors leave \<open>root\<close> uninitialised until \<open>calcRoot\<close> assigns it: a new tree takes its
  contents as an argument, and \<open>merkle_load\<close> assigns it at once.
\<close>

definition merkle_new :: "hash_value \<Rightarrow> int \<Rightarrow> merkle_tree" where
  "merkle_new garbage aBlockSize =
     \<lparr>mt_blocks = [], mt_leaves = [], mt_root = garbage,
      mt_fileSize = 0, mt_blockSize = aBlockSize\<rparr>"

definition merkle_single :: "int \<Rightarrow> int \<Rightarrow> hash_value \<Rightarrow> merkle_tree" where
  "merkle_single aFileSize aBlockSize aRoot =
     \<lparr>mt_blocks = [], mt_leaves = [aRoot], mt_root = aRoot,
      mt_fileSize = aFileSize, mt_blockSize = aBlockSize\<rparr>"

definition combine :: "hasher \<Rightarrow> hash_value \<Rightarrow> hash_value \<Rightarrow> hash_value" where
  "combine H a b = H ([1] @ a @ b)"

fun reduceBlocks ::
  "hasher \<Rightarrow> int \<Rightarrow> (hash_value \<times> int) list \<Rightarrow> hash_value list
    \<Rightarrow> (hash_value \<times> int) list \<times> hash_value list" where
  "reduceBlocks H blockSize ((b, b2) # (a, a2) # blocks) leaves =
     (if a2 = b2 then
        if a2 * 2 = blockSize then
          reduceBlocks H blockSize blocks (leaves @ [combine H a b])
        else
          reduceBlocks H blockSize ((combine H a b, a2 * 2) # blocks) leaves
      else ((b, b2) # (a, a2) # blocks, leaves))"
| "reduceBlocks H blockSize blocks leaves = (blocks, leaves)"

text \<open>The body of the loop of \<open>update\<close> for one base block.\<close>

definition merkle_add_block :: "hasher \<Rightarrow> nat \<Rightarrow> merkle_tree \<Rightarrow> byte list \<Rightarrow> merkle_tree" where
  "merkle_add_block H base t buf =
     (let h = H ([0] @ buf) in
      if int base < mt_blockSize t then
        let (blocks, leaves) =
          reduceBlocks H (mt_blockSize t) ((h, int base) # mt_blocks t) (mt_leaves t)
        in t\<lparr>mt_blocks := blocks, mt_leaves := leaves\<rparr>
      else t\<lparr>mt_leaves := mt_leaves t @ [h]\<rparr>)"

text \<open>The \<open>do\<close> loop; \<open>base\<close> is a positive constant of the template.\<close>

function merkle_update_loop :: "hasher \<Rightarrow> nat \<Rightarrow> merkle_tree \<Rightarrow> byte list \<Rightarrow> merkle_tree" where
  "merkle_update_loop H base t data =
     (let n = min base (length data);
          t = merkle_add_block H base t (take n data);
          data = drop n data
      in if 0 < n \<and> data \<noteq> [] then merkle_update_loop H base t data else t)"
  by pat_completeness auto
termination
  by (relation "measure (\<lambda>(_, _, _, data). length data)") auto

declare merkle_update_loop.simps [simp del]

definition merkle_update :: "hasher \<Rightarrow> nat \<Rightarrow> merkle_tree \<Rightarrow> byte list \<Rightarrow> merkle_tree" where
  "merkle_update H base t data =
     (if data = [] \<and> \<not> (mt_leaves t = [] \<and> mt_blocks t = []) then t
      else
        let t = merkle_update_loop H base t data
        in t\<lparr>mt_fileSize := mt_fileSize t + int (length data)\<rparr>)"

section \<open>The root\<close>

function getHash_split :: "int \<Rightarrow> int \<Rightarrow> int" where
  "getHash_split l len =
     (if 0 < l \<and> l * 2 < len then getHash_split (l * 2) len else l)"
  by pat_completeness auto
termination
  by (relation "measure (\<lambda>(l, n). nat (n - l))") auto

declare getHash_split.simps [simp del]

lemma getHash_split_bounds:
  "0 < l \<Longrightarrow> l < n \<Longrightarrow> l \<le> getHash_split l n \<and> getHash_split l n < n"
proof (induction l n rule: getHash_split.induct)
  case (1 l n)
  show ?case
  proof (cases "l * 2 < n")
    case True
    with 1 have "l * 2 \<le> getHash_split (l * 2) n \<and> getHash_split (l * 2) n < n" by simp
    with True 1 show ?thesis by (simp add: getHash_split.simps [of l n])
  next
    case False
    with 1 show ?thesis by (simp add: getHash_split.simps [of l n])
  qed
qed

text \<open>
  \<open>getHash\<close>, reading \<open>leaves[(uint32_t) (start / blockSize)]\<close>; with a block size that is not
  positive the recursion of the code does not end.
\<close>

function getHash :: "hasher \<Rightarrow> hash_value list \<Rightarrow> int \<Rightarrow> int \<Rightarrow> int \<Rightarrow> hash_value option" where
  "getHash H leaves blockSize start len =
     (if len \<le> blockSize then
        let i = unat (word_of_int (start sdiv blockSize) :: 32 word)
        in if i < length leaves then Some (leaves ! i) else None
      else if blockSize \<le> 0 then None
      else
        let l = getHash_split blockSize len in
        case getHash H leaves blockSize start l of
          None \<Rightarrow> None
        | Some a \<Rightarrow>
            (case getHash H leaves blockSize (start + l) (len - l) of
               None \<Rightarrow> None
             | Some b \<Rightarrow> Some (combine H a b)))"
  by pat_completeness auto
termination
proof (relation "measure (\<lambda>(_, _, _, _, n). nat n)", goal_cases)
  case (2 H leaves bs start n l)
  then show ?case using getHash_split_bounds [of bs n] by auto
next
  case (3 H leaves bs start n l a)
  then show ?case using getHash_split_bounds [of bs n] by auto
qed simp

declare getHash.simps [simp del]

definition calcRoot :: "hasher \<Rightarrow> merkle_tree \<Rightarrow> merkle_tree option" where
  "calcRoot H t =
     (case getHash H (mt_leaves t) (mt_blockSize t) 0 (mt_fileSize t) of
        None \<Rightarrow> None
      | Some r \<Rightarrow> Some (t\<lparr>mt_root := r\<rparr>))"

text \<open>The constructor that loads consecutive leaf hashes of \<open>bytes\<close> bytes each.\<close>

definition merkle_load :: "hasher \<Rightarrow> nat \<Rightarrow> int \<Rightarrow> int \<Rightarrow> byte list \<Rightarrow> merkle_tree option" where
  "merkle_load H bytes aFileSize aBlockSize aData =
     calcRoot H \<lparr>mt_blocks = [],
       mt_leaves = map (\<lambda>i. take bytes (drop (i * bytes) aData)) [0..<calcBlocks aFileSize aBlockSize],
       mt_root = [], mt_fileSize = aFileSize, mt_blockSize = aBlockSize\<rparr>"

fun fold_blocks :: "hasher \<Rightarrow> (hash_value \<times> int) list \<Rightarrow> (hash_value \<times> int) list" where
  "fold_blocks H ((b, b2) # (a, a2) # blocks) = fold_blocks H ((combine H a b, a2) # blocks)"
| "fold_blocks H blocks = blocks"

definition merkle_finalize :: "hasher \<Rightarrow> nat \<Rightarrow> merkle_tree \<Rightarrow> merkle_tree option" where
  "merkle_finalize H base t =
     (let t = (if mt_leaves t = [] \<and> mt_blocks t = [] then merkle_update H base t [] else t);
          t = t\<lparr>mt_blocks := fold_blocks H (mt_blocks t)\<rparr>;
          t = (case mt_blocks t of
                 [] \<Rightarrow> t
               | b # _ \<Rightarrow> t\<lparr>mt_leaves := mt_leaves t @ [fst b]\<rparr>)
      in calcRoot H t)"

definition getLeafData :: "merkle_tree \<Rightarrow> byte list" where
  "getLeafData t = concat (mt_leaves t)"

definition verifyRoot :: "merkle_tree \<Rightarrow> hash_value \<Rightarrow> bool" where
  "verifyRoot t aRoot \<longleftrightarrow> aRoot = mt_root t"

end
