(* ===== verification/Tree_Hash.thy ===== *)
theory Tree_Hash
  imports Merkle
begin

text \<open>
  The reference the tree of \<open>Merkle\<close> implements: \<open>tree_hash\<close> of the list of base block hashes.
  The invariant \<open>merkle_inv\<close> relates a tree under construction (its leaves, and its stack of
  partial groups, a binary counter) to the hashes consumed so far; the lemmas carry it through
  \<open>update\<close>, and \<open>merkle_inv_finish\<close> reads the result of \<open>finalize\<close> off it.
\<close>


section \<open>Reference: the hash of a list of leaves\<close>

function chunks :: "nat \<Rightarrow> 'a list \<Rightarrow> 'a list list" where
  "chunks n xs =
     (if n = 0 \<or> length xs \<le> n then [xs] else take n xs # chunks n (drop n xs))"
  by pat_completeness auto
termination
  by (relation "measure (\<lambda>(_, xs). length xs)") auto

declare chunks.simps [simp del]

text \<open>\<open>pow2_below 1 n\<close> is the largest power of two below \<open>n\<close>.\<close>

function pow2_below :: "nat \<Rightarrow> nat \<Rightarrow> nat" where
  "pow2_below l n = (if 0 < l \<and> l * 2 < n then pow2_below (l * 2) n else l)"
  by pat_completeness auto
termination
  by (relation "measure (\<lambda>(l, n). n - l)") auto

declare pow2_below.simps [simp del]

lemma pow2_below_bounds:
  "0 < l \<Longrightarrow> l < n \<Longrightarrow> l \<le> pow2_below l n \<and> pow2_below l n < n"
proof (induction l n rule: pow2_below.induct)
  case (1 l n)
  then show ?case by (cases "l * 2 < n") (auto simp: pow2_below.simps [of l n])
qed

lemma pow2_below_eq:
  "l * 2 ^ j < n \<Longrightarrow> n \<le> l * 2 ^ Suc j \<Longrightarrow> 0 < l \<Longrightarrow> pow2_below l n = l * 2 ^ j"
proof (induction j arbitrary: l)
  case 0
  then show ?case by (simp add: pow2_below.simps [of l n])
next
  case (Suc j)
  have "l * 2 < n"
    using Suc.prems(1) by (metis le_less_trans mult_le_mono2 one_le_power one_le_numeral power_Suc
        mult.right_neutral mult_le_cancel1)
  then have "pow2_below l n = pow2_below (l * 2) n"
    using Suc.prems(3) by (simp add: pow2_below.simps [of l n])
  also have "\<dots> = l * 2 * 2 ^ j"
    using Suc.prems by (intro Suc.IH) (simp_all add: ac_simps)
  finally show ?case by simp
qed

lemma pow2_below_ex: "1 < n \<Longrightarrow> \<exists>j. pow2_below 1 n = 2 ^ j \<and> 2 ^ j < n \<and> n \<le> 2 ^ Suc j"
proof -
  assume n: "1 < n"
  have "\<exists>j. 2 ^ j \<le> n - 1 \<and> n - 1 < 2 ^ (j + 1)"
    using n by (intro ex_power_ivl1) auto
  then obtain j where "2 ^ j \<le> n - 1" "n - 1 < 2 ^ Suc j" by auto
  with n have "2 ^ j < n" "n \<le> 2 ^ Suc j" by auto
  then show ?thesis using pow2_below_eq [of 1 j n] by auto
qed

text \<open>The tree hash: a left subtree with the largest power of two of leaves below the total.\<close>

function tree_hash :: "hasher \<Rightarrow> hash_value list \<Rightarrow> hash_value" where
  "tree_hash H xs =
     (if length xs \<le> 1 then hd xs
      else let k = pow2_below 1 (length xs)
           in combine H (tree_hash H (take k xs)) (tree_hash H (drop k xs)))"
  by pat_completeness auto
termination
proof (relation "measure (\<lambda>(_, xs). length xs)", goal_cases)
  case (2 H xs k)
  then show ?case using pow2_below_bounds [of 1 "length xs"] by simp
next
  case (3 H xs k)
  then show ?case using pow2_below_bounds [of 1 "length xs"] by simp arith
qed simp

declare tree_hash.simps [simp del]

lemma tree_hash_single [simp]: "tree_hash H [x] = x"
  by (simp add: tree_hash.simps)

lemma tree_hash_append:
  assumes "length ys = 2 ^ j" and "zs \<noteq> []" and "length zs \<le> 2 ^ j"
  shows "tree_hash H (ys @ zs) = combine H (tree_hash H ys) (tree_hash H zs)"
proof -
  have "2 ^ j < length (ys @ zs)" "length (ys @ zs) \<le> 2 ^ Suc j"
    using assms by auto
  then have "pow2_below 1 (length (ys @ zs)) = 2 ^ j"
    using pow2_below_eq [of 1 j "length (ys @ zs)"] by simp
  moreover have "\<not> length (ys @ zs) \<le> 1"
    using assms by (cases ys; cases zs) auto
  ultimately show ?thesis
    using assms(1) by (simp add: tree_hash.simps [of H "ys @ zs"])
qed

definition leaf_hash :: "hasher \<Rightarrow> byte list \<Rightarrow> hash_value" where
  "leaf_hash H b = H ([0] @ b)"

section \<open>Chunks\<close>

lemma chunks_le: "length xs \<le> n \<Longrightarrow> chunks n xs = [xs]"
  by (simp add: chunks.simps)

lemma chunks_append_one:
  "0 < n \<Longrightarrow> length a = n \<Longrightarrow> b \<noteq> [] \<Longrightarrow> chunks n (a @ b) = a # chunks n b"
  by (simp add: chunks.simps [of n "a @ b"])

lemma chunks_append:
  "0 < n \<Longrightarrow> n dvd length a \<Longrightarrow> a \<noteq> [] \<Longrightarrow> b \<noteq> [] \<Longrightarrow> chunks n (a @ b) = chunks n a @ chunks n b"
proof (induction n a rule: chunks.induct)
  case (1 n a)
  show ?case
  proof (cases "length a \<le> n")
    case True
    with 1(3,4) have "length a = n" by (auto dest: dvd_imp_le)
    with 1 show ?thesis by (simp add: chunks_append_one chunks_le)
  next
    case False
    with 1 have "chunks n (drop n a @ b) = chunks n (drop n a) @ chunks n b"
      by (intro 1(1)) auto
    moreover have "chunks n (a @ b) = take n a # chunks n (drop n a @ b)"
      using 1(2,5) False chunks_append_one [of n "take n a" "drop n a @ b"]
      by (simp del: append_assoc add: append_assoc [symmetric])
    ultimately show ?thesis
      using False 1(2) by (simp add: chunks.simps [of n a])
  qed
qed

lemma chunks_concat:
  "0 < n \<Longrightarrow> (\<And>g. g \<in> set gs \<Longrightarrow> length g = n) \<Longrightarrow> rest \<noteq> [] \<Longrightarrow> length rest \<le> n
   \<Longrightarrow> chunks n (concat gs @ rest) = gs @ [rest]"
proof (induction gs)
  case Nil
  then show ?case by (simp add: chunks_le)
next
  case (Cons g gs)
  then show ?case by (simp add: chunks_append_one)
qed

lemma ceil_div_mult: "0 < n \<Longrightarrow> (m * n + n - 1) div n = (m :: nat)"
  by (rule div_nat_eqI) (cases n; simp add: algebra_simps)+

lemma length_chunks: "0 < n \<Longrightarrow> xs \<noteq> [] \<Longrightarrow> length (chunks n xs) = (length xs + n - 1) div n"
proof (induction n xs rule: chunks.induct)
  case (1 n xs)
  show ?case
  proof (cases "length xs \<le> n")
    case True
    have "(length xs + n - 1) div n = 1"
    proof (rule div_nat_eqI)
      show "n * 1 \<le> length xs + n - 1" "length xs + n - 1 < n * Suc 1"
        using 1(2,3) True by (cases xs; simp)+
    qed
    with True show ?thesis by (simp add: chunks_le)
  next
    case False
    then obtain m where m: "length xs = n + Suc m"
      by (metis add_Suc_right less_imp_Suc_add not_le)
    have "length (chunks n (drop n xs)) = (Suc m + n - 1) div n"
      using 1 False m by simp
    moreover have "(length xs + n - 1) div n = Suc ((Suc m + n - 1) div n)"
    proof -
      have "length xs + n - 1 = n + (Suc m + n - 1)" using m by simp
      then show ?thesis using 1(2) by (simp only: div_add_self1)
    qed
    ultimately show ?thesis
      using False 1(2) by (simp add: chunks.simps [of n xs])
  qed
qed


section \<open>The stack of blocks\<close>

text \<open>
  \<open>block_stack H base L k st xs\<close>: the entries of \<open>st\<close>, from the top, are tree hashes of groups of
  \<open>2 ^ j\<close> leaves with \<open>k \<le> j < L\<close> strictly growing; the groups make up \<open>xs\<close> from the bottom.
\<close>

inductive block_stack ::
  "hasher \<Rightarrow> nat \<Rightarrow> nat \<Rightarrow> nat \<Rightarrow> (hash_value \<times> int) list \<Rightarrow> hash_value list \<Rightarrow> bool"
  for H base L where
  empty: "block_stack H base L k [] []"
| push: "block_stack H base L (Suc j) st ys \<Longrightarrow> k \<le> j \<Longrightarrow> j < L \<Longrightarrow> length zs = 2 ^ j
    \<Longrightarrow> block_stack H base L k ((tree_hash H zs, int base * 2 ^ j) # st) (ys @ zs)"

inductive_cases block_stack_NilE: "block_stack H base L k [] xs"
inductive_cases block_stack_ConsE: "block_stack H base L k (e # st) xs"

lemma block_stack_mono: "block_stack H base L k st xs \<Longrightarrow> k' \<le> k \<Longrightarrow> block_stack H base L k' st xs"
  by (induction rule: block_stack.induct) (auto intro: block_stack.intros)

lemma block_stack_full: "block_stack H base L L st xs \<Longrightarrow> st = [] \<and> xs = []"
  by (cases st) (auto elim: block_stack_NilE block_stack_ConsE)

lemma block_stack_length: "block_stack H base L k st xs \<Longrightarrow> k \<le> L \<Longrightarrow> length xs + 2 ^ k \<le> 2 ^ L"
proof (induction rule: block_stack.induct)
  case (empty k)
  then show ?case by (simp add: power_increasing)
next
  case (push j st ys k zs)
  have "length (ys @ zs) + 2 ^ k \<le> length ys + 2 ^ j + 2 ^ j"
    using push by (simp add: power_increasing)
  also have "\<dots> = length ys + 2 ^ Suc j" by simp
  also have "\<dots> \<le> 2 ^ L" using push by simp
  finally show ?case .
qed

lemma reduceBlocks_stack:
  assumes "0 < base"
  shows "block_stack H base L j st ys \<Longrightarrow> j < L \<Longrightarrow> length zs = 2 ^ j \<Longrightarrow>
    (if length (ys @ zs) = 2 ^ L
     then reduceBlocks H (int base * 2 ^ L) ((tree_hash H zs, int base * 2 ^ j) # st) lv
        = ([], lv @ [tree_hash H (ys @ zs)])
     else \<exists>st'. reduceBlocks H (int base * 2 ^ L) ((tree_hash H zs, int base * 2 ^ j) # st) lv
        = (st', lv) \<and> block_stack H base L j st' (ys @ zs))"
proof (induction st arbitrary: j ys zs)
  case Nil
  then have ys: "ys = []" by (auto elim: block_stack_NilE)
  have "(2::nat) ^ j \<noteq> 2 ^ L" using Nil(2) by simp
  moreover have "block_stack H base L j [(tree_hash H zs, int base * 2 ^ j)] ([] @ zs)"
    using Nil by (intro block_stack.push block_stack.empty) auto
  ultimately show ?case using Nil ys by simp
next
  case (Cons e st)
  from Cons.prems(1) obtain i ys' zs' where e: "e = (tree_hash H zs', int base * 2 ^ i)"
    and ys: "ys = ys' @ zs'" and st: "block_stack H base L (Suc i) st ys'"
    and i: "j \<le> i" "i < L" "length zs' = 2 ^ i"
    by (auto elim!: block_stack_ConsE)
  show ?case
  proof (cases "i = j")
    case False
    have len: "length ys + 2 ^ i \<le> 2 ^ L"
    proof -
      have "length ys' + 2 ^ Suc i \<le> 2 ^ L"
        using block_stack_length [OF st] i by simp
      then show ?thesis using ys i by simp
    qed
    have "(2::nat) ^ j < 2 ^ i" using False i by simp
    with len have "length ys + 2 ^ j < 2 ^ L" by linarith
    then have "length (ys @ zs) \<noteq> 2 ^ L" using Cons.prems by simp
    moreover have "block_stack H base L (Suc j) (e # st) ys"
      unfolding e ys using st i False by (intro block_stack.push) auto
    then have "block_stack H base L j ((tree_hash H zs, int base * 2 ^ j) # e # st) (ys @ zs)"
      using Cons.prems by (intro block_stack.push) auto
    moreover have "int base * 2 ^ i \<noteq> int base * 2 ^ j" using False assms by simp
    ultimately show ?thesis unfolding e by (simp del: mult_cancel_left)
  next
    case True
    have comb: "combine H (tree_hash H zs') (tree_hash H zs) = tree_hash H (zs' @ zs)"
      using tree_hash_append [of zs' j zs H] Cons.prems True i by (cases zs) auto
    have dbl: "int base * 2 ^ j * 2 = int base * 2 ^ Suc j" by simp
    show ?thesis
    proof (cases "Suc j = L")
      case full: True
      then have "st = [] \<and> ys' = []"
        using block_stack_full st True by metis
      then show ?thesis
        unfolding e ys using True full comb Cons.prems i dbl by auto
    next
      case notfull: False
      have "(2::int) ^ Suc j \<noteq> 2 ^ L" using notfull by (simp del: power_Suc)
      then have "int base * 2 ^ Suc j \<noteq> int base * 2 ^ L" using assms by (simp del: power_Suc)
      then have step: "reduceBlocks H (int base * 2 ^ L)
          ((tree_hash H zs, int base * 2 ^ j) # e # st) lv
        = reduceBlocks H (int base * 2 ^ L)
          ((tree_hash H (zs' @ zs), int base * 2 ^ Suc j) # st) lv"
        unfolding e True by (simp only: reduceBlocks.simps refl if_True if_False dbl comb)
      have len: "length (zs' @ zs) = 2 ^ Suc j" using Cons.prems i True by simp
      have "block_stack H base L (Suc j) st ys'" using st True by simp
      from Cons.IH [OF this _ len] notfull Cons.prems(2)
      have "if length (ys' @ zs' @ zs) = 2 ^ L
        then reduceBlocks H (int base * 2 ^ L) ((tree_hash H (zs' @ zs), int base * 2 ^ Suc j) # st) lv
          = ([], lv @ [tree_hash H (ys' @ zs' @ zs)])
        else \<exists>st'. reduceBlocks H (int base * 2 ^ L)
            ((tree_hash H (zs' @ zs), int base * 2 ^ Suc j) # st) lv = (st', lv)
          \<and> block_stack H base L (Suc j) st' (ys' @ zs' @ zs)" by simp
      then show ?thesis
        unfolding step ys
        by (auto split: if_splits intro: block_stack_mono [where k = "Suc j" and k' = j, simplified])
    qed
  qed
qed

lemma fold_blocks_stack:
  "block_stack H base L k st ys \<Longrightarrow> zs \<noteq> [] \<Longrightarrow> length zs \<le> 2 ^ k \<Longrightarrow>
   \<exists>n. fold_blocks H ((tree_hash H zs, m) # st) = [(tree_hash H (ys @ zs), n)]"
proof (induction st arbitrary: k ys zs m)
  case Nil
  then show ?case by (auto elim: block_stack_NilE)
next
  case (Cons e st)
  from Cons.prems(1) obtain i ys' zs' where e: "e = (tree_hash H zs', int base * 2 ^ i)"
    and ys: "ys = ys' @ zs'" and st: "block_stack H base L (Suc i) st ys'"
    and i: "k \<le> i" "i < L" "length zs' = 2 ^ i"
    by (auto elim!: block_stack_ConsE)
  have le: "length zs \<le> 2 ^ i" using Cons.prems(3) i(1) by (meson le_trans one_le_numeral power_increasing)
  have "combine H (tree_hash H zs') (tree_hash H zs) = tree_hash H (zs' @ zs)"
    using tree_hash_append [OF i(3) Cons.prems(2) le] by simp
  moreover have "\<exists>n. fold_blocks H ((tree_hash H (zs' @ zs), int base * 2 ^ i) # st)
      = [(tree_hash H (ys' @ zs' @ zs), n)]"
    using Cons.IH [OF st, of "zs' @ zs"] Cons.prems(2) le i by simp
  ultimately show ?case unfolding e ys by simp
qed


section \<open>The invariant of a tree under construction\<close>

text \<open>
  \<open>merkle_inv H base L pre t xs\<close>: \<open>t\<close> started with the leaves \<open>pre\<close> and has consumed base blocks
  with the hashes \<open>xs\<close>; its further leaves are the hashes of the complete groups of \<open>2 ^ L\<close> of them, its stack holds the rest.
\<close>

definition merkle_inv ::
  "hasher \<Rightarrow> nat \<Rightarrow> nat \<Rightarrow> hash_value list \<Rightarrow> merkle_tree \<Rightarrow> hash_value list \<Rightarrow> bool" where
  "merkle_inv H base L pre t xs \<longleftrightarrow>
     mt_blockSize t = int base * 2 ^ L \<and>
     (\<exists>gs rest. xs = concat gs @ rest \<and> (\<forall>g\<in>set gs. length g = 2 ^ L)
        \<and> mt_leaves t = pre @ map (tree_hash H) gs \<and> block_stack H base L 0 (mt_blocks t) rest)"

lemma merkle_invI:
  "mt_blockSize t = int base * 2 ^ L \<Longrightarrow> xs = concat gs @ rest \<Longrightarrow>
   (\<And>g. g \<in> set gs \<Longrightarrow> length g = 2 ^ L) \<Longrightarrow> mt_leaves t = pre @ map (tree_hash H) gs \<Longrightarrow>
   block_stack H base L 0 (mt_blocks t) rest \<Longrightarrow> merkle_inv H base L pre t xs"
  unfolding merkle_inv_def by blast

lemma merkle_inv_new: "merkle_inv H base L pre 
    (merkle_new g (int base * 2 ^ L)\<lparr>mt_leaves := pre, mt_fileSize := n\<rparr>) []"
  by (rule merkle_invI [of _ _ _ _ "[]" "[]"]) (simp_all add: merkle_new_def block_stack.empty)

lemma merkle_inv_add:
  assumes "0 < base" and inv: "merkle_inv H base L pre t xs"
  shows "merkle_inv H base L pre (merkle_add_block H base t b) (xs @ [leaf_hash H b])"
proof -
  from inv obtain gs rest where bs: "mt_blockSize t = int base * 2 ^ L"
    and xs: "xs = concat gs @ rest" and gs: "\<forall>g\<in>set gs. length g = 2 ^ L"
    and lv: "mt_leaves t = pre @ map (tree_hash H) gs" and st: "block_stack H base L 0 (mt_blocks t) rest"
    by (auto simp: merkle_inv_def)
  let ?x = "leaf_hash H b"
  show ?thesis
  proof (cases "L = 0")
    case True
    with st have "mt_blocks t = []" "rest = []" using block_stack_full by auto
    then show ?thesis
      using True bs xs gs lv
      by (intro merkle_invI [of _ _ _ _ "gs @ [[?x]]" "[]"])
        (auto simp: merkle_add_block_def leaf_hash_def block_stack.empty)
  next
    case False
    then have less: "int base < int base * 2 ^ L" using assms(1) by simp
    have red: "if length (rest @ [?x]) = 2 ^ L
     then reduceBlocks H (mt_blockSize t) ((?x, int base) # mt_blocks t) (mt_leaves t)
        = ([], mt_leaves t @ [tree_hash H (rest @ [?x])])
     else \<exists>st'. reduceBlocks H (mt_blockSize t) ((?x, int base) # mt_blocks t) (mt_leaves t)
        = (st', mt_leaves t) \<and> block_stack H base L 0 st' (rest @ [?x])"
      using reduceBlocks_stack [OF assms(1) st, of "[?x]" "mt_leaves t"] False
      by (simp add: bs cong: if_cong)
    show ?thesis
    proof (cases "length (rest @ [?x]) = 2 ^ L")
      case True
      then have "mt_blocks (merkle_add_block H base t b) = []"
        "mt_leaves (merkle_add_block H base t b) = pre @ map (tree_hash H) (gs @ [rest @ [?x]])"
        "mt_blockSize (merkle_add_block H base t b) = int base * 2 ^ L"
        using red less bs lv by (simp_all add: merkle_add_block_def leaf_hash_def)
      then show ?thesis
        using True gs xs
        by (intro merkle_invI [of _ _ _ _ "gs @ [rest @ [?x]]" "[]"]) (auto simp: block_stack.empty)
    next
      case False
      with red obtain st' where st': "reduceBlocks H (mt_blockSize t) ((?x, int base) # mt_blocks t)
          (mt_leaves t) = (st', mt_leaves t)" "block_stack H base L 0 st' (rest @ [?x])" by auto
      then have "mt_blocks (merkle_add_block H base t b) = st'"
        "mt_leaves (merkle_add_block H base t b) = pre @ map (tree_hash H) gs"
        "mt_blockSize (merkle_add_block H base t b) = int base * 2 ^ L"
        using less bs lv by (simp_all add: merkle_add_block_def leaf_hash_def)
      then show ?thesis
        using st' gs xs by (intro merkle_invI [of _ _ _ _ gs "rest @ [?x]"]) auto
    qed
  qed
qed

lemma mt_fileSize_add [simp]: "mt_fileSize (merkle_add_block H base t b) = mt_fileSize t"
  by (simp add: merkle_add_block_def Let_def split: prod.split)

lemma merkle_inv_loop:
  "0 < base \<Longrightarrow> merkle_inv H base L pre t xs \<Longrightarrow>
   merkle_inv H base L pre (merkle_update_loop H base t data) (xs @ map (leaf_hash H) (chunks base data))
   \<and> mt_fileSize (merkle_update_loop H base t data) = mt_fileSize t"
proof (induction H base t data arbitrary: xs rule: merkle_update_loop.induct)
  case (1 H base t data)
  let ?t = "merkle_add_block H base t (take (min base (length data)) data)"
  have "take (min base (length data)) data = take base data" by (simp add: min_def)
  then have inv: "merkle_inv H base L pre ?t (xs @ [leaf_hash H (take base data)])"
    using merkle_inv_add [OF 1(2,3), of "take base data"] by simp
  show ?case
  proof (cases "length data \<le> base")
    case True
    then show ?thesis
      using inv by (simp add: merkle_update_loop.simps [of H base t data] Let_def chunks_le)
  next
    case False
    then have "merkle_inv H base L pre (merkle_update_loop H base ?t (drop base data))
        ((xs @ [leaf_hash H (take base data)]) @ map (leaf_hash H) (chunks base (drop base data)))
      \<and> mt_fileSize (merkle_update_loop H base ?t (drop base data)) = mt_fileSize ?t"
      using 1(2) inv by (intro 1(1)) (auto simp: min_def)
    then show ?thesis
      using False 1(2)
      by (simp add: merkle_update_loop.simps [of H base t data] Let_def min_def
          chunks.simps [of base data])
  qed
qed

lemma merkle_inv_nonempty:
  "merkle_inv H base L pre t xs \<Longrightarrow> (mt_leaves t = [] \<and> mt_blocks t = []) = (pre = [] \<and> xs = [])"
proof -
  assume "merkle_inv H base L pre t xs"
  then obtain gs rest where xs: "xs = concat gs @ rest" and gs: "\<forall>g\<in>set gs. length g = 2 ^ L"
    and lv: "mt_leaves t = pre @ map (tree_hash H) gs" and st: "block_stack H base L 0 (mt_blocks t) rest"
    by (auto simp: merkle_inv_def)
  from st have "mt_blocks t = [] \<longleftrightarrow> rest = []"
    by cases auto
  moreover have "gs = [] \<longleftrightarrow> concat gs = []"
    using gs by (cases gs) auto
  ultimately show ?thesis using xs lv by auto
qed


lemma merkle_inv_update:
  assumes "0 < base" and "merkle_inv H base L pre t xs" and "data \<noteq> []"
  shows "merkle_inv H base L pre (merkle_update H base t data) (xs @ map (leaf_hash H) (chunks base data))
    \<and> mt_fileSize (merkle_update H base t data) = mt_fileSize t + int (length data)"
  using merkle_inv_loop [OF assms(1,2), of data] assms(3)
  by (simp add: merkle_update_def Let_def merkle_inv_def)

text \<open>The base blocks of a sequence of updates: all but the last consist of whole blocks.\<close>

fun whole_blocks :: "nat \<Rightarrow> byte list list \<Rightarrow> bool" where
  "whole_blocks base [] = True"
| "whole_blocks base [d] = (d \<noteq> [])"
| "whole_blocks base (d # ds) = (d \<noteq> [] \<and> base dvd length d \<and> whole_blocks base ds)"

lemma whole_blocks_Cons:
  "ds \<noteq> [] \<Longrightarrow> whole_blocks base (d # ds) = (d \<noteq> [] \<and> base dvd length d \<and> whole_blocks base ds)"
  by (cases ds) auto

lemma whole_blocks_concat: "whole_blocks base ds \<Longrightarrow> ds \<noteq> [] \<Longrightarrow> concat ds \<noteq> []"
  by (cases ds; cases "tl ds") auto

lemma merkle_inv_updates:
  assumes "0 < base"
  shows "merkle_inv H base L pre t xs \<Longrightarrow> whole_blocks base ds \<Longrightarrow> ds \<noteq> [] \<Longrightarrow>
    merkle_inv H base L pre (foldl (merkle_update H base) t ds)
      (xs @ map (leaf_hash H) (chunks base (concat ds)))
    \<and> mt_fileSize (foldl (merkle_update H base) t ds) = mt_fileSize t + int (length (concat ds))"
proof (induction ds arbitrary: t xs)
  case (Cons d ds)
  show ?case
  proof (cases "ds = []")
    case True
    then show ?thesis using merkle_inv_update [OF assms Cons.prems(1), of d] Cons.prems by simp
  next
    case False
    with Cons.prems have d: "d \<noteq> []" "base dvd length d" "whole_blocks base ds"
      by (auto simp: whole_blocks_Cons)
    then have "chunks base (d @ concat ds) = chunks base d @ chunks base (concat ds)"
      using assms False whole_blocks_concat by (intro chunks_append) auto
    then show ?thesis
      using Cons.IH [of "merkle_update H base t d" "xs @ map (leaf_hash H) (chunks base d)"]
        merkle_inv_update [OF assms Cons.prems(1) d(1)] d False by simp
  qed
qed simp

section \<open>Finishing\<close>

lemma chunks_groups:
  assumes "0 < n" and "\<forall>g\<in>set gs. length g = n" and "length rest < n" and "gs \<noteq> [] \<or> rest \<noteq> []"
  shows "chunks n (concat gs @ rest) = gs @ (if rest = [] then [] else [rest])"
proof (cases "rest = []")
  case True
  with assms(4) obtain hs g where gs: "gs = hs @ [g]" by (meson rev_exhaust)
  with assms have "chunks n (concat hs @ g) = hs @ [g]"
    by (intro chunks_concat) auto
  then show ?thesis using True gs by simp
next
  case False
  then show ?thesis using assms by (simp add: chunks_concat)
qed

text \<open>The leaves of a finished tree are the hashes of its groups of \<open>2 ^ L\<close> base blocks.\<close>

lemma merkle_inv_finish_leaves:
  assumes inv: "merkle_inv H base L pre t xs" and "xs \<noteq> []"
  shows "merkle_finalize H base t =
    calcRoot H (t\<lparr>mt_blocks := fold_blocks H (mt_blocks t),
      mt_leaves := pre @ map (tree_hash H) (chunks (2 ^ L) xs)\<rparr>)"
proof -
  from inv obtain gs rest where xs: "xs = concat gs @ rest" and gs: "\<forall>g\<in>set gs. length g = 2 ^ L"
    and lv: "mt_leaves t = pre @ map (tree_hash H) gs" and st: "block_stack H base L 0 (mt_blocks t) rest"
    by (auto simp: merkle_inv_def)
  have len: "length rest < 2 ^ L" using block_stack_length [OF st] by simp
  have ch: "chunks (2 ^ L) xs = gs @ (if rest = [] then [] else [rest])"
  proof -
    have "gs \<noteq> [] \<or> rest \<noteq> []" using assms(2) xs by auto
    from chunks_groups [OF _ gs len this] show ?thesis unfolding xs by simp
  qed
  have ne: "\<not> (mt_leaves t = [] \<and> mt_blocks t = [])"
    using merkle_inv_nonempty [OF inv] assms(2) by simp
  show ?thesis
  proof (cases "mt_blocks t")
    case Nil
    with st have "rest = []" by (auto elim: block_stack_NilE)
    then have same: "t\<lparr>mt_blocks := fold_blocks H (mt_blocks t),
        mt_leaves := pre @ map (tree_hash H) (chunks (2 ^ L) xs)\<rparr> = t"
      using Nil lv ch by simp
    have "mt_leaves t \<noteq> []" using ne Nil by simp
    then have "merkle_finalize H base t = calcRoot H (t\<lparr>mt_blocks := []\<rparr>)"
      using Nil by (simp add: merkle_finalize_def Let_def)
    also have "t\<lparr>mt_blocks := []\<rparr> = t" using Nil by simp
    finally show ?thesis by (simp only: same)
  next
    case (Cons e bs)
    from st [unfolded Cons] obtain j ys zs where e: "e = (tree_hash H zs, int base * 2 ^ j)"
      and r: "rest = ys @ zs" "block_stack H base L (Suc j) bs ys" "length zs = 2 ^ j"
      by (auto elim!: block_stack_ConsE)
    have "zs \<noteq> []" "length zs \<le> 2 ^ Suc j" using r(3) by auto
    from fold_blocks_stack [OF r(2) this] obtain n
      where f: "fold_blocks H (mt_blocks t) = [(tree_hash H rest, n)]"
      unfolding Cons e r(1) by blast
    have "rest \<noteq> []" "mt_blocks t \<noteq> []" using r Cons by auto
    then show ?thesis using f ch lv by (simp add: merkle_finalize_def Let_def)
  qed
qed


lemma tree_hash_chunks:
  "xs \<noteq> [] \<Longrightarrow> tree_hash H (map (tree_hash H) (chunks (2 ^ L) xs)) = tree_hash H xs"
proof (induction "length xs" arbitrary: xs rule: less_induct)
  case less
  show ?case
  proof (cases "length xs \<le> 2 ^ L")
    case True
    then show ?thesis by (simp add: chunks_le)
  next
    case False
    moreover have "(1::nat) \<le> 2 ^ L" by simp
    ultimately have "1 < length xs" by linarith
    then obtain k where k: "2 ^ k < length xs" "length xs \<le> 2 ^ Suc k"
      using pow2_below_ex by blast
    have Lk: "L \<le> k"
    proof (rule ccontr)
      assume "\<not> L \<le> k"
      then have "(2::nat) ^ Suc k \<le> 2 ^ L" by (intro power_increasing) auto
      with False k show False by simp
    qed
    let ?ys = "take (2 ^ k) xs" and ?zs = "drop (2 ^ k) xs"
    have len: "length ?ys = 2 ^ k" "?zs \<noteq> []" "length ?zs \<le> 2 ^ k" "?ys \<noteq> []"
      using k by auto
    have split: "(2::nat) ^ k = 2 ^ (k - L) * 2 ^ L"
      using Lk by (metis le_add_diff_inverse2 power_add)
    then have "chunks (2 ^ L) (?ys @ ?zs) = chunks (2 ^ L) ?ys @ chunks (2 ^ L) ?zs"
      using len by (intro chunks_append) auto
    moreover have "length (chunks (2 ^ L) ?ys) = 2 ^ (k - L)"
      using len by (simp add: length_chunks split ceil_div_mult del: One_nat_def)
    moreover have "chunks (2 ^ L) ?zs \<noteq> []" by (simp add: chunks.simps [of _ ?zs])
    moreover have "length (chunks (2 ^ L) ?zs) \<le> 2 ^ (k - L)"
    proof -
      have "length ?zs + 2 ^ L - 1 \<le> 2 ^ k + 2 ^ L - 1" using len by simp
      then have "(length ?zs + 2 ^ L - 1) div 2 ^ L \<le> (2 ^ k + 2 ^ L - 1) div 2 ^ L"
        by (rule div_le_mono)
      then have "length (chunks (2 ^ L) ?zs) \<le> (2 ^ k + 2 ^ L - 1) div 2 ^ L"
        using length_chunks [of "2 ^ L" ?zs] len(2) by simp
      then show ?thesis by (simp add: split ceil_div_mult del: One_nat_def)
    qed
    ultimately have "tree_hash H (map (tree_hash H) (chunks (2 ^ L) (?ys @ ?zs)))
      = combine H (tree_hash H (map (tree_hash H) (chunks (2 ^ L) ?ys)))
          (tree_hash H (map (tree_hash H) (chunks (2 ^ L) ?zs)))"
      using tree_hash_append [of "map (tree_hash H) (chunks (2 ^ L) ?ys)" "k - L"
          "map (tree_hash H) (chunks (2 ^ L) ?zs)" H] by simp
    also have "\<dots> = combine H (tree_hash H ?ys) (tree_hash H ?zs)"
      using less(1) [of ?ys] less(1) [of ?zs] len k by (simp del: take_eq_Nil drop_eq_Nil)
    also have "\<dots> = tree_hash H (?ys @ ?zs)"
      using tree_hash_append [OF len(1-3)] by simp
    finally show ?thesis by simp
  qed
qed

lemma getHash_split_eq:
  "l * 2 ^ j < n \<Longrightarrow> n \<le> l * 2 ^ Suc j \<Longrightarrow> 0 < l \<Longrightarrow> getHash_split l n = l * 2 ^ j"
proof (induction j arbitrary: l)
  case 0
  then show ?case by (simp add: getHash_split.simps [of l n])
next
  case (Suc j)
  have "(1::int) \<le> 2 ^ j" by simp
  then have "l * 2 * 1 \<le> l * 2 * 2 ^ j" using Suc.prems(3) by (intro mult_left_mono) auto
  then have "l * 2 < n" using Suc.prems(1) by simp
  then have "getHash_split l n = getHash_split (l * 2) n"
    using Suc.prems(3) by (simp add: getHash_split.simps [of l n])
  also have "\<dots> = l * 2 * 2 ^ j"
    using Suc.prems by (intro Suc.IH) (simp_all add: ac_simps)
  finally show ?case by simp
qed

lemma getHash_tree:
  assumes bs: "0 < bs" and big: "length leaves \<le> 2 ^ 32"
  shows "0 < n \<Longrightarrow> s + n \<le> length leaves \<Longrightarrow> n = 1 \<or> (int n - 1) * bs < len \<Longrightarrow>
    len \<le> int n * bs \<Longrightarrow>
    getHash H leaves bs (int s * bs) len = Some (tree_hash H (take n (drop s leaves)))"
proof (induction n arbitrary: s len rule: less_induct)
  case (less n)
  show ?case
  proof (cases "n = 1")
    case True
    have "(int s * bs) sdiv bs = int s"
      using bs by (auto simp: signed_divide_int_def sgn_mult)
    moreover have "int s < 2 ^ 32" using less.prems(2) big True by simp
    ultimately have "unat (word_of_int ((int s * bs) sdiv bs) :: 32 word) = s"
      by (simp add: unsigned_of_nat take_bit_nat_eq_self)
    moreover have "take 1 (drop s leaves) = [leaves ! s]"
      using less.prems(2) True by (simp add: take_Suc hd_drop_conv_nth)
    ultimately show ?thesis
      using True less.prems by (simp add: getHash.simps [of H leaves bs "int s * bs" len])
  next
    case False
    then obtain j where j: "2 ^ j < n" "n \<le> 2 ^ Suc j"
      using pow2_below_ex [of n] less.prems(1) by auto
    let ?k = "2 ^ j :: nat"
    have lt: "(int n - 1) * bs < len" using False less.prems(3) by simp
    have "int ?k * bs \<le> (int n - 1) * bs" using j(1) bs by (intro mult_right_mono) linarith+
    with lt have l1: "bs * 2 ^ j < len" by (simp add: mult.commute)
    have "int n * bs \<le> int (2 ^ Suc j) * bs" using j(2) bs by (intro mult_right_mono) linarith+
    then have l2: "len \<le> bs * 2 ^ Suc j" using less.prems(4) by (simp add: mult.commute)
    have split: "getHash_split bs len = bs * 2 ^ j" by (rule getHash_split_eq [OF l1 l2 bs])
    have "bs * 1 \<le> bs * 2 ^ j" using bs by (intro mult_left_mono) auto
    with l1 have ge: "\<not> len \<le> bs" by simp
    have left: "getHash H leaves bs (int s * bs) (bs * 2 ^ j)
        = Some (tree_hash H (take ?k (drop s leaves)))"
    proof (rule less.IH [OF j(1)])
      show "?k = 1 \<or> (int ?k - 1) * bs < bs * 2 ^ j" using bs by (simp add: algebra_simps)
    qed (use j less.prems in \<open>simp_all add: mult.commute\<close>)
    have right: "getHash H leaves bs (int (s + ?k) * bs) (len - bs * 2 ^ j)
        = Some (tree_hash H (take (n - ?k) (drop (s + ?k) leaves)))"
      using j less.prems lt by (intro less.IH) (simp_all add: of_nat_diff algebra_simps)
    have start: "int s * bs + bs * 2 ^ j = int (s + ?k) * bs" by (simp add: algebra_simps)
    have "getHash H leaves bs (int s * bs) len
      = Some (combine H (tree_hash H (take ?k (drop s leaves)))
          (tree_hash H (take (n - ?k) (drop (s + ?k) leaves))))"
      using ge bs by (simp add: getHash.simps [of H leaves bs "int s * bs" len] Let_def
          split left start right del: of_nat_add)
    also have "\<dots> = Some (tree_hash H (take ?k (drop s leaves) @ take (n - ?k) (drop (s + ?k) leaves)))"
      using tree_hash_append [of "take ?k (drop s leaves)" j
          "take (n - ?k) (drop (s + ?k) leaves)" H] j less.prems by simp
    also have "take ?k (drop s leaves) @ take (n - ?k) (drop (s + ?k) leaves) = take n (drop s leaves)"
    proof -
      have "take (?k + (n - ?k)) (drop s leaves)
          = take ?k (drop s leaves) @ take (n - ?k) (drop ?k (drop s leaves))"
        by (rule take_add)
      then show ?thesis using j(1) by (simp add: add.commute)
    qed
    finally show ?thesis .
  qed
qed


lemma chunks_bounds:
  assumes "0 < n" and "xs \<noteq> []"
  shows "(length (chunks n xs) - 1) * n < length xs \<and> length xs \<le> length (chunks n xs) * n"
proof -
  let ?q = "(length xs - 1) div n"
  have pos: "0 < length xs" using assms(2) by simp
  have "length xs + n - 1 = n + (length xs - 1)" using pos by linarith
  then have q: "length (chunks n xs) = Suc ?q"
    using assms(1) unfolding length_chunks [OF assms] by (simp only: div_add_self1)
  have "?q * n \<le> length xs - 1" by simp
  moreover have "length xs - 1 < Suc ?q * n"
    using assms(1) dividend_less_div_times [of n "length xs - 1"] by simp
  moreover obtain m where "length xs = Suc m" using pos gr0_conv_Suc by blast
  ultimately show ?thesis using q by (simp add: less_Suc_eq_le)
qed

lemma merkle_inv_finish:
  assumes "0 < base" and inv: "merkle_inv H base L [] t (map (leaf_hash H) (chunks base data))"
    and size: "mt_fileSize t = int (length data)"
    and small: "length data \<le> base * 2 ^ L * 2 ^ 32"
  shows "merkle_finalize H base t =
    Some (t\<lparr>mt_blocks := fold_blocks H (mt_blocks t),
      mt_leaves := map (tree_hash H) (chunks (2 ^ L) (map (leaf_hash H) (chunks base data))),
      mt_root := tree_hash H (map (leaf_hash H) (chunks base data))\<rparr>)"
proof -
  let ?xs = "map (leaf_hash H) (chunks base data)"
  let ?leaves = "map (tree_hash H) (chunks (2 ^ L) ?xs)"
  let ?n = "length ?leaves" and ?bs = "int base * 2 ^ L"
  have xs: "?xs \<noteq> []" by (simp add: chunks.simps [of base data])
  have n: "0 < ?n" by (simp add: chunks.simps [of "2 ^ L" ?xs])
  have bounds: "(?n = 1 \<or> (int ?n - 1) * ?bs < int (length data)) \<and> int (length data) \<le> int ?n * ?bs"
  proof (cases "data = []")
    case True
    then show ?thesis by (simp add: chunks_le)
  next
    case False
    let ?m = "length ?xs"
    have m: "(?m - 1) * base < length data" "length data \<le> ?m * base"
      using chunks_bounds [OF assms(1) False] by simp_all
    have n2: "(?n - 1) * 2 ^ L < ?m" "?m \<le> ?n * 2 ^ L"
      using chunks_bounds [of "2 ^ L" ?xs] xs by simp_all
    have "(?n - 1) * 2 ^ L * base \<le> (?m - 1) * base"
      using n2(1) by (intro mult_right_mono) auto
    with m(1) have "(?n - 1) * 2 ^ L * base < length data" by linarith
    then have "int ((?n - 1) * 2 ^ L * base) < int (length data)" by (simp only: of_nat_less_iff)
    moreover have "int (?n - 1) = int ?n - 1" using n by linarith
    ultimately have "(int ?n - 1) * ?bs < int (length data)" by (simp only: of_nat_mult of_nat_power
        of_nat_numeral ac_simps)
    moreover have "?m * base \<le> ?n * 2 ^ L * base" using n2(2) by (intro mult_right_mono) auto
    with m(2) have "length data \<le> ?n * 2 ^ L * base" by linarith
    then have "int (length data) \<le> int (?n * 2 ^ L * base)" by (simp only: of_nat_le_iff)
    then have "int (length data) \<le> int ?n * ?bs" by (simp add: ac_simps)
    ultimately show ?thesis by blast
  qed
  have big: "?n \<le> 2 ^ 32"
  proof (cases "?n = 1")
    case False
    have "int (length data) \<le> int (base * 2 ^ L * 2 ^ 32)" using small by (simp only: of_nat_le_iff)
    with bounds False have "(int ?n - 1) * ?bs < 2 ^ 32 * ?bs" by (simp add: ac_simps)
    then have "int ?n - 1 < 2 ^ 32" by (rule mult_right_less_imp_less) simp
    then have "int ?n \<le> int (2 ^ 32)" by simp
    then show ?thesis by (simp only: of_nat_le_iff)
  qed simp
  have "getHash H ?leaves ?bs (int 0 * ?bs) (int (length data))
      = Some (tree_hash H (take ?n (drop 0 ?leaves)))"
    by (rule getHash_tree) (use assms(1) n bounds big in simp_all)
  then have "getHash H ?leaves ?bs 0 (int (length data)) = Some (tree_hash H ?xs)"
    using tree_hash_chunks [OF xs] by simp
  then show ?thesis
    using merkle_inv_finish_leaves [OF inv xs] inv size
    by (simp add: calcRoot_def merkle_inv_def)
qed

lemma merkle_finish_new:
  assumes "0 < base" and "mt_leaves t = []" and "mt_blocks t = []"
  shows "merkle_finalize H base t = merkle_finalize H base (merkle_update H base t [])"
proof -
  let ?t = "merkle_update H base t []"
  have "\<not> (mt_leaves ?t = [] \<and> mt_blocks ?t = [])"
    using assms by (simp add: merkle_update_def merkle_update_loop.simps merkle_add_block_def Let_def)
  then show ?thesis
    unfolding merkle_finalize_def using assms(2,3) by (simp only: if_True if_False simp_thms)
qed

lemma merkle_build:
  assumes "0 < base" and "whole_blocks base ds"
    and "length (concat ds) \<le> base * 2 ^ L * 2 ^ 32"
  shows "\<exists>t. merkle_finalize H base
      (foldl (merkle_update H base) (merkle_new g (int base * 2 ^ L)) ds) = Some t
    \<and> mt_fileSize t = int (length (concat ds)) \<and> mt_blockSize t = int base * 2 ^ L
    \<and> mt_leaves t =
        map (tree_hash H) (chunks (2 ^ L) (map (leaf_hash H) (chunks base (concat ds))))
    \<and> mt_root t = tree_hash H (map (leaf_hash H) (chunks base (concat ds)))"
proof -
  let ?new = "merkle_new g (int base * 2 ^ L)"
  have new_inv: "merkle_inv H base L [] ?new []"
    using merkle_inv_new [where n = 0 and g = g and pre = "[]"] by (simp add: merkle_new_def)
  have "\<exists>t. merkle_finalize H base (foldl (merkle_update H base) ?new ds) = merkle_finalize H base t
    \<and> merkle_inv H base L [] t (map (leaf_hash H) (chunks base (concat ds)))
    \<and> mt_fileSize t = int (length (concat ds))"
  proof (cases "ds = []")
    case True
    let ?t = "merkle_update H base ?new []"
    have eq: "?t = merkle_update_loop H base ?new []"
      by (simp add: merkle_update_def merkle_new_def Let_def)
    have "merkle_inv H base L [] ?t (map (leaf_hash H) (chunks base [])) \<and> mt_fileSize ?t = 0"
      unfolding eq using merkle_inv_loop [OF assms(1) new_inv, of "[]"]
      by (simp add: merkle_new_def)
    moreover have "merkle_finalize H base ?new = merkle_finalize H base ?t"
      using merkle_finish_new [OF assms(1)] by (simp add: merkle_new_def)
    ultimately show ?thesis using True by auto
  next
    case False
    from merkle_inv_updates [OF assms(1) new_inv assms(2) False]
    show ?thesis by (intro exI [of _ "foldl (merkle_update H base) ?new ds"])
        (simp add: merkle_new_def)
  qed
  then obtain t where
    t: "merkle_finalize H base (foldl (merkle_update H base) ?new ds) = merkle_finalize H base t"
    and inv: "merkle_inv H base L [] t (map (leaf_hash H) (chunks base (concat ds)))"
    and size: "mt_fileSize t = int (length (concat ds))" by blast
  show ?thesis
    unfolding t merkle_inv_finish [OF assms(1) inv size assms(3)]
    using size inv by (simp add: merkle_inv_def)
qed

end
