(* ===== verification/Merkle_Check.thy ===== *)
theory Merkle_Check
  imports Tree_Hash "HOL-Library.Sublist"
begin

text \<open>
  \<^bold>\<open>hash/value/MerkleCheckOutputStream.h\<close>, the stream that verifies downloaded data against the
  leaves of a known tree while it passes the data on, and \<open>MerkleTreeOutputStream.h\<close>, the stream
  that collects leaves received from the network.  An exception is the second component of the
  result; the state is the one the object is left in.  The wrapped stream \<open>s\<close> is the list of the
  buffers written to it.
\<close>

datatype check_error = TTH_INCONSISTENCY

record check_stream =
  cs_real :: merkle_tree
  cs_cur :: merkle_tree
  cs_verified :: nat
  cs_buf :: "byte list"
  cs_bufPos :: nat
  cs_out :: "byte list list"

section \<open>The verifying stream\<close>

definition check_new :: "byte list \<Rightarrow> hash_value \<Rightarrow> merkle_tree \<Rightarrow> int \<Rightarrow> check_stream" where
  "check_new garbage root0 aTree start =
     (let cur = (merkle_new root0 (mt_blockSize aTree))\<lparr>mt_fileSize := start\<rparr>;
          nBlocks = nat (start sdiv mt_blockSize aTree);
          cur = (if length (mt_leaves aTree) < nBlocks then cur
                 else cur\<lparr>mt_leaves := take nBlocks (mt_leaves aTree) @ mt_leaves cur\<rparr>)
      in \<lparr>cs_real = aTree, cs_cur = cur, cs_verified = 0, cs_buf = garbage, cs_bufPos = 0,
          cs_out = []\<rparr>)"

text \<open>\<open>commitBytes\<close>: completing a started block, then the whole blocks and the remainder.\<close>

definition commit_fill :: "hasher \<Rightarrow> nat \<Rightarrow> check_stream \<Rightarrow> byte list \<Rightarrow> check_stream \<times> nat" where
  "commit_fill H base s xb =
     (if cs_bufPos s \<noteq> 0 then
        let bytes = min (base - cs_bufPos s) (length xb);
            s = s\<lparr>cs_buf := memcpy_at (cs_bufPos s) (take bytes xb) (cs_buf s),
                  cs_bufPos := cs_bufPos s + bytes\<rparr>;
            s = (if cs_bufPos s = base then
                   s\<lparr>cs_cur := merkle_update H base (cs_cur s) (take base (cs_buf s)), cs_bufPos := 0\<rparr>
                 else s)
        in (s, bytes)
      else (s, 0))"

definition commit_rest :: "hasher \<Rightarrow> nat \<Rightarrow> check_stream \<Rightarrow> byte list \<Rightarrow> check_stream" where
  "commit_rest H base s xb =
     (let left = length xb;
          part = left - left mod base;
          s = (if 0 < part then s\<lparr>cs_cur := merkle_update H base (cs_cur s) (take part xb)\<rparr> else s);
          left = left - part
      in s\<lparr>cs_buf := memcpy_at 0 (take left (drop part xb)) (cs_buf s), cs_bufPos := left\<rparr>)"

definition commitBytes :: "hasher \<Rightarrow> nat \<Rightarrow> check_stream \<Rightarrow> byte list \<Rightarrow> check_stream" where
  "commitBytes H base s xb =
     (let (s, pos) = commit_fill H base s xb
      in if pos < length xb then commit_rest H base s (drop pos xb) else s)"

function checkTrees_loop :: "hash_value list \<Rightarrow> hash_value list \<Rightarrow> nat \<Rightarrow> nat \<times> check_error option" where
  "checkTrees_loop cur real verified =
     (if verified < length cur then
        if length real < length cur \<or> cur ! verified \<noteq> real ! verified
        then (verified, Some TTH_INCONSISTENCY)
        else checkTrees_loop cur real (verified + 1)
      else (verified, None))"
  by pat_completeness auto
termination
  by (relation "measure (\<lambda>(cur, real, v). length cur - v)") auto

declare checkTrees_loop.simps [simp del]

definition checkTrees :: "check_stream \<Rightarrow> check_stream \<times> check_error option" where
  "checkTrees s =
     (let (v, e) = checkTrees_loop (mt_leaves (cs_cur s)) (mt_leaves (cs_real s)) (cs_verified s)
      in (s\<lparr>cs_verified := v\<rparr>, e))"

definition check_write ::
  "hasher \<Rightarrow> nat \<Rightarrow> check_stream \<Rightarrow> byte list \<Rightarrow> check_stream \<times> check_error option" where
  "check_write H base s b =
     (case checkTrees (commitBytes H base s b) of
        (s, Some e) \<Rightarrow> (s, Some e)
      | (s, None) \<Rightarrow> (s\<lparr>cs_out := cs_out s @ [b]\<rparr>, None))"

text \<open>A result \<open>None\<close> of \<open>flushBuffers\<close>: \<open>finalize\<close> reads a leaf that is not there.\<close>

definition check_flushBuffers ::
  "hasher \<Rightarrow> nat \<Rightarrow> check_stream \<Rightarrow> (check_stream \<times> check_error option) option" where
  "check_flushBuffers H base s =
     (let s = (if cs_bufPos s \<noteq> 0
               then s\<lparr>cs_cur := merkle_update H base (cs_cur s) (take (cs_bufPos s) (cs_buf s))\<rparr>
               else s);
          s = s\<lparr>cs_bufPos := 0\<rparr>
      in case merkle_finalize H base (cs_cur s) of
           None \<Rightarrow> None
         | Some cur \<Rightarrow>
             (let s = s\<lparr>cs_cur := cur\<rparr> in
              if length (mt_leaves cur) = length (mt_leaves (cs_real s)) then
                if mt_root cur \<noteq> mt_root (cs_real s) then Some (s, Some TTH_INCONSISTENCY)
                else Some (s, None)
              else Some (checkTrees s)))"

definition verifiedBytes :: "check_stream \<Rightarrow> int" where
  "verifiedBytes s =
     min (mt_fileSize (cs_real s)) (mt_blockSize (cs_cur s) * int (length (mt_leaves (cs_cur s))))"

text \<open>A transfer: the buffers as they arrive, stopped by the first exception.\<close>

fun check_writes ::
  "hasher \<Rightarrow> nat \<Rightarrow> check_stream \<Rightarrow> byte list list \<Rightarrow> check_stream \<times> check_error option" where
  "check_writes H base s [] = (s, None)"
| "check_writes H base s (d # ds) =
     (case check_write H base s d of
        (s, Some e) \<Rightarrow> (s, Some e)
      | (s, None) \<Rightarrow> check_writes H base s ds)"

section \<open>The stream of leaves\<close>

record leaf_stream =
  ls_leaves :: "hash_value list"
  ls_buf :: "byte list"
  ls_bufPos :: nat

text \<open>
  \<open>write\<close> of \<open>MerkleTreeOutputStream\<close>; between calls \<open>bufPos\<close> is below \<open>bytes\<close> (\<open>TreeType::BYTES\<close>),
  otherwise the loop would make no progress.
\<close>

function leaf_write :: "nat \<Rightarrow> leaf_stream \<Rightarrow> byte list \<Rightarrow> leaf_stream" where
  "leaf_write bytes s b =
     (if b = [] \<or> bytes \<le> ls_bufPos s then s
      else if ls_bufPos s = 0 \<and> bytes \<le> length b then
        leaf_write bytes (s\<lparr>ls_leaves := ls_leaves s @ [take bytes b]\<rparr>) (drop bytes b)
      else
        let n = min (bytes - ls_bufPos s) (length b);
            s = s\<lparr>ls_buf := memcpy_at (ls_bufPos s) (take n b) (ls_buf s),
                  ls_bufPos := ls_bufPos s + n\<rparr>;
            s = (if ls_bufPos s = bytes
                 then s\<lparr>ls_leaves := ls_leaves s @ [take bytes (ls_buf s)], ls_bufPos := 0\<rparr>
                 else s)
        in leaf_write bytes s (drop n b))"
  by pat_completeness auto
termination
  by (relation "measure (\<lambda>(_, _, b). length b)") auto

declare leaf_write.simps [simp del]

section \<open>What the verifying stream has consumed\<close>

function full_chunks :: "nat \<Rightarrow> 'a list \<Rightarrow> 'a list list" where
  "full_chunks n xs =
     (if n = 0 \<or> length xs < n then [] else take n xs # full_chunks n (drop n xs))"
  by pat_completeness auto
termination
  by (relation "measure (\<lambda>(_, xs). length xs)") auto

declare full_chunks.simps [simp del]

lemma full_chunks_short [simp]: "length xs < n \<Longrightarrow> full_chunks n xs = []"
  by (simp add: full_chunks.simps)

lemma full_chunks_one: "0 < n \<Longrightarrow> length a = n \<Longrightarrow> full_chunks n (a @ b) = a # full_chunks n b"
  by (simp add: full_chunks.simps [of n "a @ b"])

lemma full_chunks_append:
  "0 < n \<Longrightarrow> n dvd length a \<Longrightarrow> full_chunks n (a @ b) = full_chunks n a @ full_chunks n b"
proof (induction n a rule: full_chunks.induct)
  case (1 n a)
  show ?case
  proof (cases "length a < n")
    case True
    with 1(3) have "a = []" by (auto dest: dvd_imp_le)
    then show ?thesis using 1(2) by simp
  next
    case False
    with 1 have "full_chunks n (drop n a @ b) = full_chunks n (drop n a) @ full_chunks n b"
      by (intro 1(1)) auto
    moreover have "full_chunks n (take n a @ drop n a @ b) = take n a # full_chunks n (drop n a @ b)"
      using 1(2) False by (intro full_chunks_one) auto
    moreover have "take n a @ drop n a @ b = a @ b" by (metis append_assoc append_take_drop_id)
    ultimately show ?thesis
      using False 1(2) by (simp only: full_chunks.simps [of n a]) simp
  qed
qed

lemma chunks_full:
  "0 < n \<Longrightarrow> n dvd length a \<Longrightarrow> a \<noteq> [] \<Longrightarrow> chunks n a = full_chunks n a"
proof (induction n a rule: chunks.induct)
  case (1 n a)
  show ?case
  proof (cases "length a \<le> n")
    case True
    with 1(3,4) have "length a = n" by (auto dest: dvd_imp_le)
    then show ?thesis using 1(2) full_chunks_one [of n a "[]"] by (simp add: chunks_le)
  next
    case False
    with 1 have "chunks n (drop n a) = full_chunks n (drop n a)" by (intro 1(1)) auto
    then show ?thesis using False 1(2) by (simp add: chunks.simps [of n a] full_chunks.simps [of n a])
  qed
qed

definition commit_inv ::
  "hasher \<Rightarrow> nat \<Rightarrow> nat \<Rightarrow> hash_value list \<Rightarrow> int \<Rightarrow> check_stream \<Rightarrow> byte list \<Rightarrow> bool" where
  "commit_inv H base L pre start s m \<longleftrightarrow>
     (\<exists>w r. m = w @ r \<and> base dvd length w \<and> length r < base
        \<and> cs_bufPos s = length r \<and> length (cs_buf s) = base \<and> take (length r) (cs_buf s) = r
        \<and> merkle_inv H base L pre (cs_cur s) (map (leaf_hash H) (full_chunks base w))
        \<and> mt_fileSize (cs_cur s) = start + int (length w))"

lemma commit_invI:
  "m = w @ r \<Longrightarrow> base dvd length w \<Longrightarrow> length r < base \<Longrightarrow> cs_bufPos s = length r \<Longrightarrow>
   length (cs_buf s) = base \<Longrightarrow> take (length r) (cs_buf s) = r \<Longrightarrow>
   merkle_inv H base L pre (cs_cur s) (map (leaf_hash H) (full_chunks base w)) \<Longrightarrow>
   mt_fileSize (cs_cur s) = start + int (length w) \<Longrightarrow> commit_inv H base L pre start s m"
  unfolding commit_inv_def by blast

lemma merkle_inv_whole:
  assumes "0 < base" and "merkle_inv H base L pre t (map (leaf_hash H) (full_chunks base w))"
    and "base dvd length w" and "base dvd length d" and "d \<noteq> []"
  shows "merkle_inv H base L pre (merkle_update H base t d)
      (map (leaf_hash H) (full_chunks base (w @ d)))
    \<and> mt_fileSize (merkle_update H base t d) = mt_fileSize t + int (length d)"
  using merkle_inv_update [OF assms(1,2,5)] assms
  by (simp add: full_chunks_append chunks_full)

lemma commit_rest_inv:
  assumes "0 < base" and inv: "merkle_inv H base L pre (cs_cur s) (map (leaf_hash H) (full_chunks base w))"
    and size: "mt_fileSize (cs_cur s) = start + int (length w)"
    and dvd: "base dvd length w" and buf: "length (cs_buf s) = base"
  shows "commit_inv H base L pre start (commit_rest H base s d) (w @ d)"
proof -
  let ?part = "length d - length d mod base"
  have part: "base dvd ?part" "?part \<le> length d"
    by (simp_all add: minus_mod_eq_mult_div)
  have len: "length (take ?part d) = ?part" using part(2) by (simp only: length_take min_absorb2)
  have rest: "length d - ?part = length d mod base" by simp
  have less: "length d mod base < base" using assms(1) by simp
  let ?cur = "if 0 < ?part then merkle_update H base (cs_cur s) (take ?part d) else cs_cur s"
  have cur: "merkle_inv H base L pre ?cur (map (leaf_hash H) (full_chunks base (w @ take ?part d)))
    \<and> mt_fileSize ?cur = start + int (length (w @ take ?part d))"
  proof (cases "0 < ?part")
    case True
    with len have "take ?part d \<noteq> []" by (metis length_0_conv less_not_refl)
    moreover have "base dvd length (take ?part d)" unfolding len by (rule part)
    ultimately show ?thesis
      using merkle_inv_whole [OF assms(1) inv dvd, of "take ?part d"] True size by simp
  next
    case False
    then show ?thesis using inv size by simp
  qed
  show ?thesis
  proof (rule commit_invI [of _ "w @ take ?part d" "drop ?part d"])
    show "base dvd length (w @ take ?part d)" 
      unfolding length_append len using dvd part(1) by (rule dvd_add)
    show "length (drop ?part d) < base" using less rest by simp
    show "merkle_inv H base L pre (cs_cur (commit_rest H base s d))
        (map (leaf_hash H) (full_chunks base (w @ take ?part d)))"
      "mt_fileSize (cs_cur (commit_rest H base s d)) = start + int (length (w @ take ?part d))"
      using cur by (auto simp: commit_rest_def Let_def)
  qed (use less rest buf in \<open>auto simp: commit_rest_def Let_def memcpy_at_def\<close>)
qed

lemma commitBytes_inv:
  assumes "0 < base" and inv: "commit_inv H base L pre start s m"
  shows "commit_inv H base L pre start (commitBytes H base s d) (m @ d)"
proof -
  from inv obtain w r where m: "m = w @ r" and dvd: "base dvd length w" and r: "length r < base"
    and pos: "cs_bufPos s = length r" and buf: "length (cs_buf s) = base" "take (length r) (cs_buf s) = r"
    and cur: "merkle_inv H base L pre (cs_cur s) (map (leaf_hash H) (full_chunks base w))"
    and size: "mt_fileSize (cs_cur s) = start + int (length w)"
    by (auto simp: commit_inv_def)
  show ?thesis
  proof (cases "r = []")
    case True
    then have "commitBytes H base s d = (if d = [] then s else commit_rest H base s d)"
      using pos by (simp add: commitBytes_def commit_fill_def)
    then show ?thesis
      using True m inv commit_rest_inv [OF assms(1) cur size dvd buf(1), of d] by simp
  next
    case False
    show ?thesis
    proof (cases "length r + length d < base")
      case True
      then have "commitBytes H base s d = s\<lparr>cs_buf := memcpy_at (length r) d (cs_buf s),
          cs_bufPos := length r + length d\<rparr>"
        using False pos by (auto simp: commitBytes_def commit_fill_def Let_def min_def)
      then show ?thesis
        using True m dvd cur size buf
        by (intro commit_invI [of _ w "r @ d"]) (auto simp: memcpy_at_def)
    next
      case filled: False
      let ?n = "base - length r"
      let ?s = "s\<lparr>cs_buf := r @ take ?n d,
        cs_cur := merkle_update H base (cs_cur s) (r @ take ?n d), cs_bufPos := 0\<rparr>"
      have len: "length (r @ take ?n d) = base" using filled r by simp
      have eq: "commitBytes H base s d
          = (if ?n < length d then commit_rest H base ?s (drop ?n d) else ?s)"
        using False filled pos r buf len
        by (simp add: commitBytes_def commit_fill_def Let_def memcpy_at_def)
      have cur': "merkle_inv H base L pre (cs_cur ?s)
          (map (leaf_hash H) (full_chunks base (w @ r @ take ?n d)))"
        "mt_fileSize (cs_cur ?s) = start + int (length (w @ r @ take ?n d))"
        using merkle_inv_whole [OF assms(1) cur dvd, of "r @ take ?n d"] len False size by auto
      have dvd': "base dvd length (w @ r @ take ?n d)" using dvd len by (metis dvd_add dvd_refl length_append)
      have md: "m @ d = (w @ r @ take ?n d) @ drop ?n d" using m by simp
      show ?thesis
      proof (cases "?n < length d")
        case True
        then show ?thesis
          unfolding eq md using commit_rest_inv [OF assms(1) cur' dvd', of "drop ?n d"] len by simp
      next
        case False
        then show ?thesis
          unfolding eq md using cur' dvd' len assms(1)
          by (intro commit_invI [of _ "w @ r @ take ?n d" "[]"]) auto
      qed
    qed
  qed
qed


section \<open>Verification\<close>

lemma checkTrees_loop_eq:
  "v \<le> length cur \<Longrightarrow> take v cur = take v real \<Longrightarrow> v \<le> length real \<Longrightarrow>
   (snd (checkTrees_loop cur real v) = None \<longleftrightarrow> cur = take (length cur) real)
   \<and> (cur = take (length cur) real \<longrightarrow> fst (checkTrees_loop cur real v) = length cur)"
proof (induction cur real v rule: checkTrees_loop.induct)
  case (1 cur real v)
  show ?case
  proof (cases "v < length cur")
    case False
    with 1 have "v = length cur" by simp
    with 1 show ?thesis by (simp add: checkTrees_loop.simps [of cur real "length cur"])
  next
    case True
    show ?thesis
    proof (cases "length real < length cur \<or> cur ! v \<noteq> real ! v")
      case bad: True
      have "cur \<noteq> take (length cur) real"
      proof
        assume eq: "cur = take (length cur) real"
        then have "length cur \<le> length real" by (metis length_take min.cobounded1)
        moreover have "cur ! v = real ! v" using eq True by (metis nth_take)
        ultimately show False using bad by simp
      qed
      then show ?thesis using True bad by (simp add: checkTrees_loop.simps [of cur real v])
    next
      case good: False
      then have "take (v + 1) cur = take (v + 1) real" "v + 1 \<le> length real"
        using 1(3) True by (auto simp: take_Suc_conv_app_nth)
      then have "(snd (checkTrees_loop cur real (v + 1)) = None \<longleftrightarrow> cur = take (length cur) real)
        \<and> (cur = take (length cur) real \<longrightarrow> fst (checkTrees_loop cur real (v + 1)) = length cur)"
        using True good by (intro 1(1)) auto
      then show ?thesis using True good by (simp add: checkTrees_loop.simps [of cur real v])
    qed
  qed
qed

text \<open>The leaves that the complete groups of the data give.\<close>

definition group_leaves :: "hasher \<Rightarrow> nat \<Rightarrow> nat \<Rightarrow> byte list \<Rightarrow> hash_value list" where
  "group_leaves H base L m =
     map (\<lambda>g. tree_hash H (map (leaf_hash H) (chunks base g))) (full_chunks (base * 2 ^ L) m)"

lemma full_chunks_concat:
  "0 < n \<Longrightarrow> \<forall>g\<in>set gs. length g = n \<Longrightarrow> length rest < n \<Longrightarrow> full_chunks n (concat gs @ rest) = gs"
  by (induction gs) (auto simp: full_chunks_one)

lemma map_full_chunks: "map (map f) (full_chunks n xs) = full_chunks n (map f xs)"
proof (induction n xs rule: full_chunks.induct)
  case (1 n xs)
  then show ?case
    by (simp add: full_chunks.simps [of n xs] full_chunks.simps [of n "map f xs"] take_map drop_map)
qed

lemma full_chunks_nested:
  assumes "0 < a" and "0 < b"
  shows "full_chunks b (full_chunks a m) = map (full_chunks a) (full_chunks (a * b) m)"
proof (induction "a * b" m rule: full_chunks.induct)
  case (1 m)
  show ?case
  proof (cases "length m < a * b")
    case True
    have "length (full_chunks a m) * a \<le> length m"
    proof (induction a m rule: full_chunks.induct)
      case (1 n xs)
      then show ?case by (cases "n = 0 \<or> length xs < n") (auto simp: full_chunks.simps [of n xs])
    qed
    from le_less_trans [OF this True] have "length (full_chunks a m) * a < b * a"
      by (simp only: mult.commute [of b a])
    then have "length (full_chunks a m) < b" by (rule mult_right_less_imp_less) simp
    then show ?thesis using True by simp
  next
    case False
    let ?g = "take (a * b) m" and ?r = "drop (a * b) m"
    have len: "length ?g = b * a" using False by (simp add: mult.commute)
    have num: "length g = k * a \<Longrightarrow> length (full_chunks a g) = k" for g :: "'a list" and k
    proof (induction k arbitrary: g)
      case 0
      then show ?case using assms by simp
    next
      case (Suc k)
      then have "length (full_chunks a (drop a g)) = k" by simp
      then show ?case using Suc.prems assms by (simp add: full_chunks.simps [of a g])
    qed
    have "full_chunks a m = full_chunks a ?g @ full_chunks a ?r"
      using full_chunks_append [of a ?g ?r] assms len by simp
    then have "full_chunks b (full_chunks a m) = full_chunks a ?g # full_chunks b (full_chunks a ?r)"
      using full_chunks_one [of b "full_chunks a ?g"] num [OF len] assms by simp
    also have "\<dots> = full_chunks a ?g # map (full_chunks a) (full_chunks (a * b) ?r)"
      using 1 False assms by simp
    finally show ?thesis
      using False assms by (simp add: full_chunks.simps [of "a * b" m])
  qed
qed

lemma full_chunks_lengths: "g \<in> set (full_chunks n xs) \<Longrightarrow> length g = n"
proof (induction n xs rule: full_chunks.induct)
  case (1 n xs)
  then show ?case by (auto simp: full_chunks.simps [of n xs] split: if_splits)
qed

lemma merkle_inv_leaves:
  assumes "0 < base"
    and "merkle_inv H base L pre t (map (leaf_hash H) (full_chunks base w))"
  shows "mt_leaves t = pre @ group_leaves H base L w"
proof -
  let ?xs = "map (leaf_hash H) (full_chunks base w)"
  from assms(2) obtain gs rest where xs: "?xs = concat gs @ rest" and gs: "\<forall>g\<in>set gs. length g = 2 ^ L"
    and lv: "mt_leaves t = pre @ map (tree_hash H) gs" and st: "block_stack H base L 0 (mt_blocks t) rest"
    by (auto simp: merkle_inv_def)
  have "length rest < 2 ^ L" using block_stack_length [OF st] by simp
  then have "gs = full_chunks (2 ^ L) ?xs" unfolding xs using gs by (simp add: full_chunks_concat)
  also have "\<dots> = map (map (leaf_hash H)) (map (full_chunks base) (full_chunks (base * 2 ^ L) w))"
    using assms(1) by (simp add: full_chunks_nested flip: map_full_chunks)
  also have "map (full_chunks base) (full_chunks (base * 2 ^ L) w)
      = map (chunks base) (full_chunks (base * 2 ^ L) w)"
  proof (rule map_cong [OF refl])
    fix g assume "g \<in> set (full_chunks (base * 2 ^ L) w)"
    then have "length g = base * 2 ^ L" by (rule full_chunks_lengths)
    then show "full_chunks base g = chunks base g"
      using assms(1) by (intro chunks_full [symmetric]) auto
  qed
  finally show ?thesis using lv by (simp add: group_leaves_def comp_def)
qed


lemma full_chunks_tail:
  assumes "0 < a" and "0 < b"
  shows "a dvd length w \<Longrightarrow> length r < a \<Longrightarrow> full_chunks (a * b) (w @ r) = full_chunks (a * b) w"
proof (induction "a * b" w rule: full_chunks.induct)
  case (1 w)
  show ?case
  proof (cases "length w < a * b")
    case True
    from 1(2) obtain k where k: "length w = a * k" by blast
    with True have "k < b" by simp
    then have "a * Suc k \<le> a * b" by (intro mult_le_mono2) simp
    then have "length (w @ r) < a * b" using k 1(3) by simp
    then show ?thesis using True by simp
  next
    case False
    have "a dvd length (drop (a * b) w)" using 1(2) False by (simp add: dvd_diff_nat)
    then have "full_chunks (a * b) (drop (a * b) w @ r) = full_chunks (a * b) (drop (a * b) w)"
      using 1 False assms by simp
    then show ?thesis
      using False assms by (simp add: full_chunks.simps [of "a * b" w] full_chunks.simps [of "a * b" "w @ r"])
  qed
qed

lemma prefix_full_chunks: "prefix (full_chunks n m) (full_chunks n (m @ d))"
proof (induction n m rule: full_chunks.induct)
  case (1 n m)
  show ?case
  proof (cases "n = 0 \<or> length m < n")
    case True
    then show ?thesis by (simp add: full_chunks.simps [of n m])
  next
    case False
    then show ?thesis
      using 1 by (simp add: full_chunks.simps [of n m] full_chunks.simps [of n "m @ d"])
  qed
qed

lemma prefix_group_leaves: "prefix (group_leaves H base L m) (group_leaves H base L (m @ d))"
  unfolding group_leaves_def by (rule map_mono_prefix) (rule prefix_full_chunks)

lemma commit_inv_leaves:
  assumes "0 < base" and "commit_inv H base L pre start s m"
  shows "mt_leaves (cs_cur s) = pre @ group_leaves H base L m"
  using assms(2) merkle_inv_leaves [OF assms(1)] assms(1)
  by (auto simp: commit_inv_def group_leaves_def full_chunks_tail)

lemma commitBytes_frame [simp]:
  "cs_real (commitBytes H base s d) = cs_real s" "cs_verified (commitBytes H base s d) = cs_verified s"
  "cs_out (commitBytes H base s d) = cs_out s"
  by (simp_all add: commitBytes_def commit_fill_def commit_rest_def Let_def split: prod.split)

text \<open>The state of a stream that has accepted the data \<open>m\<close>.\<close>

definition check_inv ::
  "hasher \<Rightarrow> nat \<Rightarrow> nat \<Rightarrow> hash_value list \<Rightarrow> int \<Rightarrow> check_stream \<Rightarrow> byte list \<Rightarrow> bool" where
  "check_inv H base L pre start s m \<longleftrightarrow>
     commit_inv H base L pre start s m \<and> prefix (mt_leaves (cs_cur s)) (mt_leaves (cs_real s))
     \<and> cs_verified s \<le> length (mt_leaves (cs_cur s))"

lemma prefix_take: "prefix xs ys \<longleftrightarrow> xs = take (length xs) ys"
  by (metis append_eq_conv_conj prefix_def take_is_prefix)

lemma prefix_take_eq: "prefix xs ys \<Longrightarrow> v \<le> length xs \<Longrightarrow> take v xs = take v ys"
  by (auto simp: prefix_def)

lemma check_write_inv:
  assumes "0 < base" and inv: "check_inv H base L pre start s m"
  shows "(snd (check_write H base s d) = None
        \<longleftrightarrow> prefix (pre @ group_leaves H base L (m @ d)) (mt_leaves (cs_real s)))
    \<and> (snd (check_write H base s d) = None \<longrightarrow>
        check_inv H base L pre start (fst (check_write H base s d)) (m @ d)
        \<and> cs_verified (fst (check_write H base s d)) = length (pre @ group_leaves H base L (m @ d))
        \<and> cs_out (fst (check_write H base s d)) = cs_out s @ [d]
        \<and> cs_real (fst (check_write H base s d)) = cs_real s)"
proof -
  let ?s = "commitBytes H base s d" and ?real = "mt_leaves (cs_real s)"
  let ?new = "pre @ group_leaves H base L (m @ d)" and ?old = "pre @ group_leaves H base L m"
  have old: "mt_leaves (cs_cur s) = ?old" "prefix ?old ?real" "cs_verified s \<le> length ?old"
    using inv commit_inv_leaves [OF assms(1)] by (auto simp: check_inv_def)
  have ci: "commit_inv H base L pre start ?s (m @ d)"
    using commitBytes_inv [OF assms(1)] inv by (simp add: check_inv_def)
  then have new: "mt_leaves (cs_cur ?s) = ?new"
    by (rule commit_inv_leaves [OF assms(1)])
  have ext: "prefix ?old ?new" using prefix_group_leaves by simp
  let ?v = "cs_verified s"
  have "?v \<le> length ?new" using old(3) ext prefix_length_le le_trans by blast
  moreover have "take ?v ?new = take ?v ?real"
    using prefix_take_eq [OF ext old(3)] prefix_take_eq [OF old(2,3)] by simp
  moreover have "?v \<le> length ?real" using old prefix_length_le le_trans by blast
  ultimately have loop: "(snd (checkTrees_loop ?new ?real ?v) = None \<longleftrightarrow> prefix ?new ?real)
    \<and> (prefix ?new ?real \<longrightarrow> fst (checkTrees_loop ?new ?real ?v) = length ?new)"
    unfolding prefix_take by (rule checkTrees_loop_eq)
  obtain v e where ve: "checkTrees_loop ?new ?real ?v = (v, e)" by fastforce
  show ?thesis
  proof (cases e)
    case None
    let ?t = "?s\<lparr>cs_verified := v, cs_out := cs_out s @ [d]\<rparr>"
    have res: "check_write H base s d = (?t, None)"
      using ve None by (simp add: check_write_def checkTrees_def new)
    have pv: "prefix ?new ?real" "v = length ?new" using loop ve None by simp_all
    have "commit_inv H base L pre start ?t (m @ d)"
      using ci by (simp add: commit_inv_def)
    then have "check_inv H base L pre start ?t (m @ d)"
      using pv new by (simp add: check_inv_def)
    then show ?thesis unfolding res using pv by simp
  next
    case (Some x)
    have "snd (check_write H base s d) = Some x"
      using ve Some by (simp add: check_write_def checkTrees_def new)
    moreover have "\<not> prefix ?new ?real" using loop ve Some by simp
    ultimately show ?thesis by simp
  qed
qed

lemma check_writes_inv:
  assumes "0 < base"
  shows "check_inv H base L pre start s m \<Longrightarrow>
    (snd (check_writes H base s ds) = None
        \<longleftrightarrow> prefix (pre @ group_leaves H base L (m @ concat ds)) (mt_leaves (cs_real s)))
    \<and> (snd (check_writes H base s ds) = None \<longrightarrow>
        check_inv H base L pre start (fst (check_writes H base s ds)) (m @ concat ds)
        \<and> cs_out (fst (check_writes H base s ds)) = cs_out s @ ds
        \<and> cs_real (fst (check_writes H base s ds)) = cs_real s)"
proof (induction ds arbitrary: s m)
  case Nil
  then show ?case
    using commit_inv_leaves [OF assms] by (auto simp: check_inv_def)
next
  case (Cons d ds)
  obtain s' e where w: "check_write H base s d = (s', e)" by fastforce
  note step = check_write_inv [OF assms Cons.prems, of d, unfolded w fst_conv snd_conv]
  show ?case
  proof (cases e)
    case None
    with step have "check_inv H base L pre start s' (m @ d)" "cs_out s' = cs_out s @ [d]"
      "cs_real s' = cs_real s" by auto
    with Cons.IH [of s' "m @ d"] show ?thesis using w None by simp
  next
    case (Some x)
    have "prefix (pre @ group_leaves H base L (m @ d)) (pre @ group_leaves H base L (m @ d @ concat ds))"
      using prefix_group_leaves [of H base L "m @ d" "concat ds"] by simp
    with step Some have
      "\<not> prefix (pre @ group_leaves H base L (m @ d @ concat ds)) (mt_leaves (cs_real s))"
      using prefix_order.trans by blast
    then show ?thesis using w Some by simp
  qed
qed

end
