(* ===== verification/Tiger.thy ===== *)
theory Tiger
  imports Tiger_Tables
begin

unbundle bit_operations_syntax

text \<open>
  \<^bold>\<open>hash/value/TigerHash.cpp\<close>: the Tiger hash.  The macros \<open>round\<close>, \<open>pass\<close>, \<open>key_schedule\<close>,
  \<open>compress\<close> are functions on 64-bit words (both the 64-bit variant that x86-64 builds select
  and the portable one); \<open>update\<close> and \<open>finalize\<close> are functions on the hasher's state
  (\<open>tmp\<close>, \<open>res\<close>, \<open>pos\<close>).  The \<open>TIGER_BIG_ENDIAN\<close> branches are not modelled: words are read from
  and written to the buffer in little-endian order.  \<open>tmp\<close> is not initialised by the constructor,
  so a new hasher takes its contents as an argument.
\<close>

section \<open>The compression function\<close>

type_synonym tiger_words = "u64 \<times> u64 \<times> u64"
type_synonym tiger_block = "u64 \<times> u64 \<times> u64 \<times> u64 \<times> u64 \<times> u64 \<times> u64 \<times> u64"

definition tiger_byte :: "nat \<Rightarrow> u64 \<Rightarrow> nat" where
  "tiger_byte n c = unat (drop_bit (n * 8) c AND 0xFF)"

definition tiger_round :: "u64 \<Rightarrow> u64 \<Rightarrow> u64 \<Rightarrow> u64 \<Rightarrow> u64 \<Rightarrow> tiger_words" where
  "tiger_round a b c x mul =
     (let c = c XOR x;
          a = a - (tiger_t1 ! tiger_byte 0 c XOR tiger_t2 ! tiger_byte 2 c
                   XOR tiger_t3 ! tiger_byte 4 c XOR tiger_t4 ! tiger_byte 6 c);
          b = b + (tiger_t4 ! tiger_byte 1 c XOR tiger_t3 ! tiger_byte 3 c
                   XOR tiger_t2 ! tiger_byte 5 c XOR tiger_t1 ! tiger_byte 7 c);
          b = b * mul
      in (a, b, c))"

definition tiger_pass :: "u64 \<Rightarrow> u64 \<Rightarrow> u64 \<Rightarrow> u64 \<Rightarrow> tiger_block \<Rightarrow> tiger_words" where
  "tiger_pass a b c mul x =
     (let (x0, x1, x2, x3, x4, x5, x6, x7) = x;
          (a, b, c) = tiger_round a b c x0 mul;
          (b, c, a) = tiger_round b c a x1 mul;
          (c, a, b) = tiger_round c a b x2 mul;
          (a, b, c) = tiger_round a b c x3 mul;
          (b, c, a) = tiger_round b c a x4 mul;
          (c, a, b) = tiger_round c a b x5 mul;
          (a, b, c) = tiger_round a b c x6 mul;
          (b, c, a) = tiger_round b c a x7 mul
      in (a, b, c))"

definition tiger_key_schedule :: "tiger_block \<Rightarrow> tiger_block" where
  "tiger_key_schedule x =
     (let (x0, x1, x2, x3, x4, x5, x6, x7) = x;
          x0 = x0 - (x7 XOR 0xA5A5A5A5A5A5A5A5);
          x1 = x1 XOR x0;
          x2 = x2 + x1;
          x3 = x3 - (x2 XOR push_bit 19 (NOT x1));
          x4 = x4 XOR x3;
          x5 = x5 + x4;
          x6 = x6 - (x5 XOR drop_bit 23 (NOT x4));
          x7 = x7 XOR x6;
          x0 = x0 + x7;
          x1 = x1 - (x0 XOR push_bit 19 (NOT x7));
          x2 = x2 XOR x1;
          x3 = x3 + x2;
          x4 = x4 - (x3 XOR drop_bit 23 (NOT x2));
          x5 = x5 XOR x4;
          x6 = x6 + x5;
          x7 = x7 - (x6 XOR 0x0123456789ABCDEF)
      in (x0, x1, x2, x3, x4, x5, x6, x7))"

text \<open>\<open>feedforward\<close>: mixes the saved chaining words back in.\<close>

fun tiger_feedforward :: "tiger_words \<Rightarrow> tiger_words \<Rightarrow> tiger_words" where
  "tiger_feedforward (aa, bb, cc) (a, b, c) = (a XOR aa, b - bb, c + cc)"

definition tiger_compress :: "tiger_block \<Rightarrow> tiger_words \<Rightarrow> tiger_words" where
  "tiger_compress x abc =
     (let (a, b, c) = abc;
          (aa, bb, cc) = (a, b, c);
          (a, b, c) = tiger_pass a b c 5 x;
          x = tiger_key_schedule x;
          (c, a, b) = tiger_pass c a b 7 x;
          x = tiger_key_schedule x;
          (b, c, a) = tiger_pass b c a 9 x
      in tiger_feedforward (aa, bb, cc) (a, b, c))"

text \<open>
  The portable variant (no \<open>TIGER_ARCH64\<close>): the table indices come from 32-bit halves cast to
  \<open>uint8_t\<close>, and the three passes are a loop that rotates the working words.
\<close>

definition tiger_round_portable :: "u64 \<Rightarrow> u64 \<Rightarrow> u64 \<Rightarrow> u64 \<Rightarrow> u64 \<Rightarrow> tiger_words" where
  "tiger_round_portable a b c x mul =
     (let c = c XOR x;
          u8 = (\<lambda>w :: 32 word. unat (ucast w :: byte));
          lo = ucast c :: 32 word;
          hi = ucast (drop_bit 32 c) :: 32 word;
          a = a - (tiger_t1 ! unat (ucast c :: byte)
                   XOR tiger_t2 ! u8 (drop_bit 16 lo)
                   XOR tiger_t3 ! unat (ucast (drop_bit 32 c) :: byte)
                   XOR tiger_t4 ! u8 (drop_bit 16 hi));
          b = b + (tiger_t4 ! u8 (drop_bit 8 lo)
                   XOR tiger_t3 ! u8 (drop_bit 24 lo)
                   XOR tiger_t2 ! u8 (drop_bit 8 hi)
                   XOR tiger_t1 ! u8 (drop_bit 24 hi));
          b = b * mul
      in (a, b, c))"

definition tiger_pass_portable :: "u64 \<Rightarrow> u64 \<Rightarrow> u64 \<Rightarrow> u64 \<Rightarrow> tiger_block \<Rightarrow> tiger_words" where
  "tiger_pass_portable a b c mul x =
     (let (x0, x1, x2, x3, x4, x5, x6, x7) = x;
          (a, b, c) = tiger_round_portable a b c x0 mul;
          (b, c, a) = tiger_round_portable b c a x1 mul;
          (c, a, b) = tiger_round_portable c a b x2 mul;
          (a, b, c) = tiger_round_portable a b c x3 mul;
          (b, c, a) = tiger_round_portable b c a x4 mul;
          (c, a, b) = tiger_round_portable c a b x5 mul;
          (a, b, c) = tiger_round_portable a b c x6 mul;
          (b, c, a) = tiger_round_portable b c a x7 mul
      in (a, b, c))"

function tiger_passes :: "nat \<Rightarrow> tiger_block \<Rightarrow> tiger_words \<Rightarrow> tiger_words" where
  "tiger_passes pass_no x (a, b, c) =
     (if pass_no < 3 then
        (let x = (if pass_no \<noteq> 0 then tiger_key_schedule x else x);
             (a, b, c) = tiger_pass_portable a b c
                           (if pass_no = 0 then 5 else if pass_no = 1 then 7 else 9) x;
             tmpa = a; a = c; c = b; b = tmpa
         in tiger_passes (pass_no + 1) x (a, b, c))
      else (a, b, c))"
  by pat_completeness auto
termination
  by (relation "measure (\<lambda>(p, _, _). 3 - p)") auto

declare tiger_passes.simps [simp del]

definition tiger_compress_portable :: "tiger_block \<Rightarrow> tiger_words \<Rightarrow> tiger_words" where
  "tiger_compress_portable x abc = tiger_feedforward abc (tiger_passes 0 x abc)"

lemma tiger_byte_less: "tiger_byte n c < 256"
proof -
  have "unat (drop_bit (n * 8) c AND 0xFF) \<le> unat (0xFF :: u64)"
    by (rule word_and_le1 [THEN word_le_nat_alt [THEN iffD1]])
  then show ?thesis by (simp add: tiger_byte_def)
qed

lemma tiger_byte_ucast: "tiger_byte n c = unat (ucast (drop_bit (n * 8) c) :: byte)"
proof -
  have "drop_bit (n * 8) c AND 0xFF = take_bit 8 (drop_bit (n * 8) c)"
    by (simp add: take_bit_eq_mask mask_eq_exp_minus_1)
  then show ?thesis
    by (simp add: tiger_byte_def unsigned_ucast_eq unsigned_take_bit_eq)
qed

lemma tiger_byte_low:
  "n < 4 \<Longrightarrow> unat (ucast (drop_bit (n * 8) (ucast c :: 32 word)) :: byte) = tiger_byte n c"
  unfolding tiger_byte_ucast
  by (rule arg_cong [where f = unat], rule bit_word_eqI) (auto simp: bit_simps)

lemma tiger_byte_high: "tiger_byte n (drop_bit 32 c) = tiger_byte (n + 4) c"
  by (simp add: tiger_byte_def)

lemma tiger_bytes_portable:
  "unat (ucast (c :: u64) :: byte) = tiger_byte 0 c"
  "unat (ucast (drop_bit 16 (ucast (c :: u64) :: 32 word)) :: byte) = tiger_byte 2 c"
  "unat (ucast (drop_bit 8 (ucast (c :: u64) :: 32 word)) :: byte) = tiger_byte 1 c"
  "unat (ucast (drop_bit 24 (ucast (c :: u64) :: 32 word)) :: byte) = tiger_byte 3 c"
  using tiger_byte_low [of 2 c] tiger_byte_low [of 1 c] tiger_byte_low [of 3 c]
  by (simp_all add: tiger_byte_ucast [of 0])

lemma tiger_bytes_high:
  "tiger_byte 0 (drop_bit 32 c) = tiger_byte 4 c" "tiger_byte 1 (drop_bit 32 c) = tiger_byte 5 c"
  "tiger_byte 2 (drop_bit 32 c) = tiger_byte 6 c" "tiger_byte 3 (drop_bit 32 c) = tiger_byte 7 c"
  by (simp_all add: tiger_byte_high)

lemma tiger_round_portable_eq: "tiger_round_portable = tiger_round"
  by (intro ext)
    (simp only: tiger_round_portable_def tiger_round_def Let_def tiger_bytes_portable tiger_bytes_high)

lemma tiger_pass_portable_eq: "tiger_pass_portable = tiger_pass"
  by (intro ext) (simp only: tiger_pass_portable_def tiger_pass_def tiger_round_portable_eq)

lemma tiger_passes_step:
  "tiger_passes n x (a, b, c) =
     (if n < 3 then
        (let x = (if n \<noteq> 0 then tiger_key_schedule x else x);
             (a, b, c) = tiger_pass a b c (if n = 0 then 5 else if n = 1 then 7 else 9) x
         in tiger_passes (n + 1) x (c, a, b))
      else (a, b, c))"
  by (simp add: tiger_passes.simps tiger_pass_portable_eq Let_def)

lemma tiger_compress_portable_eq: "tiger_compress_portable x abc = tiger_compress x abc"
proof -
  obtain a b c where abc: "abc = (a, b, c)" by (cases abc)
  obtain a1 b1 c1 where p1: "tiger_pass a b c 5 x = (a1, b1, c1)"
    by (cases "tiger_pass a b c 5 x")
  obtain a2 b2 c2 where p2: "tiger_pass c1 a1 b1 7 (tiger_key_schedule x) = (a2, b2, c2)"
    by (cases "tiger_pass c1 a1 b1 7 (tiger_key_schedule x)")
  obtain a3 b3 c3 where p3:
    "tiger_pass c2 a2 b2 9 (tiger_key_schedule (tiger_key_schedule x)) = (a3, b3, c3)"
    by (cases "tiger_pass c2 a2 b2 9 (tiger_key_schedule (tiger_key_schedule x))")
  have "tiger_passes 0 x (a, b, c) = (c3, a3, b3)"
    by (simp add: tiger_passes_step p1 p2 p3)
  moreover have "tiger_compress x abc = tiger_feedforward (a, b, c) (c3, a3, b3)"
    by (simp add: tiger_compress_def abc p1 p2 p3)
  ultimately show ?thesis by (simp add: tiger_compress_portable_def abc)
qed

section \<open>The hasher\<close>

record tiger =
  tg_tmp :: "byte list"
  tg_res :: tiger_words
  tg_pos :: u64

definition TIGER_BLOCK_SIZE :: nat where
  "TIGER_BLOCK_SIZE = 64"

definition tiger_new :: "byte list \<Rightarrow> tiger" where
  "tiger_new garbage =
     \<lparr>tg_tmp = garbage,
      tg_res = (0x0123456789ABCDEF, 0xFEDCBA9876543210, 0xF096A5B4C3B2E187), tg_pos = 0\<rparr>"

text \<open>Eight bytes of the buffer read as a little-endian word, and a word stored that way.\<close>

fun le_word :: "byte list \<Rightarrow> u64" where
  "le_word [] = 0"
| "le_word (b # bs) = ucast b OR push_bit 8 (le_word bs)"

definition word_le :: "u64 \<Rightarrow> byte list" where
  "word_le w = map (\<lambda>i. ucast (drop_bit (8 * i) w)) [0..<8]"

definition bytes_block :: "byte list \<Rightarrow> tiger_block" where
  "bytes_block bs =
     (le_word (take 8 bs), le_word (take 8 (drop 8 bs)), le_word (take 8 (drop 16 bs)),
      le_word (take 8 (drop 24 bs)), le_word (take 8 (drop 32 bs)), le_word (take 8 (drop 40 bs)),
      le_word (take 8 (drop 48 bs)), le_word (take 8 (drop 56 bs)))"

definition tigerCompress :: "byte list \<Rightarrow> tiger_words \<Rightarrow> tiger_words" where
  "tigerCompress str state = tiger_compress (bytes_block str) state"

text \<open>The loop of \<open>update\<close> over whole blocks: \<open>(res, pos, rest of the data)\<close>.\<close>

function tiger_bulk :: "tiger_words \<Rightarrow> u64 \<Rightarrow> byte list \<Rightarrow> tiger_words \<times> u64 \<times> byte list" where
  "tiger_bulk res pos str =
     (if TIGER_BLOCK_SIZE \<le> length str then
        tiger_bulk (tigerCompress (take TIGER_BLOCK_SIZE str) res) (pos + 64)
          (drop TIGER_BLOCK_SIZE str)
      else (res, pos, str))"
  by pat_completeness auto
termination
  by (relation "measure (\<lambda>(_, _, str). length str)") (auto simp: TIGER_BLOCK_SIZE_def)

declare tiger_bulk.simps [simp del]

definition tiger_update :: "tiger \<Rightarrow> byte list \<Rightarrow> tiger" where
  "tiger_update t data =
     (let tmppos = unat (tg_pos t AND 63);
          n = min (length data) (TIGER_BLOCK_SIZE - tmppos);
          (tmp, res, pos, str) =
            (if 0 < tmppos then
               let tmp = memcpy_at tmppos (take n data) (tg_tmp t);
                   res = (if tmppos + n = TIGER_BLOCK_SIZE then tigerCompress tmp (tg_res t)
                          else tg_res t)
               in (tmp, res, tg_pos t + of_nat n, drop n data)
             else (tg_tmp t, tg_res t, tg_pos t, data));
          (res, pos, str) = tiger_bulk res pos str
      in \<lparr>tg_tmp = memcpy_at 0 str tmp, tg_res = res, tg_pos = pos + of_nat (length str)\<rparr>)"

fun words_bytes :: "tiger_words \<Rightarrow> byte list" where
  "words_bytes (a, b, c) = word_le a @ word_le b @ word_le c"

definition tiger_finalize :: "tiger \<Rightarrow> byte list" where
  "tiger_finalize t =
     (let tmppos = unat (tg_pos t AND 63);
          tmp = (tg_tmp t)[tmppos := 0x01];
          tmppos = tmppos + 1;
          (tmp, res) =
            (if TIGER_BLOCK_SIZE - 8 < tmppos then
               let tmp = memcpy_at tmppos (replicate (TIGER_BLOCK_SIZE - tmppos) 0) tmp
               in (replicate TIGER_BLOCK_SIZE 0, tigerCompress tmp (tg_res t))
             else
               (memcpy_at tmppos (replicate (TIGER_BLOCK_SIZE - tmppos - 8) 0) tmp, tg_res t));
          tmp = memcpy_at 56 (word_le (push_bit 3 (tg_pos t))) tmp
      in words_bytes (tigerCompress tmp res))"

text \<open>\<open>Hasher h; h.update(data); h.finalize()\<close> as one function of the data.\<close>

definition tiger_digest :: "byte list \<Rightarrow> byte list" where
  "tiger_digest data = tiger_finalize (tiger_update (tiger_new (replicate 64 0)) data)"


section \<open>Reference: absorbing a padded message\<close>

definition tiger_iv :: tiger_words where
  "tiger_iv = (0x0123456789ABCDEF, 0xFEDCBA9876543210, 0xF096A5B4C3B2E187)"

function tiger_absorb :: "tiger_words \<Rightarrow> byte list \<Rightarrow> tiger_words" where
  "tiger_absorb res m =
     (if 64 \<le> length m then tiger_absorb (tigerCompress (take 64 m) res) (drop 64 m) else res)"
  by pat_completeness auto
termination
  by (relation "measure (\<lambda>(_, m). length m)") auto

declare tiger_absorb.simps [simp del]

definition tiger_pad :: "byte list \<Rightarrow> byte list" where
  "tiger_pad m = m @ [1] @ replicate ((119 - length m mod 64) mod 64) 0
     @ word_le (push_bit 3 (of_nat (length m)))"

definition tiger_spec :: "byte list \<Rightarrow> byte list" where
  "tiger_spec m = words_bytes (tiger_absorb tiger_iv (tiger_pad m))"

lemma tiger_absorb_short: "length m < 64 \<Longrightarrow> tiger_absorb res m = res"
  by (simp add: tiger_absorb.simps)

lemma tiger_absorb_block:
  "length b = 64 \<Longrightarrow> tiger_absorb res (b @ m) = tiger_absorb (tigerCompress b res) m"
  by (simp add: tiger_absorb.simps [of res "b @ m"])

lemma tiger_absorb_append:
  "length p mod 64 = 0 \<Longrightarrow> tiger_absorb res (p @ m) = tiger_absorb (tiger_absorb res p) m"
proof (induction res p rule: tiger_absorb.induct)
  case (1 res p)
  show ?case
  proof (cases "64 \<le> length p")
    case True
    then have "length (drop 64 p) mod 64 = 0"
      using 1(2) by (simp add: mod_if)
    with True 1(1) have "tiger_absorb (tigerCompress (take 64 p) res) (drop 64 p @ m)
        = tiger_absorb (tiger_absorb (tigerCompress (take 64 p) res) (drop 64 p)) m" by simp
    with True show ?thesis
      by (simp add: tiger_absorb.simps [of res "p @ m"] tiger_absorb.simps [of res p])
  next
    case False
    with 1(2) have "p = []" by simp
    then show ?thesis by (simp add: tiger_absorb_short)
  qed
qed

lemma tiger_bulk_eq:
  "tiger_bulk res pos m =
     (tiger_absorb res m, pos + of_nat (64 * (length m div 64)), drop (64 * (length m div 64)) m)"
proof (induction res pos m rule: tiger_bulk.induct)
  case (1 res pos m)
  show ?case
  proof (cases "64 \<le> length m")
    case True
    then obtain k where k: "length m = 64 + k" using le_Suc_ex by blast
    have "length m div 64 = Suc (length (drop 64 m) div 64)"
      using k by simp
    with True 1 show ?thesis
      by (simp add: tiger_bulk.simps [of res pos m] tiger_absorb.simps [of res m]
          TIGER_BLOCK_SIZE_def algebra_simps)
  next
    case False
    then show ?thesis
      by (simp add: tiger_bulk.simps [of res pos m] tiger_absorb_short TIGER_BLOCK_SIZE_def)
  qed
qed

section \<open>The hasher's invariant\<close>

definition msg_tail :: "byte list \<Rightarrow> byte list" where
  "msg_tail m = drop (64 * (length m div 64)) m"

definition tiger_inv :: "tiger \<Rightarrow> byte list \<Rightarrow> bool" where
  "tiger_inv t m \<longleftrightarrow>
     length (tg_tmp t) = 64 \<and> tg_pos t = of_nat (length m) \<and>
     tg_res t = tiger_absorb tiger_iv m \<and>
     take (length m mod 64) (tg_tmp t) = msg_tail m"

lemma msg_split:
  obtains p where "m = p @ msg_tail m" and "length p mod 64 = 0"
    and "length (msg_tail m) = length m mod 64"
proof
  show "m = take (64 * (length m div 64)) m @ msg_tail m" by (simp add: msg_tail_def)
  show "length (take (64 * (length m div 64)) m) mod 64 = 0"
    by (simp add: min.absorb2)
  show "length (msg_tail m) = length m mod 64"
    by (simp add: msg_tail_def minus_mult_div_eq_mod)
qed

lemma msg_tail_append:
  "length p mod 64 = 0 \<Longrightarrow> msg_tail (p @ m) = msg_tail m"
proof -
  assume "length p mod 64 = 0"
  then obtain k where k: "length p = 64 * k" by (metis mod_0_imp_dvd dvdE)
  then show ?thesis by (simp add: msg_tail_def)
qed

lemma msg_tail_short: "length m < 64 \<Longrightarrow> msg_tail m = m"
  by (simp add: msg_tail_def)

lemma pos_and_63: "unat ((of_nat n :: u64) AND 63) = n mod 64"
proof -
  have "(of_nat n :: u64) AND 63 = take_bit 6 (of_nat n)"
    by (simp add: take_bit_eq_mask mask_eq_exp_minus_1)
  moreover have "unat (take_bit 6 (of_nat n :: u64)) = take_bit 6 (take_bit 64 n)"
    by (simp only: unsigned_take_bit_eq unsigned_of_nat) simp
  ultimately show ?thesis
    by (simp only: take_bit_take_bit) (simp add: take_bit_eq_mod)
qed

lemma tiger_inv_new: "length g = 64 \<Longrightarrow> tiger_inv (tiger_new g) []"
  by (simp add: tiger_inv_def tiger_new_def tiger_absorb_short tiger_iv_def msg_tail_def)

lemma memcpy_at_props [simp]:
  "off + length bs \<le> length dst \<Longrightarrow> length (memcpy_at off bs dst) = length dst"
  "off + length bs \<le> length dst \<Longrightarrow>
     take (off + length bs) (memcpy_at off bs dst) = take off dst @ bs"
  "memcpy_at 0 [] dst = dst"
  by (auto simp: memcpy_at_def min_def simp flip: length_greater_0_conv)

lemma tiger_inv_finish:
  assumes "length tmp = 64" and "pos = of_nat (length p)" and "length p mod 64 = 0"
    and "res = tiger_absorb tiger_iv p" and "tiger_bulk res pos str = (res', pos', str')"
  shows "tiger_inv \<lparr>tg_tmp = memcpy_at 0 str' tmp, tg_res = res',
            tg_pos = pos' + of_nat (length str')\<rparr> (p @ str)"
proof -
  have str': "str' = msg_tail str" "res' = tiger_absorb res str"
    "pos' = pos + of_nat (64 * (length str div 64))"
    using assms(5) by (auto simp: tiger_bulk_eq msg_tail_def)
  have len: "length str' = length str mod 64"
    by (simp add: str'(1) msg_tail_def minus_mult_div_eq_mod)
  have lt: "length str' < 64" by (simp add: len)
  have pos: "pos' + of_nat (length str') = (of_nat (length (p @ str)) :: u64)"
  proof -
    have "length str = 64 * (length str div 64) + length str'" by (simp add: len)
    then have "(of_nat (length str) :: u64) = of_nat (64 * (length str div 64)) + of_nat (length str')"
      by (metis of_nat_add)
    then show ?thesis by (simp add: str'(3) assms(2))
  qed
  have k: "length (p @ str) mod 64 = length str'"
    using assms(3) by (simp add: len mod_add_left_eq [symmetric])
  have "take (length str') (memcpy_at 0 str' tmp) = str'"
    by (simp add: memcpy_at_def)
  moreover have "msg_tail (p @ str) = str'"
    using assms(3) by (simp add: msg_tail_append str'(1))
  moreover have "length (memcpy_at 0 str' tmp) = 64"
    using lt assms(1) by simp
  ultimately show ?thesis
    using pos k str'(2) assms(3,4) by (simp add: tiger_inv_def tiger_absorb_append)
qed

lemma tiger_inv_update:
  assumes "tiger_inv t m"
  shows "tiger_inv (tiger_update t d) (m @ d)"
proof -
  obtain p where p: "m = p @ msg_tail m" "length p mod 64 = 0"
    and lt: "length (msg_tail m) = length m mod 64" by (rule msg_split)
  define k where "k = length m mod 64"
  have k: "unat (tg_pos t AND 63) = k" "k < 64"
    using assms by (simp_all add: tiger_inv_def pos_and_63 k_def)
  have tail: "take k (tg_tmp t) = msg_tail m" and len: "length (tg_tmp t) = 64"
    and pos: "tg_pos t = of_nat (length m)" and res: "tg_res t = tiger_absorb tiger_iv m"
    using assms by (simp_all add: tiger_inv_def k_def)
  show ?thesis
  proof (cases "k = 0")
    case True
    obtain res' pos' str' where b: "tiger_bulk (tg_res t) (tg_pos t) d = (res', pos', str')"
      by (cases "tiger_bulk (tg_res t) (tg_pos t) d")
    have "length m mod 64 = 0" using True k_def by simp
    from tiger_inv_finish [OF len pos this res b] show ?thesis
      using True k by (simp add: tiger_update_def Let_def b)
  next
    case False
    let ?n = "min (length d) (64 - k)"
    let ?tmp = "memcpy_at k (take ?n d) (tg_tmp t)"
    have lenT: "length ?tmp = 64" using len k(2) by simp
    show ?thesis
    proof (cases "length d < 64 - k")
      case short: True
      have "tiger_bulk (tg_res t) (tg_pos t + of_nat (length d)) [] =
          (tg_res t, tg_pos t + of_nat (length d), [])"
        by (simp add: tiger_bulk_eq tiger_absorb_short)
      then have u: "tiger_update t d =
          \<lparr>tg_tmp = ?tmp, tg_res = tg_res t, tg_pos = tg_pos t + of_nat (length d)\<rparr>"
        using short False k(1) by (simp add: tiger_update_def Let_def TIGER_BLOCK_SIZE_def)
      have sum: "length (m @ d) mod 64 = k + length d"
        using short k_def by (simp add: mod_add_left_eq [symmetric, of "length m"])
      have tl: "msg_tail (m @ d) = msg_tail m @ d"
      proof -
        have "msg_tail (p @ (msg_tail m @ d)) = msg_tail m @ d"
          using lt short k_def by (simp add: msg_tail_append [OF p(2)] msg_tail_short)
        then show ?thesis using p(1) by (metis append_assoc)
      qed
      have ab: "tiger_absorb tiger_iv (m @ d) = tiger_absorb tiger_iv m"
      proof -
        have "tiger_absorb tiger_iv (p @ (msg_tail m @ d)) = tiger_absorb tiger_iv p"
          using p(2) lt short k_def by (subst tiger_absorb_append) (simp_all add: tiger_absorb_short)
        moreover have "tiger_absorb tiger_iv (p @ msg_tail m) = tiger_absorb tiger_iv p"
          using p(2) lt k(2) k_def by (subst tiger_absorb_append) (simp_all add: tiger_absorb_short)
        ultimately show ?thesis using p(1) by (metis append_assoc)
      qed
      have "take (k + length d) ?tmp = msg_tail m @ d"
        using short len k(2) tail lt k_def by (simp add: memcpy_at_def min_def)
      then show ?thesis
        using u sum tl ab lenT pos res by (simp add: tiger_inv_def)
    next
      case long: False
      then have n: "?n = 64 - k" by simp
      let ?b = "msg_tail m @ take (64 - k) d"
      have tmp: "?tmp = ?b"
        using n len k(2) tail long by (simp add: memcpy_at_def)
      have lb: "length ?b = 64" using lt k_def k(2) long by simp
      define q where "q = p @ ?b"
      have q: "q @ drop (64 - k) d = m @ d" using p(1) q_def by (metis append_assoc append_take_drop_id)
      have lq: "length q mod 64 = 0" using p(2) lb by (simp add: q_def mod_add_left_eq [symmetric])
      have "tiger_absorb tiger_iv m = tiger_absorb tiger_iv p"
        using p lt k(2) k_def tiger_absorb_append [OF p(2), of tiger_iv "msg_tail m"]
        by (simp add: tiger_absorb_short)
      then have rq: "tigerCompress ?b (tg_res t) = tiger_absorb tiger_iv q"
        using p(2) lb tiger_absorb_block [OF lb, of "tiger_absorb tiger_iv p" "[]"]
        by (simp add: q_def tiger_absorb_append res tiger_absorb_short)
      have lenq: "length q = length m + (64 - k)"
        using arg_cong [OF q, of length] long by simp
      have pq: "tg_pos t + of_nat (64 - k) = (of_nat (length q) :: u64)"
        by (simp add: pos lenq)
      obtain res' pos' str' where b:
        "tiger_bulk (tigerCompress ?b (tg_res t)) (tg_pos t + of_nat (64 - k)) (drop (64 - k) d)
          = (res', pos', str')"
        by (cases "tiger_bulk (tigerCompress ?b (tg_res t)) (tg_pos t + of_nat (64 - k)) (drop (64 - k) d)")
      have u: "tiger_update t d = \<lparr>tg_tmp = memcpy_at 0 str' ?tmp, tg_res = res',
            tg_pos = pos' + of_nat (length str')\<rparr>"
        using False k n b tmp by (simp add: tiger_update_def Let_def TIGER_BLOCK_SIZE_def)
      show ?thesis
        using tiger_inv_finish [OF lenT pq lq rq b] u q by simp
    qed
  qed
qed

section \<open>Finalising\<close>

lemma length_word_le [simp]: "length (word_le w) = 8"
  by (simp add: word_le_def)

lemma tiger_finalize_inv:
  assumes "tiger_inv t m"
  shows "tiger_finalize t = tiger_spec m"
proof -
  obtain p where p: "m = p @ msg_tail m" "length p mod 64 = 0"
    and lt: "length (msg_tail m) = length m mod 64" by (rule msg_split)
  define k where "k = length m mod 64"
  let ?len = "word_le (push_bit 3 (of_nat (length m)))"
  let ?z = "(119 - k) mod 64"
  have k: "unat (tg_pos t AND 63) = k" "k < 64" "length (msg_tail m) = k"
    using assms lt by (simp_all add: tiger_inv_def pos_and_63 k_def)
  have tail: "take k (tg_tmp t) = msg_tail m" and len: "length (tg_tmp t) = 64"
    and pos: "tg_pos t = of_nat (length m)"
    using assms by (simp_all add: tiger_inv_def k_def)
  have "tiger_absorb tiger_iv m = tiger_absorb tiger_iv p"
    using p k(2,3) tiger_absorb_append [OF p(2), of tiger_iv "msg_tail m"]
    by (simp add: tiger_absorb_short)
  then have res: "tg_res t = tiger_absorb tiger_iv p"
    using assms by (simp add: tiger_inv_def)
  have spec: "tiger_spec m = words_bytes
      (tiger_absorb (tg_res t) (msg_tail m @ [1] @ replicate ?z 0 @ ?len))"
    using p(1) tiger_absorb_append [OF p(2), of tiger_iv "msg_tail m @ [1] @ replicate ?z 0 @ ?len"]
    by (metis tiger_spec_def tiger_pad_def append_assoc k_def res)
  have one: "(tg_tmp t)[k := 1] = msg_tail m @ [1] @ drop (Suc k) (tg_tmp t)"
    using tail len k(2) by (metis append_Cons append_Nil upd_conv_take_nth_drop)
  show ?thesis
  proof (cases "56 < k + 1")
    case True
    let ?b = "msg_tail m @ [1] @ replicate (63 - k) 0"
    let ?c = "replicate 56 0 @ ?len"
    have "?z = (63 - k) + 56" using True k(2) by simp
    then have "replicate ?z (0 :: byte) = replicate (63 - k) 0 @ replicate 56 0"
      by (simp only: replicate_add)
    then have "msg_tail m @ [1] @ replicate ?z 0 @ ?len = ?b @ ?c @ []"
      by simp
    moreover have "tiger_absorb (tg_res t) (?b @ ?c @ []) = tigerCompress ?c (tigerCompress ?b (tg_res t))"
    proof -
      have "length ?b = 64" "length ?c = 64" using k by simp_all
      then show ?thesis by (simp only: tiger_absorb_block) (simp add: tiger_absorb_short)
    qed
    ultimately have "tiger_spec m = words_bytes (tigerCompress ?c (tigerCompress ?b (tg_res t)))"
      unfolding spec by simp
    moreover have "memcpy_at (k + 1) (replicate (64 - (k + 1)) 0) ((tg_tmp t)[k := 1]) = ?b"
      using k len unfolding one by (simp add: memcpy_at_def)
    moreover have "memcpy_at 56 ?len (replicate 64 0) = ?c"
      by (simp add: memcpy_at_def)
    ultimately show ?thesis
      using True k pos by (simp add: tiger_finalize_def Let_def TIGER_BLOCK_SIZE_def)
  next
    case False
    let ?b = "msg_tail m @ [1] @ replicate (55 - k) 0"
    have z: "?z = 55 - k"
    proof -
      have "119 - k = (55 - k) + 64" using False by simp
      then have "(119 - k) mod 64 = (55 - k) mod 64" by (simp only: mod_add_self2)
      then show ?thesis by simp
    qed
    have "tiger_spec m = words_bytes (tigerCompress (?b @ ?len) (tg_res t))"
      unfolding spec z using False k tiger_absorb_block [of "?b @ ?len" "tg_res t" "[]"]
      by (simp add: tiger_absorb_short)
    moreover have "memcpy_at (k + 1) (replicate (64 - (k + 1) - 8) 0) ((tg_tmp t)[k := 1])
        = ?b @ drop 56 (tg_tmp t)"
    proof -
      have "take (k + 1) ((tg_tmp t)[k := 1]) = msg_tail m @ [1]"
        using k unfolding one by simp
      moreover have "drop 56 ((tg_tmp t)[k := 1]) = drop 56 (tg_tmp t)"
        using False by (simp add: drop_update_cancel)
      moreover have "k + 1 + length (replicate (64 - (k + 1) - 8) (0 :: byte)) = 56"
        "64 - (k + 1) - 8 = 55 - k"
        using False by simp_all
      ultimately show ?thesis unfolding memcpy_at_def by (simp only: append_assoc)
    qed
    moreover have "memcpy_at 56 ?len (?b @ drop 56 (tg_tmp t)) = ?b @ ?len"
    proof -
      have lb: "56 = length ?b" using False k by simp
      have "take 56 (?b @ drop 56 (tg_tmp t)) = ?b"
        using lb by (metis append_eq_conv_conj)
      moreover have "drop (56 + length ?len) (?b @ drop 56 (tg_tmp t)) = []"
        using lb len by simp
      ultimately show ?thesis unfolding memcpy_at_def by (simp only: append_Nil2)
    qed
    ultimately show ?thesis
      using False k pos by (simp add: tiger_finalize_def Let_def TIGER_BLOCK_SIZE_def)
  qed
qed

lemma tiger_inv_chunks:
  "tiger_inv t m \<Longrightarrow> tiger_inv (foldl tiger_update t chunks) (m @ concat chunks)"
proof (induction chunks arbitrary: t m)
  case (Cons c chunks)
  then show ?case using tiger_inv_update [of t m c] by (metis append_assoc concat.simps(2) foldl_Cons)
qed simp

lemma tiger_digest_eq_spec: "tiger_digest m = tiger_spec m"
  using tiger_finalize_inv [OF tiger_inv_update [OF tiger_inv_new, of "replicate 64 0" m]]
  by (simp add: tiger_digest_def)

lemma length_tiger_digest: "length (tiger_digest m) = 24"
  by (cases "tiger_absorb tiger_iv (tiger_pad m)") (simp add: tiger_digest_eq_spec tiger_spec_def)

section \<open>Properties\<close>

text \<open>
  C2: a hasher computes the same digest however its input is divided into calls of \<open>update\<close> and
  whatever its uninitialised buffer holds: the words of the padded whole message absorbed block
  by block from the initial value.
\<close>

theorem tiger_streaming:
  assumes "length garbage = 64"
  shows "tiger_finalize (foldl tiger_update (tiger_new garbage) parts) = tiger_spec (concat parts)"
  using tiger_finalize_inv [OF tiger_inv_chunks [OF tiger_inv_new [OF assms]], of parts] by simp

theorem tiger_streaming_witness:
  "tiger_finalize (foldl tiger_update (tiger_new (replicate 64 9)) [[1, 2], [], [3]])
     = tiger_spec [1, 2, 3]"
  using tiger_streaming [of "replicate 64 9" "[[1, 2], [], [3]]"] by simp

text \<open>
  C3: the compression function written for 64-bit processors and the portable one, which reads the
  bytes through 32-bit halves and rotates the words in a loop, are the same function.
\<close>

theorem tiger_variants_agree: "tiger_compress_portable x abc = tiger_compress x abc"
  by (rule tiger_compress_portable_eq)

end
