(* ===== verification/Tiger_Test.thy ===== *)
theory Tiger_Test
  imports Tiger
begin

unbundle bit_operations_syntax

text \<open>
  A published test vector computed inside the kernel, from the tables upwards: the Tiger digest of
  the one byte 0, which is the tree hash of the empty file.  It pins the transcription of the four
  S-boxes, of the macros and of the padding to the numbers the network uses.
\<close>

section \<open>Evaluating the compression function\<close>

text \<open>
  Let-free equations for evaluation inside the kernel: each assignment of the macros becomes the
  application of a function to values.
\<close>

definition ev_round :: "u64 \<Rightarrow> u64 \<Rightarrow> u64 \<Rightarrow> u64 \<Rightarrow> tiger_words" where
  "ev_round a b c mul =
     (b + (tiger_t4 ! tiger_byte 1 c XOR tiger_t3 ! tiger_byte 3 c
           XOR tiger_t2 ! tiger_byte 5 c XOR tiger_t1 ! tiger_byte 7 c),
      c, a - (tiger_t1 ! tiger_byte 0 c XOR tiger_t2 ! tiger_byte 2 c
           XOR tiger_t3 ! tiger_byte 4 c XOR tiger_t4 ! tiger_byte 6 c))"

fun ev_mul :: "u64 \<Rightarrow> tiger_words \<Rightarrow> tiger_words" where
  "ev_mul mul (b, c, a) = (b * mul, c, a)"

fun ev_rounds :: "u64 \<Rightarrow> u64 list \<Rightarrow> tiger_words \<Rightarrow> tiger_words" where
  "ev_rounds mul [] abc = abc"
| "ev_rounds mul (x # xs) (a, b, c) = ev_rounds mul xs (ev_mul mul (ev_round a b (c XOR x) mul))"

fun ev_unrotate :: "tiger_words \<Rightarrow> tiger_words" where
  "ev_unrotate (c, a, b) = (a, b, c)"

lemma tiger_round_ev: "ev_mul mul (ev_round a b (c XOR x) mul)
    = (let (a, b, c) = tiger_round a b c x mul in (b, c, a))"
  by (simp add: ev_round_def tiger_round_def Let_def)

lemma tiger_pass_ev:
  "tiger_pass a b c mul (x0, x1, x2, x3, x4, x5, x6, x7)
     = ev_unrotate (ev_rounds mul [x0, x1, x2, x3, x4, x5, x6, x7] (a, b, c))"
  by (simp add: tiger_pass_def tiger_round_ev split: prod.split)

lemma test_pass_1:
  "tiger_pass 0x123456789abcdef 0xfedcba9876543210 0xf096a5b4c3b2e187 5
     (0x100, 0x0, 0x0, 0x0, 0x0, 0x0, 0x0, 0x8)
   = (0x4514ce5d406e0186, 0xe2e15b32d34f3e72, 0xeb51280ed0b8c59b)"
  unfolding tiger_pass_ev by code_simp

lemma test_key_1:
  "tiger_key_schedule (0x100, 0x0, 0x0, 0x0, 0x0, 0x0, 0x0, 0x8)
   = (0xd1d1d1f3ec2f10f8, 0xc777b9b09b5b4a5b, 0x9d2de3eac1011108, 0x25b66c7341c6b5b5, 0x62d21bd19ac704e5, 0xea5a93591a02a048, 0x61d20af2abd755f5, 0x168628046f581d8b)"
  by code_simp

lemma test_pass_2:
  "tiger_pass 0xeb51280ed0b8c59b 0x4514ce5d406e0186 0xe2e15b32d34f3e72 7
     (0xd1d1d1f3ec2f10f8, 0xc777b9b09b5b4a5b, 0x9d2de3eac1011108, 0x25b66c7341c6b5b5, 0x62d21bd19ac704e5, 0xea5a93591a02a048, 0x61d20af2abd755f5, 0x168628046f581d8b)
   = (0xa9967e49483e47a7, 0x1930e9229645c97a, 0xc3db9fafac2471bc)"
  unfolding tiger_pass_ev by code_simp

lemma test_key_2:
  "tiger_key_schedule (0xd1d1d1f3ec2f10f8, 0xc777b9b09b5b4a5b, 0x9d2de3eac1011108, 0x25b66c7341c6b5b5, 0x62d21bd19ac704e5, 0xea5a93591a02a048, 0x61d20af2abd755f5, 0x168628046f581d8b)
   = (0xad891ef114976a50, 0x535883a4530aa841, 0x245f626928618bd8, 0xe228017a5a0d1df4, 0xfcf283f39036669e, 0x35879bea555951df, 0xcde48e84f1975dec, 0xc2130ebb7b298183)"
  by code_simp

lemma test_pass_3:
  "tiger_pass 0xc3db9fafac2471bc 0xa9967e49483e47a7 0x1930e9229645c97a 9
     (0xad891ef114976a50, 0x535883a4530aa841, 0x245f626928618bd8, 0xe228017a5a0d1df4, 0xfcf283f39036669e, 0x35879bea555951df, 0xcde48e84f1975dec, 0xc2130ebb7b298183)
   = (0xd6db5bce08ea7eb, 0xc58ec68a240581d3, 0x8a404b64837b53b2)"
  unfolding tiger_pass_ev by code_simp

lemma test_block: "bytes_block (0 # 1 # replicate 54 0 @ [8, 0, 0, 0, 0, 0, 0, 0]) = (0x100, 0x0, 0x0, 0x0, 0x0, 0x0, 0x0, 0x8)"
  by code_simp

lemma test_compress:
  "tiger_compress (0x100, 0x0, 0x0, 0x0, 0x0, 0x0, 0x0, 0x8) tiger_iv
   = (0x8b630e030ad09e5d, 0xe90fb246a3a75db, 0xb6256c3ee7b8635a)"
  unfolding tiger_compress_def tiger_iv_def Let_def prod.case
    test_pass_1 test_key_1 test_pass_2 test_key_2 test_pass_3
  by code_simp

lemma tiger_digest_zero:
  "tiger_digest [0] = [93, 158, 208, 10, 3, 14, 99, 139, 219, 117, 58, 106, 36, 251, 144, 14, 90, 99, 184, 231, 62, 108, 37, 182]"
proof -
  have pad: "tiger_pad [0] = 0 # 1 # replicate 54 0 @ [8, 0, 0, 0, 0, 0, 0, 0]"
    by code_simp
  have len: "length (tiger_pad [0]) = 64"
    unfolding pad by simp
  have nil: "tiger_absorb res [] = res" for res
    by (rule tiger_absorb_short) simp
  have absorb: "tiger_absorb tiger_iv (tiger_pad [0]) = tigerCompress (tiger_pad [0]) tiger_iv"
    using tiger_absorb_block [OF len, of tiger_iv "[]"] unfolding append_Nil2 nil .
  show ?thesis
    unfolding tiger_digest_eq_spec tiger_spec_def absorb
    unfolding tigerCompress_def pad test_block test_compress
    by code_simp
qed

end
