(* ===== verification/Merkle_Verify.thy ===== *)
theory Merkle_Verify
  imports Merkle_Check Tiger_Test
begin

text \<open>
  What the tree hash and the verifying stream guarantee: the locale \<open>fixed_digest\<close> (digests of a fixed
  length), its binding lemma and its interpretation on the Tiger digest; the effect of the final
  \<open>flushBuffers\<close>; block sizes; the stream of leaves; the properties of the whole component.
\<close>

section \<open>The hasher interface\<close>

text \<open>
  What the tree needs of a hash function: digests of a fixed length.  Under it the tree hash binds
  the data: two files of the same size with the same root are equal or exhibit two different
  inputs of the hash function with the same digest, both among the inputs hashed for the trees.
\<close>

function tree_inputs :: "hasher \<Rightarrow> hash_value list \<Rightarrow> byte list list" where
  "tree_inputs H xs =
     (if length xs \<le> 1 then []
      else let k = pow2_below 1 (length xs)
           in ([1] @ tree_hash H (take k xs) @ tree_hash H (drop k xs))
                # tree_inputs H (take k xs) @ tree_inputs H (drop k xs))"
  by pat_completeness auto
termination
proof (relation "measure (\<lambda>(_, xs). length xs)", goal_cases)
  case (2 H xs k)
  then show ?case using pow2_below_bounds [of 1 "length xs"] by simp
next
  case (3 H xs k)
  then show ?case using pow2_below_bounds [of 1 "length xs"] by simp arith
qed simp

declare tree_inputs.simps [simp del]

definition file_inputs :: "hasher \<Rightarrow> nat \<Rightarrow> byte list \<Rightarrow> byte list list" where
  "file_inputs H base m =
     map (\<lambda>b. [0] @ b) (chunks base m) @ tree_inputs H (map (leaf_hash H) (chunks base m))"

definition file_root :: "hasher \<Rightarrow> nat \<Rightarrow> byte list \<Rightarrow> hash_value" where
  "file_root H base m = tree_hash H (map (leaf_hash H) (chunks base m))"

definition collides :: "hasher \<Rightarrow> byte list list \<Rightarrow> byte list list \<Rightarrow> bool" where
  "collides H as bs \<longleftrightarrow> list_ex (\<lambda>a. list_ex (\<lambda>b. a \<noteq> b \<and> H a = H b) bs) as"

lemma collides_iff: "collides H as bs \<longleftrightarrow> (\<exists>a\<in>set as. \<exists>b\<in>set bs. a \<noteq> b \<and> H a = H b)"
  by (simp add: collides_def list_ex_iff)

lemma concat_chunks: "concat (chunks n m) = m"
proof (induction n m rule: chunks.induct)
  case (1 n m)
  then show ?case by (cases "n = 0 \<or> length m \<le> n") (auto simp: chunks.simps [of n m])
qed

lemma chunks_same_length:
  "length m = length m' \<Longrightarrow> length (chunks n m) = length (chunks n m')"
proof (induction n m arbitrary: m' rule: chunks.induct)
  case (1 n m)
  show ?case
  proof (cases "n = 0 \<or> length m \<le> n")
    case False
    then have "length (chunks n (drop n m)) = length (chunks n (drop n m'))"
      using 1(2) by (intro 1(1)) auto
    then show ?thesis
      using False 1(2) by (simp add: chunks.simps [of n m] chunks.simps [of n m'])
  qed (use 1 in \<open>simp add: chunks.simps [of n m] chunks.simps [of n m']\<close>)
qed

locale fixed_digest =
  fixes H :: hasher and n :: nat
  assumes digest_length: "length (H x) = n"
begin

lemma tree_hash_length: "xs \<noteq> [] \<Longrightarrow> (\<And>x. x \<in> set xs \<Longrightarrow> length x = n) \<Longrightarrow> length (tree_hash H xs) = n"
  by (cases "length xs \<le> 1")
    (auto simp: tree_hash.simps [of H xs] Let_def combine_def digest_length)

lemma tree_binds:
  "length xs = length ys \<Longrightarrow> xs \<noteq> [] \<Longrightarrow> (\<And>x. x \<in> set xs \<union> set ys \<Longrightarrow> length x = n) \<Longrightarrow>
   tree_hash H xs = tree_hash H ys \<Longrightarrow> xs = ys \<or> collides H (tree_inputs H xs) (tree_inputs H ys)"
proof (induction "length xs" arbitrary: xs ys rule: less_induct)
  case less
  show ?case
  proof (cases "length xs \<le> 1")
    case True
    with less.prems(1,2) obtain x y where "xs = [x]" "ys = [y]"
      by (cases xs; cases ys) auto
    with less.prems(4) show ?thesis by simp
  next
    case False
    let ?k = "pow2_below 1 (length xs)"
    let ?a = "[1] @ tree_hash H (take ?k xs) @ tree_hash H (drop ?k xs)"
    let ?b = "[1] @ tree_hash H (take ?k ys) @ tree_hash H (drop ?k ys)"
    have k: "1 \<le> ?k" "?k < length xs" using pow2_below_bounds [of 1 "length xs"] False by auto
    have ne: "take ?k xs \<noteq> []" "drop ?k xs \<noteq> []" "take ?k ys \<noteq> []" "drop ?k ys \<noteq> []"
      using k less.prems(1,2) by (auto simp flip: length_greater_0_conv)
    have "H ?a = H ?b"
      using less.prems(1,4) False
      by (simp add: tree_hash.simps [of H xs] tree_hash.simps [of H ys] Let_def combine_def)
    have ia: "tree_inputs H xs = ?a # tree_inputs H (take ?k xs) @ tree_inputs H (drop ?k xs)"
      using False by (simp add: tree_inputs.simps [of H xs] Let_def)
    have ib: "tree_inputs H ys = ?b # tree_inputs H (take ?k ys) @ tree_inputs H (drop ?k ys)"
      using False less.prems(1) by (simp add: tree_inputs.simps [of H ys] Let_def)
    show ?thesis
    proof (cases "?a = ?b")
      case False
      then show ?thesis unfolding ia ib collides_iff using \<open>H ?a = H ?b\<close> by auto
    next
      case True
      have lens: "x \<in> set (take ?k xs) \<union> set (take ?k ys) \<Longrightarrow> length x = n"
        "x \<in> set (drop ?k xs) \<union> set (drop ?k ys) \<Longrightarrow> length x = n" for x
        using less.prems(3) by (blast dest: in_set_takeD in_set_dropD)+
      have "length (tree_hash H (take ?k xs)) = n" "length (tree_hash H (take ?k ys)) = n"
        using ne lens(1) by (blast intro: tree_hash_length)+
      then have l: "tree_hash H (take ?k xs) = tree_hash H (take ?k ys)"
        and r: "tree_hash H (drop ?k xs) = tree_hash H (drop ?k ys)"
        using True by auto
      have "take ?k xs = take ?k ys
          \<or> collides H (tree_inputs H (take ?k xs)) (tree_inputs H (take ?k ys))"
        by (rule less.hyps [OF _ _ _ lens(1) l]) (use ne k less.prems(1) in auto)
      moreover have "drop ?k xs = drop ?k ys
          \<or> collides H (tree_inputs H (drop ?k xs)) (tree_inputs H (drop ?k ys))"
        by (rule less.hyps [OF _ _ _ lens(2) r]) (use ne k less.prems(1) in auto)
      ultimately show ?thesis
        unfolding ia ib collides_iff by (auto, metis append_take_drop_id)
    qed
  qed
qed

lemma file_binds:
  assumes "length m = length m'" and "file_root H base m = file_root H base m'"
  shows "m = m' \<or> collides H (file_inputs H base m) (file_inputs H base m')"
proof -
  let ?c = "chunks base m" and ?c' = "chunks base m'"
  have len: "length ?c = length ?c'" using chunks_same_length assms(1) by blast
  have "map (leaf_hash H) ?c \<noteq> []" by (simp add: chunks.simps [of base m])
  moreover have "x \<in> set (map (leaf_hash H) ?c) \<union> set (map (leaf_hash H) ?c') \<Longrightarrow> length x = n" for x
    by (auto simp: leaf_hash_def digest_length)
  ultimately consider "map (leaf_hash H) ?c = map (leaf_hash H) ?c'"
    | "collides H (tree_inputs H (map (leaf_hash H) ?c)) (tree_inputs H (map (leaf_hash H) ?c'))"
    using tree_binds [of "map (leaf_hash H) ?c" "map (leaf_hash H) ?c'"] assms(2) len
    unfolding file_root_def by (metis length_map)
  then show ?thesis
  proof cases
    case 1
    show ?thesis
    proof (cases "?c = ?c'")
      case True
      then show ?thesis using concat_chunks by metis
    next
      case False
      then obtain i where i: "i < length ?c" "?c ! i \<noteq> ?c' ! i"
        using len nth_equalityI by blast
      then have "H ([0] @ ?c ! i) = H ([0] @ ?c' ! i)"
        using 1 len by (metis leaf_hash_def nth_map)
      moreover have "[0] @ ?c ! i \<in> set (file_inputs H base m)"
        "[0] @ ?c' ! i \<in> set (file_inputs H base m')"
        using i len by (simp_all add: file_inputs_def)
      ultimately show ?thesis
        unfolding collides_iff using i(2) by (metis append_same_eq same_append_eq)
    qed
  next
    case 2
    then show ?thesis by (auto simp: collides_iff file_inputs_def)
  qed
qed

end


section \<open>Flushing a complete file\<close>

lemma merkle_inv_start:
  "mt_blockSize real = int base * 2 ^ L \<Longrightarrow> 0 < base \<Longrightarrow> n0 \<le> length (mt_leaves real) \<Longrightarrow>
   length garbage = base \<Longrightarrow>
   check_inv H base L (take n0 (mt_leaves real)) (int n0 * mt_blockSize real)
     (check_new garbage root0 real (int n0 * mt_blockSize real)) []
   \<and> cs_real (check_new garbage root0 real (int n0 * mt_blockSize real)) = real
   \<and> cs_out (check_new garbage root0 real (int n0 * mt_blockSize real)) = []"
proof -
  assume a: "mt_blockSize real = int base * 2 ^ L" "0 < base" "n0 \<le> length (mt_leaves real)"
    "length garbage = base"
  let ?s = "check_new garbage root0 real (int n0 * mt_blockSize real)"
  let ?pre = "take n0 (mt_leaves real)"
  have "0 < mt_blockSize real" using a by simp
  then have "(int n0 * mt_blockSize real) sdiv mt_blockSize real = int n0"
    by (auto simp: signed_divide_int_def sgn_mult)
  then have cur: "cs_cur ?s = merkle_new root0 (int base * 2 ^ L)
      \<lparr>mt_leaves := ?pre, mt_fileSize := int n0 * mt_blockSize real\<rparr>"
    using a by (simp add: check_new_def merkle_new_def Let_def)
  have "merkle_inv H base L ?pre (cs_cur ?s) []"
    unfolding cur by (rule merkle_inv_new)
  then have "commit_inv H base L ?pre (int n0 * mt_blockSize real) ?s []"
    using a cur by (intro commit_invI [of _ "[]" "[]"]) (auto simp: check_new_def Let_def)
  then show ?thesis
    using cur by (simp add: check_inv_def check_new_def Let_def take_is_prefix)
qed

lemma chunks_full_rest:
  "0 < n \<Longrightarrow> n dvd length w \<Longrightarrow> r \<noteq> [] \<Longrightarrow> length r \<le> n \<Longrightarrow> chunks n (w @ r) = full_chunks n w @ [r]"
  by (cases "w = []") (simp_all add: chunks_le chunks_append chunks_full)

text \<open>A stream that has accepted the whole of \<open>m\<close> from the start compares the root of \<open>m\<close>.\<close>

lemma check_flush_root:
  assumes "0 < base" and inv: "check_inv H base L [] 0 s m" and "m \<noteq> []"
    and small: "length m \<le> base * 2 ^ L * 2 ^ 32"
    and leaves: "length (mt_leaves (cs_real s)) = length (chunks (2 ^ L) (chunks base m))"
  shows "\<exists>s'. check_flushBuffers H base s =
     Some (s', if file_root H base m = mt_root (cs_real s) then None else Some TTH_INCONSISTENCY)"
proof -
  from inv obtain w r where m: "m = w @ r" and dvd: "base dvd length w" and r: "length r < base"
    and pos: "cs_bufPos s = length r" and buf: "take (length r) (cs_buf s) = r"
    and cur: "merkle_inv H base L [] (cs_cur s) (map (leaf_hash H) (full_chunks base w))"
    and size: "mt_fileSize (cs_cur s) = int (length w)"
    by (auto simp: check_inv_def commit_inv_def)
  let ?cur = "if r = [] then cs_cur s else merkle_update H base (cs_cur s) r"
  have last: "merkle_inv H base L [] ?cur (map (leaf_hash H) (chunks base m))
    \<and> mt_fileSize ?cur = int (length m)"
  proof (cases "r = []")
    case True
    then show ?thesis using cur size m assms(1,3) dvd by (simp add: chunks_full)
  next
    case False
    then show ?thesis
      using merkle_inv_update [OF assms(1) cur False] size m r assms(1) dvd
      by (simp add: chunks_full_rest chunks_le)
  qed
  have fin: "merkle_finalize H base ?cur =
    Some (?cur\<lparr>mt_blocks := fold_blocks H (mt_blocks ?cur),
      mt_leaves := map (tree_hash H) (chunks (2 ^ L) (map (leaf_hash H) (chunks base m))),
      mt_root := file_root H base m\<rparr>)"
    using merkle_inv_finish [OF assms(1) _ _ small] last by (simp only: file_root_def)
  have len: "length (mt_leaves (cs_real s))
      = length (chunks (2 ^ L) (map (leaf_hash H) (chunks base m)))"
    unfolding leaves by (rule chunks_same_length) simp
  have flush: "check_flushBuffers H base s =
    (case merkle_finalize H base ?cur of None \<Rightarrow> None
     | Some cur \<Rightarrow>
         (let s = s\<lparr>cs_bufPos := 0, cs_cur := cur\<rparr> in
          if length (mt_leaves cur) = length (mt_leaves (cs_real s)) then
            if mt_root cur \<noteq> mt_root (cs_real s) then Some (s, Some TTH_INCONSISTENCY)
            else Some (s, None)
          else Some (checkTrees s)))"
    using pos buf by (cases "r = []") (simp_all add: check_flushBuffers_def Let_def split: option.split)
  show ?thesis unfolding flush fin using len by simp
qed

section \<open>Block sizes\<close>

lemma calcBlockSize_loop_spec:
  "0 < h \<Longrightarrow> 0 < t \<Longrightarrow> \<exists>k. calcBlockSize_loop h f t = t * 2 ^ k \<and> f \<le> h * (t * 2 ^ k)
     \<and> (0 < k \<longrightarrow> h * (t * 2 ^ (k - 1)) < f)"
proof (induction h f t rule: calcBlockSize_loop.induct)
  case (1 h f t)
  show ?case
  proof (cases "h * t < f")
    case False
    then show ?thesis by (intro exI [of _ 0]) (simp add: calcBlockSize_loop.simps [of h f t])
  next
    case True
    then obtain k where k: "calcBlockSize_loop h f (t * 2) = t * 2 * 2 ^ k"
      "f \<le> h * (t * 2 * 2 ^ k)" "0 < k \<longrightarrow> h * (t * 2 * 2 ^ (k - 1)) < f"
      using 1 by auto
    have "h * (t * 2 ^ k) < f"
      using k(3) True by (cases k) (simp_all add: mult.assoc)
    then show ?thesis
      using k True 1(2,3)
      by (intro exI [of _ "Suc k"]) (simp add: calcBlockSize_loop.simps [of h f t] mult.assoc)
  qed
qed

lemma calcBlockSize_spec:
  assumes "0 < base"
  shows "\<exists>k. calcBlockSize base f (Suc n) = int base * 2 ^ k \<and> f \<le> 2 ^ n * (int base * 2 ^ k)
    \<and> (0 < k \<longrightarrow> 2 ^ n * (int base * 2 ^ (k - 1)) < f)"
  using calcBlockSize_loop_spec [of "2 ^ n" "int base" f] assms
  by (simp add: calcBlockSize_def push_bit_eq_mult)

lemma calcBlocks_bound:
  assumes "0 < bs" and "f \<le> int n * bs" and "0 < n" and "0 \<le> f"
  shows "calcBlocks f bs \<le> n"
proof -
  have "(f + bs - 1) sdiv bs = (f + bs - 1) div bs"
    using assms by (intro sdiv_nonneg) auto
  moreover have "(f + bs - 1) div bs < int n + 1"
  proof -
    have "(f + bs - 1) div bs \<le> (bs - 1 + int n * bs) div bs"
      using assms by (intro zdiv_mono1) auto
    also have "\<dots> = int n" using assms(1) by simp
    finally show ?thesis by simp
  qed
  ultimately show ?thesis using assms(3) by (simp add: calcBlocks_def)
qed

section \<open>Leaves from the network\<close>

definition leaf_inv :: "nat \<Rightarrow> hash_value list \<Rightarrow> leaf_stream \<Rightarrow> byte list \<Rightarrow> bool" where
  "leaf_inv n pre s m \<longleftrightarrow>
     (\<exists>w r. m = w @ r \<and> n dvd length w \<and> length r < n \<and> ls_bufPos s = length r
        \<and> length (ls_buf s) = n \<and> take (length r) (ls_buf s) = r
        \<and> ls_leaves s = pre @ full_chunks n w)"

lemma leaf_invI:
  "m = w @ r \<Longrightarrow> n dvd length w \<Longrightarrow> length r < n \<Longrightarrow> ls_bufPos s = length r \<Longrightarrow>
   length (ls_buf s) = n \<Longrightarrow> take (length r) (ls_buf s) = r \<Longrightarrow>
   ls_leaves s = pre @ full_chunks n w \<Longrightarrow> leaf_inv n pre s m"
  unfolding leaf_inv_def by blast

lemma full_chunks_self: "0 < n \<Longrightarrow> length a = n \<Longrightarrow> full_chunks n a = [a]"
  using full_chunks_one [of n a "[]"] by simp

lemma leaf_write_inv: "leaf_inv n pre s m \<Longrightarrow> leaf_inv n pre (leaf_write n s b) (m @ b)"
proof (induction n s b arbitrary: m rule: leaf_write.induct)
  case (1 n s b)
  from 1(3) obtain w r where m: "m = w @ r" and dvd: "n dvd length w" and r: "length r < n"
    and pos: "ls_bufPos s = length r" and buf: "length (ls_buf s) = n" "take (length r) (ls_buf s) = r"
    and lv: "ls_leaves s = pre @ full_chunks n w"
    by (auto simp: leaf_inv_def)
  consider "b = []" | "b \<noteq> []" "r = []" "n \<le> length b"
    | "b \<noteq> []" "\<not> (r = [] \<and> n \<le> length b)" "n \<le> length r + length b"
    | "b \<noteq> []" "length r + length b < n" by linarith
  then show ?case
  proof cases
    case 1
    then show ?thesis using \<open>leaf_inv n pre s m\<close> by (simp add: leaf_write.simps [of n s "[]"])
  next
    case 2
    let ?s = "s\<lparr>ls_leaves := ls_leaves s @ [take n b]\<rparr>"
    have "leaf_inv n pre ?s (m @ take n b)"
      using 2 m dvd r pos buf lv
      by (intro leaf_invI [of _ "w @ take n b" "[]"])
        (auto simp: full_chunks_append full_chunks_self)
    then have "leaf_inv n pre (leaf_write n ?s (drop n b)) ((m @ take n b) @ drop n b)"
      using 2 pos r by (intro "1.IH"(1)) auto
    then show ?thesis using 2 pos r by (simp add: leaf_write.simps [of n s b])
  next
    case 3
    let ?k = "n - length r"
    let ?s = "s\<lparr>ls_buf := r @ take ?k b, ls_leaves := ls_leaves s @ [r @ take ?k b], ls_bufPos := 0\<rparr>"
    have len: "length (r @ take ?k b) = n" using 3 r by simp
    have k: "min ?k (length b) = ?k" using 3 by simp
    have cp: "memcpy_at (length r) (take ?k b) (ls_buf s) = r @ take ?k b"
      using len buf by (simp add: memcpy_at_def)
    have n: "0 < n" using r by simp
    have fc: "full_chunks n (w @ r @ take ?k b) = full_chunks n w @ [r @ take ?k b]"
      by (simp only: full_chunks_append [OF n dvd] full_chunks_self [OF n len])
    have "n dvd length (w @ r @ take ?k b)" using dvd len by (metis dvd_add dvd_refl length_append)
    then have "leaf_inv n pre ?s (m @ take ?k b)"
      using m r len lv fc by (intro leaf_invI [of _ "w @ r @ take ?k b" "[]"]) simp_all
    then have "leaf_inv n pre (leaf_write n ?s (drop ?k b)) ((m @ take ?k b) @ drop ?k b)"
      using 3 pos r by (intro "1.IH"(2)) (auto simp: k cp)
    moreover have "leaf_write n s b = leaf_write n ?s (drop ?k b)"
      using 3 pos r k cp len
      by (simp add: leaf_write.simps [of n s b] Let_def cong: conj_cong)
    ultimately show ?thesis by simp
  next
    case 4
    let ?s = "s\<lparr>ls_buf := memcpy_at (length r) b (ls_buf s), ls_bufPos := length r + length b\<rparr>"
    have "leaf_inv n pre ?s (m @ b)"
      using 4 m dvd buf lv by (intro leaf_invI [of _ w "r @ b"]) (auto simp: memcpy_at_def)
    moreover have "leaf_write n s b = ?s"
      using 4 pos r by (simp add: leaf_write.simps [of n s b] leaf_write.simps [of n ?s "[]"] Let_def)
    ultimately show ?thesis by simp
  qed
qed

lemma leaf_writes_inv: "leaf_inv n pre s m \<Longrightarrow> leaf_inv n pre (foldl (leaf_write n) s ds) (m @ concat ds)"
proof (induction ds arbitrary: s m)
  case (Cons d ds)
  then show ?case using leaf_write_inv [of n pre s m d] by (metis append_assoc concat.simps(2) foldl_Cons)
qed simp

section \<open>Accepting a tree from a peer\<close>

text \<open>
  \<^bold>\<open>transfer/download/DownloadManager.cpp\<close>, \<open>endData\<close> for \<open>TYPE_TREE\<close>: the block size is found by
  doubling a 64-bit integer from 1024 until the leaves cover the file, and the tree is accepted
  when its root is the hash of the file.  The loop takes fuel; \<open>None\<close> is a loop that has not ended.
\<close>

type_synonym i64 = "64 word"

fun tree_block_size :: "nat \<Rightarrow> nat \<Rightarrow> int \<Rightarrow> i64 \<Rightarrow> i64 option" where
  "tree_block_size 0 leaves fileSize bl = None"
| "tree_block_size (Suc fuel) leaves fileSize bl =
     (if sint (bl * of_nat leaves) < fileSize
      then tree_block_size fuel leaves fileSize (bl * 2) else Some bl)"

datatype tree_result = INVALID_TREE | Tree_Valid merkle_tree

definition endData_tree ::
  "hasher \<Rightarrow> nat \<Rightarrow> hash_value \<Rightarrow> merkle_tree \<Rightarrow> tree_result option" where
  "endData_tree H fuel tth t =
     (case tree_block_size fuel (length (mt_leaves t)) (mt_fileSize t) 1024 of
        None \<Rightarrow> None
      | Some bl \<Rightarrow>
          (case calcRoot H (t\<lparr>mt_blockSize := sint bl\<rparr>) of
             None \<Rightarrow> None
           | Some t \<Rightarrow> Some (if tth = mt_root t then Tree_Valid t else INVALID_TREE)))"

lemma tree_block_size_empty: "0 < f \<Longrightarrow> tree_block_size fuel 0 f bl = None"
  by (induction fuel arbitrary: bl) auto

lemma sint_small: "0 \<le> x \<Longrightarrow> x < 2 ^ 63 \<Longrightarrow> sint (word_of_int x :: i64) = x"
  by (simp add: sint_sbintrunc' signed_take_bit_int_eq_self)

lemma tree_block_size_result:
  assumes "0 < n" and "f < 2 ^ 62"
  shows "0 < b \<Longrightarrow> b * int n < 2 ^ 63 \<Longrightarrow>
    f \<le> b * 2 ^ fuel * int n \<Longrightarrow>
    \<exists>k. tree_block_size (Suc fuel) n f (word_of_int b) = Some (word_of_int (b * 2 ^ k))
      \<and> f \<le> b * 2 ^ k * int n \<and> b * 2 ^ k * int n < 2 ^ 63"
proof (induction fuel arbitrary: b)
  case 0
  then have "sint (word_of_int b * of_nat n :: i64) = b * int n"
    using sint_small [of "b * int n"] by simp
  then show ?case using 0 by (intro exI [of _ 0]) simp
next
  case (Suc fuel)
  have val: "sint (word_of_int b * of_nat n :: i64) = b * int n"
    using Suc.prems sint_small [of "b * int n"] by simp
  show ?case
  proof (cases "b * int n < f")
    case False
    then show ?thesis using val Suc.prems by (intro exI [of _ 0]) simp
  next
    case True
    then have "b * 2 * int n < 2 ^ 63" using assms(2) by simp
    moreover have "f \<le> b * 2 * 2 ^ fuel * int n" using Suc.prems(3) by (simp add: ac_simps)
    ultimately obtain k where
      "tree_block_size (Suc fuel) n f (word_of_int (b * 2)) = Some (word_of_int (b * 2 * 2 ^ k))"
      "f \<le> b * 2 * 2 ^ k * int n" "b * 2 * 2 ^ k * int n < 2 ^ 63"
      using Suc.IH [of "b * 2"] Suc.prems(1) by auto
    moreover have "tree_block_size (Suc (Suc fuel)) n f (word_of_int b)
        = tree_block_size (Suc fuel) n f (word_of_int (b * 2))"
      using val True by simp
    ultimately show ?thesis by (intro exI [of _ "Suc k"]) (simp add: ac_simps)
  qed
qed

section \<open>Properties\<close>

lemma merkle_load_unfold:
  "calcRoot H t = Some t' \<Longrightarrow> mt_leaves t' = mt_leaves t \<and> mt_fileSize t' = mt_fileSize t
     \<and> mt_blockSize t' = mt_blockSize t"
  by (auto simp: calcRoot_def split: option.splits)

interpretation tiger_hasher: fixed_digest tiger_digest HASH_BYTES
  by unfold_locales (simp add: length_tiger_digest HASH_BYTES_def)

text \<open>A one-byte checksum, for concrete inputs.\<close>

definition toy_hash :: hasher where
  "toy_hash x = [fold (\<lambda>b a. 31 * a + b) x 7]"

lemma toy_hasher: "fixed_digest toy_hash 1"
  by unfold_locales (simp add: toy_hash_def)

text \<open>
  C4: whatever block size \<open>base * 2 ^ L\<close> a tree keeps and however the file is divided into updates
  of whole base blocks (only the last may end inside one), \<open>finalize\<close> succeeds, the root is the
  tree hash of the base blocks of the file, and the leaves are the tree hashes of its groups
  of \<open>2 ^ L\<close> base blocks.
\<close>

theorem merkle_tree_root:
  assumes "0 < base" and "whole_blocks base ds"
    and "length (concat ds) \<le> base * 2 ^ L * 2 ^ 32"
  shows "\<exists>t. merkle_finalize H base
      (foldl (merkle_update H base) (merkle_new g (int base * 2 ^ L)) ds) = Some t
    \<and> mt_root t = file_root H base (concat ds) \<and> mt_fileSize t = int (length (concat ds))
    \<and> mt_leaves t =
        map (tree_hash H) (chunks (2 ^ L) (map (leaf_hash H) (chunks base (concat ds))))"
  using merkle_build [OF assms, of H g] by (auto simp: file_root_def)

theorem merkle_tree_root_witness:
  "\<exists>t. merkle_finalize toy_hash 2 (foldl (merkle_update toy_hash 2) (merkle_new [] 4)
         [[1, 2, 3, 4], [5, 6, 7]]) = Some t
     \<and> mt_root t = file_root toy_hash 2 [1, 2, 3, 4, 5, 6, 7] \<and> length (mt_leaves t) = 2"
  using merkle_tree_root [of 2 "[[1, 2, 3, 4], [5, 6, 7]]" 1 toy_hash "[]"]
  by (auto simp: chunks.simps)

text \<open>
  the tree of the empty file, computed with the Tiger model and printed in base32, is the
  value that every client of the network uses for it, at every block size.
\<close>

lemma tth_of_the_empty_file:
  "\<exists>t. merkle_finalize tiger_digest 1024 (merkle_new g (1024 * 2 ^ L)) = Some t
     \<and> HashValue_toBase32 (mt_root t) = ''LWPNACQDBZRYXW3VHJVCJ64QBZNGHOHHHZWCLNQ''"
proof -
  have root: "file_root tiger_digest 1024 [] = tiger_digest [0]"
    by (simp add: file_root_def chunks_le leaf_hash_def)
  have b32: "HashValue_toBase32 (tiger_digest [0]) = ''LWPNACQDBZRYXW3VHJVCJ64QBZNGHOHHHZWCLNQ''"
    unfolding tiger_digest_zero by code_simp
  obtain t where "merkle_finalize tiger_digest 1024 (merkle_new g (1024 * 2 ^ L)) = Some t"
    "mt_root t = file_root tiger_digest 1024 []"
    using merkle_build [of 1024 "[]" L tiger_digest g] by (auto simp: file_root_def)
  then show ?thesis using root b32 by simp
qed

text \<open>
  C5: a verifying stream that starts at block \<open>n0\<close> of a tree accepts a sequence of buffers, however
  the data is cut into them, exactly when the hashes of the complete blocks of the data are the
  leaves of the tree from \<open>n0\<close> on; what it accepts it passes on unchanged.
\<close>

theorem check_stream_accepts:
  assumes "0 < base" and "mt_blockSize real = int base * 2 ^ L" and "n0 \<le> length (mt_leaves real)"
    and "length garbage = base"
  shows "(snd (check_writes H base (check_new garbage r0 real (int n0 * mt_blockSize real)) ds) = None
      \<longleftrightarrow> prefix (group_leaves H base L (concat ds)) (drop n0 (mt_leaves real)))
    \<and> (snd (check_writes H base (check_new garbage r0 real (int n0 * mt_blockSize real)) ds) = None
      \<longrightarrow> cs_out (fst (check_writes H base (check_new garbage r0 real (int n0 * mt_blockSize real)) ds)) = ds)"
proof -
  let ?s = "check_new garbage r0 real (int n0 * mt_blockSize real)"
  let ?lv = "mt_leaves real"
  have start: "check_inv H base L (take n0 ?lv) (int n0 * mt_blockSize real) ?s []"
    "cs_real ?s = real" "cs_out ?s = []"
    using merkle_inv_start [OF assms(2,1,3,4), of H r0] by blast+
  have "prefix (take n0 ?lv @ xs) ?lv \<longleftrightarrow> prefix xs (drop n0 ?lv)" for xs
    by (metis append_take_drop_id same_prefix_prefix)
  then show ?thesis
    using check_writes_inv [OF assms(1) start(1), of ds] start(2,3) by auto
qed

theorem check_stream_accepts_witness:
  "snd (check_writes toy_hash 2 (check_new [0, 0] [] (merkle_single 2 2 (leaf_hash toy_hash [1, 2])) 0)
      [[1], [2, 3]]) = None
   \<and> snd (check_writes toy_hash 2 (check_new [0, 0] [] (merkle_single 2 2 (leaf_hash toy_hash [1, 2])) 0)
      [[1], [9, 3]]) = Some TTH_INCONSISTENCY"
proof -
  let ?t = "merkle_single 2 2 (leaf_hash toy_hash [1, 2])"
  have "group_leaves toy_hash 2 0 (concat [[1], [2, 3]]) = [leaf_hash toy_hash [1, 2]]"
    by (simp add: group_leaves_def full_chunks.simps chunks_le)
  then have "snd (check_writes toy_hash 2 (check_new [0, 0] [] ?t 0) [[1], [2, 3]]) = None"
    using check_stream_accepts [of 2 ?t 0 0 "[0, 0]" toy_hash "[]" "[[1], [2, 3]]"]
    by (simp add: merkle_single_def)
  moreover have "snd (check_writes toy_hash 2 (check_new [0, 0] [] ?t 0) [[1], [9, 3]])
      = Some TTH_INCONSISTENCY"
    by code_simp
  ultimately show ?thesis by simp
qed

text \<open>
  C6: a download from the start of a file that passes the verifying stream and its final flush,
  checked against the tree of the file and having its size, is the file, unless the inputs hashed
  for the two exhibit a collision of the hash function.
\<close>

theorem verified_download_is_the_file:
  assumes H: "fixed_digest H n" and "0 < base"
    and tree: "whole_blocks base fs"
      "merkle_finalize H base (foldl (merkle_update H base) (merkle_new g (int base * 2 ^ L)) fs)
        = Some real"
    and writes: "length garbage = base"
      "check_writes H base (check_new garbage r0 real 0) ds = (s, None)"
    and flush: "check_flushBuffers H base s = Some (s', None)"
    and size: "length (concat ds) = length (concat fs)" "concat ds \<noteq> []"
      "length (concat fs) \<le> base * 2 ^ L * 2 ^ 32"
  shows "concat ds = concat fs
    \<or> collides H (file_inputs H base (concat ds)) (file_inputs H base (concat fs))"
proof -
  have real: "mt_blockSize real = int base * 2 ^ L" "mt_root real = file_root H base (concat fs)"
    "length (mt_leaves real) = length (chunks (2 ^ L) (chunks base (concat fs)))"
  proof -
    have "length (chunks (2 ^ L) (map (leaf_hash H) (chunks base (concat fs))))
      = length (chunks (2 ^ L) (chunks base (concat fs)))"
      by (rule chunks_same_length) simp
    then show "mt_blockSize real = int base * 2 ^ L" "mt_root real = file_root H base (concat fs)"
      "length (mt_leaves real) = length (chunks (2 ^ L) (chunks base (concat fs)))"
      using merkle_build [OF \<open>0 < base\<close> tree(1) size(3), of H g] tree(2)
      by (auto simp: file_root_def)
  qed
  let ?s0 = "check_new garbage r0 real 0"
  have start: "check_inv H base L [] 0 ?s0 []" "cs_real ?s0 = real"
    using merkle_inv_start [OF real(1) \<open>0 < base\<close>, of 0 garbage H r0] writes(1) by simp_all
  then have inv: "check_inv H base L [] 0 s (concat ds)" "cs_real s = real"
    using check_writes_inv [OF \<open>0 < base\<close> start(1), of ds] writes(2) by auto
  have "length (mt_leaves (cs_real s)) = length (chunks (2 ^ L) (chunks base (concat ds)))"
    unfolding inv(2) real(3) by (intro chunks_same_length) (simp add: size(1))
  with check_flush_root [OF \<open>0 < base\<close> inv(1) size(2)] size
  have "file_root H base (concat ds) = mt_root real"
    using flush inv(2) by (auto split: if_splits)
  then show ?thesis
    using fixed_digest.file_binds [OF H size(1)] real(2) by simp
qed

theorem verified_download_is_the_file_witness:
  "concat [[1], [2, 3]] = concat [[1, 2], [3 :: byte]]
   \<or> collides toy_hash (file_inputs toy_hash 2 (concat [[1], [2, 3]]))
       (file_inputs toy_hash 2 (concat [[1, 2], [3]]))"
proof -
  define real where "real = the (merkle_finalize toy_hash 2
    (foldl (merkle_update toy_hash 2) (merkle_new [] (int 2 * 2 ^ 0)) [[1, 2], [3]]))"
  define s where "s = fst (check_writes toy_hash 2 (check_new [0, 0] [] real 0) [[1], [2, 3]])"
  define s' where "s' = fst (the (check_flushBuffers toy_hash 2 s))"
  have 1: "merkle_finalize toy_hash 2
    (foldl (merkle_update toy_hash 2) (merkle_new [] (int 2 * 2 ^ 0)) [[1, 2], [3]]) = Some real"
  proof -
    have "\<not> Option.is_none (merkle_finalize toy_hash 2
      (foldl (merkle_update toy_hash 2) (merkle_new [] (int 2 * 2 ^ 0)) [[1, 2], [3]]))"
      by code_simp
    then show ?thesis unfolding real_def by (metis is_none_code(1) option.exhaust_sel)
  qed
  have 2: "check_writes toy_hash 2 (check_new [0, 0] [] real 0) [[1], [2, 3]] = (s, None)"
  proof -
    have "Option.is_none (snd (check_writes toy_hash 2 (check_new [0, 0] [] real 0) [[1], [2, 3]]))"
      unfolding real_def by code_simp
    then show ?thesis unfolding s_def by (simp add: prod_eq_iff Option.is_none_def)
  qed
  have 3: "check_flushBuffers toy_hash 2 s = Some (s', None)"
  proof -
    have "(case check_flushBuffers toy_hash 2 s of None \<Rightarrow> False | Some r \<Rightarrow> Option.is_none (snd r))"
      unfolding s_def real_def by code_simp
    then show ?thesis
      unfolding s'_def by (auto simp: prod_eq_iff Option.is_none_def split: option.splits)
  qed
  show ?thesis
    by (rule verified_download_is_the_file [OF toy_hasher _ _ 1 _ 2 3]) simp_all
qed

text \<open>
  the hash that identifies files, the Tiger tree hash over blocks of 1024 bytes, binds them:
  files of the same size with the same root are the same or exhibit a Tiger collision.
\<close>

lemma tiger_tree_binds:
  assumes "length m = length m'" and "file_root tiger_digest 1024 m = file_root tiger_digest 1024 m'"
  shows "m = m' \<or> collides tiger_digest (file_inputs tiger_digest 1024 m)
    (file_inputs tiger_digest 1024 m')"
  by (rule tiger_hasher.file_binds [OF assms])

lemma tiger_tree_binds_witness:
  "[1, 2] = [1, 2 :: byte] \<or> collides tiger_digest (file_inputs tiger_digest 1024 [1, 2])
    (file_inputs tiger_digest 1024 [1, 2])"
  by (rule tiger_tree_binds [OF refl refl])



text \<open>
  the leaves of a tree, sent as \<open>getLeafData\<close> and received through the leaf stream in buffers of
  any sizes, arrive as they were.
\<close>

lemma leaf_stream_round_trip:
  assumes "0 < n" and "\<forall>l\<in>set (mt_leaves t). length l = n" and "concat ds = getLeafData t"
    and "length garbage = n"
  shows "ls_leaves (foldl (leaf_write n) \<lparr>ls_leaves = [], ls_buf = garbage, ls_bufPos = 0\<rparr> ds)
    = mt_leaves t"
proof -
  let ?s = "\<lparr>ls_leaves = [], ls_buf = garbage, ls_bufPos = 0\<rparr>"
  have "leaf_inv n [] ?s []"
    using assms by (intro leaf_invI [of _ "[]" "[]"]) auto
  then obtain w r where "concat ds = w @ r" "n dvd length w" "length r < n"
    and lv: "ls_leaves (foldl (leaf_write n) ?s ds) = full_chunks n w"
    using leaf_writes_inv [of n "[]" ?s "[]" ds] by (auto simp: leaf_inv_def)
  moreover have "n dvd length (getLeafData t)"
  proof -
    have "\<forall>l\<in>set ls. length l = n \<Longrightarrow> n dvd length (concat ls)" for ls :: "hash_value list"
      by (induction ls) auto
    then show ?thesis using assms(2) unfolding getLeafData_def by blast
  qed
  ultimately have "r = []" using assms(3) by (metis dvd_add_right_iff dvd_imp_le length_append
        length_greater_0_conv not_le)
  then show ?thesis
    using full_chunks_concat [OF assms(1,2), of "[]"] lv \<open>concat ds = w @ r\<close> assms(1,3)
    by (simp add: getLeafData_def)
qed

lemma leaf_stream_round_trip_witness:
  "ls_leaves (foldl (leaf_write 2) \<lparr>ls_leaves = [], ls_buf = [0, 0], ls_bufPos = 0\<rparr>
      [[1], [2, 3], [], [4]]) = [[1, 2], [3, 4]]"
  using leaf_stream_round_trip [of 2 "(merkle_new [] 2)\<lparr>mt_leaves := [[1, 2], [3, 4]]\<rparr>"
      "[[1], [2, 3], [], [4]]" "[0, 0]"]
  by (simp add: getLeafData_def)

text \<open>
  C8: the loop with which a received tree is given its block size ends for every file below
  \<open>2 ^ 62\<close> bytes when the tree has a leaf; when a peer sends no leaf at all the 64-bit product stays
  zero and the loop does not end, whatever the fuel.
\<close>

theorem tree_block_size_ends:
  assumes "0 < f" and "f < 2 ^ 62" and "n < 2 ^ 52"
  shows "(n \<noteq> 0 \<longrightarrow> (\<exists>k. tree_block_size 64 n f 1024 = Some (word_of_int (1024 * 2 ^ k))
        \<and> f \<le> 1024 * 2 ^ k * int n))
    \<and> (n = 0 \<longrightarrow> tree_block_size fuel n f 1024 = None)"
proof (cases "n = 0")
  case True
  then show ?thesis using tree_block_size_empty [OF assms(1)] by simp
next
  case False
  then have "2 ^ 73 * 1 \<le> 2 ^ 73 * int n" by (intro mult_left_mono) auto
  then have "f \<le> 1024 * 2 ^ 63 * int n" using assms(2) by simp
  moreover have "1024 * int n < 2 ^ 63" using assms(3) by simp
  ultimately have "\<exists>k. tree_block_size (Suc 63) n f (word_of_int 1024) = Some (word_of_int (1024 * 2 ^ k))
    \<and> f \<le> 1024 * 2 ^ k * int n \<and> 1024 * 2 ^ k * int n < 2 ^ 63"
    using False assms by (intro tree_block_size_result) auto
  then show ?thesis using False by auto
qed

theorem tree_block_size_ends_witness:
  "(\<exists>k. tree_block_size 64 3 5000 1024 = Some (word_of_int (1024 * 2 ^ k)) \<and> 5000 \<le> 1024 * 2 ^ k * (3 :: int))
   \<and> tree_block_size 1000 0 5000 1024 = None"
  using tree_block_size_ends [of 5000 3 64] tree_block_size_ends [of 5000 0 1000] by simp

end
