(* ===== verification/Adc.thy ===== *)
theory Adc
  imports Base32
begin

unbundle bit_operations_syntax

text \<open>
  \<^bold>\<open>protocol/AdcCommand.cpp\<close>, \<open>AdcCommand.h\<close>: the commands of the ADC protocol, their text form and
  its parser.  A \<open>std::string\<close> is a list of characters.  The union of \<open>cmdInt\<close> and \<open>cmd\<close> is the
  32-bit integer, whose bytes are read in little-endian order, as \<open>SID\<close>s are.  \<open>ParseException\<close> is a
  value of \<open>parse_error\<close>, one per message.  \<open>Util::toString\<close> of a number is its decimal text.
\<close>

type_synonym sid = "32 word"

section \<open>Four-character codes\<close>

fun le32 :: "byte list \<Rightarrow> 32 word" where
  "le32 [] = 0"
| "le32 (b # bs) = ucast b OR push_bit 8 (le32 bs)"

definition le32_bytes :: "32 word \<Rightarrow> byte list" where
  "le32_bytes w = [ucast w, ucast (drop_bit 8 w), ucast (drop_bit 16 w), ucast (drop_bit 24 w)]"

definition toSID :: "string \<Rightarrow> sid" where
  "toSID s = le32 (str_bytes (take 4 s))"

definition fromSID :: "sid \<Rightarrow> string" where
  "fromSID w = bytes_str (le32_bytes w)"

text \<open>A character converted to \<open>uint32_t\<close>: \<open>char\<close> is signed.\<close>

definition char_to_u32 :: "char \<Rightarrow> 32 word" where
  "char_to_u32 c = scast (byte_of_char c)"

definition toCommand :: "string \<Rightarrow> 32 word" where
  "toCommand aCmd =
     char_to_u32 (aCmd ! 0) OR push_bit 8 (char_to_u32 (aCmd ! 1)) OR push_bit 16 (char_to_u32 (aCmd ! 2))"

definition fromCommand :: "32 word \<Rightarrow> string" where
  "fromCommand x = take 3 (bytes_str (le32_bytes x))"

text \<open>
  \<open>toCode\<close> reads two characters of the C string; the terminator stands for those that are missing.
\<close>

definition toCode :: "string \<Rightarrow> 16 word" where
  "toCode x =
     (let s = str_bytes x @ [0, 0] in ucast (s ! 0) OR push_bit 8 (ucast (s ! 1)))"

section \<open>Commands\<close>

record adc_command =
  ac_params :: "string list"
  ac_features :: string
  ac_cmdInt :: "32 word"
  ac_from :: sid
  ac_to :: sid
  ac_type :: char

definition HUB_SID :: sid where
  "HUB_SID = 0xffffffff"

definition isValidType :: "char \<Rightarrow> bool" where
  "isValidType aType \<longleftrightarrow>
     \<not> (aType \<noteq> CHR ''B'' \<and> aType \<noteq> CHR ''C'' \<and> aType \<noteq> CHR ''D'' \<and> aType \<noteq> CHR ''E''
       \<and> aType \<noteq> CHR ''F'' \<and> aType \<noteq> CHR ''I'' \<and> aType \<noteq> CHR ''H'' \<and> aType \<noteq> CHR ''U'')"

datatype severity = SEV_SUCCESS | SEV_RECOVERABLE | SEV_FATAL

fun severity_nat :: "severity \<Rightarrow> nat" where
  "severity_nat SEV_SUCCESS = 0"
| "severity_nat SEV_RECOVERABLE = 1"
| "severity_nat SEV_FATAL = 2"

fun nat_text :: "nat \<Rightarrow> string" where
  "nat_text n = (if n < 10 then [char_of (48 + n)] else nat_text (n div 10) @ [char_of (48 + n mod 10)])"

declare nat_text.simps [simp del]

definition adc_new :: "32 word \<Rightarrow> sid \<Rightarrow> char \<Rightarrow> adc_command" where
  "adc_new aCmd aTarget aType =
     \<lparr>ac_params = [], ac_features = [], ac_cmdInt = aCmd, ac_from = 0, ac_to = aTarget, ac_type = aType\<rparr>"

definition addParam :: "string \<Rightarrow> adc_command \<Rightarrow> adc_command" where
  "addParam str c = c\<lparr>ac_params := ac_params c @ [str]\<rparr>"

definition addParam_named :: "string \<Rightarrow> string \<Rightarrow> adc_command \<Rightarrow> adc_command" where
  "addParam_named name value c = c\<lparr>ac_params := ac_params c @ [name @ value]\<rparr>"

text \<open>The entries of the \<open>multimap\<close> come in its order.\<close>

definition addParams :: "(string \<times> string) list \<Rightarrow> adc_command \<Rightarrow> adc_command" where
  "addParams aParams c = fold (\<lambda>(name, v). addParam_named name v) aParams c"

text \<open>The constructor of status messages; \<open>CMD_STA\<close> is the code of \<open>STA\<close>.\<close>

definition adc_status :: "severity \<Rightarrow> nat \<Rightarrow> string \<Rightarrow> char \<Rightarrow> adc_command" where
  "adc_status sev err desc aType =
     addParam desc
       (addParam (if sev = SEV_SUCCESS \<and> err = 0 then ''000'' else nat_text (severity_nat sev * 100 + err))
         (adc_new (toCommand ''STA'') 0 aType))"

datatype feature_type = FEATURE_REQUIRED | FEATURE_EXCLUDED

definition addFeature :: "string \<Rightarrow> feature_type \<Rightarrow> adc_command \<Rightarrow> adc_command" where
  "addFeature feat aType c =
     c\<lparr>ac_features := ac_features c @ (if aType = FEATURE_REQUIRED then ''+'' else ''-'') @ feat\<rparr>"

definition getFourCC :: "adc_command \<Rightarrow> string" where
  "getFourCC c = ac_type c # take 3 (bytes_str (le32_bytes (ac_cmdInt c)))"

section \<open>Parsing\<close>

datatype parse_error =
  TooShort | InvalidType | EscapeAtEol | UnknownEscape | InvalidSidLength | InvalidFeatureLength
| MissingFromSid | MissingFeature | MissingToSid

text \<open>The local variables of \<open>parse\<close> and the fields it assigns.\<close>

record parse_state =
  ps_cur :: string
  ps_params :: "string list"
  ps_from :: sid
  ps_to :: sid
  ps_fromSet :: bool
  ps_toSet :: bool
  ps_featureSet :: bool

definition has_from :: "char \<Rightarrow> bool" where
  "has_from ty \<longleftrightarrow> ty = CHR ''B'' \<or> ty = CHR ''D'' \<or> ty = CHR ''E'' \<or> ty = CHR ''F''"

definition has_to :: "char \<Rightarrow> bool" where
  "has_to ty \<longleftrightarrow> ty = CHR ''D'' \<or> ty = CHR ''E''"

text \<open>What a complete field \<open>cur\<close> is used for; the code has this twice.\<close>

definition parse_field :: "char \<Rightarrow> parse_state \<Rightarrow> parse_error + parse_state" where
  "parse_field ty s =
     (if has_from ty \<and> \<not> ps_fromSet s then
        if length (ps_cur s) \<noteq> 4 then Inl InvalidSidLength
        else Inr (s\<lparr>ps_from := toSID (ps_cur s), ps_fromSet := True\<rparr>)
      else if has_to ty \<and> \<not> ps_toSet s then
        if length (ps_cur s) \<noteq> 4 then Inl InvalidSidLength
        else Inr (s\<lparr>ps_to := toSID (ps_cur s), ps_toSet := True\<rparr>)
      else if ty = CHR ''F'' \<and> \<not> ps_featureSet s then
        if length (ps_cur s) mod 5 \<noteq> 0 then Inl InvalidFeatureLength
        else Inr (s\<lparr>ps_featureSet := True\<rparr>)
      else Inr (s\<lparr>ps_params := ps_params s @ [ps_cur s]\<rparr>))"

fun parse_loop :: "char \<Rightarrow> bool \<Rightarrow> parse_state \<Rightarrow> string \<Rightarrow> parse_error + parse_state" where
  "parse_loop ty nmdc s [] = Inr s"
| "parse_loop ty nmdc s (c # cs) =
     (if c = CHR 0x5C then
        case cs of
          [] \<Rightarrow> Inl EscapeAtEol
        | d # ds \<Rightarrow>
            if d = CHR ''s'' then parse_loop ty nmdc (s\<lparr>ps_cur := ps_cur s @ '' ''\<rparr>) ds
            else if d = CHR ''n'' then parse_loop ty nmdc (s\<lparr>ps_cur := ps_cur s @ [CHR 0x0A]\<rparr>) ds
            else if d = CHR 0x5C then parse_loop ty nmdc (s\<lparr>ps_cur := ps_cur s @ [CHR 0x5C]\<rparr>) ds
            else if d = CHR '' '' \<and> nmdc then parse_loop ty nmdc (s\<lparr>ps_cur := ps_cur s @ '' ''\<rparr>) ds
            else Inl UnknownEscape
      else if c = CHR '' '' then
        case parse_field ty s of
          Inl e \<Rightarrow> Inl e
        | Inr s \<Rightarrow> parse_loop ty nmdc (s\<lparr>ps_cur := []\<rparr>) cs
      else parse_loop ty nmdc (s\<lparr>ps_cur := ps_cur s @ [c]\<rparr>) cs)"

declare parse_loop.simps(2) [simp del]

definition parse_finish :: "char \<Rightarrow> parse_state \<Rightarrow> parse_error + parse_state" where
  "parse_finish ty s =
     (case if ps_cur s \<noteq> [] then parse_field ty s else Inr s of
        Inl e \<Rightarrow> Inl e
      | Inr s \<Rightarrow>
          if has_from ty \<and> \<not> ps_fromSet s then Inl MissingFromSid
          else if ty = CHR ''F'' \<and> \<not> ps_featureSet s then Inl MissingFeature
          else if has_to ty \<and> \<not> ps_toSet s then Inl MissingToSid
          else Inr s)"

definition parse_body :: "adc_command \<Rightarrow> bool \<Rightarrow> string \<Rightarrow> parse_error + adc_command" where
  "parse_body c nmdc rest =
     (if \<not> isValidType (ac_type c) then Inl InvalidType
      else
        let c = (if ac_type c = CHR ''I'' then c\<lparr>ac_from := HUB_SID\<rparr> else c);
            s = \<lparr>ps_cur = [], ps_params = ac_params c, ps_from = ac_from c, ps_to = ac_to c,
                 ps_fromSet = nmdc, ps_toSet = False, ps_featureSet = False\<rparr>
        in case parse_loop (ac_type c) nmdc s rest of
             Inl e \<Rightarrow> Inl e
           | Inr s \<Rightarrow>
               (case parse_finish (ac_type c) s of
                  Inl e \<Rightarrow> Inl e
                | Inr s \<Rightarrow> Inr (c\<lparr>ac_params := ps_params s, ac_from := ps_from s, ac_to := ps_to s\<rparr>)))"

text \<open>
  \<open>parse\<close> on an object: the three characters of the command are its low bytes; the fourth byte is
  left as it was.
\<close>

definition set_cmd :: "string \<Rightarrow> adc_command \<Rightarrow> adc_command" where
  "set_cmd cs c = c\<lparr>ac_cmdInt := le32 (str_bytes cs @ drop 3 (le32_bytes (ac_cmdInt c)))\<rparr>"

definition adc_parse :: "adc_command \<Rightarrow> string \<Rightarrow> bool \<Rightarrow> parse_error + adc_command" where
  "adc_parse c aLine nmdc =
     (if nmdc then
        if length aLine < 7 then Inl TooShort
        else parse_body (set_cmd (take 3 (drop 4 aLine)) (c\<lparr>ac_type := CHR ''C''\<rparr>)) nmdc (drop 8 aLine)
      else
        if length aLine < 4 then Inl TooShort
        else parse_body (set_cmd (take 3 (drop 1 aLine)) (c\<lparr>ac_type := aLine ! 0\<rparr>)) nmdc (drop 5 aLine))"

definition adc_of_line :: "string \<Rightarrow> bool \<Rightarrow> parse_error + adc_command" where
  "adc_of_line aLine nmdc = adc_parse (adc_new 0 0 (CHR ''C'')) aLine nmdc"

section \<open>Text form\<close>

definition find_special :: "string \<Rightarrow> nat \<Rightarrow> nat option" where
  "find_special s i =
     (let k = i + length (takeWhile (\<lambda>c. c \<notin> {CHR '' '', CHR 0x0A, CHR 0x5C}) (drop i s))
      in if k < length s then Some k else None)"

lemma find_special_bounds: "find_special s i = Some k \<Longrightarrow> i \<le> k \<and> k < length s"
  by (auto simp: find_special_def Let_def split: if_splits)

function escape_loop :: "bool \<Rightarrow> string \<Rightarrow> nat \<Rightarrow> string" where
  "escape_loop old tmp i =
     (case find_special tmp i of
        None \<Rightarrow> tmp
      | Some i \<Rightarrow>
          escape_loop old
            (take i tmp
             @ (if old then [CHR 0x5C, tmp ! i]
                else if tmp ! i = CHR '' '' then [CHR 0x5C, CHR ''s'']
                else if tmp ! i = CHR 0x0A then [CHR 0x5C, CHR ''n'']
                else [CHR 0x5C, CHR 0x5C])
             @ drop (i + 1) tmp) (i + 2))"
  by pat_completeness auto
termination
proof (relation "measure (\<lambda>(_, tmp, i). length tmp - i)", goal_cases)
  case (2 old tmp i k)
  then show ?case using find_special_bounds [of tmp i k] by auto
qed simp

declare escape_loop.simps [simp del]

definition escape :: "string \<Rightarrow> bool \<Rightarrow> string" where
  "escape str old = escape_loop old str 0"

text \<open>\<open>tmp += cmdChar\<close> appends the C string in the union.\<close>

definition cmdChar :: "adc_command \<Rightarrow> string" where
  "cmdChar c = takeWhile (\<lambda>x. x \<noteq> CHR 0x00) (bytes_str (le32_bytes (ac_cmdInt c)))"

definition getHeaderString :: "adc_command \<Rightarrow> sid \<Rightarrow> bool \<Rightarrow> string" where
  "getHeaderString c sid nmdc =
     (if nmdc then ''$ADC'' else [ac_type c]) @ cmdChar c
     @ (if has_from (ac_type c) then '' '' @ fromSID sid else [])
     @ (if has_to (ac_type c) then '' '' @ fromSID (ac_to c) else [])
     @ (if ac_type c = CHR ''F'' then '' '' @ ac_features c else [])"

definition getHeaderString_cid :: "adc_command \<Rightarrow> byte list \<Rightarrow> string" where
  "getHeaderString_cid c cid = [ac_type c] @ cmdChar c @ '' '' @ HashValue_toBase32 cid"

definition getHeaderString_udp :: "adc_command \<Rightarrow> string" where
  "getHeaderString_udp c = [ac_type c] @ cmdChar c"

definition getParamString :: "adc_command \<Rightarrow> bool \<Rightarrow> string" where
  "getParamString c nmdc =
     concat (map (\<lambda>i. '' '' @ escape i nmdc) (ac_params c)) @ (if nmdc then ''|'' else [CHR 0x0A])"

definition adc_toString :: "adc_command \<Rightarrow> sid \<Rightarrow> bool \<Rightarrow> string" where
  "adc_toString c sid nmdc = getHeaderString c sid nmdc @ getParamString c nmdc"

definition adc_toString_cid :: "adc_command \<Rightarrow> byte list \<Rightarrow> string" where
  "adc_toString_cid c cid = getHeaderString_cid c cid @ getParamString c False"

definition adc_toString_udp :: "adc_command \<Rightarrow> string" where
  "adc_toString_udp c = getHeaderString_udp c @ getParamString c False"

section \<open>Reading parameters\<close>

definition getParam :: "adc_command \<Rightarrow> nat \<Rightarrow> string" where
  "getParam c n = (if n < length (ac_params c) then ac_params c ! n else [])"

fun find_param :: "string \<Rightarrow> string list \<Rightarrow> string option" where
  "find_param name [] = None"
| "find_param name (p # ps) =
     (if toCode name = toCode p then Some (drop 2 p) else find_param name ps)"

definition getParam_named :: "adc_command \<Rightarrow> string \<Rightarrow> nat \<Rightarrow> string option" where
  "getParam_named c name start = find_param name (drop start (ac_params c))"

definition getParam_all :: "adc_command \<Rightarrow> string \<Rightarrow> nat \<Rightarrow> string list" where
  "getParam_all c name start =
     map (drop 2) (filter (\<lambda>p. toCode name = toCode p) (drop start (ac_params c)))"

definition hasFlag :: "adc_command \<Rightarrow> string \<Rightarrow> nat \<Rightarrow> bool" where
  "hasFlag c name start =
     list_ex (\<lambda>p. toCode name = toCode p \<and> length p = 3 \<and> p ! 2 = CHR ''1'') (drop start (ac_params c))"

section \<open>Dispatching\<close>

text \<open>
  The handlers of \<open>CommandHandler\<close>, named by their codes, and the switch over them; \<open>None\<close> is the
  default branch.  \<open>dispatch_line\<close> returns whether the callback saw the command and the handler
  called with it; a line that does not parse calls nothing.
\<close>

definition handler_names :: "string list" where
  "handler_names = [''SUP'', ''STA'', ''INF'', ''MSG'', ''SCH'', ''RES'', ''CTM'', ''RCM'', ''GPA'', ''PAS'', ''QUI'',
     ''GET'', ''GFI'', ''SND'', ''SID'', ''CMD'', ''NAT'', ''RNT'', ''ZON'', ''ZOF'', ''TCP'', ''PMI'']"

definition adc_dispatch :: "adc_command \<Rightarrow> string option" where
  "adc_dispatch c = List.find (\<lambda>n. toCommand n = ac_cmdInt c) handler_names"

definition dispatch_line :: "string \<Rightarrow> bool \<Rightarrow> (bool \<times> string option \<times> adc_command) option" where
  "dispatch_line aLine aNmdc =
     (case adc_of_line aLine aNmdc of
        Inl _ \<Rightarrow> None
      | Inr c \<Rightarrow> Some (\<not> aNmdc, adc_dispatch c, c))"


section \<open>Codes and bytes\<close>

lemma length_le32_bytes [simp]: "length (le32_bytes w) = 4"
  by (simp add: le32_bytes_def)

lemma le32_le32_bytes [simp]: "le32 (le32_bytes w) = w"
proof (rule bit_word_eqI)
  fix n assume n: "n < LENGTH(32)"
  then have "n < 8 \<or> 8 \<le> n \<and> n < 16 \<or> 16 \<le> n \<and> n < 24 \<or> 24 \<le> n \<and> n < 32" by auto
  then show "bit (le32 (le32_bytes w)) n = bit w n"
    by (elim disjE conjE) (auto simp: le32_bytes_def bit_simps)
qed

lemma le32_bytes_le32: "length bs = 4 \<Longrightarrow> le32_bytes (le32 bs) = bs"
proof -
  assume "length bs = 4"
  then obtain a b c d where bs: "bs = [a, b, c, d]"
    by (auto simp: length_Suc_conv numeral_eq_Suc)
  have "ucast (le32 bs) = a" "ucast (drop_bit 8 (le32 bs)) = b"
    "ucast (drop_bit 16 (le32 bs)) = c" "ucast (drop_bit 24 (le32 bs)) = d"
    unfolding bs by (rule bit_word_eqI; auto simp: bit_simps dest: bit_imp_le_length)+
  then show ?thesis unfolding le32_bytes_def bs by simp
qed

lemma length_fromSID [simp]: "length (fromSID w) = 4"
  by (simp add: fromSID_def bytes_str_def)

lemma toSID_fromSID [simp]: "toSID (fromSID w) = w"
  by (simp add: toSID_def fromSID_def bytes_str_def str_bytes_def o_def)

lemma length_str_bytes [simp]: "length (str_bytes s) = length s"
  by (simp add: str_bytes_def)

lemma fromSID_toSID: "length s = 4 \<Longrightarrow> fromSID (toSID s) = s"
  by (simp add: toSID_def fromSID_def le32_bytes_le32)

interpretation sid_text: codec fromSID "\<lambda>s. Some (toSID s)" "\<lambda>_. True"
  by unfold_locales simp

section \<open>Escapes\<close>

definition escape_char :: "bool \<Rightarrow> char \<Rightarrow> string" where
  "escape_char old c =
     (if c \<in> {CHR '' '', CHR 0x0A, CHR 0x5C} then
        if old then [CHR 0x5C, c]
        else if c = CHR '' '' then [CHR 0x5C, CHR ''s'']
        else if c = CHR 0x0A then [CHR 0x5C, CHR ''n''] else [CHR 0x5C, CHR 0x5C]
      else [c])"

definition escape_chars :: "bool \<Rightarrow> string \<Rightarrow> string" where
  "escape_chars old s = concat (map (escape_char old) s)"

lemma escape_chars_simps [simp]:
  "escape_chars old [] = []" "escape_chars old (c # s) = escape_char old c @ escape_chars old s"
  "escape_chars old (s @ t) = escape_chars old s @ escape_chars old t"
  by (simp_all add: escape_chars_def)

lemma escape_chars_plain:
  "\<forall>c\<in>set s. c \<notin> {CHR '' '', CHR 0x0A, CHR 0x5C} \<Longrightarrow> escape_chars old s = s"
  by (induction s) (auto simp: escape_char_def)

lemma escape_loop_eq: "escape_loop old (pre @ s) (length pre) = pre @ escape_chars old s"
proof (induction "length s" arbitrary: pre s rule: less_induct)
  case less
  let ?plain = "\<lambda>c. c \<notin> {CHR '' '', CHR 0x0A, CHR 0x5C}"
  let ?t = "takeWhile ?plain s" and ?u = "dropWhile ?plain s"
  have t: "escape_chars old ?t = ?t"
    by (rule escape_chars_plain) (use set_takeWhileD in fast)
  show ?case
  proof (cases ?u)
    case Nil
    then have s: "?t = s" by (metis append_Nil2 takeWhile_dropWhile_id)
    from arg_cong [OF this, of length] have "find_special (pre @ s) (length pre) = None"
      by (simp add: find_special_def)
    note s = \<open>?t = s\<close> this
    moreover have "escape_chars old s = s" using t unfolding s(1) .
    ultimately show ?thesis by (simp add: escape_loop.simps [of old "pre @ s"])
  next
    case (Cons x u)
    define t where "t = ?t"
    have s: "s = t @ x # u" using Cons unfolding t_def by (metis takeWhile_dropWhile_id)
    have plain: "escape_chars old t = t" using t by (simp add: t_def)
    have x: "x \<in> {CHR '' '', CHR 0x0A, CHR 0x5C}"
      using Cons by (metis (mono_tags, lifting) dropWhile_eq_Cons_conv)
    have "length t < length s" by (simp add: s)
    then have find: "find_special (pre @ s) (length pre) = Some (length (pre @ t))"
      unfolding find_special_def Let_def t_def by simp
    have two: "length (escape_char old x) = 2" using x by (auto simp: escape_char_def)
    have "escape_loop old (pre @ s) (length pre)
        = escape_loop old ((pre @ t @ escape_char old x) @ u) (length (pre @ t @ escape_char old x))"
      using x find two
      by (subst escape_loop.simps) (auto simp: escape_char_def s)
    also have "\<dots> = (pre @ t @ escape_char old x) @ escape_chars old u"
      by (rule less) (simp add: s)
    also have "\<dots> = pre @ escape_chars old s"
      by (simp add: s plain)
    finally show ?thesis .
  qed
qed

lemma escape_eq: "escape s old = escape_chars old s"
  using escape_loop_eq [of old "[]" s] by (simp add: escape_def)


section \<open>Fields\<close>

text \<open>A piece of text that the loop of \<open>parse\<close> reads as the value \<open>v\<close>.\<close>

definition field_text :: "bool \<Rightarrow> string \<Rightarrow> string \<Rightarrow> bool" where
  "field_text nmdc t v \<longleftrightarrow>
     (\<forall>ty s r. parse_loop ty nmdc s (t @ r) = parse_loop ty nmdc (s\<lparr>ps_cur := ps_cur s @ v\<rparr>) r)"

lemma field_text_append: "field_text nmdc t v \<Longrightarrow> field_text nmdc u w \<Longrightarrow> field_text nmdc (t @ u) (v @ w)"
  by (simp add: field_text_def)

lemma field_text_nil: "field_text nmdc [] []"
  by (simp add: field_text_def)

lemma field_text_char:
  "c \<noteq> CHR '' '' \<Longrightarrow> c \<noteq> CHR 0x5C \<Longrightarrow> field_text nmdc [c] [c]"
  by (simp add: field_text_def parse_loop.simps(2))

lemma field_text_plain:
  "\<forall>c\<in>set t. c \<noteq> CHR '' '' \<and> c \<noteq> CHR 0x5C \<Longrightarrow> field_text nmdc t t"
proof (induction t)
  case (Cons c t)
  then show ?case using field_text_append [OF field_text_char [of c], of nmdc t t] by simp
qed (simp add: field_text_nil)

lemma field_text_escape_char:
  "\<not> old \<or> (nmdc \<and> c \<noteq> CHR 0x0A) \<Longrightarrow> field_text nmdc (escape_char old c) [c]"
  by (auto simp: field_text_def escape_char_def parse_loop.simps(2))

lemma field_text_escape:
  "\<not> old \<or> (nmdc \<and> CHR 0x0A \<notin> set s) \<Longrightarrow> field_text nmdc (escape s old) s"
proof (induction s)
  case (Cons c s)
  then show ?case
    using field_text_append [OF field_text_escape_char [of old nmdc c], of "escape s old" s]
    by (auto simp: escape_eq)
qed (simp add: escape_eq field_text_nil)

lemma parse_old_newline:
  "CHR 0x0A \<in> set s \<Longrightarrow> parse_loop ty True st (escape s True @ r) = Inl UnknownEscape"
proof -
  assume "CHR 0x0A \<in> set s"
  then obtain a b where s: "s = a @ CHR 0x0A # b" "CHR 0x0A \<notin> set a"
    by (meson split_list_first)
  have "field_text True (escape a True) a" using field_text_escape [of True True a] s(2) by simp
  then have "parse_loop ty True st (escape a True @ q)
      = parse_loop ty True (st\<lparr>ps_cur := ps_cur st @ a\<rparr>) q" for q
    by (simp add: field_text_def)
  then show ?thesis
    unfolding s by (simp add: escape_eq escape_char_def parse_loop.simps(2))
qed

text \<open>Fields separated by single spaces: all but the last are stored, the last is left in \<open>cur\<close>.\<close>

fun join_fields :: "string list \<Rightarrow> string" where
  "join_fields [] = []"
| "join_fields [t] = t"
| "join_fields (t # ts) = t @ '' '' @ join_fields ts"

lemma join_fields_char [simp]: "join_fields ((c # t) # ts) = c # join_fields (t # ts)"
  by (cases ts) simp_all

lemma join_fields_concat: "concat (map (\<lambda>t. CHR '' '' # t) (t # ts)) = '' '' @ join_fields (t # ts)"
proof (induction ts arbitrary: t)
  case (Cons u ts)
  then show ?case by simp
qed simp

fun store_fields :: "char \<Rightarrow> parse_state \<Rightarrow> string list \<Rightarrow> parse_error + parse_state" where
  "store_fields ty s [] = Inr s"
| "store_fields ty s (v # vs) =
     (case parse_field ty (s\<lparr>ps_cur := v\<rparr>) of Inl e \<Rightarrow> Inl e | Inr s \<Rightarrow> store_fields ty s vs)"

text \<open>An empty last field is ignored.\<close>

definition drop_empty_last :: "string list \<Rightarrow> string list" where
  "drop_empty_last vs = (if vs \<noteq> [] \<and> last vs = [] then butlast vs else vs)"

definition check_stored :: "char \<Rightarrow> parse_state \<Rightarrow> parse_error + parse_state" where
  "check_stored ty s =
     (if has_from ty \<and> \<not> ps_fromSet s then Inl MissingFromSid
      else if ty = CHR ''F'' \<and> \<not> ps_featureSet s then Inl MissingFeature
      else if has_to ty \<and> \<not> ps_toSet s then Inl MissingToSid
      else Inr s)"

definition sum_bind :: "'e + 'a \<Rightarrow> ('a \<Rightarrow> 'e + 'b) \<Rightarrow> 'e + 'b" where
  "sum_bind r f = (case r of Inl e \<Rightarrow> Inl e | Inr x \<Rightarrow> f x)"

lemma sum_bind_simps [simp]: "sum_bind (Inl e) f = Inl e" "sum_bind (Inr x) f = f x"
  by (simp_all add: sum_bind_def)

text \<open>The fields of a parse result that the command keeps.\<close>

definition stored :: "parse_state \<Rightarrow> string list \<times> sid \<times> sid" where
  "stored s = (ps_params s, ps_from s, ps_to s)"

definition outcome :: "'e + parse_state \<Rightarrow> 'e + string list \<times> sid \<times> sid" where
  "outcome r = sum_bind r (\<lambda>s. Inr (stored s))"

lemma outcome_simps [simp]: "outcome (Inl e) = Inl e" "outcome (Inr s) = Inr (stored s)"
  by (simp_all add: outcome_def)

lemma parse_join:
  "list_all2 (field_text nmdc) ts vs \<Longrightarrow> ts \<noteq> [] \<Longrightarrow> ps_cur s = [] \<Longrightarrow>
   outcome (sum_bind (parse_loop ty nmdc s (join_fields ts)) (parse_finish ty))
   = outcome (sum_bind (store_fields ty s (drop_empty_last vs)) (check_stored ty))"
proof (induction ts arbitrary: vs s rule: join_fields.induct)
  case (2 t)
  then obtain v where vs: "vs = [v]" "field_text nmdc t v" by (auto simp: list_all2_Cons1)
  then have "parse_loop ty nmdc s t = Inr (s\<lparr>ps_cur := v\<rparr>)"
    using 2 by (metis append_Nil append_Nil2 field_text_def parse_loop.simps(1))
  then show ?case
    using vs 2 by (cases "v = []"; cases "parse_field ty (s\<lparr>ps_cur := v\<rparr>)")
      (simp_all add: parse_finish_def drop_empty_last_def check_stored_def stored_def)
next
  case (3 t u ts)
  then obtain v vs' where vs: "vs = v # vs'" "field_text nmdc t v" "list_all2 (field_text nmdc) (u # ts) vs'"
    by (auto simp: list_all2_Cons1)
  then have ne: "vs' \<noteq> []" by auto
  have "parse_loop ty nmdc s (join_fields (t # u # ts))
      = parse_loop ty nmdc (s\<lparr>ps_cur := v\<rparr>) ('' '' @ join_fields (u # ts))"
    using vs(2) 3(4) by (simp add: field_text_def)
  also have "\<dots> = (case parse_field ty (s\<lparr>ps_cur := v\<rparr>) of Inl e \<Rightarrow> Inl e
      | Inr s \<Rightarrow> parse_loop ty nmdc (s\<lparr>ps_cur := []\<rparr>) (join_fields (u # ts)))"
    by (simp add: parse_loop.simps(2))
  finally have step: "parse_loop ty nmdc s (join_fields (t # u # ts)) = \<dots>" .
  have drop: "drop_empty_last vs = v # drop_empty_last vs'"
    using ne by (simp add: drop_empty_last_def vs)
  show ?case
  proof (cases "parse_field ty (s\<lparr>ps_cur := v\<rparr>)")
    case (Inl e)
    then show ?thesis unfolding step drop by simp
  next
    case (Inr s')
    have "store_fields ty (s'\<lparr>ps_cur := []\<rparr>) ws = store_fields ty s' ws" if "ws \<noteq> []" for ws
      using that by (cases ws) simp_all
    moreover have "outcome (sum_bind (store_fields ty (s'\<lparr>ps_cur := []\<rparr>) []) (check_stored ty))
      = outcome (sum_bind (store_fields ty s' []) (check_stored ty))"
      by (simp add: check_stored_def stored_def)
    ultimately show ?thesis
      unfolding step drop using Inr 3(1) [OF vs(3), of "s'\<lparr>ps_cur := []\<rparr>"]
      by (cases "drop_empty_last vs' = []") simp_all
  qed
qed simp


section \<open>Storing the fields of a command\<close>

lemma store_fields_append:
  "store_fields ty s (vs @ ws) = sum_bind (store_fields ty s vs) (\<lambda>s. store_fields ty s ws)"
  by (induction vs arbitrary: s) (auto split: sum.split)

lemma store_params:
  "(has_from ty \<longrightarrow> ps_fromSet s) \<Longrightarrow> (has_to ty \<longrightarrow> ps_toSet s) \<Longrightarrow> (ty = CHR ''F'' \<longrightarrow> ps_featureSet s) \<Longrightarrow>
   outcome (sum_bind (store_fields ty s ps) (check_stored ty)) = Inr (ps_params s @ ps, ps_from s, ps_to s)"
proof (induction ps arbitrary: s)
  case Nil
  then show ?case by (auto simp: check_stored_def stored_def)
next
  case (Cons p ps)
  have "parse_field ty (s\<lparr>ps_cur := p\<rparr>) = Inr (s\<lparr>ps_cur := p, ps_params := ps_params s @ [p]\<rparr>)"
    using Cons.prems by (auto simp: parse_field_def)
  then show ?case using Cons.IH [of "s\<lparr>ps_cur := p, ps_params := ps_params s @ [p]\<rparr>"] Cons.prems by simp
qed

definition route_fields :: "char \<Rightarrow> sid \<Rightarrow> sid \<Rightarrow> string \<Rightarrow> string list" where
  "route_fields ty sid to features =
     (if has_from ty then [fromSID sid] else []) @ (if has_to ty then [fromSID to] else [])
     @ (if ty = CHR ''F'' then [features] else [])"

lemma store_route:
  assumes "\<not> ps_toSet s" and "\<not> ps_featureSet s" and "has_from ty \<longrightarrow> \<not> ps_fromSet s"
    and "ty = CHR ''F'' \<longrightarrow> length features mod 5 = 0"
  shows "outcome (sum_bind (store_fields ty s (route_fields ty sid to features @ ps)) (check_stored ty))
    = Inr (ps_params s @ ps, if has_from ty then sid else ps_from s, if has_to ty then to else ps_to s)"
proof -
  have 1: "has_to ty \<Longrightarrow> has_from ty \<and> ty \<noteq> CHR ''F''" "ty = CHR ''F'' \<Longrightarrow> has_from ty"
    by (auto simp: has_from_def has_to_def)
  obtain s' where s': "store_fields ty s (route_fields ty sid to features) = Inr s'"
    "ps_params s' = ps_params s" "ps_from s' = (if has_from ty then sid else ps_from s)"
    "ps_to s' = (if has_to ty then to else ps_to s)"
    "has_from ty \<longrightarrow> ps_fromSet s'" "has_to ty \<longrightarrow> ps_toSet s'" "ty = CHR ''F'' \<longrightarrow> ps_featureSet s'"
    using 1 assms
    by (cases "has_from ty"; cases "has_to ty"; cases "ty = CHR ''F''")
      (auto simp: route_fields_def parse_field_def)
  then show ?thesis
    using store_params [of ty s' ps] by (simp add: store_fields_append)
qed

lemma sum_case_outcome:
  "(case p of Inl e \<Rightarrow> Inl e
      | Inr s \<Rightarrow> (case f s of Inl e \<Rightarrow> Inl e
          | Inr s \<Rightarrow> Inr (c\<lparr>ac_params := ps_params s, ac_from := ps_from s, ac_to := ps_to s\<rparr>)))
   = (case outcome (sum_bind p f) of Inl e \<Rightarrow> Inl e
      | Inr (ps, fr, t) \<Rightarrow> Inr (c\<lparr>ac_params := ps, ac_from := fr, ac_to := t\<rparr>))"
  by (auto simp: outcome_def sum_bind_def stored_def split: sum.splits)

lemma parse_body_fields:
  assumes "isValidType (ac_type c)" and "list_all2 (field_text nmdc) ts vs"
  shows "parse_body c nmdc (join_fields ts) =
    (let c = (if ac_type c = CHR ''I'' then c\<lparr>ac_from := HUB_SID\<rparr> else c);
         s = \<lparr>ps_cur = [], ps_params = ac_params c, ps_from = ac_from c, ps_to = ac_to c,
              ps_fromSet = nmdc, ps_toSet = False, ps_featureSet = False\<rparr>
     in case outcome (sum_bind (store_fields (ac_type c) s (drop_empty_last vs)) (check_stored (ac_type c))) of
          Inl e \<Rightarrow> Inl e
        | Inr (ps, fr, t) \<Rightarrow> Inr (c\<lparr>ac_params := ps, ac_from := fr, ac_to := t\<rparr>))"
proof (cases "ts = []")
  case True
  then show ?thesis
    using assms unfolding parse_body_def sum_case_outcome
    by (simp add: Let_def drop_empty_last_def parse_finish_def check_stored_def)
next
  case False
  show ?thesis
    using assms(1) parse_join [OF assms(2) False]
    unfolding parse_body_def sum_case_outcome Let_def by simp
qed

text \<open>The command's three characters, as sent.\<close>

definition wire_cmd :: "adc_command \<Rightarrow> bool" where
  "wire_cmd c \<longleftrightarrow>
     (let b = le32_bytes (ac_cmdInt c) in b ! 0 \<noteq> 0 \<and> b ! 1 \<noteq> 0 \<and> b ! 2 \<noteq> 0 \<and> b ! 3 = 0)"

lemma char_of_byte_zero: "char_of_byte b = CHR 0x00 \<longleftrightarrow> b = 0"
proof
  assume "char_of_byte b = CHR 0x00"
  then have "byte_of_char (char_of_byte b) = byte_of_char (CHR 0x00)" by (rule arg_cong)
  then show "b = 0" unfolding byte_of_char_of_byte by (simp add: byte_of_char_def)
qed (simp add: char_of_byte_def char_of_def)

lemma wire_cmdD:
  assumes "wire_cmd c"
  shows "length (cmdChar c) = 3"
    "ac_cmdInt d = 0 \<Longrightarrow> set_cmd (cmdChar c) d = d\<lparr>ac_cmdInt := ac_cmdInt c\<rparr>"
proof -
  obtain p q r z where b: "le32_bytes (ac_cmdInt c) = [p, q, r, z]"
    by (simp add: le32_bytes_def)
  with assms have nz: "p \<noteq> 0" "q \<noteq> 0" "r \<noteq> 0" "z = 0"
    by (simp_all add: wire_cmd_def)
  then have cmd: "cmdChar c = map char_of_byte [p, q, r]"
    by (simp add: cmdChar_def b bytes_str_def char_of_byte_zero)
  then show "length (cmdChar c) = 3" by simp
  assume "ac_cmdInt d = 0"
  then have "str_bytes (cmdChar c) @ drop 3 (le32_bytes (ac_cmdInt d)) = le32_bytes (ac_cmdInt c)"
    using nz(4) by (simp add: cmd b str_bytes_def) (simp add: le32_bytes_def)
  then show "set_cmd (cmdChar c) d = d\<lparr>ac_cmdInt := ac_cmdInt c\<rparr>"
    by (simp add: set_cmd_def)
qed

definition plain :: "string \<Rightarrow> bool" where
  "plain t \<longleftrightarrow> list_all (\<lambda>c. c \<noteq> CHR '' '' \<and> c \<noteq> CHR 0x5C) t"

lemma field_text_plain': "plain t \<Longrightarrow> field_text nmdc t t"
  by (rule field_text_plain) (simp add: plain_def list_all_iff)

text \<open>
  What a command must satisfy to be read back: a valid type, a three-character code, ids and
  features that need no escaping, a last parameter that is not empty.
\<close>

definition wire_ok :: "adc_command \<Rightarrow> sid \<Rightarrow> bool" where
  "wire_ok c sid \<longleftrightarrow>
     isValidType (ac_type c) \<and> wire_cmd c
     \<and> (if has_from (ac_type c) then plain (fromSID sid) else True)
     \<and> (if has_to (ac_type c) then plain (fromSID (ac_to c)) else True)
     \<and> (if ac_type c = CHR ''F''
        then plain (ac_features c) \<and> length (ac_features c) mod 5 = 0
          \<and> (ac_features c \<noteq> [] \<or> ac_params c \<noteq> []) else True)
     \<and> (ac_params c = [] \<or> last (ac_params c) \<noteq> [])"

definition received :: "adc_command \<Rightarrow> sid \<Rightarrow> adc_command" where
  "received c sid =
     c\<lparr>ac_features := [],
       ac_from := (if has_from (ac_type c) then sid else if ac_type c = CHR ''I'' then HUB_SID else 0),
       ac_to := (if has_to (ac_type c) then ac_to c else 0)\<rparr>"

lemma drop_empty_last_route:
  assumes "wire_ok c sid"
  shows "drop_empty_last (route_fields (ac_type c) sid (ac_to c) (ac_features c) @ ac_params c)
    = route_fields (ac_type c) sid (ac_to c) (ac_features c) @ ac_params c"
proof -
  have ne: "fromSID w \<noteq> []" for w by (metis length_fromSID list.size(3) zero_neq_numeral)
  show ?thesis
  proof (cases "ac_params c = []")
    case True
    then show ?thesis using assms ne
      by (auto simp: drop_empty_last_def wire_ok_def route_fields_def)
  next
    case False
    then show ?thesis using assms by (auto simp: drop_empty_last_def wire_ok_def)
  qed
qed

lemma adc_line:
  "butlast (adc_toString c sid nmdc) = (if nmdc then ''$ADC'' else [ac_type c]) @ cmdChar c
     @ concat (map (\<lambda>t. CHR '' '' # t) (route_fields (ac_type c) sid (ac_to c) (ac_features c)
         @ map (\<lambda>p. escape p nmdc) (ac_params c)))"
  by (simp add: adc_toString_def getHeaderString_def getParamString_def route_fields_def butlast_append
      comp_def)

lemma drop_fields:
  "length h = n \<Longrightarrow> drop (Suc n) (h @ concat (map (\<lambda>t. CHR '' '' # t) ts)) = join_fields ts"
  by (cases ts) (simp_all add: join_fields_concat [simplified])


lemma toCode_pair:
  assumes "a \<noteq> CHR 0x00" and "b \<noteq> CHR 0x00"
  shows "toCode [a, b] = toCode p \<longleftrightarrow> take 2 p = [a, b]"
proof -
  have inj: "(ucast x OR push_bit 8 (ucast y) :: 16 word) = ucast x' OR push_bit 8 (ucast y') \<longleftrightarrow> x = x' \<and> y = y'"
    for x y x' y' :: byte
  proof
    assume eq: "(ucast x OR push_bit 8 (ucast y) :: 16 word) = ucast x' OR push_bit 8 (ucast y')"
    have "bit x n = bit x' n" if "n < 8" for n
      using arg_cong [OF eq, of "\<lambda>w. bit w n"] that by (simp add: bit_simps)
    moreover have "bit y n = bit y' n" if "n < 8" for n
      using arg_cong [OF eq, of "\<lambda>w. bit w (n + 8)"] that by (simp add: bit_simps byte_bit_ge)
    ultimately show "x = x' \<and> y = y'"
      by (auto intro: bit_word_eqI)
  qed simp
  have inj_byte: "byte_of_char c = byte_of_char d \<longleftrightarrow> c = d" for c d
    by (metis char_of_byte_of_char)
  have zero: "byte_of_char c = 0 \<longleftrightarrow> c = CHR 0x00" for c
    using char_of_byte_zero [of "byte_of_char c"] by simp
  consider "p = []" | c where "p = [c]" | c d q where "p = c # d # q"
    by (metis remdups_adj.cases)
  then show ?thesis
    by cases (use assms in \<open>auto simp: toCode_def Let_def str_bytes_def inj inj [where x' = 0 and y' = 0, simplified]
      inj [where y' = 0, simplified] inj_byte zero numeral_2_eq_2\<close>)
qed

lemma parse_field_C: "parse_field (CHR ''C'') s = Inr (s\<lparr>ps_params := ps_params s @ [ps_cur s]\<rparr>)"
  by (simp add: parse_field_def has_from_def has_to_def)

lemma parse_newline_fields:
  "\<exists>p\<in>set ps. CHR 0x0A \<in> set p \<Longrightarrow>
   parse_loop (CHR ''C'') True s (join_fields (map (\<lambda>p. escape p True) ps)) = Inl UnknownEscape"
proof (induction ps arbitrary: s)
  case (Cons p ps)
  show ?case
  proof (cases "CHR 0x0A \<in> set p")
    case True
    then show ?thesis
      using parse_old_newline [OF True, of "CHR ''C''" s "[]"]
        parse_old_newline [OF True, of "CHR ''C''" s "'' '' @ join_fields (map (\<lambda>p. escape p True) ps)"]
      by (cases ps) simp_all
  next
    case False
    with Cons.prems have ps: "\<exists>p\<in>set ps. CHR 0x0A \<in> set p" by auto
    then obtain q qs where "ps = q # qs" by (cases ps) auto
    moreover have "field_text True (escape p True) p" using False by (intro field_text_escape) simp
    ultimately show ?thesis
      using Cons.IH [OF ps] by (simp add: field_text_def parse_loop.simps(2) parse_field_C)
  qed
qed simp

lemma parts_nmdc:
  assumes "wire_cmd c" and "line = (''$ADC'' @ cmdChar c) @ concat (map (\<lambda>t. CHR '' '' # t) ts)"
  shows "adc_of_line line True
    = parse_body ((adc_new 0 0 (CHR ''C''))\<lparr>ac_cmdInt := ac_cmdInt c\<rparr>) True (join_fields ts)"
proof -
  have "length (cmdChar c) = 3" using wire_cmdD [OF assms(1)] by simp
  then have parts: "\<not> length line < 7" "take 3 (drop 4 line) = cmdChar c" "drop 8 line = join_fields ts"
    unfolding assms(2) using drop_fields [of "''$ADC'' @ cmdChar c" 7 ts] by simp_all
  have upd: "(adc_new 0 0 (CHR ''C''))\<lparr>ac_type := CHR ''C''\<rparr> = adc_new 0 0 (CHR ''C'')"
    by (simp add: adc_new_def)
  show ?thesis
    unfolding adc_of_line_def adc_parse_def parts upd using parts(1)
      wire_cmdD(2) [OF assms(1), of "adc_new 0 0 (CHR ''C'')"] by (simp add: adc_new_def)
qed

lemma scast_ascii: "\<not> bit (w :: byte) 7 \<Longrightarrow> (scast w :: 32 word) = ucast w"
proof (rule bit_word_eqI)
  fix n assume "\<not> bit w 7" "n < LENGTH(32)"
  then show "bit (scast w :: 32 word) n = bit (ucast w :: 32 word) n"
    by (cases "n < 7"; cases "n = 7") (auto simp: bit_simps byte_bit_ge min_def)
qed

lemma fromCommand_toCommand:
  assumes "length n = 3" and "\<forall>c\<in>set n. \<not> bit (byte_of_char c) 7"
  shows "fromCommand (toCommand n) = n"
proof -
  obtain a b c where n: "n = [a, b, c]"
    using assms(1) by (auto simp: length_Suc_conv numeral_eq_Suc)
  have "toCommand n = le32 (str_bytes n @ [0])"
    using assms(2) unfolding n
    by (simp add: toCommand_def char_to_u32_def str_bytes_def scast_ascii push_bit_or)
  moreover have "length (str_bytes n @ [0]) = 4" using assms(1) by simp
  ultimately have "le32_bytes (toCommand n) = str_bytes n @ [0]"
    by (simp only: le32_bytes_le32)
  then show ?thesis
    by (simp add: fromCommand_def n str_bytes_def bytes_str_def)
qed

section \<open>Properties\<close>

lemma adc_read_back:
  assumes "wire_ok c sid"
  shows "adc_of_line (butlast (adc_toString c sid False)) False = Inr (received c sid)"
proof -
  let ?ty = "ac_type c"
  let ?route = "route_fields ?ty sid (ac_to c) (ac_features c)"
  let ?vs = "?route @ ac_params c" and ?ts = "?route @ map (\<lambda>p. escape p False) (ac_params c)"
  have cmd: "wire_cmd c" and ty: "isValidType ?ty" using assms by (simp_all add: wire_ok_def)
  have "list_all2 (field_text False) ?route ?route"
    using assms by (auto simp: route_fields_def wire_ok_def intro: field_text_plain')
  moreover have "list_all2 (field_text False) (map (\<lambda>p. escape p False) ps) ps" for ps
    by (induction ps) (auto intro: field_text_escape)
  ultimately have fields: "list_all2 (field_text False) ?ts ?vs"
    by (simp add: list_all2_appendI)
  let ?line = "butlast (adc_toString c sid False)"
  have line: "?line = (?ty # cmdChar c) @ concat (map (\<lambda>t. CHR '' '' # t) ?ts)"
    using adc_line [of c sid False] by simp
  have "length (cmdChar c) = 3" using wire_cmdD [OF cmd] by simp
  then have parts: "\<not> length ?line < 4" "?line ! 0 = ?ty" "take 3 (drop 1 ?line) = cmdChar c"
    "drop 5 ?line = join_fields ?ts"
    unfolding line using drop_fields [of "?ty # cmdChar c" 4 ?ts] by simp_all
  let ?c = "(adc_new 0 0 (CHR ''C''))\<lparr>ac_type := ?ty, ac_cmdInt := ac_cmdInt c\<rparr>"
  have "adc_of_line ?line False = parse_body ?c False (join_fields ?ts)"
    unfolding adc_of_line_def adc_parse_def parts using parts(1) wire_cmdD(2) [OF cmd]
    by (simp add: adc_new_def)
  also have "\<dots> = Inr (received c sid)"
  proof -
    have valid: "isValidType (ac_type ?c)" using ty by simp
    have "?ty = CHR ''F'' \<longrightarrow> length (ac_features c) mod 5 = 0"
      using assms by (simp add: wire_ok_def)
    then show ?thesis
      unfolding parse_body_fields [OF valid fields] drop_empty_last_route [OF assms]
      by (cases "?ty = CHR ''I''") (simp_all add: Let_def store_route received_def adc_new_def
          has_from_def has_to_def)
  qed
  finally show ?thesis .
qed

text \<open>
  C9: a command that is sent with the id \<open>sid\<close> of its sender is read back by the receiver with the
  same type, code, target and parameters, whatever characters the parameters contain; the
  features, which only address the hub, are dropped.
\<close>

theorem adc_round_trip:
  assumes "wire_ok c sid"
  shows "adc_of_line (butlast (adc_toString c sid False)) False = Inr (received c sid)"
  by (rule adc_read_back [OF assms])

theorem adc_round_trip_witness:
  "adc_of_line (''DMSG AAAB AAAA a'' @ [CHR 0x5C] @ ''sb PMAAAB'') False
     = Inr (received ((adc_new (toCommand ''MSG'') (toSID ''AAAA'') (CHR ''D''))
         \<lparr>ac_params := [''a b'', ''PMAAAB'']\<rparr>) (toSID ''AAAB''))"
proof -
  let ?c = "(adc_new (toCommand ''MSG'') (toSID ''AAAA'') (CHR ''D''))\<lparr>ac_params := [''a b'', ''PMAAAB'']\<rparr>"
  have "wire_ok ?c (toSID ''AAAB'')" by code_simp
  moreover have "butlast (adc_toString ?c (toSID ''AAAB'') False) = (''DMSG AAAB AAAA a'' @ [CHR 0x5C] @ ''sb PMAAAB'')"
    by code_simp
  ultimately show ?thesis using adc_round_trip [of ?c "toSID ''AAAB''"] by simp
qed

text \<open>
  C10: in the older \<open>$ADC\<close> form a client command is read back when no parameter contains a line
  break, and rejected as an unknown escape when one does: the older escaping puts a backslash
  before the line break itself, which the parser does not know.
\<close>

theorem adc_nmdc_round_trip:
  assumes "ac_type c = CHR ''C''" and "wire_cmd c" and "ac_params c = [] \<or> last (ac_params c) \<noteq> []"
  shows "adc_of_line (butlast (adc_toString c sid True)) True
    = (if list_ex (\<lambda>p. CHR 0x0A \<in> set p) (ac_params c) then Inl UnknownEscape
       else Inr (c\<lparr>ac_features := [], ac_from := 0, ac_to := 0\<rparr>))"
proof -
  let ?ts = "map (\<lambda>p. escape p True) (ac_params c)"
  let ?c = "(adc_new 0 0 (CHR ''C''))\<lparr>ac_cmdInt := ac_cmdInt c\<rparr>"
  have type: "ac_type ?c = CHR ''C''" "isValidType (ac_type ?c)"
    by (simp_all add: adc_new_def isValidType_def)
  have line: "adc_of_line (butlast (adc_toString c sid True)) True = parse_body ?c True (join_fields ?ts)"
    by (rule parts_nmdc [OF assms(2)])
      (simp add: adc_line route_fields_def assms(1) has_from_def has_to_def)
  show ?thesis
  proof (cases "list_ex (\<lambda>p. CHR 0x0A \<in> set p) (ac_params c)")
    case True
    then have "\<exists>p\<in>set (ac_params c). CHR 0x0A \<in> set p" by (simp add: list_ex_iff)
    from parse_newline_fields [OF this] show ?thesis
      unfolding line using True type by (simp add: parse_body_def Let_def)
  next
    case False
    then have "\<forall>p\<in>set (ac_params c). CHR 0x0A \<notin> set p" by (simp add: list_ex_iff)
    then have fields: "list_all2 (field_text True) ?ts (ac_params c)"
      by (simp add: list_all2_conv_all_nth field_text_escape)
    have "drop_empty_last (ac_params c) = ac_params c"
      using assms(3) by (auto simp: drop_empty_last_def)
    then show ?thesis
      unfolding line parse_body_fields [OF type(2) fields] using False type(1) assms(1)
      by (simp add: Let_def store_params has_from_def has_to_def) (simp add: adc_new_def)
  qed
qed

theorem adc_nmdc_round_trip_witness:
  "adc_of_line (butlast (adc_toString (addParam [CHR 0x0A] (adc_new (toCommand ''GET'') 0 (CHR ''C''))) 0 True)) True
     = Inl UnknownEscape"
proof -
  let ?c = "addParam [CHR 0x0A] (adc_new (toCommand ''GET'') 0 (CHR ''C''))"
  have "wire_cmd ?c" by code_simp
  then show ?thesis
    using adc_nmdc_round_trip [of ?c 0] by (simp add: addParam_def adc_new_def)
qed



text \<open>
  looking up a two-letter name finds the parameters that start with exactly those letters and
  returns what follows them, the first of them or all; a name with a NUL apart, a parameter that
  is too short is never matched, so the cut at its second character is always in range.
\<close>

lemma adc_named_params:
  assumes "a \<noteq> CHR 0x00" and "b \<noteq> CHR 0x00"
  shows "getParam_all c [a, b] start
      = map (drop 2) (filter (\<lambda>p. take 2 p = [a, b]) (drop start (ac_params c)))
    \<and> getParam_named c [a, b] start
      = (case getParam_all c [a, b] start of [] \<Rightarrow> None | v # _ \<Rightarrow> Some v)
    \<and> (start \<le> length (ac_params c) \<longrightarrow>
        getParam_all (addParam_named [a, b] v c) [a, b] start = getParam_all c [a, b] start @ [v])"
proof -
  note code = toCode_pair [OF assms]
  have "find_param [a, b] ps = (case map (drop 2) (filter (\<lambda>p. take 2 p = [a, b]) ps) of
      [] \<Rightarrow> None | v # _ \<Rightarrow> Some v)" for ps
    by (induction ps) (simp_all add: code)
  then show ?thesis
    by (simp add: getParam_all_def getParam_named_def addParam_named_def code)
qed

lemma adc_named_params_witness:
  "getParam_named ((adc_new 0 0 (CHR ''C''))\<lparr>ac_params := [''T'', ''TRx'', ''TRy'']\<rparr>) ''TR'' 0 = Some ''x''"
  using adc_named_params [of "CHR ''T''" "CHR ''R''" "(adc_new 0 0 (CHR ''C''))\<lparr>ac_params := [''T'', ''TRx'', ''TRy'']\<rparr>" 0]
  by (simp add: adc_new_def)



end
