(* ===== verification/Segments.thy ===== *)
theory Segments
  imports Prelude
begin

text \<open>
  \<^bold>\<open>core/classes/Segment.h\<close> and the set of finished segments of a queued file
  (\<open>QueueItem::addFinishedSegment\<close> and the queries on \<open>done\<close>).  A \<open>std::set\<close> of segments is the list
  of its elements in ascending order; comparisons ignore the \<open>overlapped\<close> mark.  Byte positions
  (\<open>int64_t\<close>) are integers, divided with truncation.
\<close>

section \<open>Segments\<close>

record segment =
  sg_start :: int
  sg_size :: int
  sg_overlapped :: bool

definition seg :: "int \<Rightarrow> int \<Rightarrow> segment" where
  "seg st sz = \<lparr>sg_start = st, sg_size = sz, sg_overlapped = False\<rparr>"

definition sg_end :: "segment \<Rightarrow> int" where
  "sg_end s = sg_start s + sg_size s"

definition sg_overlaps :: "segment \<Rightarrow> segment \<Rightarrow> bool" where
  "sg_overlaps s rhs \<longleftrightarrow> sg_start s < sg_end rhs \<and> sg_start rhs < sg_end s"

definition sg_trim :: "segment \<Rightarrow> segment \<Rightarrow> segment" where
  "sg_trim s rhs =
     (if \<not> sg_overlaps s rhs then s
      else if sg_start rhs < sg_start s then
        if sg_end s < sg_end rhs then s\<lparr>sg_start := 0, sg_size := 0\<rparr>
        else s\<lparr>sg_size := sg_size s - (sg_end rhs - sg_start s), sg_start := sg_end rhs\<rparr>
      else s\<lparr>sg_size := sg_start rhs - sg_start s\<rparr>)"

definition sg_contains :: "segment \<Rightarrow> segment \<Rightarrow> bool" where
  "sg_contains s rhs \<longleftrightarrow> sg_start s \<le> sg_start rhs \<and> sg_end rhs \<le> sg_end s"

definition sg_inSet :: "segment \<Rightarrow> segment list \<Rightarrow> bool" where
  "sg_inSet s segmentSet = list_ex (\<lambda>x. sg_contains x s) segmentSet"

definition sg_eq :: "segment \<Rightarrow> segment \<Rightarrow> bool" where
  "sg_eq s rhs \<longleftrightarrow> sg_start s = sg_start rhs \<and> sg_size s = sg_size rhs"

definition sg_less :: "segment \<Rightarrow> segment \<Rightarrow> bool" where
  "sg_less s rhs \<longleftrightarrow>
     sg_start s < sg_start rhs \<or> sg_start s = sg_start rhs \<and> sg_size s < sg_size rhs"

text \<open>\<open>set<Segment>::insert\<close>: an equal element stays.\<close>

fun done_insert :: "segment \<Rightarrow> segment list \<Rightarrow> segment list" where
  "done_insert s [] = [s]"
| "done_insert s (x # xs) =
     (if sg_less s x then s # x # xs else if sg_less x s then x # done_insert s xs else x # xs)"

section \<open>Finished segments\<close>

text \<open>
  The consolidation loop of \<open>addFinishedSegment\<close>: \<open>prev\<close> is the element before the iterator, \<open>pre\<close>
  are those before it, in reverse.  Erasing the two elements and inserting \<open>big\<close> puts \<open>big\<close> where
  \<open>prev\<close> was (\<open>consolidate_insert\<close> below), so the next iteration compares with it.  \<open>bytes\<close> is what
  has been reported to the bundle, once, at the first merge.
\<close>

fun consolidate ::
  "segment \<Rightarrow> segment list \<Rightarrow> segment \<Rightarrow> segment list \<Rightarrow> int option \<Rightarrow> segment list \<times> int option" where
  "consolidate aSegment pre prev [] bytes = (rev pre @ [prev], bytes)"
| "consolidate aSegment pre prev (i # rest) bytes =
     (if sg_start i \<le> sg_end prev then
        let big = seg (sg_start prev) (sg_end i - sg_start prev);
            newBytes = sg_size big - (if sg_eq prev aSegment then sg_size i else sg_size prev)
        in consolidate aSegment pre big rest (case bytes of None \<Rightarrow> Some newBytes | Some b \<Rightarrow> Some b)
      else consolidate aSegment (prev # pre) i rest bytes)"

text \<open>The new set, and the bytes that are added to the bundle's count.\<close>

definition addFinishedSegment :: "segment \<Rightarrow> segment list \<Rightarrow> segment list \<times> int" where
  "addFinishedSegment aSegment done0 =
     (let dn = done_insert aSegment done0;
          (dn, bytes) =
            (case dn of
               x # y # rest \<Rightarrow> consolidate aSegment [] x (y # rest) None
             | _ \<Rightarrow> (dn, None))
      in (dn, case bytes of None \<Rightarrow> sg_size aSegment | Some b \<Rightarrow> b))"

definition segmentsDone :: "int \<Rightarrow> segment list \<Rightarrow> bool" where
  "segmentsDone sz dn \<longleftrightarrow> length dn = 1 \<and> sg_eq (hd dn) (seg 0 sz)"

definition getDownloadedSegments :: "segment list \<Rightarrow> int" where
  "getDownloadedSegments dn = sum_list (map sg_size dn)"

definition isChunkDownloaded :: "segment list \<Rightarrow> segment \<Rightarrow> bool" where
  "isChunkDownloaded dn aSegment =
     (if sg_size aSegment \<le> 0 then False
      else list_ex (\<lambda>s. sg_start s \<le> sg_start aSegment \<and> sg_start aSegment < sg_end s
             \<and> sg_end aSegment \<le> sg_end s) dn)"

section \<open>Partial file sharing\<close>

type_synonym parts = "16 word list"

text \<open>
  \<open>isNeededPart\<close>: the iterator over \<open>done\<close> only moves forward; a list of parts has even length.
\<close>

fun isNeededPart :: "segment list \<Rightarrow> int \<Rightarrow> parts \<Rightarrow> bool" where
  "isNeededPart dn bs (p # q # parts) =
     (let dn = dropWhile (\<lambda>s. sg_end s \<le> uint p * bs) dn in
      case dn of
        [] \<Rightarrow> True
      | s # _ \<Rightarrow>
          if sg_start s \<le> uint p * bs \<and> uint q * bs \<le> sg_end s then isNeededPart dn bs parts else True)"
| "isNeededPart dn bs parts = False"

definition getPartialInfo :: "segment list \<Rightarrow> int \<Rightarrow> parts" where
  "getPartialInfo dn bs =
     (let maxSize = min (length dn * 2) 510 in
      concat (map (\<lambda>s. [word_of_int (sg_start s sdiv bs), word_of_int ((sg_end s - 1) sdiv bs + 1)])
        (take ((maxSize + 1) div 2) dn)))"

section \<open>Well-formed sets of finished segments\<close>

text \<open>
  The invariant of \<open>done\<close>: segments of positive size, in order, with a gap between neighbours; and
  the bytes they cover.
\<close>

fun gapped :: "segment list \<Rightarrow> bool" where
  "gapped [] = True"
| "gapped [s] = (0 < sg_size s)"
| "gapped (s # t # ss) = (0 < sg_size s \<and> sg_end s < sg_start t \<and> gapped (t # ss))"

definition seg_bytes :: "segment \<Rightarrow> int set" where
  "seg_bytes s = {sg_start s ..< sg_end s}"

definition covered :: "segment list \<Rightarrow> int set" where
  "covered ss = (\<Union>s\<in>set ss. seg_bytes s)"

lemma covered_simps [simp]:
  "covered [] = {}" "covered (s # ss) = seg_bytes s \<union> covered ss"
  "covered (ss @ ts) = covered ss \<union> covered ts"
  by (auto simp: covered_def)

lemma sg_end_seg [simp]: "sg_end (seg a n) = a + n" "sg_start (seg a n) = a" "sg_size (seg a n) = n"
  by (simp_all add: sg_end_def seg_def)

lemma gapped_Cons: "gapped (s # ss) \<longleftrightarrow> 0 < sg_size s \<and> gapped ss \<and> (ss \<noteq> [] \<longrightarrow> sg_end s < sg_start (hd ss))"
  by (cases ss) auto

lemma gapped_append:
  "gapped (ss @ ts) \<longleftrightarrow> gapped ss \<and> gapped ts
    \<and> (ss \<noteq> [] \<and> ts \<noteq> [] \<longrightarrow> sg_end (last ss) < sg_start (hd ts))"
proof (induction ss)
  case (Cons s ss)
  then show ?case by (cases ss) (auto simp: gapped_Cons)
qed simp

lemma gapped_size: "gapped ss \<Longrightarrow> s \<in> set ss \<Longrightarrow> 0 < sg_size s"
  by (induction ss) (auto simp: gapped_Cons)

lemma gapped_later:
  "gapped (s # ss) \<Longrightarrow> t \<in> set ss \<Longrightarrow> sg_end s < sg_start t"
proof (induction ss arbitrary: s)
  case (Cons u ss)
  then have "sg_start u < sg_end u" by (simp add: sg_end_def gapped_Cons)
  with Cons show ?case by (auto simp: gapped_Cons dest: Cons.IH [rotated])
qed simp

lemma gapped_less: "gapped (s # ss) \<Longrightarrow> t \<in> set ss \<Longrightarrow> sg_less s t"
  using gapped_later [of s ss t] by (auto simp: sg_less_def sg_end_def gapped_Cons)

text \<open>The position of a new segment among those of a well-formed set.\<close>

lemma done_insert_split:
  assumes "gapped dn" and "\<not> (\<exists>d\<in>set dn. sg_eq d s)"
  shows "\<exists>A B. dn = A @ B \<and> done_insert s dn = A @ s # B
    \<and> (\<forall>d\<in>set A. sg_less d s) \<and> (\<forall>d\<in>set B. sg_less s d)"
  using assms
proof (induction dn)
  case (Cons d dn)
  show ?case
  proof (cases "sg_less s d")
    case True
    have "\<forall>t\<in>set (d # dn). sg_less s t"
      using True gapped_later [OF Cons.prems(1)] Cons.prems(1)
      by (fastforce simp: sg_less_def sg_end_def gapped_Cons)
    then show ?thesis using True by (intro exI [of _ "[]"] exI [of _ "d # dn"]) simp
  next
    case False
    with Cons.prems have less: "sg_less d s" by (auto simp: sg_less_def sg_eq_def)
    from Cons obtain A B where "dn = A @ B" "done_insert s dn = A @ s # B"
      "\<forall>d\<in>set A. sg_less d s" "\<forall>d\<in>set B. sg_less s d"
      by (auto simp: gapped_Cons)
    then show ?thesis
      using False less by (intro exI [of _ "d # A"] exI [of _ B]) auto
  qed
qed simp

lemma consolidate_gapped:
  "gapped (prev # rest) \<Longrightarrow> consolidate s pre prev rest b = (rev pre @ prev # rest, b)"
proof (induction rest arbitrary: pre prev)
  case (Cons i rest)
  then show ?case by (simp add: gapped_Cons)
qed simp

lemma consolidate_prefix:
  "gapped (prev # xs) \<Longrightarrow>
   consolidate s pre prev (xs @ rest) b
     = consolidate s (rev (butlast (prev # xs)) @ pre) (last (prev # xs)) rest b"
proof (induction xs arbitrary: pre prev)
  case (Cons x xs)
  then show ?case by (simp add: gapped_Cons)
qed simp

text \<open>
  A new segment never swallows a finished one whole nor lies strictly inside one: then the code's
  merge of two neighbours is their union.
\<close>

definition no_nesting :: "segment \<Rightarrow> segment list \<Rightarrow> bool" where
  "no_nesting s dn \<longleftrightarrow>
     list_all (\<lambda>d. \<not> (sg_start d \<le> sg_start s \<and> sg_end s < sg_end d)
       \<and> \<not> (sg_start s < sg_start d \<and> sg_end d < sg_end s)) dn"

lemma seg_bytes_union:
  "sg_start a \<le> sg_start b \<Longrightarrow> sg_start b \<le> sg_end a \<Longrightarrow> sg_end a \<le> sg_end b \<Longrightarrow>
   seg_bytes (seg (sg_start a) (sg_end b - sg_start a)) = seg_bytes a \<union> seg_bytes b"
  by (auto simp: seg_bytes_def)

text \<open>Merging rightwards: at most the first segment of \<open>B\<close> touches a segment that ends inside it.\<close>

lemma consolidate_right:
  assumes "gapped B" and "0 < sg_size p" and "\<forall>d\<in>set B. sg_start p \<le> sg_start d"
    and "\<forall>d\<in>set B. sg_start d \<le> sg_end p \<longrightarrow> sg_end p \<le> sg_end d"
  shows "\<exists>C b'. consolidate s pre p B b = (rev pre @ C, b') \<and> gapped C \<and> covered C = seg_bytes p \<union> covered B
    \<and> sg_start (hd C) = sg_start p \<and> C \<noteq> []
    \<and> (b \<noteq> None \<longrightarrow> b' = b)
    \<and> (b = None \<longrightarrow> (if B \<noteq> [] \<and> sg_start (hd B) \<le> sg_end p
        then b' = Some (sg_end (hd B) - sg_start p - (if sg_eq p s then sg_size (hd B) else sg_size p))
        else b' = None))"
proof (cases B)
  case Nil
  then show ?thesis using assms(2) by (intro exI [of _ "[p]"] exI [of _ b]) simp
next
  case (Cons d ds)
  show ?thesis
  proof (cases "sg_start d \<le> sg_end p")
    case False
    then have g: "gapped (p # B)" using assms Cons by (simp add: gapped_Cons)
    show ?thesis using consolidate_gapped [OF g] g False Cons
      by (intro exI [of _ "p # B"] exI [of _ b]) simp
  next
    case True
    let ?big = "seg (sg_start p) (sg_end d - sg_start p)"
    have de: "sg_end p \<le> sg_end d" "sg_start p \<le> sg_start d" using assms(3,4) True Cons by auto
    have dpos: "0 < sg_size d" using assms(1) Cons by (simp add: gapped_Cons)
    have g: "gapped (?big # ds)"
      using assms(1) de dpos by (simp add: Cons gapped_Cons sg_end_def)
    have cov: "seg_bytes ?big = seg_bytes p \<union> seg_bytes d"
      using seg_bytes_union [of p d] de True by simp
    have "consolidate s pre p B b = (rev pre @ ?big # ds,
        case b of None \<Rightarrow> Some (sg_size ?big - (if sg_eq p s then sg_size d else sg_size p)) | Some b \<Rightarrow> Some b)"
      using True Cons consolidate_gapped [OF g] by (simp add: Let_def)
    then show ?thesis
      using g cov True Cons by (intro exI [of _ "?big # ds"]) (auto split: option.splits)
  qed
qed


lemma gapped_join:
  "gapped ss \<Longrightarrow> gapped ts \<Longrightarrow> (\<And>a. ss \<noteq> [] \<Longrightarrow> ts \<noteq> [] \<Longrightarrow> sg_end (last ss) < sg_start (hd ts))
   \<Longrightarrow> gapped (ss @ ts)"
  by (simp add: gapped_append)

lemma addFinishedSegment_loop:
  assumes "done_insert s dn = A @ s # B" and "gapped A"
  shows "addFinishedSegment s dn =
    (let (dn, b) =
       (if A = [] then consolidate s [] s B None
        else consolidate s (rev (butlast A)) (last A) (s # B) None)
     in (dn, case b of None \<Rightarrow> sg_size s | Some b \<Rightarrow> b))"
proof (cases A)
  case Nil
  then show ?thesis
    using assms by (cases B) (simp_all add: addFinishedSegment_def)
next
  case (Cons a A')
  have "consolidate s [] a (A' @ s # B) None = consolidate s (rev (butlast A)) (last A) (s # B) None"
    using consolidate_prefix [of a A' s "[]" "s # B" None] assms(2) Cons by simp
  then show ?thesis
    using assms Cons by (cases A') (simp_all add: addFinishedSegment_def)
qed

text \<open>The bytes reported for a segment between its neighbours \<open>A\<close> and \<open>B\<close>.\<close>

definition new_bytes :: "segment list \<Rightarrow> segment \<Rightarrow> segment list \<Rightarrow> int" where
  "new_bytes A s B =
     (if A \<noteq> [] \<and> sg_start s \<le> sg_end (last A) then sg_end s - sg_end (last A)
      else if B \<noteq> [] \<and> sg_start (hd B) \<le> sg_end s then sg_start (hd B) - sg_start s
      else sg_size s)"

lemma addFinishedSegment_result:
  assumes g: "gapped (A @ B)" and pos: "0 < sg_size s" and nest: "no_nesting s (A @ B)"
    and A: "\<forall>d\<in>set A. sg_less d s" and B: "\<forall>d\<in>set B. sg_less s d"
    and ins: "done_insert s dn = A @ s # B"
  shows "\<exists>C. addFinishedSegment s dn = (C, new_bytes A s B) \<and> gapped C
    \<and> covered C = covered (A @ B) \<union> seg_bytes s"
proof -
  have gA: "gapped A" and gB: "gapped B" using g by (simp_all add: gapped_append)
  have Bs: "\<forall>d\<in>set B. sg_start s \<le> sg_start d" using B by (auto simp: sg_less_def)
  have Be: "\<forall>d\<in>set B. sg_end s \<le> sg_end d"
  proof
    fix d assume d: "d \<in> set B"
    then have "\<not> (sg_start s < sg_start d \<and> sg_end d < sg_end s)" "sg_less s d"
      using nest B by (auto simp: no_nesting_def list_all_iff)
    then show "sg_end s \<le> sg_end d" by (auto simp: sg_less_def sg_end_def)
  qed
  note right = consolidate_right [OF gB]
  show ?thesis
  proof (cases "A = []")
    case True
    from right [OF pos Bs, of s "[]" None] Be obtain C b where
      C: "consolidate s [] s B None = (C, b)" "gapped C" "covered C = seg_bytes s \<union> covered B"
      and b: "if B \<noteq> [] \<and> sg_start (hd B) \<le> sg_end s
        then b = Some (sg_end (hd B) - sg_start s - sg_size (hd B)) else b = None"
      by (auto simp: sg_eq_def)
    show ?thesis
      unfolding addFinishedSegment_loop [OF ins gA] new_bytes_def
      using True C b by (auto simp: sg_end_def split: if_splits)
  next
    case False
    let ?a = "last A"
    have a: "?a \<in> set A" using False by simp
    have as: "sg_start ?a \<le> sg_start s" "\<not> sg_eq ?a s" using A a by (auto simp: sg_less_def sg_eq_def)
    have ae: "sg_end ?a \<le> sg_end s"
      using nest a as(1) by (auto simp: no_nesting_def list_all_iff)
    have apos: "0 < sg_size ?a" using gapped_size [OF gA a] .
    have split: "A = butlast A @ [?a]" using False by simp
    have gA': "gapped (butlast A)" "butlast A \<noteq> [] \<longrightarrow> sg_end (last (butlast A)) < sg_start ?a"
      using gA by (subst (asm) split, simp add: gapped_append)+
    show ?thesis
    proof (cases "sg_start s \<le> sg_end ?a")
      case True
      let ?big = "seg (sg_start ?a) (sg_end s - sg_start ?a)"
      have bpos: "0 < sg_size ?big" using as(1) pos by (simp add: sg_end_def)
      have "\<forall>d\<in>set B. sg_start ?big \<le> sg_start d"
        using Bs as(1) by auto
      from right [OF bpos this, of s "rev (butlast A)" "Some (sg_end s - sg_end ?a)"] Be
      obtain C where C: "consolidate s (rev (butlast A)) ?big B (Some (sg_end s - sg_end ?a))
          = (butlast A @ C, Some (sg_end s - sg_end ?a))"
        "gapped C" "covered C = seg_bytes ?big \<union> covered B" "sg_start (hd C) = sg_start ?a" "C \<noteq> []"
        by auto
      have step: "consolidate s (rev (butlast A)) ?a (s # B) None
          = consolidate s (rev (butlast A)) ?big B (Some (sg_end s - sg_end ?a))"
        using True as by (simp add: Let_def sg_end_def algebra_simps)
      have "gapped (butlast A @ C)"
        using gA' C(2,4,5) by (simp add: gapped_append)
      moreover have "covered (butlast A @ C) = covered (A @ B) \<union> seg_bytes s"
      proof -
        have "covered A = covered (butlast A) \<union> seg_bytes ?a" by (subst split) (simp del: append_butlast_last_id)
        then show ?thesis using C(3) seg_bytes_union [OF as(1) True ae] by auto
      qed
      ultimately show ?thesis
        unfolding addFinishedSegment_loop [OF ins gA] new_bytes_def step C(1) using False True by simp
    next
      case gap: False
      from right [OF pos Bs, of s "?a # rev (butlast A)" None] Be obtain C b where
        C: "consolidate s (?a # rev (butlast A)) s B None = (rev (?a # rev (butlast A)) @ C, b)"
        "gapped C" "covered C = seg_bytes s \<union> covered B" "sg_start (hd C) = sg_start s" "C \<noteq> []"
        and b: "if B \<noteq> [] \<and> sg_start (hd B) \<le> sg_end s
          then b = Some (sg_end (hd B) - sg_start s - sg_size (hd B)) else b = None"
        by (auto simp: sg_eq_def)
      have rev: "rev (?a # rev (butlast A)) = A" using False by simp
      have step: "consolidate s (rev (butlast A)) ?a (s # B) None
          = consolidate s (?a # rev (butlast A)) s B None"
        using gap by simp
      have "gapped (A @ C)"
        using gA C(2,4,5) gap by (simp add: gapped_append)
      then show ?thesis
        unfolding addFinishedSegment_loop [OF ins gA] new_bytes_def step C(1) rev
        using False gap C(3) b by (auto simp: sg_end_def split: if_splits)
    qed
  qed
qed

lemma finite_seg_bytes [simp]: "finite (seg_bytes s)" "finite (covered ss)"
  by (simp_all add: seg_bytes_def covered_def)

lemma card_seg_bytes: "0 < sg_size s \<Longrightarrow> int (card (seg_bytes s)) = sg_size s"
  by (simp add: seg_bytes_def sg_end_def)

lemma getDownloadedSegments_card: "gapped ss \<Longrightarrow> getDownloadedSegments ss = int (card (covered ss))"
proof (induction ss)
  case (Cons s ss)
  have "seg_bytes s \<inter> covered ss = {}"
    using gapped_later [OF Cons.prems] by (fastforce simp: seg_bytes_def covered_def)
  then show ?case
    using Cons by (simp add: gapped_Cons getDownloadedSegments_def card_Un_disjoint card_seg_bytes)
qed (simp add: getDownloadedSegments_def)

text \<open>Inserting \<open>big\<close> in the set after erasing its two parts puts it where \<open>prev\<close> was.\<close>

lemma consolidate_insert:
  "\<forall>x\<in>set pre. sg_less x big \<and> \<not> sg_less big x \<Longrightarrow> \<forall>x\<in>set rest. sg_less big x \<Longrightarrow>
   done_insert big (pre @ rest) = pre @ big # rest"
proof (induction pre)
  case Nil
  then show ?case by (cases rest) simp_all
qed simp


section \<open>Queries\<close>

lemma gap_after: "gapped ss \<Longrightarrow> s \<in> set ss \<Longrightarrow> sg_end s \<notin> covered ss"
proof (induction ss)
  case (Cons t ss)
  have later: "\<forall>u\<in>set ss. sg_end t < sg_start u" using gapped_later [OF Cons.prems(1)] by blast
  show ?case
  proof (cases "s = t")
    case True
    then show ?thesis using later by (fastforce simp: covered_def seg_bytes_def)
  next
    case False
    then have s: "s \<in> set ss" using Cons.prems by simp
    then have "sg_end t < sg_start s" "0 < sg_size s"
      using later gapped_size [OF Cons.prems(1)] by auto
    then show ?thesis using Cons s by (simp add: gapped_Cons seg_bytes_def sg_end_def)
  qed
qed simp

lemma covered_interval:
  assumes "gapped ss" and "a < b" and "{a..<b} \<subseteq> covered ss"
  shows "\<exists>s\<in>set ss. sg_start s \<le> a \<and> b \<le> sg_end s"
proof -
  have "a \<in> covered ss" using assms(2,3) by auto
  then obtain s where s: "s \<in> set ss" "sg_start s \<le> a" "a < sg_end s"
    by (auto simp: covered_def seg_bytes_def)
  have "b \<le> sg_end s"
  proof (rule ccontr)
    assume "\<not> b \<le> sg_end s"
    then have "sg_end s \<in> {a..<b}" using s(3) by simp
    then show False using assms(3) gap_after [OF assms(1) s(1)] by blast
  qed
  then show ?thesis using s by blast
qed

fun parts_pairs :: "parts \<Rightarrow> (int \<times> int) list" where
  "parts_pairs (p # q # ps) = (uint p, uint q) # parts_pairs ps"
| "parts_pairs _ = []"

text \<open>Parts are given in ascending order, each as a non-empty range of blocks.\<close>

fun parts_ok :: "parts \<Rightarrow> bool" where
  "parts_ok (p # q # ps) = (uint p < uint q \<and> list_all (\<lambda>(p', _). uint p \<le> p') (parts_pairs ps) \<and> parts_ok ps)"
| "parts_ok _ = True"

lemma isNeededPart_covered:
  "0 < bs \<Longrightarrow> gapped dn \<Longrightarrow> parts_ok ps \<Longrightarrow>
   isNeededPart dn bs ps \<longleftrightarrow> list_ex (\<lambda>(p, q). \<not> {p * bs ..< q * bs} \<subseteq> covered dn) (parts_pairs ps)"
proof (induction dn bs ps rule: isNeededPart.induct)
  case (1 dn bs p q ps)
  define D where "D = dropWhile (\<lambda>s. sg_end s \<le> uint p * bs) dn"
  let ?t = "takeWhile (\<lambda>s. sg_end s \<le> uint p * bs) dn"
  have unf: "isNeededPart dn bs (p # q # ps) = (case D of [] \<Rightarrow> True
      | s # _ \<Rightarrow> if sg_start s \<le> uint p * bs \<and> uint q * bs \<le> sg_end s then isNeededPart D bs ps else True)"
    by (simp only: isNeededPart.simps(1) Let_def D_def)
  have dn: "?t @ D = dn" by (simp add: D_def)
  have g: "gapped D" using 1(3) dn gapped_append [of ?t D] by metis
  have t: "seg_bytes s \<inter> {a ..< b} = {}" if "s \<in> set ?t" "uint p * bs \<le> a" for s a b
    using that set_takeWhileD [of s _ dn] by (fastforce simp: seg_bytes_def)
  have cov: "{a ..< b} \<subseteq> covered dn \<longleftrightarrow> {a ..< b} \<subseteq> covered D" if "uint p * bs \<le> a" for a b
  proof -
    have "covered dn = covered ?t \<union> covered D" by (metis dn covered_simps(3))
    moreover have "covered ?t \<inter> {a ..< b} = {}" using t that by (auto simp: covered_def)
    ultimately show ?thesis by auto
  qed
  have pq: "uint p * bs < uint q * bs" using 1(2,4) by simp
  have rest: "list_ex (\<lambda>(p, q). \<not> {p * bs ..< q * bs} \<subseteq> covered dn) (parts_pairs ps)
    \<longleftrightarrow> list_ex (\<lambda>(p, q). \<not> {p * bs ..< q * bs} \<subseteq> covered D) (parts_pairs ps)"
  proof -
    have "uint p * bs \<le> p' * bs" if "(p', q') \<in> set (parts_pairs ps)" for p' q'
      using that 1(2,4) by (auto simp: list_all_iff intro!: mult_right_mono)
    then show ?thesis using cov by (fastforce simp: list_ex_iff)
  qed
  show ?case
  proof (cases D)
    case Nil
    then have "\<not> {uint p * bs ..< uint q * bs} \<subseteq> covered D" unfolding Nil using pq by simp
    then show ?thesis unfolding unf using Nil cov [of "uint p * bs" "uint q * bs"] by simp
  next
    case (Cons s ds)
    have send: "uint p * bs < sg_end s" using Cons unfolding D_def by (auto simp: dropWhile_eq_Cons_conv)
    have first: "{uint p * bs ..< uint q * bs} \<subseteq> covered D
      \<longleftrightarrow> sg_start s \<le> uint p * bs \<and> uint q * bs \<le> sg_end s"
    proof
      assume "{uint p * bs ..< uint q * bs} \<subseteq> covered D"
      from covered_interval [OF g pq this] obtain d where
        d: "d \<in> set D" "sg_start d \<le> uint p * bs" "uint q * bs \<le> sg_end d" by blast
      have "d = s"
      proof (rule ccontr)
        assume "d \<noteq> s"
        then have "d \<in> set ds" using d(1) Cons by simp
        then have "sg_end s < sg_start d" using gapped_later g Cons by metis
        then show False using d(2) send by simp
      qed
      then show "sg_start s \<le> uint p * bs \<and> uint q * bs \<le> sg_end s" using d by simp
    next
      assume "sg_start s \<le> uint p * bs \<and> uint q * bs \<le> sg_end s"
      then show "{uint p * bs ..< uint q * bs} \<subseteq> covered D" unfolding Cons by (auto simp: seg_bytes_def)
    qed
    show ?thesis
    proof (cases "sg_start s \<le> uint p * bs \<and> uint q * bs \<le> sg_end s")
      case True
      have "isNeededPart D bs ps
          \<longleftrightarrow> list_ex (\<lambda>(p, q). \<not> {p * bs ..< q * bs} \<subseteq> covered D) (parts_pairs ps)"
        using 1(2,4) g True Cons by (intro "1.IH" [OF D_def Cons]) auto
      then show ?thesis unfolding unf using True Cons first cov [of "uint p * bs" "uint q * bs"] rest by simp
    next
      case False
      then show ?thesis unfolding unf using Cons first cov [of "uint p * bs" "uint q * bs"] by auto
    qed
  qed
qed simp_all

section \<open>Adding a segment\<close>

lemma addFinishedSegment_facts:
  assumes "gapped dn" and "0 < sg_size s" and "no_nesting s dn" and "\<not> list_ex (\<lambda>d. sg_eq d s) dn"
  shows "gapped (fst (addFinishedSegment s dn))
    \<and> covered (fst (addFinishedSegment s dn)) = covered dn \<union> seg_bytes s
    \<and> (list_ex (sg_overlaps s) dn
      \<or> snd (addFinishedSegment s dn) = sg_size s
        \<and> getDownloadedSegments (fst (addFinishedSegment s dn)) = getDownloadedSegments dn + sg_size s)"
proof -
  obtain A B where AB: "dn = A @ B" "done_insert s dn = A @ s # B"
    "\<forall>d\<in>set A. sg_less d s" "\<forall>d\<in>set B. sg_less s d"
    using done_insert_split [OF assms(1), of s] assms(4) by (auto simp: list_ex_iff)
  obtain C where
    C: "addFinishedSegment s dn = (C, new_bytes A s B)" "gapped C" "covered C = covered dn \<union> seg_bytes s"
    using addFinishedSegment_result [of A B s dn] assms AB by auto
  have "snd (addFinishedSegment s dn) = sg_size s
      \<and> getDownloadedSegments C = getDownloadedSegments dn + sg_size s"
    if no: "\<not> list_ex (sg_overlaps s) dn"
  proof -
    have dis: "covered dn \<inter> seg_bytes s = {}"
      using no by (fastforce simp: list_ex_iff covered_def seg_bytes_def sg_overlaps_def)
    have "new_bytes A s B = sg_size s"
    proof -
      have fa: "sg_start s \<le> sg_end a \<Longrightarrow> sg_end a = sg_start s" if "a \<in> set A" for a
      proof -
        have "\<not> sg_overlaps s a" "sg_less a s" using that no AB by (auto simp: list_ex_iff)
        moreover assume "sg_start s \<le> sg_end a"
        ultimately show "sg_end a = sg_start s"
          using assms(2) by (auto simp: sg_overlaps_def sg_less_def sg_end_def)
      qed
      have fb: "sg_start b \<le> sg_end s \<Longrightarrow> sg_start b = sg_end s" if "b \<in> set B" for b
      proof -
        have "\<not> sg_overlaps s b" "sg_less s b" using that no AB by (auto simp: list_ex_iff)
        moreover assume "sg_start b \<le> sg_end s"
        moreover have "b \<in> set dn" using that AB by simp
        then have "0 < sg_size b" using gapped_size [OF assms(1)] by blast
        ultimately show "sg_start b = sg_end s"
          using assms(2) by (auto simp: sg_overlaps_def sg_less_def sg_end_def)
      qed
      show ?thesis
        using fa [of "last A"] fb [of "hd B"] by (auto simp: new_bytes_def sg_end_def)
    qed
    then show ?thesis
      using C getDownloadedSegments_card [OF C(2)] getDownloadedSegments_card [OF assms(1)] dis
      by (simp add: card_Un_disjoint card_seg_bytes [OF assms(2)])
  qed
  then show ?thesis using C by auto
qed


section \<open>Properties\<close>



text \<open>
  when the new segment does swallow a finished one, the merge loses the bytes after it: the set
  shrinks to the end of the older segment.
\<close>

lemma nested_segment_loses_bytes:
  assumes "sg_start s < sg_start d" and "sg_end d < sg_end s" and "0 < sg_size d"
  shows "covered (fst (addFinishedSegment s [d])) = {sg_start s ..< sg_end d}
    \<and> covered (fst (addFinishedSegment s [d])) \<noteq> covered [d] \<union> seg_bytes s"
proof -
  have "fst (addFinishedSegment s [d]) = [seg (sg_start s) (sg_end d - sg_start s)]"
    using assms by (auto simp: addFinishedSegment_def sg_less_def sg_end_def Let_def)
  then have c: "covered (fst (addFinishedSegment s [d])) = {sg_start s ..< sg_end d}"
    by (simp add: seg_bytes_def)
  have "sg_start s < sg_end d" using assms by (simp add: sg_end_def)
  then have "sg_end d \<in> seg_bytes s" using assms by (simp add: seg_bytes_def)
  moreover have "sg_end d \<notin> {sg_start s ..< sg_end d}" by simp
  ultimately show ?thesis unfolding c by blast
qed

lemma nested_segment_loses_bytes_witness:
  "covered (fst (addFinishedSegment (seg 0 8) [seg 2 3])) = {0 ..< 5}"
  using nested_segment_loses_bytes [of "seg 0 8" "seg 2 3"] by simp

text \<open>
  C14: a file of positive size counts as downloaded exactly when its finished segments cover its
  bytes, and a chunk exactly when they cover the chunk.
\<close>

theorem downloaded_iff_covered:
  assumes "gapped dn" and "0 < sz"
  shows "(segmentsDone sz dn \<longleftrightarrow> covered dn = {0 ..< sz})
    \<and> (isChunkDownloaded dn s \<longleftrightarrow> 0 < sg_size s \<and> seg_bytes s \<subseteq> covered dn)"
proof
  show "segmentsDone sz dn \<longleftrightarrow> covered dn = {0 ..< sz}"
  proof
    assume "segmentsDone sz dn"
    then obtain d where "dn = [d]" "sg_start d = 0" "sg_size d = sz"
      by (auto simp: segmentsDone_def length_Suc_conv sg_eq_def)
    then show "covered dn = {0 ..< sz}" by (simp add: seg_bytes_def sg_end_def)
  next
    assume cov: "covered dn = {0 ..< sz}"
    then obtain d where d: "d \<in> set dn" "sg_start d \<le> 0" "sz \<le> sg_end d"
      using covered_interval [OF assms(1,2)] by auto
    have in_file: "seg_bytes e \<subseteq> {0 ..< sz}" if "e \<in> set dn" for e
      using that cov by (auto simp: covered_def)
    have pos: "0 < sg_size e" if "e \<in> set dn" for e using gapped_size [OF assms(1) that] .
    have "sg_start d \<in> seg_bytes d" "sg_end d - 1 \<in> seg_bytes d"
      using pos [OF d(1)] by (auto simp: seg_bytes_def sg_end_def)
    then have deq: "sg_start d = 0" "sg_end d = sz" using in_file [OF d(1)] d by auto
    have "e = d" if "e \<in> set dn" for e
    proof (rule ccontr)
      assume "e \<noteq> d"
      have "sg_start e \<in> seg_bytes e" using pos [OF that] by (simp add: seg_bytes_def sg_end_def)
      then have se: "sg_start e \<in> seg_bytes d" using in_file [OF that] deq by (auto simp: seg_bytes_def)
      obtain xs ys where dn: "dn = xs @ d # ys" using d(1) by (meson split_list)
      then have "gapped (xs @ d # ys)" using assms(1) by simp
      then have g: "gapped (d # ys)" "gapped xs"
        "xs \<noteq> [] \<longrightarrow> sg_end (last xs) < sg_start d" by (simp_all add: gapped_append)
      from that dn \<open>e \<noteq> d\<close> consider "e \<in> set xs" | "e \<in> set ys" by auto
      then show False
      proof cases
        case 1
        then obtain us vs where xs: "xs = us @ e # vs" by (meson split_list)
        have "sg_end e < sg_start d"
        proof (cases vs)
          case Nil
          then show ?thesis using g(3) xs by simp
        next
          case (Cons v vs')
          have "gapped ((us @ e # vs) @ d # ys)" using \<open>gapped (xs @ d # ys)\<close> xs by simp
          then have "gapped (e # vs @ d # ys)" by (simp add: gapped_append)
          then show ?thesis by (rule gapped_later) simp
        qed
        then show False using se pos [OF that] by (simp add: seg_bytes_def sg_end_def)
      next
        case 2
        then show False using gapped_later [OF g(1)] se by (fastforce simp: seg_bytes_def)
      qed
    qed
    moreover have "distinct dn" using assms(1)
    proof (induction dn)
      case (Cons a dn)
      then show ?case using gapped_less [OF Cons.prems] by (auto simp: gapped_Cons sg_less_def)
    qed simp
    moreover obtain a t where "dn = a # t" using d(1) by (cases dn) auto
    ultimately have "dn = [d]" by (cases t) auto
    then show "segmentsDone sz dn" using deq by (simp add: segmentsDone_def sg_eq_def sg_end_def)
  qed
next
  show "isChunkDownloaded dn s \<longleftrightarrow> 0 < sg_size s \<and> seg_bytes s \<subseteq> covered dn"
  proof (cases "0 < sg_size s")
    case True
    then have ab: "sg_start s < sg_end s" by (simp add: sg_end_def)
    show ?thesis
    proof
      assume "isChunkDownloaded dn s"
      then obtain d where d: "d \<in> set dn" "sg_start d \<le> sg_start s" "sg_end s \<le> sg_end d"
        using True by (auto simp: isChunkDownloaded_def list_ex_iff)
      then have "seg_bytes s \<subseteq> seg_bytes d" by (auto simp: seg_bytes_def)
      then show "0 < sg_size s \<and> seg_bytes s \<subseteq> covered dn"
        using True d(1) by (auto simp: covered_def)
    next
      assume "0 < sg_size s \<and> seg_bytes s \<subseteq> covered dn"
      then obtain d where "d \<in> set dn" "sg_start d \<le> sg_start s" "sg_end s \<le> sg_end d"
        using covered_interval [OF assms(1) ab] by (auto simp: seg_bytes_def)
      then show "isChunkDownloaded dn s"
        using True ab by (auto simp: isChunkDownloaded_def list_ex_iff)
    qed
  qed (simp add: isChunkDownloaded_def)
qed

theorem downloaded_iff_covered_witness:
  "segmentsDone 20 [seg 0 20] \<and> \<not> isChunkDownloaded [seg 0 5, seg 7 13] (seg 4 3)
   \<and> covered [seg 0 20] = {0 ..< 20}"
  using downloaded_iff_covered [of "[seg 0 20]" 20 "seg 1 1"]
    downloaded_iff_covered [of "[seg 0 5, seg 7 13]" 20 "seg 4 3"]
  by (auto simp: segmentsDone_def sg_eq_def isChunkDownloaded_def)

text \<open>
  for parts given in ascending order, a part of a peer is needed exactly when some byte of its
  blocks is not covered; the last block of a file counts with its full length, so a peer that has
  it is reported as needed even when the file is complete.
\<close>

lemma needed_part_iff_uncovered:
  assumes "0 < bs" and "gapped dn" and "parts_ok ps"
  shows "isNeededPart dn bs ps
    \<longleftrightarrow> list_ex (\<lambda>(p, q). \<not> {p * bs ..< q * bs} \<subseteq> covered dn) (parts_pairs ps)"
  by (rule isNeededPart_covered [OF assms])

lemma needed_part_iff_uncovered_witness:
  "isNeededPart [seg 0 95] 10 [0, 10] \<and> \<not> isNeededPart [seg 0 95] 10 [0, 9]"
  using needed_part_iff_uncovered [of 10 "[seg 0 95]" "[0, 10]"]
    needed_part_iff_uncovered [of 10 "[seg 0 95]" "[0, 9]"]
  by (auto simp: seg_bytes_def)

end
