(* ===== verification/Queue_Types.thy ===== *)
theory Queue_Types
  imports Segments "HOL-Library.Char_ord" "HOL-Library.List_Lexorder"
begin

text \<open>
  The data that the parts of the download queue share: priorities (\<open>core/types/Priority.h\<close>), flag
  words (\<open>core/classes/Flags.h\<close>), users with a hub hint, the settings that the queue reads, and
  transfers (\<open>transfer/Transfer.cpp\<close>): position, speed samples, time left.  A user is the number
  that stands for the \<open>UserPtr\<close>; whether it is online or on an NMDC hub is asked of the \<open>users\<close>
  record.  Positions, sizes and times are integers; ticks are 64-bit words.
\<close>

section \<open>Priorities\<close>

datatype prio = DEFAULT | PAUSED_FORCE | PAUSED | LOWEST | LOW | NORMAL | HIGH | HIGHEST | LAST

primrec prio_int :: "prio \<Rightarrow> int" where
  "prio_int DEFAULT = -1"
| "prio_int PAUSED_FORCE = 0"
| "prio_int PAUSED = 1"
| "prio_int LOWEST = 2"
| "prio_int LOW = 3"
| "prio_int NORMAL = 4"
| "prio_int HIGH = 5"
| "prio_int HIGHEST = 6"
| "prio_int LAST = 7"

lemma prio_int_inj: "prio_int p = prio_int q \<Longrightarrow> p = q"
  by (cases p; cases q) simp_all

instantiation prio :: linorder
begin

definition less_eq_prio :: "prio \<Rightarrow> prio \<Rightarrow> bool" where
  "less_eq_prio p q \<longleftrightarrow> prio_int p \<le> prio_int q"

definition less_prio :: "prio \<Rightarrow> prio \<Rightarrow> bool" where
  "less_prio p q \<longleftrightarrow> prio_int p < prio_int q"

instance
  by standard (auto simp: less_eq_prio_def less_prio_def intro: prio_int_inj)

end

lemmas prio_order = less_eq_prio_def less_prio_def

text \<open>\<open>static_cast<Priority>(i)\<close> for the values that loops over priorities take.\<close>

definition prio_of_int :: "int \<Rightarrow> prio" where
  "prio_of_int i =
     (if i = 0 then PAUSED_FORCE else if i = 1 then PAUSED else if i = 2 then LOWEST
      else if i = 3 then LOW else if i = 4 then NORMAL else if i = 5 then HIGH
      else if i = 6 then HIGHEST else if i = 7 then LAST else DEFAULT)"

lemma prio_of_prio_int [simp]: "prio_of_int (prio_int p) = p"
  by (cases p) (simp_all add: prio_of_int_def)

section \<open>Flags\<close>

type_synonym flags = "32 word"

definition isSet :: "flags \<Rightarrow> flags \<Rightarrow> bool" where
  "isSet fl aFlag \<longleftrightarrow> fl AND aFlag = aFlag"

definition isAnySet :: "flags \<Rightarrow> flags \<Rightarrow> bool" where
  "isAnySet fl aFlag \<longleftrightarrow> fl AND aFlag \<noteq> 0"

definition setFlag :: "flags \<Rightarrow> flags \<Rightarrow> flags" where
  "setFlag fl aFlag = fl OR aFlag"

definition unsetFlag :: "flags \<Rightarrow> flags \<Rightarrow> flags" where
  "unsetFlag fl aFlag = fl AND NOT aFlag"

lemma isSet_setFlag [simp]: "isSet (setFlag fl m) m"
  by (simp add: isSet_def setFlag_def bit_eq_iff bit_simps)

lemma isSet_setFlag_other: "isSet fl m \<Longrightarrow> isSet (setFlag fl n) m"
  by (simp add: isSet_def setFlag_def bit_eq_iff bit_simps) blast

lemma isAnySet_unsetFlag [simp]: "\<not> isAnySet (unsetFlag fl m) m"
  by (simp add: isAnySet_def unsetFlag_def bit_eq_iff bit_simps)

lemma isSet_0 [simp]: "isSet fl 0"
  by (simp add: isSet_def)

section \<open>Users, settings and resource strings\<close>

type_synonym user = nat

record hinted_user =
  hu_user :: user
  hu_hint :: string

record users =
  us_online :: "user \<Rightarrow> bool"
  us_nmdc :: "user \<Rightarrow> bool"

text \<open>Those of the localised strings that the queue reports.\<close>

datatype resource =
    NO_ACCESS_ONLINE_HUBS | USER_OFFLINE | MAX_BUNDLES_RUNNING | FILE_NOT_AVAILABLE | INVALID_TREE_STR
  | NO_NEEDED_PART | SOURCE_TOO_OLD | SLOW_USER | CERTIFICATE_NOT_TRUSTED | TTH_INCONSISTENCY_STR

record settings =
  PRIO_HIGHEST_SIZE :: int
  PRIO_HIGH_SIZE :: int
  PRIO_NORMAL_SIZE :: int
  PRIO_LOW_SIZE :: int
  PRIO_LOWEST :: bool
  AUTO_PRIORITY_DEFAULT :: bool
  SEGMENTS_MANUAL :: bool
  NUMBER_OF_SEGMENTS :: "32 word"
  MULTI_CHUNK :: bool
  OVERLAP_SLOW_SOURCES :: bool
  MAX_RUNNING_BUNDLES :: int
  RECENT_BUNDLE_HOURS :: int
  USE_SLOW_DISCONNECTING_DEFAULT :: bool
  AUTO_SEARCH_LIMIT :: int
  BUNDLE_SEARCH_TIME :: int

text \<open>\<open>Util::convertSize(x, Util::KB)\<close>, \<open>Util::roundDown\<close> (which rounds to the nearest multiple)
  and \<open>Util::roundUp\<close>.\<close>

definition convertSize_KB :: "int \<Rightarrow> int" where
  "convertSize_KB aValue = aValue * 1024"

definition roundDown :: "int \<Rightarrow> int \<Rightarrow> int" where
  "roundDown sz blockSize = ((sz + blockSize sdiv 2) sdiv blockSize) * blockSize"

definition roundUp :: "int \<Rightarrow> int \<Rightarrow> int" where
  "roundUp sz blockSize = ((sz + blockSize - 1) sdiv blockSize) * blockSize"

section \<open>Transfers\<close>

datatype transfer_type = TYPE_FILE | TYPE_FULL_LIST | TYPE_PARTIAL_LIST | TYPE_TREE | TYPE_TTH_LIST

type_synonym tick = "64 word"

record transfer =
  tr_id :: nat
  tr_user :: hinted_user
  tr_type :: transfer_type
  tr_segment :: segment
  tr_start :: tick
  tr_samples :: "(tick \<times> int) list"
  tr_actual :: int
  tr_pos :: int
  tr_flags :: flags

definition MIN_SAMPLES :: nat where
  "MIN_SAMPLES = 15"

definition MIN_SECS :: int where
  "MIN_SECS = 15"

text \<open>\<open>while (samples.size() >= MIN_SAMPLES) samples.pop_front();\<close>\<close>

function pop_samples :: "(tick \<times> int) list \<Rightarrow> (tick \<times> int) list" where
  "pop_samples ss = (if MIN_SAMPLES \<le> length ss then pop_samples (tl ss) else ss)"
  by pat_completeness auto
termination
  by (relation "measure length") (auto simp: MIN_SAMPLES_def)

definition transfer_tick :: "tick \<Rightarrow> transfer \<Rightarrow> transfer" where
  "transfer_tick t d =
     (let ss = tr_samples d;
          ss = (if 1 \<le> length ss \<and> sint (fst (last ss) - fst (hd ss)) sdiv 1000 > MIN_SECS
                then pop_samples ss else ss)
      in if 1 < length ss \<and> snd (last ss) = tr_pos d
         then d\<lparr>tr_samples := butlast ss @ [(t, snd (last ss))]\<rparr>
         else d\<lparr>tr_samples := ss @ [(t, tr_pos d)]\<rparr>)"

text \<open>The quotient of \<open>double\<close>s is taken exactly.\<close>

definition getAverageSpeed :: "transfer \<Rightarrow> int" where
  "getAverageSpeed d =
     (if length (tr_samples d) < 2 then 0
      else
        let ticks = fst (last (tr_samples d)) - fst (hd (tr_samples d));
            bytes = snd (last (tr_samples d)) - snd (hd (tr_samples d))
        in if 0 < ticks then (bytes * 1000) sdiv uint ticks else 0)"

definition getSecondsLeft :: "transfer \<Rightarrow> int" where
  "getSecondsLeft d =
     (let avg = getAverageSpeed d; bytesLeft = sg_size (tr_segment d) - tr_pos d
      in if 0 < avg then bytesLeft sdiv avg else 0)"

definition resetPos :: "transfer \<Rightarrow> transfer" where
  "resetPos d = d\<lparr>tr_pos := 0, tr_actual := 0, tr_samples := []\<rparr>"

definition addPos :: "int \<Rightarrow> int \<Rightarrow> transfer \<Rightarrow> transfer" where
  "addPos aBytes aActual d = d\<lparr>tr_pos := tr_pos d + aBytes, tr_actual := tr_actual d + aActual\<rparr>"

definition isFilelist_transfer :: "transfer \<Rightarrow> bool" where
  "isFilelist_transfer d \<longleftrightarrow> tr_type d = TYPE_FULL_LIST \<or> tr_type d = TYPE_PARTIAL_LIST"

section \<open>Rounding\<close>

lemma roundUp_least:
  assumes "0 < bs" and "0 \<le> n"
  shows "n \<le> roundUp n bs" and "bs dvd roundUp n bs" and "roundUp n bs < n + bs"
proof -
  have nn: "0 \<le> n + bs - 1" using assms by simp
  then have e: "roundUp n bs = ((n + bs - 1) div bs) * bs"
    using assms by (simp add: roundUp_def sdiv_nonneg)
  have m: "((n + bs - 1) div bs) * bs = n + bs - 1 - (n + bs - 1) mod bs"
    by (simp add: minus_mod_eq_div_mult)
  have "0 \<le> (n + bs - 1) mod bs" "(n + bs - 1) mod bs < bs" using assms(1) by simp_all
  then show "n \<le> roundUp n bs" "roundUp n bs < n + bs" unfolding e m by simp_all
  show "bs dvd roundUp n bs" unfolding e by simp
qed

text \<open>\<open>roundDown\<close> is the identity on multiples, stays within half a block, and goes up from the
  middle of a block on.\<close>

lemma roundDown_nearest:
  assumes "0 < bs" and "0 \<le> n"
  shows "bs dvd roundDown n bs" and "2 * \<bar>roundDown n bs - n\<bar> \<le> bs"
    and "bs \<le> n \<Longrightarrow> bs \<le> roundDown n bs" and "bs dvd n \<Longrightarrow> roundDown n bs = n"
proof -
  have e: "roundDown n bs = ((n + bs div 2) div bs) * bs"
    using assms by (simp add: roundDown_def sdiv_nonneg)
  define h where "h = bs div 2"
  have h: "2 * h \<le> bs" "bs \<le> 2 * h + 1" "0 \<le> h" using assms(1) by (auto simp: h_def)
  define r where "r = (n + h) mod bs"
  have r: "0 \<le> r" "r < bs" using assms(1) by (simp_all add: r_def)
  have m: "roundDown n bs = n + h - r"
    unfolding e by (simp add: minus_mod_eq_div_mult r_def h_def)
  show "bs dvd roundDown n bs" unfolding e by simp
  show "2 * \<bar>roundDown n bs - n\<bar> \<le> bs" using m r h by arith
  show "bs \<le> roundDown n bs" if "bs \<le> n"
  proof -
    have "1 \<le> (n + h) div bs"
      using that h assms(1) by (simp add: pos_imp_zdiv_pos_iff zdiv_mono1 [of bs "n + h" bs, simplified])
    then show ?thesis unfolding e h_def using assms(1) by simp
  qed
  show "roundDown n bs = n" if "bs dvd n"
  proof -
    from that obtain k where k: "n = bs * k" by blast
    have "(bs * k + h) div bs = k" using h assms(1) by (simp add: div_mult_self4)
    then show ?thesis using e k by (simp add: h_def mult.commute)
  qed
qed

section \<open>Speed samples\<close>

lemma pop_samples_length: "length (pop_samples ss) = min (length ss) 14"
  by (induction ss rule: pop_samples.induct) (subst pop_samples.simps, auto simp: MIN_SAMPLES_def)

declare pop_samples.simps [simp del]

end
