(* ===== verification/Utf8.thy ===== *)
theory Utf8
  imports Prelude
begin

text \<open>
  \<^bold>\<open>util/text/Text.cpp\<close>: UTF-8 decoding, encoding, sanitising and validation, and the case-insensitive
  comparisons of \<open>util/Util.cpp\<close> that decode as they go.  A \<open>wchar_t\<close> is a 32-bit word (the
  non-Windows build); \<open>towlower\<close> of the C library depends on the locale and is the argument
  \<open>lower\<close>.  A \<open>std::string\<close> is followed by a null character, which \<open>c_str()\<close> exposes.
\<close>

section \<open>Decoding and encoding\<close>

type_synonym wchar = "32 word"

definition byte_at :: "string \<Rightarrow> nat \<Rightarrow> byte" where
  "byte_at s i = (if i < length s then byte_of_char (s ! i) else 0)"

text \<open>The loop over the continuation bytes; \<open>Some i\<close> is \<open>return -i\<close>.\<close>

fun utf8_cont :: "string \<Rightarrow> nat \<Rightarrow> nat \<Rightarrow> wchar \<Rightarrow> nat option \<times> wchar" where
  "utf8_cont str i 0 c = (None, c)"
| "utf8_cont str i (Suc n) c =
     (let ci = byte_at str i
      in if ci AND 0xC0 \<noteq> 0x80 then (Some i, c)
         else utf8_cont str (i + 1) n (push_bit 6 c OR ucast (ci AND 0x3F)))"

text \<open>The return value, and the character that is stored when the reference held 0 before.\<close>

definition utf8ToWc :: "string \<Rightarrow> int \<times> wchar" where
  "utf8ToWc str =
     (let c0 = byte_at str 0;
          bytes = 2 + of_bool (c0 AND 0x20 \<noteq> 0) + of_bool (c0 AND 0x30 = 0x30) :: nat
      in if c0 AND 0xC0 = 0xC0 then
           let check_bit = push_bit (7 - bytes) 1 :: byte
           in if c0 AND check_bit \<noteq> 0 then (-1, 0)
              else
                case utf8_cont str 1 (bytes - 1) (ucast ((check_bit - 1) AND c0)) of
                  (Some i, c) \<Rightarrow> (- int i, c)
                | (None, c) \<Rightarrow>
                    if 0x10FFFF < c \<or> 0xD800 \<le> c \<and> c \<le> 0xDFFF then (- int bytes, 0xFFFD)
                    else (int bytes, c)
         else if c0 AND 0x80 = 0 then (1, ucast c0)
         else (-1, 0))"

definition wc_bytes :: "wchar \<Rightarrow> byte list" where
  "wc_bytes c =
     (if 0x10000 \<le> c then
        [ucast (0x80 OR 0x40 OR 0x20 OR 0x10 OR drop_bit 18 c), ucast (0x80 OR (drop_bit 12 c AND 0x3F)),
         ucast (0x80 OR (drop_bit 6 c AND 0x3F)), ucast (0x80 OR (c AND 0x3F))]
      else if 0x0800 \<le> c then
        [ucast (0x80 OR 0x40 OR 0x20 OR drop_bit 12 c), ucast (0x80 OR (drop_bit 6 c AND 0x3F)),
         ucast (0x80 OR (c AND 0x3F))]
      else if 0x0080 \<le> c then
        [ucast (0x80 OR 0x40 OR drop_bit 6 c), ucast (0x80 OR (c AND 0x3F))]
      else [ucast c])"

definition invalid_wc :: "wchar \<Rightarrow> bool" where
  "invalid_wc c \<longleftrightarrow> 0x10FFFF < c \<or> 0xD800 \<le> c \<and> c \<le> 0xDFFF"

text \<open>What \<open>wcToUtf8\<close> appends.\<close>

definition wcToUtf8 :: "wchar \<Rightarrow> string" where
  "wcToUtf8 c = bytes_str (if invalid_wc c then wc_bytes 0xFFFD else wc_bytes c)"

section \<open>Strings\<close>

definition isAscii :: "string \<Rightarrow> bool" where
  "isAscii str \<longleftrightarrow> list_all (\<lambda>c. byte_of_char c AND 0x80 = 0) (takeWhile (\<lambda>c. c \<noteq> CHR 0x00) str)"

lemma utf8_cont_bound: "utf8_cont str i n c = (Some j, c') \<Longrightarrow> i \<le> j \<and> j < i + n"
  by (induction str i n c rule: utf8_cont.induct) (fastforce simp: Let_def split: if_splits)+

lemma utf8ToWc_nonzero: "fst (utf8ToWc str) \<noteq> 0"
  by (auto simp: utf8ToWc_def Let_def dest: utf8_cont_bound split: prod.splits option.splits)

text \<open>
  \<open>sanitizeUtf8\<close>: \<open>tgt.insert(i, n, '_')\<close> throws \<open>std::out_of_range\<close> when \<open>i\<close> is past the end of
  \<open>tgt\<close>; the function is \<open>noexcept\<close>, so that ends the program (\<open>None\<close>).
\<close>

function sanitize_loop :: "string \<Rightarrow> nat \<Rightarrow> string \<Rightarrow> string option" where
  "sanitize_loop str i tgt =
     (if i < length str then
        let (x, c) = utf8ToWc (drop i str)
        in if x < 0 then
             if length tgt < i then None
             else sanitize_loop str (i + nat \<bar>x\<bar>) (take i tgt @ replicate (nat \<bar>x\<bar>) (CHR ''_'') @ drop i tgt)
           else sanitize_loop str (i + nat \<bar>x\<bar>) (tgt @ wcToUtf8 c)
      else Some tgt)"
  by pat_completeness auto
termination
proof (relation "measure (\<lambda>(str, i, tgt). length str - i)", simp_all, goal_cases)
  case (1 str i x c)
  with utf8ToWc_nonzero [of "drop i str"] show ?case by (cases "utf8ToWc (drop i str)") auto
qed

definition sanitizeUtf8 :: "string \<Rightarrow> string option" where
  "sanitizeUtf8 str = sanitize_loop str 0 []"

function validate_loop :: "string \<Rightarrow> nat \<Rightarrow> bool" where
  "validate_loop str i =
     (if i < length str then
        let j = fst (utf8ToWc (drop i str))
        in if j < 0 then False else validate_loop str (i + nat j)
      else True)"
  by pat_completeness auto
termination
proof (relation "measure (\<lambda>(str, i). length str - i)", simp_all, goal_cases)
  case (1 str i)
  with utf8ToWc_nonzero [of "drop i str"] show ?case by auto
qed

definition validateUtf8 :: "string \<Rightarrow> bool" where
  "validateUtf8 str = validate_loop str 0"

section \<open>Comparison without case\<close>

text \<open>
  \<open>Util::stricmp\<close> and \<open>Util::strnicmp\<close> on C strings; \<open>ia\<close> and \<open>ib\<close> are the positions of \<open>a\<close> and \<open>b\<close>.  \<open>None\<close>:
  the position in \<open>b\<close> is past its terminator, where the code goes on reading.
\<close>

function stricmp_loop :: "(wchar \<Rightarrow> wchar) \<Rightarrow> string \<Rightarrow> string \<Rightarrow> nat \<Rightarrow> nat \<Rightarrow> int option" where
  "stricmp_loop lower a b ia ib =
     (if length b < ib then None
      else
        let (na, ca) = utf8ToWc (drop ia a); (nb, cb) = utf8ToWc (drop ib b)
        in if byte_at a ia \<noteq> 0 \<and> lower ca = lower cb
           then stricmp_loop lower a b (ia + nat \<bar>na\<bar>) (ib + nat \<bar>nb\<bar>)
           else Some (sint (lower ca) - sint (lower cb)))"
  by pat_completeness auto
termination
proof (relation "measure (\<lambda>(lower, a, b, ia, ib). length a - ia)", simp_all, goal_cases)
  case (1 lower a b ia ib na ca nb cb)
  have "ia < length a" using 1 by (auto simp: byte_at_def split: if_splits)
  with 1 utf8ToWc_nonzero [of "drop ia a"] show ?case by (cases "utf8ToWc (drop ia a)") auto
qed

definition stricmp :: "(wchar \<Rightarrow> wchar) \<Rightarrow> string \<Rightarrow> string \<Rightarrow> int option" where
  "stricmp lower a b = stricmp_loop lower a b 0 0"

function strnicmp_loop :: "(wchar \<Rightarrow> wchar) \<Rightarrow> string \<Rightarrow> string \<Rightarrow> nat \<Rightarrow> nat \<Rightarrow> nat \<Rightarrow> int option" where
  "strnicmp_loop lower a b n ia ib =
     (if length b < ib then None
      else
        let (na, ca) = utf8ToWc (drop ia a); (nb, cb) = utf8ToWc (drop ib b)
        in if byte_at a ia \<noteq> 0 \<and> ia < n then
             if lower ca = lower cb
             then strnicmp_loop lower a b n (ia + nat \<bar>na\<bar>) (ib + nat \<bar>nb\<bar>)
             else Some (sint (lower ca) - sint (lower cb))
           else Some (if n \<le> ia then 0 else sint (lower ca) - sint (lower cb)))"
  by pat_completeness auto
termination
proof (relation "measure (\<lambda>(lower, a, b, n, ia, ib). length a - ia)", simp_all, goal_cases)
  case (1 lower a b n ia ib na ca nb cb)
  have "ia < length a" using 1 by (auto simp: byte_at_def split: if_splits)
  with 1 utf8ToWc_nonzero [of "drop ia a"] show ?case by (cases "utf8ToWc (drop ia a)") auto
qed

definition strnicmp :: "(wchar \<Rightarrow> wchar) \<Rightarrow> string \<Rightarrow> string \<Rightarrow> nat \<Rightarrow> int option" where
  "strnicmp lower a b n = strnicmp_loop lower a b n 0 0"

section \<open>Round trip\<close>

lemma wchar_bit_ge: "unat (c :: wchar) < 2 ^ k \<Longrightarrow> k \<le> n \<Longrightarrow> \<not> bit c n"
  using bit_take_bit_iff [of k "unat c" n] take_bit_nat_eq_self [of "unat c" k] bit_imp_le_length [of c n]
  by (auto simp: bit_unsigned_iff)

lemma byte_at_Cons [simp]:
  "byte_at (x # s) 0 = byte_of_char x" "byte_at (x # s) (Suc i) = byte_at s i"
  "byte_at (x # s) (numeral k) = byte_at s (pred_numeral k)"
  by (simp_all add: byte_at_def numeral_eq_Suc)

lemma utf8_cont_23:
  "utf8_cont s i 2 c = utf8_cont s i (Suc (Suc 0)) c"
  "utf8_cont s i 3 c = utf8_cont s i (Suc (Suc (Suc 0))) c"
  by (simp_all only: numeral_eq_Suc pred_numeral_simps BitM.simps)

lemma low_masks:
  "bit (0x3F :: nat) n \<longleftrightarrow> n < 6" "bit (0x3F :: int) n \<longleftrightarrow> n < 6"
proof -
  have "bit (mask 6 :: nat) n \<longleftrightarrow> n < 6" "bit (mask 6 :: int) n \<longleftrightarrow> n < 6"
    by (simp_all only: bit_mask_iff possible_bit_nat possible_bit_int) auto
  then show "bit (0x3F :: nat) n \<longleftrightarrow> n < 6" "bit (0x3F :: int) n \<longleftrightarrow> n < 6"
    by (simp_all add: mask_eq_exp_minus_1)
qed

lemma cont_byte [simp]:
  "(ucast (0x80 OR (x AND 0x3F :: wchar)) :: byte) AND 0xC0 = 0x80"
  "ucast ((ucast (0x80 OR (x AND 0x3F)) :: byte) AND 0x3F) = x AND 0x3F"
proof -
  show "(ucast (0x80 OR (x AND 0x3F :: wchar)) :: byte) AND 0xC0 = 0x80"
    by (rule byte_eqI) (simp_all add: bit_simps)
  have "ucast (0x80 OR (x AND 0x3F)) AND 0x3F = (ucast (x AND 0x3F) :: byte)"
    by (rule byte_eqI) (simp_all add: bit_simps)
  then show "ucast ((ucast (0x80 OR (x AND 0x3F)) :: byte) AND 0x3F) = x AND 0x3F"
    by (auto simp: bit_eq_iff bit_simps low_masks)
qed

lemma refill: "push_bit 6 (drop_bit 6 x) OR (x AND 0x3F) = (x :: wchar)"
  by (rule bit_word_eqI) (auto simp: bit_simps low_masks)

lemma refill12: "push_bit 6 (drop_bit 12 x) OR (drop_bit 6 x AND 0x3F) = (drop_bit 6 x :: wchar)"
  by (rule bit_word_eqI) (auto simp: bit_simps low_masks)

lemma refill18: "push_bit 6 (drop_bit 18 x) OR (drop_bit 12 x AND 0x3F) = (drop_bit 12 x :: wchar)"
  by (rule bit_word_eqI) (auto simp: bit_simps low_masks)

lemma ucast_byte:
  "(\<And>k. 8 \<le> k \<Longrightarrow> \<not> bit x k) \<Longrightarrow> ucast (ucast x :: byte) = (x :: wchar)"
  by (rule bit_word_eqI) (auto simp: bit_simps not_less [symmetric])

lemma lead2:
  fixes c :: wchar
  assumes "c < 0x800"
  defines "b \<equiv> ucast (0x80 OR 0x40 OR drop_bit 6 c) :: byte"
  shows "b AND 0xC0 = 0xC0" "b AND 0x20 = 0" "b AND 0x30 \<noteq> 0x30" "ucast (0x1F AND b) = drop_bit 6 c"
proof -
  have "unat c < 2 ^ 11" using assms(1) by (simp add: word_less_nat_alt)
  note h = wchar_bit_ge [OF this]
  show "b AND 0xC0 = 0xC0" by (rule byte_eqI) (simp_all add: b_def bit_simps)
  show r: "b AND 0x20 = 0" by (rule byte_eqI) (simp_all add: b_def bit_simps h)
  have "\<not> bit (b AND 0x30) 5" by (simp add: b_def bit_simps h)
  moreover have "bit (0x30::byte) 5" by simp
  ultimately show "b AND 0x30 \<noteq> 0x30" by metis
  have "0x1F AND b = ucast (drop_bit 6 c)" by (rule byte_eqI) (simp_all add: b_def bit_simps h)
  then show "ucast (0x1F AND b) = drop_bit 6 c" by (simp only:) (rule ucast_byte, simp add: bit_simps h)
qed

lemma lead3:
  fixes c :: wchar
  assumes "c < 0x10000"
  defines "b \<equiv> ucast (0x80 OR 0x40 OR 0x20 OR drop_bit 12 c) :: byte"
  shows "b AND 0xC0 = 0xC0" "b AND 0x20 \<noteq> 0" "b AND 0x30 \<noteq> 0x30" "b AND 0x10 = 0" "ucast (0x0F AND b) = drop_bit 12 c"
proof -
  have "unat c < 2 ^ 16" using assms(1) by (simp add: word_less_nat_alt)
  note h = wchar_bit_ge [OF this]
  show "b AND 0xC0 = 0xC0" "b AND 0x10 = 0"  by (rule byte_eqI; simp add: b_def bit_simps h)+
  have "bit (b AND 0x20) 5" "\<not> bit (b AND 0x30) 4" by (simp_all add: b_def bit_simps h)
  moreover have "bit (0x30::byte) 4" by simp
  ultimately show "b AND 0x20 \<noteq> 0" "b AND 0x30 \<noteq> 0x30" by auto
  have "0x0F AND b = ucast (drop_bit 12 c)" by (rule byte_eqI) (simp_all add: b_def bit_simps h)
  then show "ucast (0x0F AND b) = drop_bit 12 c" by (simp only:) (rule ucast_byte, simp add: bit_simps h)
qed

lemma lead4:
  fixes c :: wchar
  assumes "c < 0x200000"
  defines "b \<equiv> ucast (0x80 OR 0x40 OR 0x20 OR 0x10 OR drop_bit 18 c) :: byte"
  shows "b AND 0xC0 = 0xC0" "b AND 0x20 \<noteq> 0" "b AND 0x30 = 0x30" "b AND 0x08 = 0" "ucast (0x07 AND b) = drop_bit 18 c"
proof -
  have "unat c < 2 ^ 21" using assms(1) by (simp add: word_less_nat_alt)
  note h = wchar_bit_ge [OF this]
  show "b AND 0xC0 = 0xC0" "b AND 0x30 = 0x30" "b AND 0x08 = 0" by (rule byte_eqI; simp add: b_def bit_simps h)+
  have "bit (b AND 0x20) 5" by (simp add: b_def bit_simps h)
  then show "b AND 0x20 \<noteq> 0" by auto
  have "0x07 AND b = ucast (drop_bit 18 c)" by (rule byte_eqI) (simp_all add: b_def bit_simps h)
  then show "ucast (0x07 AND b) = drop_bit 18 c" by (simp only:) (rule ucast_byte, simp add: bit_simps h)
qed

definition utf8_len :: "wchar \<Rightarrow> nat" where
  "utf8_len c = length (wc_bytes c)"

lemma utf8ToWc_wcToUtf8:
  assumes "\<not> invalid_wc c"
  shows "utf8ToWc (wcToUtf8 c @ rest) = (int (utf8_len c), c)"
proof -
  have small: "c \<le> 0x10FFFF" "\<not> (0xD800 \<le> c \<and> c \<le> 0xDFFF)" using assms by (auto simp: invalid_wc_def)
  have "c < 0x200000" using small(1) by (rule order_le_less_trans) simp
  then consider "c < 0x80" | "0x80 \<le> c" "c < 0x800" | "0x800 \<le> c" "c < 0x10000" | "0x10000 \<le> c" "c < 0x200000"
    by (metis not_le)
  then show ?thesis
  proof cases
    case 1
    then have "unat c < 2 ^ 7" by (simp add: word_less_nat_alt)
    note h = wchar_bit_ge [OF this]
    have b: "\<not> (ucast c :: byte) AND 0xC0 = 0xC0" "(ucast c :: byte) AND 0x80 = 0" "ucast (ucast c :: byte) = c"
    proof -
      have "\<not> bit ((ucast c :: byte) AND 0xC0) 7" "bit (0xC0::byte) 7" by (simp_all add: bit_simps h)
      then show "\<not> (ucast c :: byte) AND 0xC0 = 0xC0" by metis
      show "(ucast c :: byte) AND 0x80 = 0" by (rule byte_eqI) (simp_all add: bit_simps h)
      show "ucast (ucast c :: byte) = c" by (rule ucast_byte) (simp add: h)
    qed
    have "wc_bytes c = [ucast c]" using 1 by (auto simp: wc_bytes_def dest: order_le_less_trans)
    then show ?thesis using assms b by (simp add: wcToUtf8_def bytes_str_def utf8ToWc_def utf8_len_def Let_def)
  next
    case 2
    have w: "wc_bytes c = [ucast (0x80 OR 0x40 OR drop_bit 6 c), ucast (0x80 OR (c AND 0x3F))]"
      using 2 by (auto simp: wc_bytes_def dest: order_le_less_trans)
    show ?thesis using assms small lead2 [OF 2(2)]
      by (simp add: w wcToUtf8_def bytes_str_def utf8ToWc_def utf8_len_def Let_def refill utf8_cont_23)
  next
    case 3
    have w: "wc_bytes c = [ucast (0x80 OR 0x40 OR 0x20 OR drop_bit 12 c), ucast (0x80 OR (drop_bit 6 c AND 0x3F)), ucast (0x80 OR (c AND 0x3F))]"
      using 3 by (auto simp: wc_bytes_def)
    show ?thesis using assms small lead3 [OF 3(2)]
      by (simp add: w wcToUtf8_def bytes_str_def utf8ToWc_def utf8_len_def Let_def refill refill12 utf8_cont_23)
  next
    case 4
    show ?thesis using assms small lead4 [OF 4(2)] 4(1)
      by (simp add: wc_bytes_def wcToUtf8_def bytes_str_def utf8ToWc_def utf8_len_def Let_def refill refill12 refill18 utf8_cont_23)
  qed
qed


section \<open>Steps through a string\<close>

lemma byte_at_ge [simp]: "length s \<le> i \<Longrightarrow> byte_at s i = 0"
  by (simp add: byte_at_def)

lemma utf8_cont_length:
  "utf8_cont s i n c = (r, c') \<Longrightarrow> i \<le> length s \<Longrightarrow> (case r of None \<Rightarrow> i + n | Some j \<Rightarrow> j) \<le> length s"
proof (induction s i n c rule: utf8_cont.induct)
  case (2 s i n c)
  then show ?case by (cases "i < length s") (auto simp: Let_def split: if_splits option.splits)
qed auto

lemma utf8ToWc_length:
  assumes "s \<noteq> []"
  shows "nat \<bar>fst (utf8ToWc s)\<bar> \<le> length s"
proof -
  define n where "n = 2 + of_bool (byte_at s 0 AND 0x20 \<noteq> 0) + (of_bool (byte_at s 0 AND 0x30 = 0x30) :: nat)"
  have n2: "2 \<le> n" by (simp add: n_def)
  have "Suc 0 \<le> length s" using assms by (cases s) auto
  then have c: "utf8_cont s 1 (n - 1) x = (r, c') \<Longrightarrow> (case r of None \<Rightarrow> n | Some j \<Rightarrow> j) \<le> length s" for x r c'
    using utf8_cont_length [of s 1 "n - 1" x r c'] n2 by (auto split: option.splits)
  have "nat \<bar>fst (case utf8_cont s 1 (n - 1) x of (Some i, c) \<Rightarrow> (- int i, c)
      | (None, c) \<Rightarrow> if 0x10FFFF < c \<or> 0xD800 \<le> c \<and> c \<le> 0xDFFF then (- int n, 0xFFFD) else (int n, c))\<bar> \<le> length s" for x
    using c [of x] by (cases "utf8_cont s 1 (n - 1) x") (auto split: option.splits)
  moreover obtain A B C X where "utf8ToWc s =
    (if A then if B then (-1, 0) else (case utf8_cont s 1 (n - 1) X of (Some i, c) \<Rightarrow> (- int i, c)
      | (None, c) \<Rightarrow> if 0x10FFFF < c \<or> 0xD800 \<le> c \<and> c \<le> 0xDFFF then (- int n, 0xFFFD) else (int n, c))
     else if C then (1, ucast (byte_at s 0)) else (-1, 0))"
    unfolding n_def utf8ToWc_def Let_def by blast
  ultimately show ?thesis using \<open>Suc 0 \<le> length s\<close> by simp
qed

text \<open>The results of decoding a string from the front.\<close>

function utf8_steps :: "string \<Rightarrow> (int \<times> wchar) list" where
  "utf8_steps s = (if s = [] then [] else utf8ToWc s # utf8_steps (drop (nat \<bar>fst (utf8ToWc s)\<bar>) s))"
  by pat_completeness auto
termination
proof (relation "measure length", simp_all, goal_cases)
  case (1 s)
  with utf8ToWc_nonzero [of s] show ?case by (cases s) auto
qed

declare utf8_steps.simps [simp del] validate_loop.simps [simp del] sanitize_loop.simps [simp del]

lemma utf8_steps_Nil [simp]: "utf8_steps [] = []"
  by (simp add: utf8_steps.simps)

lemma utf8_steps_drop:
  "i < length s \<Longrightarrow>
   utf8_steps (drop i s) = utf8ToWc (drop i s) # utf8_steps (drop (i + nat \<bar>fst (utf8ToWc (drop i s))\<bar>) s)"
  by (subst utf8_steps.simps) (simp add: add.commute)

lemma validate_loop_steps: "validate_loop s i \<longleftrightarrow> list_all (\<lambda>(x, c). 0 < x) (utf8_steps (drop i s))"
proof (induction s i rule: validate_loop.induct)
  case (1 s i)
  show ?case
  proof (cases "i < length s")
    case True
    obtain x c where x: "utf8ToWc (drop i s) = (x, c)" by (cases "utf8ToWc (drop i s)")
    then have "x \<noteq> 0" using utf8ToWc_nonzero [of "drop i s"] by simp
    then show ?thesis
      using 1 True x by (subst validate_loop.simps) (auto simp: utf8_steps_drop Let_def)
  qed (simp add: validate_loop.simps)
qed

lemma validateUtf8_steps: "validateUtf8 s \<longleftrightarrow> list_all (\<lambda>(x, c). 0 < x) (utf8_steps s)"
  by (simp add: validateUtf8_def validate_loop_steps)

text \<open>Every decoded character is encoded in its shortest form.\<close>

definition no_overlong :: "string \<Rightarrow> bool" where
  "no_overlong s \<longleftrightarrow> list_all (\<lambda>(x, c). 0 < x \<longrightarrow> x = int (utf8_len c)) (utf8_steps s)"

lemma utf8ToWc_invalid_wc: "utf8ToWc s = (x, c) \<Longrightarrow> 0 < x \<Longrightarrow> \<not> invalid_wc c"
proof -
  assume a: "utf8ToWc s = (x, c)" "0 < x"
  have "\<not> invalid_wc (ucast b)" if "b AND 0x80 = 0" for b :: byte
  proof -
    have "unat b < 256" using unsigned_less [of b] by simp
    then have "unat (ucast b :: wchar) < 256"
      by (simp add: unsigned_ucast_eq order_le_less_trans [OF take_bit_nat_less_eq_self])
    then show ?thesis by (simp add: invalid_wc_def word_less_nat_alt word_le_nat_alt)
  qed
  then show ?thesis using a
    by (auto simp: utf8ToWc_def Let_def invalid_wc_def split: if_splits prod.splits option.splits dest: utf8_cont_bound)
qed

lemma length_wcToUtf8: "\<not> invalid_wc c \<Longrightarrow> length (wcToUtf8 c) = utf8_len c"
  by (simp add: wcToUtf8_def utf8_len_def bytes_str_def)

lemma utf8_len_pos [simp]: "0 < utf8_len c" "utf8_len c \<noteq> 0"
  by (simp_all add: utf8_len_def wc_bytes_def)

lemma utf8_steps_wc: "\<not> invalid_wc c \<Longrightarrow> utf8_steps (wcToUtf8 c @ s) = (int (utf8_len c), c) # utf8_steps s"
  using length_wcToUtf8 [of c] utf8ToWc_wcToUtf8 [of c s]
  by (subst utf8_steps.simps) (auto dest: arg_cong [of "wcToUtf8 c" "[]" length])

lemma utf8_steps_underscores:
  "utf8_steps (replicate n (CHR ''_'') @ s) = replicate n (1, 0x5F) @ utf8_steps s"
proof (induction n)
  case (Suc n)
  have "utf8ToWc (CHR ''_'' # t) = (1, 0x5F)" for t
    by (simp add: utf8ToWc_def byte_of_char_def)
  with Suc show ?case by (subst utf8_steps.simps) simp
qed simp


text \<open>Decoding determines the bytes, up to overlong forms.\<close>

lemma byte_eq_iff:
  "(x :: byte) = y \<longleftrightarrow> (\<forall>n\<in>{0, 1, 2, 3, 4, 5, 6, 7}. bit x n = bit y n)"
  by (auto intro: byte_eqI)

lemma byte_tests:
  fixes b :: byte
  shows "b AND 0xC0 = 0xC0 \<longleftrightarrow> bit b 7 \<and> bit b 6" "b AND 0xC0 = 0x80 \<longleftrightarrow> bit b 7 \<and> \<not> bit b 6"
    "b AND 0x80 = 0 \<longleftrightarrow> \<not> bit b 7" "b AND 0x20 = 0 \<longleftrightarrow> \<not> bit b 5" "b AND 0x30 = 0x30 \<longleftrightarrow> bit b 5 \<and> bit b 4"
    "b AND 0x10 = 0 \<longleftrightarrow> \<not> bit b 4" "b AND 0x08 = 0 \<longleftrightarrow> \<not> bit b 3"
  by (simp_all only: byte_eq_iff) (auto simp: bit_simps)

lemma utf8_len_cases:
  "utf8_len c = 1 \<longleftrightarrow> c < 0x80" "utf8_len c = 2 \<longleftrightarrow> 0x80 \<le> c \<and> c < 0x800"
  "utf8_len c = 3 \<longleftrightarrow> 0x800 \<le> c \<and> c < 0x10000" "utf8_len c = 4 \<longleftrightarrow> 0x10000 \<le> c"
  by (auto simp: utf8_len_def wc_bytes_def not_le not_less word_less_nat_alt word_le_nat_alt)

lemma utf8_cont_None:
  "utf8_cont s i n c = (None, c') \<Longrightarrow> 0 < n \<Longrightarrow>
   i < length s \<and> byte_at s i AND 0xC0 = 0x80
   \<and> utf8_cont s (i + 1) (n - 1) (push_bit 6 c OR ucast (byte_at s i AND 0x3F)) = (None, c')"
  by (cases n; cases "i < length s") (auto simp: Let_def split: if_splits)

lemma utf8ToWc_pos:
  assumes "utf8ToWc s = (int n, c)"
  defines "b \<equiv> byte_at s 0"
  shows "n = 1 \<and> \<not> bit b 7 \<and> c = ucast b
    \<or> n = 2 \<and> bit b 7 \<and> bit b 6 \<and> \<not> bit b 5 \<and> utf8_cont s 1 (Suc 0) (ucast (0x1F AND b)) = (None, c)
    \<or> n = 3 \<and> bit b 7 \<and> bit b 6 \<and> bit b 5 \<and> \<not> bit b 4 \<and> utf8_cont s 1 (Suc (Suc 0)) (ucast (0x0F AND b)) = (None, c)
    \<or> n = 4 \<and> bit b 7 \<and> bit b 6 \<and> bit b 5 \<and> bit b 4 \<and> \<not> bit b 3
      \<and> utf8_cont s 1 (Suc (Suc (Suc 0))) (ucast (0x07 AND b)) = (None, c)"
proof (cases "bit b 7 \<and> bit b 6")
  case False
  then show ?thesis
    using assms(1) by (auto simp: utf8ToWc_def Let_def b_def [symmetric] byte_tests split: if_splits)
next
  case True
  then consider "\<not> bit b 5" | "bit b 5" "\<not> bit b 4" | "bit b 5" "bit b 4" by blast
  then show ?thesis
  proof cases
    case 1
    have [simp]: "\<not> b AND 0x30 = 0x30" "b AND 0x20 = 0" "b AND 0xC0 = 0xC0" using 1 True by (simp_all add: byte_tests)
    show ?thesis
      using assms(1) 1 True
      by (auto simp: utf8ToWc_def Let_def b_def [symmetric] byte_tests utf8_cont_23 simp del: utf8_cont.simps dest: utf8_cont_bound split: if_splits prod.splits option.splits)
  next
    case 2
    have [simp]: "\<not> b AND 0x30 = 0x30" "b AND 0x20 \<noteq> 0" "b AND 0xC0 = 0xC0" using 2 True by (simp_all add: byte_tests)
    show ?thesis
      using assms(1) 2 True
      by (auto simp: utf8ToWc_def Let_def b_def [symmetric] byte_tests utf8_cont_23 simp del: utf8_cont.simps dest: utf8_cont_bound split: if_splits prod.splits option.splits)
  next
    case 3
    have [simp]: "b AND 0x30 = 0x30" "b AND 0x20 \<noteq> 0" "b AND 0xC0 = 0xC0" using 3 True by (simp_all add: byte_tests)
    show ?thesis
      using assms(1) 3 True
      by (auto simp: utf8ToWc_def Let_def b_def [symmetric] byte_tests utf8_cont_23 simp del: utf8_cont.simps dest: utf8_cont_bound split: if_splits prod.splits option.splits)
  qed
qed

lemma wc_bytes2:
  assumes "bit b 7" "bit b 6" "\<not> bit b 5" "bit d 7" "\<not> bit d 6"
    and "c = push_bit 6 (ucast (0x1F AND b)) OR ucast (d AND 0x3F)" and "utf8_len c = 2"
  shows "wc_bytes c = [b, d]"
proof -
  have "wc_bytes c = [ucast (0x80 OR 0x40 OR drop_bit 6 c), ucast (0x80 OR (c AND 0x3F))]"
    using assms(7) by (auto simp: utf8_len_def wc_bytes_def split: if_splits)
  moreover have "ucast (0x80 OR 0x40 OR drop_bit 6 c) = b" "ucast (0x80 OR (c AND 0x3F)) = d"
    using assms(1-5) by (rule_tac byte_eqI; simp add: assms(6) bit_simps)+
  ultimately show ?thesis by simp
qed

lemma wc_bytes3:
  assumes "bit b 7" "bit b 6" "bit b 5" "\<not> bit b 4" "bit d 7" "\<not> bit d 6" "bit e 7" "\<not> bit e 6"
    and "c = push_bit 6 (push_bit 6 (ucast (0x0F AND b)) OR ucast (d AND 0x3F)) OR ucast (e AND 0x3F)" and "utf8_len c = 3"
  shows "wc_bytes c = [b, d, e]"
proof -
  have "wc_bytes c = [ucast (0x80 OR 0x40 OR 0x20 OR drop_bit 12 c), ucast (0x80 OR (drop_bit 6 c AND 0x3F)), ucast (0x80 OR (c AND 0x3F))]"
    using assms(10) by (auto simp: utf8_len_def wc_bytes_def split: if_splits)
  moreover have "ucast (0x80 OR 0x40 OR 0x20 OR drop_bit 12 c) = b" "ucast (0x80 OR (drop_bit 6 c AND 0x3F)) = d"
    "ucast (0x80 OR (c AND 0x3F)) = e"
    using assms(1-8) by (rule_tac byte_eqI; simp add: assms(9) bit_simps)+
  ultimately show ?thesis by simp
qed

lemma wc_bytes4:
  assumes "bit b 7" "bit b 6" "bit b 5" "bit b 4" "\<not> bit b 3" "bit d 7" "\<not> bit d 6" "bit e 7" "\<not> bit e 6" "bit f 7" "\<not> bit f 6"
    and "c = push_bit 6 (push_bit 6 (push_bit 6 (ucast (0x07 AND b)) OR ucast (d AND 0x3F)) OR ucast (e AND 0x3F)) OR ucast (f AND 0x3F)" and "utf8_len c = 4"
  shows "wc_bytes c = [b, d, e, f]"
proof -
  have "wc_bytes c = [ucast (0x80 OR 0x40 OR 0x20 OR 0x10 OR drop_bit 18 c), ucast (0x80 OR (drop_bit 12 c AND 0x3F)),
       ucast (0x80 OR (drop_bit 6 c AND 0x3F)), ucast (0x80 OR (c AND 0x3F))]"
    using assms(13) by (auto simp: utf8_len_def wc_bytes_def split: if_splits)
  moreover have "ucast (0x80 OR 0x40 OR 0x20 OR 0x10 OR drop_bit 18 c) = b" "ucast (0x80 OR (drop_bit 12 c AND 0x3F)) = d"
    "ucast (0x80 OR (drop_bit 6 c AND 0x3F)) = e" "ucast (0x80 OR (c AND 0x3F)) = f"
    using assms(1-11) by (rule_tac byte_eqI; simp add: assms(12) bit_simps)+
  ultimately show ?thesis by simp
qed

lemma utf8_cont_Suc:
  "utf8_cont s i (Suc n) c = (None, c') \<longleftrightarrow>
   byte_at s i AND 0xC0 = 0x80 \<and> utf8_cont s (i + 1) n (push_bit 6 c OR ucast (byte_at s i AND 0x3F)) = (None, c')"
  by (simp add: Let_def)

lemma map_byte_take:
  "n \<le> length s \<Longrightarrow> map byte_of_char (take n s) = map (byte_at s) [0..<n]"
  by (auto simp: byte_at_def intro: nth_equalityI)

lemma utf8ToWc_encode:
  assumes "utf8ToWc s = (int n, c)" and "s \<noteq> []" and "n = utf8_len c"
  shows "wcToUtf8 c = take n s"
proof -
  have inv: "\<not> invalid_wc c" using utf8ToWc_invalid_wc [OF assms(1)] assms(3) by simp
  have "n \<le> length s" using utf8ToWc_length [OF assms(2)] assms(1) by simp
  then have bs: "map byte_of_char (take n s) = map (byte_at s) [0..<n]" by (rule map_byte_take)
  have "map (byte_at s) [0..<n] = wc_bytes c"
    using utf8ToWc_pos [OF assms(1)]
  proof (elim disjE conjE, goal_cases)
    case 1
    have "ucast (ucast (byte_at s 0) :: wchar) = byte_at s 0" by (rule byte_eqI) (simp_all add: bit_simps)
    with 1 show ?case using assms(3) by (simp add: utf8_len_def wc_bytes_def split: if_splits)
  next
    case 2
    then show ?case
      using assms(3) wc_bytes2 [of "byte_at s 0" "byte_at s (Suc 0)" c]
      by (simp add: upt_rec utf8_cont_Suc byte_tests del: utf8_cont.simps(2))
  next
    case 3
    then show ?case
      using assms(3) wc_bytes3 [of "byte_at s 0" "byte_at s (Suc 0)" "byte_at s (Suc (Suc 0))" c]
      by (simp add: upt_rec utf8_cont_Suc byte_tests del: utf8_cont.simps(2))
  next
    case 4
    then show ?case
      using assms(3) wc_bytes4 [of "byte_at s 0" "byte_at s (Suc 0)" "byte_at s (Suc (Suc 0))" "byte_at s (Suc (Suc (Suc 0)))" c]
      by (simp add: upt_rec utf8_cont_Suc byte_tests del: utf8_cont.simps(2))
  qed
  moreover have "bytes_str (map byte_of_char (take n s)) = take n s" by (simp add: bytes_str_def o_def)
  ultimately show ?thesis using inv bs by (simp add: wcToUtf8_def)
qed

text \<open>What sanitising makes of each decoding step.\<close>

definition clean :: "(int \<times> wchar) list \<Rightarrow> string" where
  "clean st = concat (map (\<lambda>(x, c). if x < 0 then replicate (nat \<bar>x\<bar>) (CHR ''_'') else wcToUtf8 c) st)"

lemma clean_simps [simp]:
  "clean [] = []"
  "clean ((x, c) # st) = (if x < 0 then replicate (nat \<bar>x\<bar>) (CHR ''_'') else wcToUtf8 c) @ clean st"
  by (simp_all add: clean_def)

lemma utf8_steps_valid_wc: "(x, c) \<in> set (utf8_steps s) \<Longrightarrow> 0 < x \<Longrightarrow> \<not> invalid_wc c"
proof (induction s rule: utf8_steps.induct)
  case (1 s)
  then show ?case
    by (subst (asm) (2) utf8_steps.simps) (auto split: if_splits dest: utf8ToWc_invalid_wc [OF sym])
qed

lemma utf8_steps_nonzero: "(x, c) \<in> set (utf8_steps s) \<Longrightarrow> x \<noteq> 0"
proof (induction s rule: utf8_steps.induct)
  case (1 s)
  then show ?case
    using utf8ToWc_nonzero [of s] by (subst (asm) (2) utf8_steps.simps) (auto split: if_splits dest: arg_cong [of _ _ fst])
qed

lemma sanitize_loop_clean:
  "length tgt = i \<Longrightarrow> list_all (\<lambda>(x, c). 0 < x \<longrightarrow> x = int (utf8_len c)) (utf8_steps (drop i s)) \<Longrightarrow>
   sanitize_loop s i tgt = Some (tgt @ clean (utf8_steps (drop i s)))"
proof (induction s i tgt rule: sanitize_loop.induct)
  case (1 s i tgt)
  show ?case
  proof (cases "i < length s")
    case True
    obtain x c where x: "utf8ToWc (drop i s) = (x, c)" by (cases "utf8ToWc (drop i s)")
    then have "x \<noteq> 0" using utf8ToWc_nonzero [of "drop i s"] by simp
    then consider "x < 0" | "0 < x" by linarith
    then show ?thesis
    proof cases
      case 1
      then show ?thesis
        using "1.IH"(1) [OF True x [symmetric]] "1.prems" True x
        by (subst sanitize_loop.simps) (simp add: utf8_steps_drop)
    next
      case 2
      then have "length (wcToUtf8 c) = nat x"
        using "1.prems" True x utf8ToWc_invalid_wc [OF x] by (simp add: utf8_steps_drop length_wcToUtf8)
      then show ?thesis
        using 2 "1.IH"(2) [OF True x [symmetric]] "1.prems" True x
        by (subst sanitize_loop.simps) (auto simp: utf8_steps_drop)
    qed
  qed (simp add: sanitize_loop.simps)
qed

lemma length_clean:
  "list_all (\<lambda>(x, c). 0 < x \<longrightarrow> x = int (utf8_len c)) (utf8_steps s) \<Longrightarrow> length (clean (utf8_steps s)) = length s"
proof (induction s rule: utf8_steps.induct)
  case (1 s)
  show ?case
  proof (cases "s = []")
    case False
    obtain x c where x: "utf8ToWc s = (x, c)" by (cases "utf8ToWc s")
    then have "x \<noteq> 0" "nat \<bar>x\<bar> \<le> length s" using utf8ToWc_nonzero [of s] utf8ToWc_length [OF False] by auto
    then show ?thesis
      using 1 False x utf8ToWc_invalid_wc [OF x] 
      by (subst utf8_steps.simps, subst (asm) (3) utf8_steps.simps) (auto simp: length_wcToUtf8)
  qed simp
qed

lemma clean_same:
  "list_all (\<lambda>(x, c). x = int (utf8_len c)) (utf8_steps s) \<Longrightarrow> clean (utf8_steps s) = s"
proof (induction s rule: utf8_steps.induct)
  case (1 s)
  show ?case
  proof (cases "s = []")
    case False
    obtain x c where x: "utf8ToWc s = (x, c)" by (cases "utf8ToWc s")
    then have c: "x = int (utf8_len c)" using 1(2) False by (subst (asm) utf8_steps.simps) simp
    then have "wcToUtf8 c = take (utf8_len c) s" using x utf8ToWc_encode [of s] False by simp
    then show ?thesis
      using 1 False x c by (subst utf8_steps.simps, subst (asm) (2) utf8_steps.simps) simp
  qed simp
qed

lemma utf8_steps_clean:
  "list_all (\<lambda>(x, c). 0 < x \<longrightarrow> \<not> invalid_wc c) st \<Longrightarrow> list_all (\<lambda>(x, c). x \<noteq> 0) st \<Longrightarrow>
   list_all (\<lambda>(x, c). 0 < x) (utf8_steps (clean st))"
proof (induction st)
  case (Cons p st)
  then show ?case
    by (cases p) (auto simp: utf8_steps_underscores utf8_steps_wc list_all_iff)
qed simp

lemma validate_clean: "validateUtf8 (clean (utf8_steps s))"
  unfolding validateUtf8_steps
  by (rule utf8_steps_clean) (auto simp: list_all_iff dest: utf8_steps_valid_wc utf8_steps_nonzero)

text \<open>The characters of a string.\<close>

definition utf8_chars :: "string \<Rightarrow> wchar list" where
  "utf8_chars s = map snd (utf8_steps s)"

declare stricmp_loop.simps [simp del] strnicmp_loop.simps [simp del]

lemma byte_at_0_wc: "byte_at s 0 = 0 \<Longrightarrow> utf8ToWc s = (1, 0)"
  by (simp add: utf8ToWc_def)

lemma utf8_chars_step:
  assumes "utf8ToWc (drop i s) = (n, c)" and "i \<le> length s" and "0 \<notin> set (utf8_chars (drop i s))"
  shows "i = length s \<and> c = 0 \<and> utf8_chars (drop i s) = [] \<and> byte_at s i = 0
    \<or> c \<noteq> 0 \<and> utf8_chars (drop i s) = c # utf8_chars (drop (i + nat \<bar>n\<bar>) s) \<and> i + nat \<bar>n\<bar> \<le> length s
      \<and> byte_at s i \<noteq> 0"
proof (cases "i < length s")
  case True
  then have ch: "utf8_chars (drop i s) = c # utf8_chars (drop (i + nat \<bar>n\<bar>) s)"
    using assms(1) by (simp add: utf8_chars_def utf8_steps_drop)
  then have "c \<noteq> 0" using assms(3) by auto
  moreover have "byte_at s i \<noteq> 0"
  proof
    assume "byte_at s i = 0"
    then have "byte_at (drop i s) 0 = 0" using True by (simp add: byte_at_def)
    then show False using byte_at_0_wc [of "drop i s"] assms(1) \<open>c \<noteq> 0\<close> by simp
  qed
  moreover have "i + nat \<bar>n\<bar> \<le> length s"
    using utf8ToWc_length [of "drop i s"] assms(1) True by simp
  ultimately show ?thesis using ch by simp
next
  case False
  then show ?thesis using assms by (simp add: utf8_chars_def utf8ToWc_def)
qed

lemma stricmp_loop_chars:
  assumes "\<And>c. lower c = 0 \<longleftrightarrow> c = 0"
  shows "ia \<le> length a \<Longrightarrow> ib \<le> length b \<Longrightarrow>
   0 \<notin> set (utf8_chars (drop ia a)) \<Longrightarrow> 0 \<notin> set (utf8_chars (drop ib b)) \<Longrightarrow>
   \<exists>r. stricmp_loop lower a b ia ib = Some r
     \<and> (r = 0 \<longleftrightarrow> map lower (utf8_chars (drop ia a)) = map lower (utf8_chars (drop ib b)))"
  using assms
proof (induction lower a b ia ib rule: stricmp_loop.induct)
  case (1 lower a b ia ib)
  obtain na ca where ca: "utf8ToWc (drop ia a) = (na, ca)" by (cases "utf8ToWc (drop ia a)")
  obtain nb cb where cb: "utf8ToWc (drop ib b) = (nb, cb)" by (cases "utf8ToWc (drop ib b)")
  note A = utf8_chars_step [OF ca "1.prems"(1,3)] and B = utf8_chars_step [OF cb "1.prems"(2,4)]
  have eq: "stricmp_loop lower a b ia ib =
    (if byte_at a ia \<noteq> 0 \<and> lower ca = lower cb
     then stricmp_loop lower a b (ia + nat \<bar>na\<bar>) (ib + nat \<bar>nb\<bar>) else Some (sint (lower ca) - sint (lower cb)))"
    using "1.prems"(2) by (subst stricmp_loop.simps) (simp add: ca cb)
  show ?case
  proof (cases "byte_at a ia \<noteq> 0 \<and> lower ca = lower cb")
    case True
    then have "ca \<noteq> 0" using A by auto
    then have "cb \<noteq> 0" using True "1.prems"(5) by metis
    then show ?thesis
      using "1.IH" [OF _ ca [symmetric] refl cb [symmetric] refl True] A B True "1.prems" eq by auto
  next
    case False
    have l: "lower c = 0 \<longleftrightarrow> c = 0" for c using "1.prems"(5) .
    have "sint (lower ca) - sint (lower cb) = 0 \<longleftrightarrow> lower ca = lower cb"
      using signed_word_eqI [of "lower ca" "lower cb"] by auto
    with False show ?thesis using A B l [of ca] l [of cb] eq by auto
  qed
qed

section \<open>Properties\<close>

text \<open>
  C15: UTF-8 decoding inverts encoding for every Unicode scalar value, in front of any further text,
  and reads exactly the bytes written; what decodes to a character in its shortest form is its
  encoding.
\<close>

theorem utf8_round_trip:
  assumes "\<not> invalid_wc c"
  shows "utf8ToWc (wcToUtf8 c @ rest) = (int (length (wcToUtf8 c)), c)
    \<and> (\<forall>s. s \<noteq> [] \<and> utf8ToWc s = (int (length (wcToUtf8 c)), c) \<longrightarrow> take (length (wcToUtf8 c)) s = wcToUtf8 c)"
  using utf8ToWc_wcToUtf8 [OF assms] utf8ToWc_encode assms by (auto simp: length_wcToUtf8)

theorem utf8_round_trip_witness:
  "utf8ToWc (wcToUtf8 0x20AC @ ''xyz'') = (int (length (wcToUtf8 0x20AC)), 0x20AC)"
  using utf8_round_trip [of "0x20AC" "''xyz''"] by (simp add: invalid_wc_def)



text \<open>
  a two-byte overlong form followed by an invalid byte makes \<open>sanitizeUtf8\<close> insert past the end of
  its result, which ends the program; \<open>validateUtf8\<close> accepts the overlong form.
\<close>

lemma sanitize_overlong_aborts:
  "sanitizeUtf8 (CHR 0xC1 # CHR 0x81 # CHR 0xFF # rest) = None \<and> validateUtf8 (CHR 0xC1 # CHR 0x81 # [])"
proof -
  have a: "utf8ToWc (CHR 0xC1 # CHR 0x81 # t) = (2, 0x41)" "utf8ToWc (CHR 0xFF # t) = (-1, 0)" for t
    by (simp_all add: utf8ToWc_def byte_of_char_def utf8_cont_23)
  have "length (wcToUtf8 0x41) = 1" by (simp add: wcToUtf8_def invalid_wc_def wc_bytes_def bytes_str_def)
  then show ?thesis
    by (simp add: sanitizeUtf8_def validateUtf8_def sanitize_loop.simps validate_loop.simps a)
qed

text \<open>
  comparing strings without null characters ends, stays within both, and gives 0 exactly when
  they have the same characters in lower case, provided that \<open>a\<close> and \<open>b\<close> decode without the
  result 0 that invalid bytes give; after an invalid last byte of \<open>a\<close> the comparison runs past the
  terminator of a shorter \<open>b\<close>.
\<close>

lemma stricmp_characters:
  assumes "\<And>c. lower c = 0 \<longleftrightarrow> c = 0"
    and "0 \<notin> set (utf8_chars a)" and "0 \<notin> set (utf8_chars b)"
  shows "(\<exists>r. stricmp lower a b = Some r \<and> (r = 0 \<longleftrightarrow> map lower (utf8_chars a) = map lower (utf8_chars b)))
    \<and> stricmp lower (CHR 0xFF # a) [] = None"
proof
  show "\<exists>r. stricmp lower a b = Some r \<and> (r = 0 \<longleftrightarrow> map lower (utf8_chars a) = map lower (utf8_chars b))"
    using stricmp_loop_chars [OF assms(1), of 0 a 0 b] assms(2,3) by (simp add: stricmp_def)
  have "utf8ToWc (CHR 0xFF # a) = (-1, 0)" "utf8ToWc [] = (1, 0)"
    by (simp_all add: utf8ToWc_def byte_of_char_def)
  then show "stricmp lower (CHR 0xFF # a) [] = None"
    by (simp add: stricmp_def stricmp_loop.simps byte_of_char_def)
qed

lemma stricmp_characters_witness:
  "(\<exists>r. stricmp (\<lambda>c. c) ''ab'' ''a'' = Some r \<and> r \<noteq> 0) \<and> stricmp (\<lambda>c. c) (CHR 0xFF # ''ab'') [] = None"
proof -
  have "utf8_chars ''ab'' = [0x61, 0x62]" "utf8_chars ''a'' = [0x61]"
    by (simp_all add: utf8_chars_def utf8_steps.simps utf8ToWc_def byte_of_char_def)
  then show ?thesis using stricmp_characters [of "\<lambda>c. c" "''ab''" "''a''"] by auto
qed

end
