(* ===== verification/Queue_Item.thy ===== *)
theory Queue_Item
  imports Queue_Types Utf8 Merkle
begin

text \<open>
  \<^bold>\<open>queue/QueueItem.cpp\<close>, \<open>QueueItem.h\<close> and \<open>QueueItemBase\<close>: a queued file with its sources, finished and
  running segments; its priority, the orders on files, and the choice of the next segment to
  download.  The item's bundle is its token; operations that ask the bundle for its priority take
  it as \<open>bp\<close> (\<open>None\<close>: no bundle).  The record \<open>env\<close> holds what is read from outside: settings, users,
  the clock, random numbers (\<open>e_rand n\<close> is \<open>ValueGenerator::rand(0, n)\<close>), the block size of a hash
  tree, and \<open>towlower\<close>.  Quotients and squares of \<open>double\<close>s are taken exactly.
\<close>

section \<open>State\<close>

record env =
  e_set :: settings
  e_users :: users
  e_tick :: tick
  e_rand :: "nat \<Rightarrow> nat"
  e_blockSize :: "hash_value \<Rightarrow> int"
  e_lower :: "wchar \<Rightarrow> wchar"

definition FLAG_USER_LIST :: flags where "FLAG_USER_LIST = 0x01"
definition FLAG_CLIENT_VIEW :: flags where "FLAG_CLIENT_VIEW = 0x04"
definition FLAG_XML_BZLIST :: flags where "FLAG_XML_BZLIST = 0x10"
definition FLAG_PARTIAL_LIST :: flags where "FLAG_PARTIAL_LIST = 0x20"
definition FLAG_OPEN :: flags where "FLAG_OPEN = 0x40"
definition FLAG_TTHLIST_BUNDLE :: flags where "FLAG_TTHLIST_BUNDLE = 0x100"

definition FLAG_FILE_NOT_AVAILABLE :: flags where "FLAG_FILE_NOT_AVAILABLE = 0x01"
definition FLAG_REMOVED :: flags where "FLAG_REMOVED = 0x04"
definition FLAG_NO_TTHF :: flags where "FLAG_NO_TTHF = 0x08"
definition FLAG_BAD_TREE :: flags where "FLAG_BAD_TREE = 0x10"
definition FLAG_SLOW_SOURCE :: flags where "FLAG_SLOW_SOURCE = 0x20"
definition FLAG_NO_TREE :: flags where "FLAG_NO_TREE = 0x40"
definition FLAG_NO_NEED_PARTS :: flags where "FLAG_NO_NEED_PARTS = 0x80"
definition FLAG_PARTIAL :: flags where "FLAG_PARTIAL = 0x100"
definition FLAG_TTH_INCONSISTENCY :: flags where "FLAG_TTH_INCONSISTENCY = 0x200"
definition FLAG_UNTRUSTED :: flags where "FLAG_UNTRUSTED = 0x400"

definition FLAG_MASK :: flags where
  "FLAG_MASK = FLAG_FILE_NOT_AVAILABLE OR FLAG_REMOVED OR FLAG_BAD_TREE OR FLAG_SLOW_SOURCE
     OR FLAG_NO_TREE OR FLAG_TTH_INCONSISTENCY OR FLAG_UNTRUSTED"

lemmas file_flags = FLAG_USER_LIST_def FLAG_CLIENT_VIEW_def FLAG_XML_BZLIST_def FLAG_PARTIAL_LIST_def
  FLAG_OPEN_def FLAG_TTHLIST_BUNDLE_def

lemmas source_flags = FLAG_FILE_NOT_AVAILABLE_def FLAG_REMOVED_def FLAG_NO_TTHF_def FLAG_BAD_TREE_def
  FLAG_SLOW_SOURCE_def FLAG_NO_TREE_def FLAG_NO_NEED_PARTS_def FLAG_PARTIAL_def
  FLAG_TTH_INCONSISTENCY_def FLAG_UNTRUSTED_def FLAG_MASK_def

datatype qi_status =
    QI_NEW | QI_QUEUED | QI_DOWNLOADED | QI_VALIDATION_RUNNING | QI_VALIDATION_ERROR | QI_COMPLETED

primrec qi_status_nat :: "qi_status \<Rightarrow> nat" where
  "qi_status_nat QI_NEW = 0"
| "qi_status_nat QI_QUEUED = 1"
| "qi_status_nat QI_DOWNLOADED = 2"
| "qi_status_nat QI_VALIDATION_RUNNING = 3"
| "qi_status_nat QI_VALIDATION_ERROR = 4"
| "qi_status_nat QI_COMPLETED = 5"

text \<open>A \<open>std::set<string>\<close> of hub addresses is the list of its elements in ascending order.\<close>

record source =
  src_user :: hinted_user
  src_flags :: flags
  src_partsInfo :: parts
  src_blockedHubs :: "string list"

definition source_new :: "hinted_user \<Rightarrow> source" where
  "source_new u = \<lparr>src_user = u, src_flags = 0, src_partsInfo = [], src_blockedHubs = []\<rparr>"

record queue_item =
  qi_token :: nat
  qi_target :: string
  qi_tempTarget :: string
  qi_size :: int
  qi_tth :: hash_value
  qi_flags :: flags
  qi_priority :: prio
  qi_autoPriority :: bool
  qi_timeAdded :: int
  qi_timeFinished :: int
  qi_status :: qi_status
  qi_maxSegments :: byte
  qi_blockSize :: int
  qi_bundle :: "nat option"
  qi_done :: "segment list"
  qi_downloads :: "transfer list"
  qi_sources :: "source list"
  qi_badSources :: "source list"

text \<open>\<open>std::find_if\<close> followed by \<open>erase\<close>.\<close>

fun erase_first :: "('a \<Rightarrow> bool) \<Rightarrow> 'a list \<Rightarrow> 'a list" where
  "erase_first P [] = []"
| "erase_first P (x # xs) = (if P x then xs else x # erase_first P xs)"

section \<open>Construction and orders\<close>

definition getMaxSegments :: "settings \<Rightarrow> int \<Rightarrow> byte" where
  "getMaxSegments cfg aFileSize =
     (if SEGMENTS_MANUAL cfg then min (ucast (NUMBER_OF_SEGMENTS cfg)) 10
      else if 2 * 1048576 \<le> aFileSize \<and> aFileSize < 15 * 1048576 then 2
      else if 15 * 1048576 \<le> aFileSize \<and> aFileSize < 30 * 1048576 then 3
      else if 30 * 1048576 \<le> aFileSize \<and> aFileSize < 60 * 1048576 then 4
      else if 60 * 1048576 \<le> aFileSize \<and> aFileSize < 120 * 1048576 then 5
      else if 120 * 1048576 \<le> aFileSize \<and> aFileSize < 240 * 1048576 then 6
      else if 240 * 1048576 \<le> aFileSize \<and> aFileSize < 480 * 1048576 then 7
      else if 480 * 1048576 \<le> aFileSize \<and> aFileSize < 960 * 1048576 then 8
      else if 960 * 1048576 \<le> aFileSize \<and> aFileSize < 1920 * 1048576 then 9
      else if 1920 * 1048576 \<le> aFileSize then 10
      else 1)"

definition queue_item_new ::
  "settings \<Rightarrow> nat \<Rightarrow> string \<Rightarrow> int \<Rightarrow> prio \<Rightarrow> flags \<Rightarrow> int \<Rightarrow> hash_value \<Rightarrow> string \<Rightarrow> queue_item" where
  "queue_item_new cfg tok aTarget aSize aPriority aFlag aAdded tth aTempTarget =
     (let q = \<lparr>qi_token = tok, qi_target = aTarget, qi_tempTarget = aTempTarget, qi_size = aSize,
               qi_tth = tth, qi_flags = aFlag, qi_priority = aPriority, qi_autoPriority = False,
               qi_timeAdded = aAdded, qi_timeFinished = 0, qi_status = QI_NEW, qi_maxSegments = 1,
               qi_blockSize = -1, qi_bundle = None, qi_done = [], qi_downloads = [],
               qi_sources = [], qi_badSources = []\<rparr>
      in if isSet aFlag FLAG_USER_LIST \<or> isSet aFlag FLAG_CLIENT_VIEW then q\<lparr>qi_priority := HIGHEST\<rparr>
         else
           let q = (if aPriority = DEFAULT then
                      if aSize \<le> convertSize_KB (PRIO_HIGHEST_SIZE cfg) then q\<lparr>qi_priority := HIGHEST\<rparr>
                      else if aSize \<le> convertSize_KB (PRIO_HIGH_SIZE cfg) then q\<lparr>qi_priority := HIGH\<rparr>
                      else if aSize \<le> convertSize_KB (PRIO_NORMAL_SIZE cfg) then q\<lparr>qi_priority := NORMAL\<rparr>
                      else if aSize \<le> convertSize_KB (PRIO_LOW_SIZE cfg) then q\<lparr>qi_priority := LOW\<rparr>
                      else if PRIO_LOWEST cfg then q\<lparr>qi_priority := LOWEST\<rparr>
                      else if AUTO_PRIORITY_DEFAULT cfg then q\<lparr>qi_autoPriority := True, qi_priority := LOW\<rparr>
                      else q\<lparr>qi_priority := NORMAL\<rparr>
                    else q)
           in q\<lparr>qi_maxSegments := getMaxSegments cfg aSize\<rparr>)"

definition qi_isSet :: "queue_item \<Rightarrow> flags \<Rightarrow> bool" where
  "qi_isSet q f = isSet (qi_flags q) f"

text \<open>\<open>s.rfind('.')\<close>.\<close>

definition rfind :: "char \<Rightarrow> string \<Rightarrow> nat option" where
  "rfind c s =
     (let r = length (takeWhile (\<lambda>x. x \<noteq> c) (rev s))
      in if r < length s then Some (length s - 1 - r) else None)"

definition isRxx :: "string \<Rightarrow> nat \<Rightarrow> bool" where
  "isRxx aPath extPos \<longleftrightarrow>
     length aPath - extPos = 4 \<and> aPath ! (extPos + 1) = CHR ''r''
     \<and> CHR ''0'' \<le> aPath ! (extPos + 2) \<and> aPath ! (extPos + 2) \<le> CHR ''9''"

text \<open>
  \<open>QueueItem::AlphaSortOrder\<close>; the extensions compared without case start with a dot, and \<open>.rar\<close> has no
  invalid bytes, so \<open>stricmp\<close> with \<open>.rar\<close> as the second argument may run past it (\<open>None\<close>) only for an
  extension with invalid bytes; the result then counts as different.
\<close>

definition alpha_less :: "(wchar \<Rightarrow> wchar) \<Rightarrow> string \<Rightarrow> string \<Rightarrow> bool" where
  "alpha_less lower left right =
     (case (rfind CHR ''.'' left, rfind CHR ''.'' right) of
        (Some extLeft, Some extRight) \<Rightarrow>
          if take extLeft left = take extRight right then
            if stricmp lower (drop extLeft left) ''.rar'' = Some 0 \<and> isRxx right extRight then True
            else if stricmp lower (drop extRight right) ''.rar'' = Some 0 \<and> isRxx left extLeft then False
            else left < right
          else left < right
      | _ \<Rightarrow> left < right)"

definition AlphaSortOrder :: "env \<Rightarrow> queue_item \<Rightarrow> queue_item \<Rightarrow> bool" where
  "AlphaSortOrder e left right = alpha_less (e_lower e) (qi_target left) (qi_target right)"

definition SizeSortOrder :: "env \<Rightarrow> queue_item \<Rightarrow> queue_item \<Rightarrow> bool" where
  "SizeSortOrder e left right =
     (if qi_isSet left FLAG_PARTIAL_LIST then True
      else if qi_isSet right FLAG_PARTIAL_LIST then False
      else if qi_isSet right FLAG_USER_LIST \<and> qi_size left < convertSize_KB (PRIO_HIGHEST_SIZE (e_set e)) then True
      else if qi_isSet left FLAG_USER_LIST \<and> qi_size right < convertSize_KB (PRIO_HIGHEST_SIZE (e_set e)) then False
      else qi_size left < qi_size right)"

definition PrioSortOrder :: "queue_item \<Rightarrow> queue_item \<Rightarrow> bool" where
  "PrioSortOrder left right \<longleftrightarrow> qi_priority right < qi_priority left"

section \<open>Progress\<close>

definition isFailedStatus :: "qi_status \<Rightarrow> bool" where
  "isFailedStatus aStatus \<longleftrightarrow> aStatus = QI_VALIDATION_ERROR"

definition qi_isDownloaded :: "queue_item \<Rightarrow> bool" where
  "qi_isDownloaded q \<longleftrightarrow> qi_status_nat QI_DOWNLOADED \<le> qi_status_nat (qi_status q)"

definition qi_isCompleted :: "queue_item \<Rightarrow> bool" where
  "qi_isCompleted q \<longleftrightarrow> qi_status_nat QI_COMPLETED \<le> qi_status_nat (qi_status q)"

definition qi_isFilelist :: "queue_item \<Rightarrow> bool" where
  "qi_isFilelist q = qi_isSet q FLAG_USER_LIST"

definition isWaiting :: "queue_item \<Rightarrow> bool" where
  "isWaiting q \<longleftrightarrow> qi_downloads q = []"

definition isRunning :: "queue_item \<Rightarrow> bool" where
  "isRunning q \<longleftrightarrow> \<not> isWaiting q"

definition getDownloadedBytes :: "queue_item \<Rightarrow> int" where
  "getDownloadedBytes q = sum_list (map sg_size (qi_done q)) + sum_list (map tr_pos (qi_downloads q))"

definition qi_getAverageSpeed :: "queue_item \<Rightarrow> int" where
  "qi_getAverageSpeed q = sum_list (map getAverageSpeed (qi_downloads q))"

definition qi_getSecondsLeft :: "queue_item \<Rightarrow> int" where
  "qi_getSecondsLeft q =
     (let speed = qi_getAverageSpeed q
      in if 0 < speed then (qi_size q - getDownloadedBytes q) sdiv speed else 0)"

definition calculateAutoPriority :: "queue_item \<Rightarrow> prio" where
  "calculateAutoPriority q =
     (if qi_autoPriority q then
        let percent = (getDownloadedBytes q * 10) sdiv qi_size q
        in if percent \<in> {0, 1, 2} then LOW else if percent \<in> {3, 4, 5} then NORMAL else HIGH
      else qi_priority q)"

definition addFinishedSegment_item :: "segment \<Rightarrow> queue_item \<Rightarrow> queue_item \<times> int" where
  "addFinishedSegment_item aSegment q =
     (let (dn, bytes) = addFinishedSegment aSegment (qi_done q) in (q\<lparr>qi_done := dn\<rparr>, bytes))"

text \<open>The bytes that the bundle has to forget are the second component.\<close>

definition resetDownloaded :: "queue_item \<Rightarrow> queue_item \<times> int" where
  "resetDownloaded q = (q\<lparr>qi_done := []\<rparr>, getDownloadedSegments (qi_done q))"

definition getChunksVisualisation :: "queue_item \<Rightarrow> segment list \<times> segment list \<times> segment list" where
  "getChunksVisualisation q =
     (map tr_segment (qi_downloads q),
      map (\<lambda>d. seg (sg_start (tr_segment d)) (tr_pos d)) (qi_downloads q), qi_done q)"

section \<open>Sources\<close>

definition getSource :: "user \<Rightarrow> queue_item \<Rightarrow> source option" where
  "getSource u q = find (\<lambda>s. hu_user (src_user s) = u) (qi_sources q)"

definition getBadSource :: "user \<Rightarrow> queue_item \<Rightarrow> source option" where
  "getBadSource u q = find (\<lambda>s. hu_user (src_user s) = u) (qi_badSources q)"

definition isSource :: "user \<Rightarrow> queue_item \<Rightarrow> bool" where
  "isSource u q \<longleftrightarrow> getSource u q \<noteq> None"

definition isBadSource :: "user \<Rightarrow> queue_item \<Rightarrow> bool" where
  "isBadSource u q \<longleftrightarrow> getBadSource u q \<noteq> None"

text \<open>The result, and the new value of \<open>isBad_\<close>.\<close>

definition isBadSourceExcept :: "user \<Rightarrow> flags \<Rightarrow> bool \<Rightarrow> queue_item \<Rightarrow> bool \<times> bool" where
  "isBadSourceExcept u aExceptions isBad q =
     (case getBadSource u q of
        Some s \<Rightarrow> (isAnySet (src_flags s) (aExceptions XOR FLAG_MASK), True)
      | None \<Rightarrow> (False, isBad))"

definition addSource :: "hinted_user \<Rightarrow> queue_item \<Rightarrow> queue_item" where
  "addSource aUser q =
     (case getBadSource (hu_user aUser) q of
        Some s \<Rightarrow> q\<lparr>qi_sources := qi_sources q @ [s],
                     qi_badSources := erase_first (\<lambda>s. hu_user (src_user s) = hu_user aUser) (qi_badSources q)\<rparr>
      | None \<Rightarrow> q\<lparr>qi_sources := qi_sources q @ [source_new aUser]\<rparr>)"

definition removeSource :: "user \<Rightarrow> flags \<Rightarrow> queue_item \<Rightarrow> queue_item" where
  "removeSource aUser reason q =
     (case getSource aUser q of
        None \<Rightarrow> q
      | Some s \<Rightarrow>
          q\<lparr>qi_badSources := qi_badSources q @ [s\<lparr>src_flags := setFlag (src_flags s) reason\<rparr>],
            qi_sources := erase_first (\<lambda>s. hu_user (src_user s) = aUser) (qi_sources q)\<rparr>)"

text \<open>\<open>std::find\<close> followed by a change of the element found.\<close>

fun modify_first :: "('a \<Rightarrow> bool) \<Rightarrow> ('a \<Rightarrow> 'a) \<Rightarrow> 'a list \<Rightarrow> 'a list" where
  "modify_first P f [] = []"
| "modify_first P f (x # xs) = (if P x then f x # xs else x # modify_first P f xs)"

definition addBlockedHub :: "string \<Rightarrow> source \<Rightarrow> source" where
  "addBlockedHub aHubUrl s = s\<lparr>src_blockedHubs := List.insort_insert aHubUrl (src_blockedHubs s)\<rparr>"

definition blockSourceHub :: "hinted_user \<Rightarrow> queue_item \<Rightarrow> queue_item" where
  "blockSourceHub aUser q =
     q\<lparr>qi_sources := modify_first (\<lambda>s. hu_user (src_user s) = hu_user aUser) (addBlockedHub (hu_hint aUser)) (qi_sources q)\<rparr>"

definition getPartsInfo :: "source \<Rightarrow> parts option" where
  "getPartsInfo s = (if src_partsInfo s = [] then None else Some (src_partsInfo s))"

definition setHubUrl :: "string \<Rightarrow> source \<Rightarrow> source" where
  "setHubUrl aHubUrl s = s\<lparr>src_user := (src_user s)\<lparr>hu_hint := aHubUrl\<rparr>\<rparr>"

text \<open>The error stored in \<open>lastError_\<close>, \<open>None\<close> when the result is true.\<close>

definition source_validateHub :: "users \<Rightarrow> string list \<Rightarrow> bool \<Rightarrow> source \<Rightarrow> resource option" where
  "source_validateHub us aOnlineHubs aAllowUrlChange s =
     (if src_blockedHubs s \<noteq> [] \<and> set aOnlineHubs \<subseteq> set (src_blockedHubs s) then Some NO_ACCESS_ONLINE_HUBS
      else if \<not> us_nmdc us (hu_user (src_user s)) \<and> \<not> aAllowUrlChange
              \<and> hu_hint (src_user s) \<notin> set aOnlineHubs then Some USER_OFFLINE
      else None)"

definition allowUrlChange :: "queue_item \<Rightarrow> bool" where
  "allowUrlChange q \<longleftrightarrow> \<not> qi_isSet q FLAG_USER_LIST \<or> qi_isSet q FLAG_TTHLIST_BUNDLE"

text \<open>\<open>None\<close>: the user is not a source, which the code assumes it is.\<close>

definition qi_validateHub :: "users \<Rightarrow> user \<Rightarrow> string \<Rightarrow> queue_item \<Rightarrow> bool option" where
  "qi_validateHub us aUser aUrl q =
     map_option (\<lambda>s. source_validateHub us [aUrl] (allowUrlChange q) s = None) (getSource aUser q)"

text \<open>The new hub address, and the result; \<open>None\<close>: \<open>availableHubs[0]\<close> does not exist.\<close>

definition updateDownloadHubUrl :: "string list \<Rightarrow> string \<Rightarrow> bool \<Rightarrow> source \<Rightarrow> (string \<times> bool) option" where
  "updateDownloadHubUrl aOnlineHubs hubUrl aAllowUrlChange s =
     (if \<not> aAllowUrlChange then Some (hu_hint (src_user s), True)
      else if hubUrl \<in> set (src_blockedHubs s) then
        case filter (\<lambda>h. h \<notin> set (src_blockedHubs s)) aOnlineHubs of
          [] \<Rightarrow> None
        | h # _ \<Rightarrow> Some (h, True)
      else Some (hubUrl, False))"

definition formatError :: "flags \<Rightarrow> resource option" where
  "formatError fl =
     (if isSet fl FLAG_FILE_NOT_AVAILABLE then Some FILE_NOT_AVAILABLE
      else if isSet fl FLAG_BAD_TREE then Some INVALID_TREE_STR
      else if isSet fl FLAG_NO_NEED_PARTS then Some NO_NEEDED_PART
      else if isSet fl FLAG_NO_TTHF then Some SOURCE_TOO_OLD
      else if isSet fl FLAG_SLOW_SOURCE then Some SLOW_USER
      else if isSet fl FLAG_UNTRUSTED then Some CERTIFICATE_NOT_TRUSTED
      else if isSet fl FLAG_TTH_INCONSISTENCY then Some TTH_INCONSISTENCY_STR
      else None)"

definition countOnlineUsers :: "users \<Rightarrow> queue_item \<Rightarrow> nat" where
  "countOnlineUsers us q = length (filter (\<lambda>s. us_online us (hu_user (src_user s))) (qi_sources q))"

definition getOnlineUsers :: "users \<Rightarrow> queue_item \<Rightarrow> hinted_user list" where
  "getOnlineUsers us q = filter (\<lambda>u. us_online us (hu_user u)) (map src_user (qi_sources q))"

section \<open>Names of files\<close>

definition TEMP_EXTENSION :: string where
  "TEMP_EXTENSION = ''.dctmp''"

definition setTempTarget :: "string \<Rightarrow> queue_item \<Rightarrow> queue_item" where
  "setTempTarget aTempTarget q = (if qi_isFilelist q then q else q\<lparr>qi_tempTarget := aTempTarget\<rparr>)"

definition getTempTarget :: "queue_item \<Rightarrow> string \<times> queue_item" where
  "getTempTarget q =
     (if qi_isFilelist q then ([], q)
      else
        let q = (if qi_isSet q FLAG_OPEN \<or> qi_isSet q FLAG_CLIENT_VIEW then setTempTarget (qi_target q) q
                 else if qi_tempTarget q = [] then setTempTarget (qi_target q @ TEMP_EXTENSION) q
                 else q)
        in (qi_tempTarget q, q))"

definition getListName :: "queue_item \<Rightarrow> string" where
  "getListName q =
     (if qi_isSet q FLAG_PARTIAL_LIST then qi_target q
      else if qi_isSet q FLAG_XML_BZLIST then qi_target q @ ''.xml.bz2''
      else qi_target q @ ''.xml'')"

section \<open>Downloads\<close>

definition addDownload :: "transfer \<Rightarrow> queue_item \<Rightarrow> queue_item" where
  "addDownload d q = q\<lparr>qi_downloads := qi_downloads q @ [d]\<rparr>"

definition removeDownload :: "nat \<Rightarrow> queue_item \<Rightarrow> queue_item" where
  "removeDownload d q = q\<lparr>qi_downloads := erase_first (\<lambda>x. tr_id x = d) (qi_downloads q)\<rparr>"

definition removeDownloads :: "user \<Rightarrow> queue_item \<Rightarrow> queue_item" where
  "removeDownloads u q = q\<lparr>qi_downloads := filter (\<lambda>x. hu_user (tr_user x) \<noteq> u) (qi_downloads q)\<rparr>"

end
