(* ===== verification/Next_Segment.thy ===== *)
theory Next_Segment
  imports Queue_Item
begin

text \<open>
  The choice of the next segment to download: \<open>QueueItem::getNextSegment\<close>, \<open>checkOverlaps\<close> and
  \<open>hasSegment\<close> with the checks it makes.  The search loop may run forever for a block size that is
  not positive: it is a partial function, and a lemma shows that it returns for positive ones.
\<close>

section \<open>Search\<close>

fun needed_chunks :: "int \<Rightarrow> int \<Rightarrow> int list \<Rightarrow> segment list" where
  "needed_chunks st en (p # q # ps) =
     (if p \<le> st \<and> st < q \<or> st \<le> p \<and> p < en
      then seg (max st p) (min en q - max st p) # needed_chunks st en ps
      else needed_chunks st en ps)"
| "needed_chunks st en ps = []"

definition block_overlaps :: "segment list \<Rightarrow> segment list \<Rightarrow> int \<Rightarrow> int \<Rightarrow> int \<Rightarrow> int \<Rightarrow> bool" where
  "block_overlaps dn running aBlockSize curSize st en \<longleftrightarrow>
     (if curSize \<le> aBlockSize then list_ex (\<lambda>i. sg_start i \<le> st \<and> en \<le> sg_end i) dn
      else list_ex (\<lambda>i. sg_overlaps (seg st (en - st)) i) dn)
     \<or> list_ex (\<lambda>i. sg_overlaps (seg st (en - st)) i) running"

text \<open>\<open>Inl\<close>: the block found; \<open>Inr\<close>: the chunks that a partial source has and we need.\<close>

partial_function (option) segment_loop ::
  "segment list \<Rightarrow> segment list \<Rightarrow> int \<Rightarrow> int \<Rightarrow> int \<Rightarrow> int list option \<Rightarrow> int \<Rightarrow> int \<Rightarrow> segment list
    \<Rightarrow> (segment + segment list) option" where
  "segment_loop dn running sz aBlockSize target posArray st curSize needed =
     (if st < sz then
        let en = min sz (st + curSize);
            ovl = block_overlaps dn running aBlockSize curSize st en
        in if \<not> ovl \<and> posArray = None then Some (Inl (seg st (en - st)))
           else
             let needed = (case posArray of
                             Some p \<Rightarrow> if ovl then needed else needed @ needed_chunks st en p
                           | None \<Rightarrow> needed)
             in if ovl \<and> aBlockSize < curSize
                then segment_loop dn running sz aBlockSize target posArray st (curSize - aBlockSize) needed
                else segment_loop dn running sz aBlockSize target posArray en target needed
      else Some (Inr needed))"

text \<open>\<open>aWantedSize * max(0.25, 1 - donePart * donePart)\<close>, cut to an integer and rounded to blocks.\<close>

definition targetSize :: "int \<Rightarrow> int \<Rightarrow> int \<Rightarrow> int \<Rightarrow> int" where
  "targetSize aWantedSize downloaded sz aBlockSize =
     (let t = (aWantedSize * max (sz * sz) (4 * (sz * sz - downloaded * downloaded))) sdiv (4 * (sz * sz))
      in if aBlockSize < t then roundDown t aBlockSize else aBlockSize)"

text \<open>The item as one chunk: \<open>MULTI_CHUNK\<close> is off, or the file has a single block.\<close>

definition single_segment :: "segment list \<Rightarrow> int \<Rightarrow> int \<Rightarrow> segment" where
  "single_segment dn sz aBlockSize =
     (let (st, en) =
        (case dn of
           [] \<Rightarrow> (0, sz)
         | first # rest \<Rightarrow>
             if 0 < sg_start first then (0, roundUp (sg_start first) aBlockSize)
             else
               (roundDown (sg_end first) aBlockSize,
                case rest of [] \<Rightarrow> sz | second # _ \<Rightarrow> roundUp (sg_start second) aBlockSize))
      in seg st (min sz en - st))"

fun overlap_loop :: "tick \<Rightarrow> int \<Rightarrow> int \<Rightarrow> transfer list \<Rightarrow> segment option" where
  "overlap_loop t aBlockSize aLastSpeed [] = None"
| "overlap_loop t aBlockSize aLastSpeed (d # ds) =
     (if sg_overlapped (tr_segment d) then overlap_loop t aBlockSize aLastSpeed ds
      else if tr_start d = 0 \<or> t - tr_start d < 4000 then overlap_loop t aBlockSize aLastSpeed ds
      else if getSecondsLeft d < 20 then overlap_loop t aBlockSize aLastSpeed ds
      else
        let pos = tr_pos d - (tr_pos d smod aBlockSize);
            chunkSize = sg_size (tr_segment d) - pos;
            newChunkLeft = chunkSize sdiv aLastSpeed
        in if 2 * newChunkLeft < getSecondsLeft d
           then Some \<lparr>sg_start = sg_start (tr_segment d) + pos, sg_size = chunkSize, sg_overlapped = True\<rparr>
           else overlap_loop t aBlockSize aLastSpeed ds)"

definition checkOverlaps :: "env \<Rightarrow> bool \<Rightarrow> queue_item \<Rightarrow> int \<Rightarrow> int \<Rightarrow> parts option \<Rightarrow> bool \<Rightarrow> segment" where
  "checkOverlaps e hasBundle q aBlockSize aLastSpeed aPartsInfo aAllowOverlap =
     (if aAllowOverlap \<and> aPartsInfo = None \<and> hasBundle \<and> OVERLAP_SLOW_SOURCES (e_set e) \<and> 0 < aLastSpeed then
        case overlap_loop (e_tick e) aBlockSize aLastSpeed (qi_downloads q) of
          Some s \<Rightarrow> s
        | None \<Rightarrow> seg 0 0
      else seg 0 0)"

text \<open>\<open>bp\<close> is the priority of the bundle.\<close>

definition base_isPausedPrio :: "prio \<Rightarrow> bool" where
  "base_isPausedPrio p \<longleftrightarrow> p = PAUSED_FORCE \<or> p = PAUSED"

definition qi_isPausedPrio :: "prio option \<Rightarrow> queue_item \<Rightarrow> bool" where
  "qi_isPausedPrio bp q =
     (case bp of
        Some p \<Rightarrow>
          if qi_priority q = HIGHEST \<and> p \<noteq> PAUSED_FORCE then False
          else if base_isPausedPrio p then True
          else base_isPausedPrio (qi_priority q)
      | None \<Rightarrow> base_isPausedPrio (qi_priority q))"

text \<open>\<open>None\<close>: the loop does not return.\<close>

definition getNextSegment ::
  "env \<Rightarrow> prio option \<Rightarrow> queue_item \<Rightarrow> int \<Rightarrow> int \<Rightarrow> int \<Rightarrow> parts option \<Rightarrow> bool \<Rightarrow> segment option" where
  "getNextSegment e bp q aBlockSize aWantedSize aLastSpeed aPartsInfo aAllowOverlap =
     (let check = checkOverlaps e (bp \<noteq> None) q aBlockSize aLastSpeed aPartsInfo aAllowOverlap in
      if qi_size q = -1 \<or> aBlockSize = 0 then Some (seg 0 (-1))
      else if \<not> MULTI_CHUNK (e_set e) \<or> qi_size q \<le> aBlockSize then
        if qi_downloads q \<noteq> [] then Some check
        else Some (single_segment (qi_done q) (qi_size q) aBlockSize)
      else if qi_isPausedPrio bp q \<or> unat (qi_maxSegments q) \<le> length (qi_downloads q) then Some (seg (-1) 0)
      else
        let posArray = map_option (map (\<lambda>index. min (qi_size q) (uint index * aBlockSize))) aPartsInfo;
            target = targetSize aWantedSize (getDownloadedBytes q) (qi_size q) aBlockSize
        in case segment_loop (qi_done q) (map tr_segment (qi_downloads q)) (qi_size q) aBlockSize target
                  posArray 0 target [] of
             None \<Rightarrow> None
           | Some (Inl block) \<Rightarrow> Some block
           | Some (Inr []) \<Rightarrow> Some check
           | Some (Inr (n # ns)) \<Rightarrow>
               (let selected = (n # ns) ! e_rand e (length ns)
                in Some (selected\<lparr>sg_size := min (sg_size selected) target\<rparr>)))"

section \<open>Availability for a user\<close>

datatype download_type = ANY | SMALL | MCN_NORMAL

record query =
  qu_user :: user
  qu_downloadType :: download_type
  qu_wantedSize :: int
  qu_lastSpeed :: int
  qu_minPrio :: prio
  qu_onlineHubs :: "string list"
  qu_runningBundles :: "nat list"

definition usesSmallSlot :: "queue_item \<Rightarrow> bool" where
  "usesSmallSlot q \<longleftrightarrow>
     qi_isSet q FLAG_PARTIAL_LIST
     \<or> qi_size q \<le> 65792 \<and> \<not> qi_isSet q FLAG_USER_LIST \<and> qi_isSet q FLAG_CLIENT_VIEW"

definition matchesDownloadType :: "queue_item \<Rightarrow> download_type \<Rightarrow> bool" where
  "matchesDownloadType q aType =
     (if aType = SMALL \<and> \<not> usesSmallSlot q then False
      else if aType = MCN_NORMAL \<and> usesSmallSlot q then False
      else True)"

text \<open>The item has a download.\<close>

definition allowSegmentedDownloads :: "queue_item \<Rightarrow> bool" where
  "allowSegmentedDownloads q =
     (if qi_isSet q FLAG_USER_LIST \<or> qi_isSet q FLAG_CLIENT_VIEW then False
      else if tr_type (hd (qi_downloads q)) = TYPE_TREE then False
      else True)"

definition getBlockSize :: "env \<Rightarrow> queue_item \<Rightarrow> int \<times> queue_item" where
  "getBlockSize e q =
     (let q = (if qi_blockSize q = -1 then
                 let bs = e_blockSize e (qi_tth q)
                 in q\<lparr>qi_blockSize := if bs = 0 then qi_size q else bs\<rparr>
               else q)
      in (qi_blockSize q, q))"

text \<open>
  The result, \<open>lastError_\<close> and the item, whose block size may have been looked up; \<open>None\<close>: the
  search does not return, or the user is not a source.
\<close>

definition hasSegment ::
  "env \<Rightarrow> prio option \<Rightarrow> query \<Rightarrow> bool \<Rightarrow> resource option \<Rightarrow> queue_item
    \<Rightarrow> (bool \<times> resource option \<times> queue_item) option" where
  "hasSegment e bp aQuery aAllowOverlap lastError q =
     (if qi_isPausedPrio bp q then Some (False, lastError, q)
      else
        case getSource (qu_user aQuery) q of
          None \<Rightarrow> None
        | Some s \<Rightarrow>
            (case source_validateHub (e_users e) (qu_onlineHubs aQuery) (allowUrlChange q) s of
               Some err \<Rightarrow> Some (False, Some err, q)
             | None \<Rightarrow>
                 if segmentsDone (qi_size q) (qi_done q) then Some (False, lastError, q)
                 else if \<not> matchesDownloadType q (qu_downloadType aQuery) then Some (False, lastError, q)
                 else if isWaiting q then Some (True, lastError, q)
                 else if \<not> allowSegmentedDownloads q then Some (False, lastError, q)
                 else
                   let (bs, q) = getBlockSize e q
                   in case getNextSegment e bp q bs (qu_wantedSize aQuery) (qu_lastSpeed aQuery)
                             (getPartsInfo s) aAllowOverlap of
                        None \<Rightarrow> None
                      | Some segment \<Rightarrow> Some (sg_size segment \<noteq> 0, lastError, q)))"

text \<open>\<open>QueueItem::pickSearchItem\<close>: at most one try for each item, the last pick stands.\<close>

fun pick_loop :: "env \<Rightarrow> (queue_item \<Rightarrow> prio option) \<Rightarrow> queue_item list \<Rightarrow> nat list \<Rightarrow> queue_item option \<Rightarrow> queue_item option" where
  "pick_loop e bp aItems [] found = found"
| "pick_loop e bp aItems (r # rs) found =
     (let searchItem = aItems ! r
      in if \<not> isRunning searchItem \<and> \<not> qi_isPausedPrio (bp searchItem) searchItem then Some searchItem
         else pick_loop e bp aItems rs (Some searchItem))"

text \<open>\<open>rs\<close> are the random numbers that the loop draws.\<close>

definition pickSearchItem ::
  "env \<Rightarrow> (queue_item \<Rightarrow> prio option) \<Rightarrow> queue_item list \<Rightarrow> nat list \<Rightarrow> queue_item option" where
  "pickSearchItem e bp aItems rs = pick_loop e bp aItems (take (length aItems) rs) None"

section \<open>The search loop\<close>

text \<open>The \<open>k\<close>-th block is finished or being downloaded.\<close>

definition block_taken :: "segment list \<Rightarrow> segment list \<Rightarrow> int \<Rightarrow> int \<Rightarrow> int \<Rightarrow> bool" where
  "block_taken dn running sz bs k \<longleftrightarrow>
     list_ex (\<lambda>i. sg_contains i (seg (k * bs) (min sz ((k + 1) * bs) - k * bs))) dn
     \<or> list_ex (sg_overlaps (seg (k * bs) (min sz ((k + 1) * bs) - k * bs))) running"

text \<open>A segment that may be requested.\<close>

definition free_segment :: "segment list \<Rightarrow> segment list \<Rightarrow> int \<Rightarrow> int \<Rightarrow> segment \<Rightarrow> bool" where
  "free_segment dn running sz bs s \<longleftrightarrow>
     0 \<le> sg_start s \<and> 0 < sg_size s \<and> sg_end s \<le> sz \<and> bs dvd sg_start s \<and> (bs dvd sg_end s \<or> sg_end s = sz)
     \<and> \<not> list_ex (sg_overlaps s) running \<and> \<not> list_ex (\<lambda>i. sg_contains i s) dn"

text \<open>File positions of the parts of a source: rising pairs of block boundaries.\<close>

fun parts_positions :: "int \<Rightarrow> int \<Rightarrow> int list \<Rightarrow> bool" where
  "parts_positions sz bs (p # q # ps) \<longleftrightarrow>
     0 \<le> p \<and> p \<le> q \<and> q \<le> sz \<and> (bs dvd p \<or> p = sz) \<and> (bs dvd q \<or> q = sz) \<and> parts_positions sz bs ps"
| "parts_positions sz bs ps \<longleftrightarrow> True"

lemma sub_block_free:
  assumes "0 < bs" and "0 \<le> st" and "bs dvd st" and "bs dvd cur" and "0 < cur" and "st < sz"
    and "en = min sz (st + cur)" and "\<not> block_overlaps dn running bs cur st en"
    and "st \<le> b" and "b < e" and "e \<le> en" and "bs dvd b" and "bs dvd e \<or> e = sz"
  shows "free_segment dn running sz bs (seg b (e - b))"
proof -
  have run: "\<not> list_ex (sg_overlaps (seg b (e - b))) running"
    using assms(8-11) by (auto simp: block_overlaps_def list_ex_iff sg_overlaps_def)
  have "\<not> sg_contains i (seg b (e - b))" if i: "i \<in> set dn" for i
  proof (cases "cur \<le> bs")
    case True
    then have cur: "cur = bs" using assms(4,5) zdvd_imp_le by fastforce
    then have b: "b = st"
    proof -
      from assms(3,12) obtain k j where k: "st = bs * k" "b = bs * j" by (auto elim!: dvdE)
      have "b < st + bs" using assms(7,10,11) cur by simp
      then have "bs * j < bs * (k + 1)" using k by (simp add: distrib_left)
      then have "j < k + 1" using assms(1) by (simp add: mult_less_cancel_left)
      moreover have "k \<le> j" using assms(1,9) k by (simp add: mult_le_cancel_left)
      ultimately show ?thesis using k by simp
    qed
    have e: "e = en"
    proof (cases "e = sz")
      case True
      then show ?thesis using assms(7,11) by simp
    next
      case False
      then have "bs dvd e" using assms(13) by blast
      then have "bs dvd e - st" "0 < e - st" using assms(3,10) b by auto
      then have "bs \<le> e - st" by (rule zdvd_imp_le)
      then show ?thesis using assms(7,11) cur by simp
    qed
    show ?thesis using assms(8) i True b e
      by (auto simp: block_overlaps_def list_ex_iff sg_contains_def)
  next
    case False
    then show ?thesis
      using assms(8-11) i by (auto simp: block_overlaps_def list_ex_iff sg_contains_def sg_overlaps_def)
  qed
  then show ?thesis
    using run assms by (auto simp: free_segment_def list_ex_iff)
qed

lemma needed_chunks_free:
  assumes "0 < bs" and "0 \<le> st" and "bs dvd st" and "bs dvd cur" and "0 < cur" and "st < sz"
    and "en = min sz (st + cur)" and "\<not> block_overlaps dn running bs cur st en"
    and "parts_positions sz bs ps" and "n \<in> set (needed_chunks st en ps)" and "0 < sg_size n"
  shows "free_segment dn running sz bs n \<and> sg_size n \<le> cur"
  using assms(2,3,6-10)
proof (induction st en ps rule: needed_chunks.induct)
  case (1 st en p q ps)
  have en: "bs dvd en \<or> en = sz" "en \<le> sz"
    using 1(4,6) assms(4) by (auto simp: min_def)
  show ?case
  proof (cases "n = seg (max st p) (min en q - max st p) \<and> (p \<le> st \<and> st < q \<or> st \<le> p \<and> p < en)")
    case True
    have "p \<noteq> sz" using True 1(5) 1(8) en by auto
    then have "bs dvd max st p" "bs dvd min en q \<or> min en q = sz"
      using 1(4,8) en by (auto simp: max_def min_def)
    moreover have "max st p < min en q" "min en q \<le> en" "st \<le> max st p" using True assms(11) by simp_all
    ultimately have "free_segment dn running sz bs (seg (max st p) (min en q - max st p))"
      by (intro sub_block_free [OF assms(1) 1(3,4) assms(4,5) 1(5,6,7)]) auto
    moreover have "min en q - max st p \<le> cur" using 1(6) by auto
    ultimately show ?thesis using True by auto
  next
    case False
    then show ?thesis using 1 by (auto split: if_splits)
  qed
qed simp_all

text \<open>What the loop has to show for itself: the invariant on the collected chunks, and the blocks passed.\<close>

definition loop_result ::
  "segment list \<Rightarrow> segment list \<Rightarrow> int \<Rightarrow> int \<Rightarrow> int \<Rightarrow> int \<Rightarrow> int list option \<Rightarrow> segment + segment list \<Rightarrow> bool" where
  "loop_result dn running sz bs target st pos r \<longleftrightarrow>
     (case r of
        Inl b \<Rightarrow> free_segment dn running sz bs b
      | Inr ns \<Rightarrow> list_all (\<lambda>n. 0 < sg_size n \<longrightarrow> free_segment dn running sz bs n \<and> sg_size n \<le> target) ns
          \<and> (pos = None \<longrightarrow> ns = [] \<and> (\<forall>k. st \<le> k * bs \<and> k * bs < sz \<longrightarrow> block_taken dn running sz bs k)))"

lemma segment_loop_returns:
  assumes "0 < bs" and "bs dvd target" and "0 < target"
    and "case pos of None \<Rightarrow> True | Some p \<Rightarrow> parts_positions sz bs p"
  shows "0 \<le> st \<Longrightarrow> bs dvd st \<or> sz \<le> st \<Longrightarrow> bs dvd cur \<Longrightarrow> 0 < cur \<Longrightarrow> cur \<le> target \<Longrightarrow>
    (if pos = None then needed = [] else list_all (\<lambda>n. 0 < sg_size n \<longrightarrow> free_segment dn running sz bs n \<and> sg_size n \<le> target) needed) \<Longrightarrow>
    \<exists>r. segment_loop dn running sz bs target pos st cur needed = Some r \<and> loop_result dn running sz bs target st pos r"
proof (induction "(nat (sz - st), nat cur)" arbitrary: st cur needed
    rule: wf_induct_rule [OF wf_lex_prod [OF wf_less_than wf_less_than]])
  case (1 st cur needed)
  define en where "en = min sz (st + cur)"
  define ovl where "ovl = block_overlaps dn running bs cur st en"
  define nd where "nd = (case pos of Some p \<Rightarrow> if ovl then needed else needed @ needed_chunks st en p | None \<Rightarrow> needed)"
  have eq: "segment_loop dn running sz bs target pos st cur needed =
    (if st < sz then
       if \<not> ovl \<and> pos = None then Some (Inl (seg st (en - st)))
       else if ovl \<and> bs < cur then segment_loop dn running sz bs target pos st (cur - bs) nd
       else segment_loop dn running sz bs target pos en target nd
     else Some (Inr needed))"
    unfolding en_def ovl_def nd_def by (subst segment_loop.simps) (simp only: Let_def)
  show ?case
  proof (cases "st < sz")
    case False
    then have "\<not> (st \<le> k * bs \<and> k * bs < sz)" for k by linarith
    with False 1(7) show ?thesis unfolding eq by (auto simp: loop_result_def split: if_splits)
  next
    case st: True
    with 1(3) have dvd: "bs dvd st" by simp
    have en: "bs dvd en \<or> en = sz" "en \<le> sz" "st < en"
      using dvd 1(4,5) st by (auto simp: en_def min_def)
    note sub = sub_block_free [OF assms(1) 1(2) dvd 1(4,5) st en_def]
    show ?thesis
    proof (cases "\<not> ovl \<and> pos = None")
      case True
      then have "free_segment dn running sz bs (seg st (en - st))"
        using sub [of dn running st en] en dvd by (simp add: ovl_def)
      then show ?thesis using True st unfolding eq by (simp add: loop_result_def)
    next
      case go: False
      have nd: "if pos = None then nd = [] else list_all (\<lambda>n. 0 < sg_size n \<longrightarrow> free_segment dn running sz bs n \<and> sg_size n \<le> target) nd"
      proof -
        have "free_segment dn running sz bs n \<and> sg_size n \<le> target"
          if "pos = Some p" "\<not> ovl" "n \<in> set (needed_chunks st en p)" "0 < sg_size n" for p n
          using needed_chunks_free [OF assms(1) 1(2) dvd 1(4,5) st en_def, of dn running p n] that 1(6) assms(4)
          by (auto simp: ovl_def)
        then show ?thesis using 1(7) by (auto simp: nd_def list_all_iff split: option.splits if_splits)
      qed
      show ?thesis
      proof (cases "ovl \<and> bs < cur")
        case True
        have "\<exists>r. segment_loop dn running sz bs target pos st (cur - bs) nd = Some r \<and> loop_result dn running sz bs target st pos r"
          by (rule 1(1)) (use True 1 nd assms(1) in auto)
        then show ?thesis using go True st unfolding eq by simp
      next
        case False
        have "\<exists>r. segment_loop dn running sz bs target pos en target nd = Some r \<and> loop_result dn running sz bs target en pos r"
          by (rule 1(1)) (use 1 nd assms en st in auto)
        then obtain r where r: "segment_loop dn running sz bs target pos en target nd = Some r"
          "loop_result dn running sz bs target en pos r" by blast
        have "loop_result dn running sz bs target st pos r"
        proof (cases r)
          case (Inr ns)
          have "block_taken dn running sz bs k" if "pos = None" "st \<le> k * bs" "k * bs < sz" "k * bs < en" for k
          proof -
            from False go that(1) have ovl "\<not> bs < cur" by auto
            then have cur: "cur = bs" using 1(4,5) assms(1) zdvd_imp_le by fastforce
            from dvd obtain j where j: "st = bs * j" by blast
            have "k = j"
            proof -
              have "bs * j \<le> bs * k" "bs * k < bs * (j + 1)"
                using that(2,4) j cur by (simp_all add: en_def mult.commute distrib_left)
              then show ?thesis using assms(1) by (simp add: mult_le_cancel_left mult_less_cancel_left)
            qed
            then have "seg (k * bs) (min sz ((k + 1) * bs) - k * bs) = seg st (en - st)"
              using j cur by (simp add: en_def mult.commute distrib_left distrib_right)
            then show ?thesis using \<open>ovl\<close> cur
              by (simp add: block_taken_def ovl_def block_overlaps_def sg_contains_def list_ex_iff)
          qed
          then have "block_taken dn running sz bs k" if "pos = None" "st \<le> k * bs" "k * bs < sz" for k
            using r(2) Inr that by (cases "k * bs < en") (auto simp: loop_result_def)
          then show ?thesis using r(2) Inr by (auto simp: loop_result_def)
        qed (use r(2) in \<open>simp add: loop_result_def\<close>)
        then show ?thesis using go False st r(1) unfolding eq by auto
      qed
    qed
  qed
qed

lemma targetSize_blocks:
  assumes "0 < bs" and "0 \<le> wanted"
  shows "bs dvd targetSize wanted d sz bs" and "0 < targetSize wanted d sz bs"
proof -
  have "0 \<le> t \<Longrightarrow> bs < t \<Longrightarrow> bs dvd roundDown t bs \<and> 0 < roundDown t bs" for t
    using roundDown_nearest(1,3) [OF assms(1), of t] assms(1) by auto
  then show "bs dvd targetSize wanted d sz bs" "0 < targetSize wanted d sz bs"
    using assms(1) by (auto simp: targetSize_def Let_def)
qed

text \<open>The positions of a list of parts in rising order.\<close>

fun parts_rising :: "parts \<Rightarrow> bool" where
  "parts_rising (p # q # ps) \<longleftrightarrow> p \<le> q \<and> parts_rising ps"
| "parts_rising ps \<longleftrightarrow> True"

lemma parts_rising_positions:
  assumes "0 < bs" and "0 \<le> sz"
  shows "parts_rising ps \<Longrightarrow> parts_positions sz bs (map (\<lambda>index. min sz (uint index * bs)) ps)"
proof (induction ps rule: parts_rising.induct)
  case (1 p q ps)
  define x y where xy: "x = uint p * bs" "y = uint q * bs"
  have "x \<le> y" "0 \<le> x" using 1 assms(1) by (simp_all add: xy word_le_def mult_right_mono)
  moreover have "bs dvd x" "bs dvd y" by (simp_all add: xy)
  ultimately show ?case using 1 assms
    by (simp add: xy [symmetric] min_def)
qed simp_all

text \<open>The conditions under which the search runs, and what it then gives.\<close>

definition searching :: "env \<Rightarrow> prio option \<Rightarrow> queue_item \<Rightarrow> int \<Rightarrow> bool" where
  "searching e bp q bs \<longleftrightarrow>
     0 < bs \<and> bs < qi_size q \<and> MULTI_CHUNK (e_set e) \<and> \<not> qi_isPausedPrio bp q
     \<and> length (qi_downloads q) < unat (qi_maxSegments q)"

lemma getNextSegment_searching:
  assumes "searching e bp q bs" and "0 \<le> wanted" and "case parts of None \<Rightarrow> True | Some p \<Rightarrow> parts_rising p"
    and "\<forall>n. e_rand e n \<le> n"
  defines "running \<equiv> map tr_segment (qi_downloads q)" and "sz \<equiv> qi_size q"
  shows "\<exists>s. getNextSegment e bp q bs wanted speed parts allow = Some s
    \<and> (free_segment (qi_done q) running sz bs s \<or> sg_size s \<le> 0 \<and> parts \<noteq> None
       \<or> s = checkOverlaps e (bp \<noteq> None) q bs speed parts allow
         \<and> (parts = None \<longrightarrow> (\<forall>k. 0 \<le> k \<and> k * bs < sz \<longrightarrow> block_taken (qi_done q) running sz bs k)))"
proof -
  have bs: "0 < bs" "bs < sz" using assms(1) by (auto simp: searching_def sz_def)
  define t where "t = targetSize wanted (getDownloadedBytes q) sz bs"
  define pos where "pos = map_option (map (\<lambda>index. min sz (uint index * bs))) parts"
  have t: "bs dvd t" "0 < t" using targetSize_blocks [OF bs(1) assms(2)] by (simp_all add: t_def)
  have "case pos of None \<Rightarrow> True | Some p \<Rightarrow> parts_positions sz bs p"
    using assms(3) bs parts_rising_positions [of bs sz] by (auto simp: pos_def split: option.splits)
  then have "\<exists>r. segment_loop (qi_done q) running sz bs t pos 0 t [] = Some r \<and> loop_result (qi_done q) running sz bs t 0 pos r"
    by (intro segment_loop_returns [OF bs(1) t]) (use t in auto)
  then obtain r where r: "segment_loop (qi_done q) running sz bs t pos 0 t [] = Some r"
    "loop_result (qi_done q) running sz bs t 0 pos r" by blast
  have eq: "getNextSegment e bp q bs wanted speed parts allow =
    (case r of Inl b \<Rightarrow> Some b | Inr [] \<Rightarrow> Some (checkOverlaps e (bp \<noteq> None) q bs speed parts allow)
     | Inr (n # ns) \<Rightarrow> Some (((n # ns) ! e_rand e (length ns))\<lparr>sg_size := min (sg_size ((n # ns) ! e_rand e (length ns))) t\<rparr>))"
    using assms(1) r(1)
    by (simp add: getNextSegment_def searching_def Let_def running_def sz_def t_def pos_def split: sum.splits list.splits)
  show ?thesis
  proof (cases r)
    case (Inl b)
    then show ?thesis using r(2) eq by (simp add: loop_result_def)
  next
    case Inr: (Inr ns)
    show ?thesis
    proof (cases ns)
      case Nil
      have "block_taken (qi_done q) running sz bs k" if "parts = None" "0 \<le> k" "k * bs < sz" for k
        using r(2) Inr that bs(1) by (simp add: loop_result_def pos_def)
      then show ?thesis using Inr Nil eq by simp
    next
      case (Cons n ms)
      define u where "u = (n # ms) ! e_rand e (length ms)"
      have "parts \<noteq> None" using r(2) Inr Cons by (auto simp: loop_result_def pos_def)
      have "u \<in> set ns" unfolding u_def Cons using assms(4) by (intro nth_mem) (simp add: le_imp_less_Suc)
      then have u: "0 < sg_size u \<Longrightarrow> free_segment (qi_done q) running sz bs u \<and> sg_size u \<le> t"
        using r(2) Inr by (auto simp: loop_result_def list_all_iff)
      have that_free: "free_segment (qi_done q) running sz bs (u\<lparr>sg_size := min (sg_size u) t\<rparr>)" if "0 < sg_size u"
        using u [OF that] by (simp add: min_def)
      then show ?thesis
      proof -
        define v where "v = u\<lparr>sg_size := min (sg_size u) t\<rparr>"
        have "getNextSegment e bp q bs wanted speed parts allow = Some v"
          using eq Inr Cons by (simp add: u_def [symmetric] v_def)
        moreover have "free_segment (qi_done q) running sz bs v \<or> sg_size v \<le> 0"
          using that_free by (cases "0 < sg_size u") (auto simp: v_def)
        ultimately show ?thesis using \<open>parts \<noteq> None\<close> by blast
      qed
    qed
  qed
qed

section \<open>Overlapping a slow download\<close>


lemma overlap_loop_result:
  assumes "0 < bs" and "0 < speed"
  shows "list_all (\<lambda>d. 0 \<le> tr_pos d) ds \<Longrightarrow> overlap_loop t bs speed ds = Some s \<Longrightarrow>
    sg_overlapped s
    \<and> (\<exists>d\<in>set ds. \<not> sg_overlapped (tr_segment d) \<and> sg_contains (tr_segment d) s \<and> sg_end s = sg_end (tr_segment d)
        \<and> sg_start s \<le> sg_start (tr_segment d) + tr_pos d \<and> bs dvd sg_start s - sg_start (tr_segment d)
        \<and> 20 \<le> getSecondsLeft d \<and> 2 * (sg_size s sdiv speed) < getSecondsLeft d)"
proof (induction ds)
  case (Cons d ds)
  define p where "p = tr_pos d - (tr_pos d smod bs)"
  have sm: "tr_pos d smod bs = tr_pos d mod bs" using Cons.prems(1) assms(1) by (simp add: smod_nonneg)
  then have p: "p = tr_pos d div bs * bs" by (simp add: p_def minus_mod_eq_div_mult)
  have p3: "0 \<le> p" "p \<le> tr_pos d" "bs dvd p"
  proof -
    show "0 \<le> p" using Cons.prems(1) assms(1) unfolding p by (simp add: pos_imp_zdiv_nonneg_iff)
    show "p \<le> tr_pos d" using assms(1) sm by (simp add: p_def)
    show "bs dvd p" unfolding p by simp
  qed
  show ?case
  proof (cases "overlap_loop t bs speed ds = Some s")
    case True
    then show ?thesis using Cons by auto
  next
    case False
    then show ?thesis
      using Cons.prems(2) p3
      by (auto simp: Let_def p_def [symmetric] sg_contains_def sg_end_def split: if_splits)
  qed
qed simp

section \<open>One chunk\<close>

text \<open>The boundaries of finished segments are block boundaries, or the end of the file.\<close>

definition aligned :: "int \<Rightarrow> int \<Rightarrow> segment \<Rightarrow> bool" where
  "aligned sz bs s \<longleftrightarrow> 0 \<le> sg_start s \<and> sg_end s \<le> sz \<and> bs dvd sg_start s \<and> (bs dvd sg_end s \<or> sg_end s = sz)"

lemma roundUp_dvd: "0 < bs \<Longrightarrow> 0 \<le> n \<Longrightarrow> bs dvd n \<Longrightarrow> roundUp n bs = n"
proof -
  assume a: "0 < bs" "0 \<le> n" "bs dvd n"
  then have r: "n \<le> roundUp n bs" "bs dvd roundUp n bs" "roundUp n bs < n + bs" by (simp_all add: roundUp_least)
  then have "bs dvd roundUp n bs - n" "roundUp n bs - n < bs" "0 \<le> roundUp n bs - n" using a by auto
  then show ?thesis using zdvd_imp_le [of bs "roundUp n bs - n"] by linarith
qed

lemma single_segment_free:
  assumes "0 < bs" and "0 < sz" and "gapped dn" and "list_all (aligned sz bs) dn" and "\<not> segmentsDone sz dn"
  shows "0 \<le> sg_start (single_segment dn sz bs) \<and> 0 < sg_size (single_segment dn sz bs)
    \<and> sg_end (single_segment dn sz bs) \<le> sz
    \<and> seg_bytes (single_segment dn sz bs) \<inter> covered dn = {}"
proof (cases dn)
  case Nil
  then show ?thesis using assms by (simp add: single_segment_def)
next
  case (Cons first rest)
  have f: "0 < sg_size first" "sg_start first < sg_end first" "0 \<le> sg_start first" "sg_end first \<le> sz" "bs dvd sg_start first" "bs dvd sg_end first \<or> sg_end first = sz"
    using assms Cons by (auto simp: gapped_Cons aligned_def sg_end_def)
  have later: "sg_end first < sg_start t" "sg_start t < sg_end t" if "t \<in> set rest" for t
    using assms(3) Cons that gapped_later [of first rest t] gapped_size [of dn t] by (auto simp: sg_end_def)
  show ?thesis
  proof (cases "0 < sg_start first")
    case True
    then have "single_segment dn sz bs = seg 0 (sg_start first)"
      using Cons f assms(1) by (simp add: single_segment_def roundUp_dvd)
    moreover have "sg_start first \<le> sg_start t" if "t \<in> set dn" for t
      using that Cons later [of t] f by auto
    ultimately show ?thesis using True f by (force simp: covered_def seg_bytes_def)
  next
    case False
    then have st: "sg_start first = 0" using f by simp
    show ?thesis
    proof (cases rest)
      case Nil
      then have "sg_end first \<noteq> sz" using assms(5) Cons st by (auto simp: segmentsDone_def sg_eq_def sg_end_def)
      then have "bs dvd sg_end first" "sg_end first < sz" using f by auto
      then have "single_segment dn sz bs = seg (sg_end first) (sz - sg_end first)"
        using Cons Nil st f assms(1) roundDown_nearest(4) [of bs "sg_end first"] by (simp add: single_segment_def)
      then show ?thesis using Cons Nil f st \<open>sg_end first < sz\<close> by (auto simp: seg_bytes_def)
    next
      case (Cons second rs)
      have s: "sg_end first < sg_start second" "sg_start second < sz" "bs dvd sg_start second"
        using later [of second] assms(4) \<open>dn = first # rest\<close> Cons by (auto simp: aligned_def)
      then have "bs dvd sg_end first" using f by auto
      then have e: "single_segment dn sz bs = seg (sg_end first) (sg_start second - sg_end first)"
        using \<open>dn = first # rest\<close> Cons st f s assms(1) roundDown_nearest(4) [of bs "sg_end first"]
        by (simp add: single_segment_def roundUp_dvd)
      have "sg_start second \<le> sg_start t" if "t \<in> set rest" for t
      proof (cases "t = second")
        case False
        then have "sg_end second < sg_start t"
          using that Cons assms(3) \<open>dn = first # rest\<close> gapped_later [of second rs t] by (auto simp: gapped_Cons)
        then show ?thesis using later(2) [of second] Cons by simp
      qed simp
      then have "seg_bytes t \<inter> {sg_end first ..< sg_start second} = {}" if "t \<in> set dn" for t
        using that \<open>dn = first # rest\<close> by (cases "t = first") (force simp: seg_bytes_def)+
      then have "{sg_end first ..< sg_start second} \<inter> covered dn = {}" by (auto simp: covered_def)
      moreover have "0 \<le> sg_end first" using f by simp
      ultimately show ?thesis using e s by (simp add: seg_bytes_def)
    qed
  qed
qed

section \<open>Access\<close>

lemma validated_url:
  assumes "source_validateHub us online allow s = None"
  shows "\<exists>h c. updateDownloadHubUrl online hub allow s = Some (h, c)
    \<and> (allow \<and> hub \<in> set online \<longrightarrow> h \<in> set online \<and> h \<notin> set (src_blockedHubs s) \<and> (\<not> c \<longrightarrow> h = hub))
    \<and> (\<not> allow \<and> \<not> us_nmdc us (hu_user (src_user s)) \<longrightarrow> h \<in> set online)"
proof (cases "allow \<and> hub \<in> set (src_blockedHubs s)")
  case True
  then have "src_blockedHubs s \<noteq> []" by auto
  then have "\<not> set online \<subseteq> set (src_blockedHubs s)"
    using assms(1) by (auto simp: source_validateHub_def split: if_splits)
  then obtain h hs where f: "filter (\<lambda>h. h \<notin> set (src_blockedHubs s)) online = h # hs"
    by (cases "filter (\<lambda>h. h \<notin> set (src_blockedHubs s)) online") (auto simp: filter_empty_conv)
  have "h \<in> set (filter (\<lambda>h. h \<notin> set (src_blockedHubs s)) online)" unfolding f by simp
  then have "h \<in> set online" "h \<notin> set (src_blockedHubs s)" by simp_all
  moreover have "updateDownloadHubUrl online hub allow s = Some (h, True)"
    using True f by (simp add: updateDownloadHubUrl_def)
  ultimately show ?thesis using True by auto
next
  case False
  then show ?thesis
    using assms by (auto simp: updateDownloadHubUrl_def source_validateHub_def split: if_splits)
qed

section \<open>Properties\<close>

text \<open>
  C17: for a positive block size below the file size the search for a segment ends; what it finds
  starts at a block boundary, ends at one or at the end of the file, overlaps no running download
  and does not lie within a finished segment.  For a source that has the whole file, when it finds
  nothing every block is finished or being downloaded.
\<close>

theorem next_segment_search:
  assumes "searching e bp q bs" and "0 \<le> wanted" and "case parts of None \<Rightarrow> True | Some p \<Rightarrow> parts_rising p"
    and "\<forall>n. e_rand e n \<le> n"
  shows "\<exists>s. getNextSegment e bp q bs wanted speed parts allow = Some s
    \<and> (free_segment (qi_done q) (map tr_segment (qi_downloads q)) (qi_size q) bs s
       \<or> sg_size s \<le> 0 \<and> parts \<noteq> None
       \<or> s = checkOverlaps e (bp \<noteq> None) q bs speed parts allow
         \<and> (parts = None \<longrightarrow> (\<forall>k. 0 \<le> k \<and> k * bs < qi_size q
              \<longrightarrow> block_taken (qi_done q) (map tr_segment (qi_downloads q)) (qi_size q) bs k)))"
  by (rule getNextSegment_searching [OF assms])

definition test_settings :: settings where
  "test_settings = \<lparr>PRIO_HIGHEST_SIZE = 64, PRIO_HIGH_SIZE = 0, PRIO_NORMAL_SIZE = 0, PRIO_LOW_SIZE = 0,
     PRIO_LOWEST = False, AUTO_PRIORITY_DEFAULT = False, SEGMENTS_MANUAL = False, NUMBER_OF_SEGMENTS = 3,
     MULTI_CHUNK = True, OVERLAP_SLOW_SOURCES = True, MAX_RUNNING_BUNDLES = 0, RECENT_BUNDLE_HOURS = 24,
     USE_SLOW_DISCONNECTING_DEFAULT = False, AUTO_SEARCH_LIMIT = 5, BUNDLE_SEARCH_TIME = 15\<rparr>"

definition test_env :: env where
  "test_env = \<lparr>e_set = test_settings, e_users = \<lparr>us_online = (\<lambda>_. True), us_nmdc = (\<lambda>_. False)\<rparr>, e_tick = 100000,
     e_rand = (\<lambda>n. 0), e_blockSize = (\<lambda>_. 10), e_lower = (\<lambda>c. c)\<rparr>"

definition test_item :: queue_item where
  "test_item = (queue_item_new test_settings 1 ''a'' 100 NORMAL 0 0 [] [])
     \<lparr>qi_maxSegments := 3, qi_done := [seg 0 30], qi_status := QI_QUEUED\<rparr>"

lemmas test_defs = test_settings_def test_env_def test_item_def queue_item_new_def file_flags

lemma test_item_simps [simp]:
  "qi_size test_item = 100" "qi_done test_item = [seg 0 30]" "qi_downloads test_item = []"
  "qi_maxSegments test_item = 3" "qi_priority test_item = NORMAL" "e_set test_env = test_settings"
  "MULTI_CHUNK test_settings" "e_rand test_env n = 0"
  by (simp_all add: test_defs isSet_def Let_def)

theorem next_segment_search_witness:
  "\<exists>s. getNextSegment test_env None test_item 10 20 0 None False = Some s
    \<and> (free_segment [seg 0 30] [] 100 10 s
       \<or> s = checkOverlaps test_env False test_item 10 0 None False \<and> block_taken [seg 0 30] [] 100 10 0)"
proof -
  have "searching test_env None test_item 10"
    by (simp add: searching_def qi_isPausedPrio_def base_isPausedPrio_def)
  from next_segment_search [OF this, of 20 None 0 False]
  show ?thesis by auto
qed

text \<open>
  an overlapping segment is only handed out for a running download that is not overlapped yet,
  has been expected to take 20 seconds or more, and would be finished by the new user in less than
  half that time; the segment is the rest of that download from a block boundary at or before its
  position.
\<close>

lemma overlapped_segment:
  assumes "0 < bs" and "list_all (\<lambda>d. 0 \<le> tr_pos d) (qi_downloads q)"
    and "checkOverlaps e hasBundle q bs speed parts allow = s"
  shows "s = seg 0 0
    \<or> sg_overlapped s \<and> allow \<and> parts = None \<and> hasBundle
      \<and> (\<exists>d\<in>set (qi_downloads q). \<not> sg_overlapped (tr_segment d) \<and> sg_contains (tr_segment d) s
          \<and> sg_end s = sg_end (tr_segment d) \<and> sg_start s \<le> sg_start (tr_segment d) + tr_pos d
          \<and> bs dvd sg_start s - sg_start (tr_segment d)
          \<and> 20 \<le> getSecondsLeft d \<and> 2 * (sg_size s sdiv speed) < getSecondsLeft d)"
proof (cases "allow \<and> parts = None \<and> hasBundle \<and> OVERLAP_SLOW_SOURCES (e_set e) \<and> 0 < speed")
  case True
  then show ?thesis
    using overlap_loop_result [OF assms(1), of speed "qi_downloads q" "e_tick e" s] assms(2,3)
    by (auto simp: checkOverlaps_def split: option.splits)
next
  case False
  then show ?thesis using assms(3) by (auto simp: checkOverlaps_def)
qed

definition test_download :: transfer where
  "test_download = \<lparr>tr_id = 1, tr_user = \<lparr>hu_user = 7, hu_hint = ''h''\<rparr>, tr_type = TYPE_FILE, tr_segment = seg 30 70,
     tr_start = 1000, tr_samples = [(1000, 0), (11000, 10)], tr_actual = 10, tr_pos = 25, tr_flags = 0\<rparr>"

lemma overlapped_segment_witness:
  "checkOverlaps test_env True (test_item\<lparr>qi_downloads := [test_download]\<rparr>) 10 50 None True
     = \<lparr>sg_start = 50, sg_size = 50, sg_overlapped = True\<rparr>
   \<and> 20 \<le> getSecondsLeft test_download"
proof -
  have c: "checkOverlaps test_env True (test_item\<lparr>qi_downloads := [test_download]\<rparr>) 10 50 None True
     = \<lparr>sg_start = 50, sg_size = 50, sg_overlapped = True\<rparr>"
    by (simp add: checkOverlaps_def test_download_def test_env_def test_settings_def getSecondsLeft_def
        getAverageSpeed_def sdiv_nonneg smod_nonneg seg_def)
  show ?thesis
  proof
    show "20 \<le> getSecondsLeft test_download"
      using overlapped_segment [of 10 "test_item\<lparr>qi_downloads := [test_download]\<rparr>" test_env True 50 None True, OF _ _ c]
      by (simp add: seg_def) (simp add: test_download_def)
  qed (rule c)
qed

text \<open>
  when files are fetched in one chunk and the finished segments end at block boundaries, the
  segment asked for lies in the file, is not empty and touches no finished byte, unless the file is
  complete; when the only finished segment ends in the second half of a one-block file, the request
  is empty for ever.
\<close>

lemma single_segment_progress:
  assumes "0 < bs" and "gapped dn" and "list_all (aligned sz bs) dn" and "0 < sz"
  shows "(segmentsDone sz dn \<or> 0 \<le> sg_start (single_segment dn sz bs) \<and> 0 < sg_size (single_segment dn sz bs)
      \<and> sg_end (single_segment dn sz bs) \<le> sz \<and> seg_bytes (single_segment dn sz bs) \<inter> covered dn = {})
    \<and> (\<forall>n. bs div 2 < n \<and> n < bs \<longrightarrow> single_segment [seg 0 n] bs bs = seg bs 0)"
proof
  show "segmentsDone sz dn \<or> 0 \<le> sg_start (single_segment dn sz bs) \<and> 0 < sg_size (single_segment dn sz bs)
      \<and> sg_end (single_segment dn sz bs) \<le> sz \<and> seg_bytes (single_segment dn sz bs) \<inter> covered dn = {}"
    using single_segment_free [OF assms(1,4,2,3)] by blast
  show "\<forall>n. bs div 2 < n \<and> n < bs \<longrightarrow> single_segment [seg 0 n] bs bs = seg bs 0"
  proof (intro allI impI)
    fix n assume n: "bs div 2 < n \<and> n < bs"
    then have "(n + bs div 2) div bs = 1" using assms(1) by (intro int_div_pos_eq [of _ _ _ "n + bs div 2 - bs"]) auto
    moreover have "0 \<le> n + bs div 2" using n assms(1) by linarith
    ultimately have "roundDown n bs = bs" using assms(1) by (simp add: roundDown_def sdiv_nonneg)
    then show "single_segment [seg 0 n] bs bs = seg bs 0" by (simp add: single_segment_def)
  qed
qed

lemma single_segment_progress_witness:
  "single_segment [seg 0 20, seg 40 5] 45 20 = seg 20 20 \<and> single_segment [seg 0 15] 20 20 = seg 20 0"
  using single_segment_progress [of 20 "[seg 0 20, seg 40 5]" 45]
  by (simp add: aligned_def single_segment_def roundDown_def roundUp_def sdiv_nonneg)

text \<open>
  after a source has been validated for the online hubs, choosing its hub never reads past the
  list of available hubs: when the hub may be changed the result is online and not blocked, and is
  the given hub unless that is blocked; otherwise it is the hint, online for a user on ADC.
\<close>

lemma validated_source_url:
  assumes "source_validateHub us online (allowUrlChange q) s = None" and "hub \<in> set online"
  shows "\<exists>h c. updateDownloadHubUrl online hub (allowUrlChange q) s = Some (h, c)
    \<and> (allowUrlChange q \<longrightarrow> h \<in> set online \<and> h \<notin> set (src_blockedHubs s) \<and> (\<not> c \<longrightarrow> h = hub))
    \<and> (\<not> allowUrlChange q \<and> \<not> us_nmdc us (hu_user (src_user s)) \<longrightarrow> h \<in> set online)"
  using validated_url [OF assms(1), of hub] assms(2) by blast

lemma validated_source_url_witness:
  "\<exists>h c. updateDownloadHubUrl [''a'', ''b''] ''a'' True (addBlockedHub ''a'' (source_new \<lparr>hu_user = 1, hu_hint = ''a''\<rparr>)) = Some (h, c)
    \<and> h = ''b''"
proof -
  have "allowUrlChange test_item" by (simp add: allowUrlChange_def qi_isSet_def isSet_def test_defs Let_def)
  then show ?thesis
    using validated_source_url [of "e_users test_env" "[''a'', ''b'']" test_item
        "addBlockedHub ''a'' (source_new \<lparr>hu_user = 1, hu_hint = ''a''\<rparr>)" "''a''"]
    by (auto simp: source_validateHub_def addBlockedHub_def source_new_def insort_insert_key_def)
qed

end
