(* ===== verification/Bundle.thy ===== *)
theory Bundle
  imports Complex_Main Next_Segment
begin

text \<open>
  \<^bold>\<open>queue/Bundle.cpp\<close> and \<open>Bundle.h\<close>: a bundle of queued files with its size and progress counters, the
  queues of its files by priority and user, its sources and its running downloads.  Files and
  downloads are shared objects: a bundle holds their numbers, and the operations get the stores
  \<open>qs\<close> of files and \<open>ds\<close> of downloads.  The array of maps \<open>userQueue\<close> is a function of priority and
  user.  \<open>std::upper_bound\<close> followed by \<open>insert\<close> is \<open>insert_upper\<close>, which is what it does on the
  ordered ranges that the standard asks for.
\<close>

section \<open>Ordered insertion\<close>

definition insert_upper :: "('a \<Rightarrow> 'a \<Rightarrow> bool) \<Rightarrow> 'a \<Rightarrow> 'a list \<Rightarrow> 'a list" where
  "insert_upper lt x xs = takeWhile (\<lambda>y. \<not> lt x y) xs @ x # dropWhile (\<lambda>y. \<not> lt x y) xs"

lemma insert_upper_simps [simp]:
  "insert_upper lt x [] = [x]"
  "insert_upper lt x (y # ys) = (if lt x y then x # y # ys else y # insert_upper lt x ys)"
  by (simp_all add: insert_upper_def)

lemma set_insert_upper [simp]: "set (insert_upper lt x xs) = insert x (set xs)"
  by (induction xs) auto

lemma length_insert_upper [simp]: "length (insert_upper lt x xs) = Suc (length xs)"
  by (induction xs) auto

lemma distinct_insert_upper [simp]: "distinct (insert_upper lt x xs) \<longleftrightarrow> x \<notin> set xs \<and> distinct xs"
  by (induction xs) auto

text \<open>A strict weak order: what an ordered container asks of its comparison.\<close>

locale strict_weak =
  fixes lt :: "'a \<Rightarrow> 'a \<Rightarrow> bool"
  assumes irrefl: "\<not> lt x x"
    and incomparable_trans: "\<not> lt x y \<Longrightarrow> \<not> lt y z \<Longrightarrow> \<not> lt x z"
    and trans: "lt x y \<Longrightarrow> lt y z \<Longrightarrow> lt x z"
begin


lemma asym: "lt x y \<Longrightarrow> \<not> lt y x"
  using irrefl trans by blast

lemma sorted_insert_upper:
  "sorted_wrt (\<lambda>x y. \<not> lt y x) xs \<Longrightarrow> sorted_wrt (\<lambda>x y. \<not> lt y x) (insert_upper lt x xs)"
proof (induction xs)
  case (Cons y ys)
  show ?case
  proof (cases "lt x y")
    case True
    moreover from this have "\<not> lt z x" if "z \<in> set ys" for z
      using Cons.prems that asym [of x y] incomparable_trans [of z y x] by auto
    ultimately show ?thesis using Cons.prems asym [of x y] by auto
  next
    case False
    then show ?thesis using Cons by auto
  qed
qed simp

end

section \<open>State\<close>

datatype bundle_status =
    B_NEW | B_QUEUED | B_DOWNLOAD_ERROR | B_RECHECK | B_DOWNLOADED | B_VALIDATION_RUNNING
  | B_VALIDATION_ERROR | B_COMPLETED | B_SHARED

primrec bundle_status_nat :: "bundle_status \<Rightarrow> nat" where
  "bundle_status_nat B_NEW = 0"
| "bundle_status_nat B_QUEUED = 1"
| "bundle_status_nat B_DOWNLOAD_ERROR = 2"
| "bundle_status_nat B_RECHECK = 3"
| "bundle_status_nat B_DOWNLOADED = 4"
| "bundle_status_nat B_VALIDATION_RUNNING = 5"
| "bundle_status_nat B_VALIDATION_ERROR = 6"
| "bundle_status_nat B_COMPLETED = 7"
| "bundle_status_nat B_SHARED = 8"

record bundle_source =
  bs_user :: hinted_user
  bs_size :: int
  bs_flags :: flags
  bs_files :: int

definition bundle_source_new :: "hinted_user \<Rightarrow> int \<Rightarrow> flags \<Rightarrow> bundle_source" where
  "bundle_source_new u sz fl = \<lparr>bs_user = u, bs_size = sz, bs_flags = fl, bs_files = 1\<rparr>"

record bundle_t =
  bu_token :: nat
  bu_target :: string
  bu_size :: int
  bu_flags :: flags
  bu_priority :: prio
  bu_autoPriority :: bool
  bu_timeAdded :: int
  bu_timeFinished :: int
  bu_bundleDate :: int
  bu_status :: bundle_status
  bu_start :: tick
  bu_seqOrder :: bool
  bu_actual :: int
  bu_speed :: int
  bu_finishedSegments :: int
  bu_currentDownloaded :: int
  bu_fileBundle :: bool
  bu_dirty :: bool
  bu_recent :: bool
  bu_queueItems :: "nat list"
  bu_finishedFiles :: "nat list"
  bu_sources :: "bundle_source list"
  bu_badSources :: "bundle_source list"
  bu_downloads :: "nat list"
  bu_userQueue :: "prio \<Rightarrow> user \<Rightarrow> nat list option"

definition FLAG_UPDATE_SIZE :: flags where "FLAG_UPDATE_SIZE = 0x01"
definition FLAG_SCHEDULE_SEARCH :: flags where "FLAG_SCHEDULE_SEARCH = 0x04"
definition FLAG_AUTODROP :: flags where "FLAG_AUTODROP = 0x400"

text \<open>\<open>Bundle::SortOrder\<close>, on bundles and on their numbers in a store.\<close>

definition bundle_less :: "bundle_t \<Rightarrow> bundle_t \<Rightarrow> bool" where
  "bundle_less left right =
     (if bu_priority left = bu_priority right then bu_timeAdded left < bu_timeAdded right
      else bu_priority right < bu_priority left)"

interpretation bundle_order: strict_weak "\<lambda>x y. bundle_less (bs x) (bs y)" for bs
  by unfold_locales (auto simp: bundle_less_def split: if_splits)

interpretation prio_sort_order: strict_weak PrioSortOrder
  by unfold_locales (auto simp: PrioSortOrder_def)

definition StatusOrder :: "bundle_t \<Rightarrow> bundle_t \<Rightarrow> bool" where
  "StatusOrder left right \<longleftrightarrow> bundle_status_nat (bu_status right) < bundle_status_nat (bu_status left)"

section \<open>Counters\<close>

definition increaseSize :: "int \<Rightarrow> bundle_t \<Rightarrow> bundle_t" where
  "increaseSize aSize b = b\<lparr>bu_size := bu_size b + aSize\<rparr>"

definition decreaseSize :: "int \<Rightarrow> bundle_t \<Rightarrow> bundle_t" where
  "decreaseSize aSize b = b\<lparr>bu_size := bu_size b - aSize\<rparr>"

text \<open>\<open>now\<close> is \<open>GET_TIME()\<close>.\<close>

definition checkRecent :: "settings \<Rightarrow> int \<Rightarrow> bundle_t \<Rightarrow> bundle_t" where
  "checkRecent cfg now b =
     b\<lparr>bu_recent := 0 < RECENT_BUNDLE_HOURS cfg \<and> now < bu_bundleDate b + RECENT_BUNDLE_HOURS cfg * 60 * 60\<rparr>"

definition setDirty :: "bundle_t \<Rightarrow> bundle_t" where
  "setDirty b = (if bu_status b \<noteq> B_NEW then b\<lparr>bu_dirty := True\<rparr> else b)"

definition getDirty :: "bundle_t \<Rightarrow> bool" where
  "getDirty b = (if bu_status b = B_NEW then False else bu_dirty b)"

definition setDownloadedBytes :: "int \<Rightarrow> bundle_t \<Rightarrow> bundle_t" where
  "setDownloadedBytes aSize b = b\<lparr>bu_currentDownloaded := aSize\<rparr>"

definition addFinishedSegment_bundle :: "int \<Rightarrow> bundle_t \<Rightarrow> bundle_t" where
  "addFinishedSegment_bundle aSize b = setDirty (b\<lparr>bu_finishedSegments := bu_finishedSegments b + aSize\<rparr>)"

definition removeFinishedSegment :: "int \<Rightarrow> bundle_t \<Rightarrow> bundle_t" where
  "removeFinishedSegment aSize b = b\<lparr>bu_finishedSegments := bu_finishedSegments b - aSize\<rparr>"

definition finishBundle :: "int \<Rightarrow> bundle_t \<Rightarrow> bundle_t" where
  "finishBundle now b = b\<lparr>bu_speed := 0, bu_currentDownloaded := 0, bu_timeFinished := now\<rparr>"

definition bu_getDownloadedBytes :: "bundle_t \<Rightarrow> int" where
  "bu_getDownloadedBytes b = bu_currentDownloaded b + bu_finishedSegments b"

definition bu_getSecondsLeft :: "bundle_t \<Rightarrow> int" where
  "bu_getSecondsLeft b =
     (if 0 < bu_speed b
      then (bu_size b - (bu_currentDownloaded b + bu_finishedSegments b)) sdiv bu_speed b else 0)"

definition bu_isDownloaded :: "bundle_t \<Rightarrow> bool" where
  "bu_isDownloaded b \<longleftrightarrow> bundle_status_nat B_DOWNLOADED \<le> bundle_status_nat (bu_status b)"

definition bu_isCompleted :: "bundle_t \<Rightarrow> bool" where
  "bu_isCompleted b \<longleftrightarrow> bundle_status_nat B_COMPLETED \<le> bundle_status_nat (bu_status b)"

definition bu_isFailedStatus :: "bundle_status \<Rightarrow> bool" where
  "bu_isFailedStatus s \<longleftrightarrow> s = B_VALIDATION_ERROR \<or> s = B_DOWNLOAD_ERROR"

definition isFailed :: "bundle_t \<Rightarrow> bool" where
  "isFailed b = bu_isFailedStatus (bu_status b)"

definition calculateProgressPriority :: "bundle_t \<Rightarrow> prio" where
  "calculateProgressPriority b =
     (if bu_autoPriority b then
        let percent = (bu_getDownloadedBytes b * 10) sdiv bu_size b
        in if percent \<in> {0, 1, 2} then LOW else if percent \<in> {3, 4, 5} then NORMAL else HIGH
      else bu_priority b)"

section \<open>Construction\<close>

text \<open>\<open>aTarget\<close> is the validated path, \<open>tok\<close> the token given or created.\<close>

definition bundle_new ::
  "settings \<Rightarrow> int \<Rightarrow> nat \<Rightarrow> string \<Rightarrow> int \<Rightarrow> prio \<Rightarrow> int \<Rightarrow> bool \<Rightarrow> bool \<Rightarrow> bundle_t" where
  "bundle_new cfg now tok aTarget aAdded aPriority aBundleDate aDirty aIsFileBundle =
     (let b = \<lparr>bu_token = tok, bu_target = aTarget, bu_size = 0, bu_flags = 0, bu_priority = aPriority,
               bu_autoPriority = False, bu_timeAdded = aAdded, bu_timeFinished = 0,
               bu_bundleDate = aBundleDate, bu_status = B_NEW, bu_start = 0, bu_seqOrder = False,
               bu_actual = 0, bu_speed = 0, bu_finishedSegments = 0, bu_currentDownloaded = 0,
               bu_fileBundle = aIsFileBundle, bu_dirty = aDirty, bu_recent = False,
               bu_queueItems = [], bu_finishedFiles = [], bu_sources = [], bu_badSources = [],
               bu_downloads = [], bu_userQueue = (\<lambda>_ _. None)\<rparr>;
          b = (if 0 < bu_bundleDate b then checkRecent cfg now b
               else b\<lparr>bu_bundleDate := now - RECENT_BUNDLE_HOURS cfg * 60 * 60\<rparr>);
          b = b\<lparr>bu_seqOrder := bu_bundleDate b + 5 * 24 * 60 * 60 < now\<rparr>;
          b = (if aPriority \<noteq> DEFAULT then b\<lparr>bu_autoPriority := False\<rparr>
               else b\<lparr>bu_priority := LOW, bu_autoPriority := True\<rparr>)
      in if USE_SLOW_DISCONNECTING_DEFAULT cfg then b\<lparr>bu_flags := setFlag (bu_flags b) FLAG_AUTODROP\<rparr> else b)"

definition file_bundle_new :: "settings \<Rightarrow> int \<Rightarrow> nat \<Rightarrow> queue_item \<Rightarrow> int \<Rightarrow> bool \<Rightarrow> bundle_t" where
  "file_bundle_new cfg now tok q aFileDate aDirty =
     (let b = bundle_new cfg now tok (qi_target q) (qi_timeAdded q) (qi_priority q) aFileDate aDirty True
      in if \<not> qi_isDownloaded q then
           (setDownloadedBytes (getDownloadedBytes q)
             (addFinishedSegment_bundle (getDownloadedSegments (qi_done q)) b))
           \<lparr>bu_autoPriority := qi_autoPriority q\<rparr>
         else b)"

section \<open>Files\<close>

text \<open>\<open>iter_swap(f, end - 1); pop_back()\<close> for the element \<open>x\<close>.\<close>

fun swap_remove :: "'a \<Rightarrow> 'a list \<Rightarrow> 'a list" where
  "swap_remove x [] = []"
| "swap_remove x (y # ys) =
     (if y = x then (if ys = [] then [] else last ys # butlast ys) else y # swap_remove x ys)"

definition addFinishedItem :: "queue_item \<Rightarrow> bool \<Rightarrow> bundle_t \<Rightarrow> bundle_t" where
  "addFinishedItem q aFinished b =
     (let b = b\<lparr>bu_finishedFiles := bu_finishedFiles b @ [qi_token q]\<rparr>
      in if \<not> aFinished then addFinishedSegment_bundle (qi_size q) (increaseSize (qi_size q) b) else b)"

definition removeFinishedItem :: "queue_item \<Rightarrow> bundle_t \<Rightarrow> bundle_t" where
  "removeFinishedItem q b =
     (if qi_token q \<in> set (bu_finishedFiles b) then
        let b = removeFinishedSegment (getDownloadedSegments (qi_done q)) (decreaseSize (qi_size q) b)
        in b\<lparr>bu_finishedFiles := swap_remove (qi_token q) (bu_finishedFiles b)\<rparr>
      else b)"

definition addQueue :: "queue_item \<Rightarrow> bundle_t \<Rightarrow> bundle_t" where
  "addQueue q b =
     (if qi_isDownloaded q then addFinishedItem q False b
      else addFinishedSegment_bundle (getDownloadedSegments (qi_done q))
             (increaseSize (qi_size q) (b\<lparr>bu_queueItems := bu_queueItems b @ [qi_token q]\<rparr>)))"

definition removeQueue :: "queue_item \<Rightarrow> bool \<Rightarrow> bundle_t \<Rightarrow> bundle_t" where
  "removeQueue q aFileCompleted b =
     (if \<not> aFileCompleted \<and> qi_isDownloaded q then removeFinishedItem q b
      else
        let b = (if qi_token q \<in> set (bu_queueItems b)
                 then b\<lparr>bu_queueItems := swap_remove (qi_token q) (bu_queueItems b)\<rparr> else b)
        in if \<not> aFileCompleted then
             let b = (if 0 < getDownloadedSegments (qi_done q)
                      then removeFinishedSegment (getDownloadedSegments (qi_done q)) b else b);
                 b = decreaseSize (qi_size q) b
             in b\<lparr>bu_flags := setFlag (bu_flags b) FLAG_UPDATE_SIZE\<rparr>
           else addFinishedItem q True b)"

definition filesCompleted :: "(nat \<Rightarrow> queue_item) \<Rightarrow> bundle_t \<Rightarrow> bool" where
  "filesCompleted qs b \<longleftrightarrow>
     bu_queueItems b = [] \<and> list_all (\<lambda>i. qi_isCompleted (qs i)) (bu_finishedFiles b)"

definition findQI :: "(nat \<Rightarrow> queue_item) \<Rightarrow> string \<Rightarrow> bundle_t \<Rightarrow> nat option" where
  "findQI qs aTarget b = find (\<lambda>i. qi_target (qs i) = aTarget) (bu_queueItems b)"

definition getFailedItems :: "(nat \<Rightarrow> queue_item) \<Rightarrow> bundle_t \<Rightarrow> nat list" where
  "getFailedItems qs b = filter (\<lambda>i. qi_status (qs i) = QI_VALIDATION_ERROR) (bu_finishedFiles b)"

definition isEmpty :: "bundle_t \<Rightarrow> bool" where
  "isEmpty b \<longleftrightarrow> bu_queueItems b = [] \<and> bu_finishedFiles b = []"

section \<open>Sources and the queues of users\<close>

definition find_source :: "user \<Rightarrow> bundle_source list \<Rightarrow> bundle_source option" where
  "find_source u ss = find (\<lambda>s. hu_user (bs_user s) = u) ss"

definition bu_isSource :: "user \<Rightarrow> bundle_t \<Rightarrow> bool" where
  "bu_isSource u b \<longleftrightarrow> find_source u (bu_sources b) \<noteq> None"

definition bu_isBadSource :: "user \<Rightarrow> bundle_t \<Rightarrow> bool" where
  "bu_isBadSource u b \<longleftrightarrow> find_source u (bu_badSources b) \<noteq> None"

definition getSourceUsers :: "bundle_t \<Rightarrow> hinted_user list" where
  "getSourceUsers b = map bs_user (bu_sources b)"

definition user_queue :: "bundle_t \<Rightarrow> prio \<Rightarrow> user \<Rightarrow> nat list" where
  "user_queue b p u = (case bu_userQueue b p u of None \<Rightarrow> [] | Some l \<Rightarrow> l)"

definition set_user_queue :: "prio \<Rightarrow> user \<Rightarrow> nat list option \<Rightarrow> bundle_t \<Rightarrow> bundle_t" where
  "set_user_queue p u l b = b\<lparr>bu_userQueue := (bu_userQueue b)(p := (bu_userQueue b p)(u := l))\<rparr>"

definition insert_at :: "nat \<Rightarrow> 'a \<Rightarrow> 'a list \<Rightarrow> 'a list" where
  "insert_at n x xs = take n xs @ x # drop n xs"

text \<open>\<open>(*i).files--; (*i).size -= n; if ((*i).files == 0) erase(i);\<close> and whether it was erased.\<close>

definition drop_source_file :: "user \<Rightarrow> int \<Rightarrow> bundle_source list \<Rightarrow> bundle_source list \<times> bool" where
  "drop_source_file u n ss =
     (let ss = modify_first (\<lambda>s. hu_user (bs_user s) = u)
                 (\<lambda>s. s\<lparr>bs_size := bs_size s - n, bs_files := bs_files s - 1\<rparr>) ss
      in case find_source u ss of
           Some s \<Rightarrow> if bs_files s = 0 then (erase_first (\<lambda>s. hu_user (bs_user s) = u) ss, True) else (ss, False)
         | None \<Rightarrow> (ss, False))"

definition addUserQueue_list :: "env \<Rightarrow> (nat \<Rightarrow> queue_item) \<Rightarrow> bool \<Rightarrow> nat \<Rightarrow> nat list \<Rightarrow> nat list" where
  "addUserQueue_list e qs seqOrder q l =
     (if 1 \<le> length l then
        if \<not> seqOrder then insert_at (e_rand e (length l)) q l
        else insert_upper (\<lambda>x y. AlphaSortOrder e (qs x) (qs y)) q l
      else l @ [q])"

text \<open>The result says whether the user is a new source.\<close>

definition addUserQueue :: "env \<Rightarrow> (nat \<Rightarrow> queue_item) \<Rightarrow> nat \<Rightarrow> hinted_user \<Rightarrow> bool \<Rightarrow> bundle_t \<Rightarrow> bundle_t \<times> bool" where
  "addUserQueue e qs q aUser isBad b =
     (let u = hu_user aUser; p = qi_priority (qs q); sz = qi_size (qs q);
          b = set_user_queue p u (Some (addUserQueue_list e qs (bu_seqOrder b) q (user_queue b p u))) b;
          b = (if isBad then b\<lparr>bu_badSources := fst (drop_source_file u sz (bu_badSources b))\<rparr> else b)
      in case find_source u (bu_sources b) of
           Some s \<Rightarrow>
             (b\<lparr>bu_sources := modify_first (\<lambda>s. hu_user (bs_user s) = u)
                 (\<lambda>s. s\<lparr>bs_size := bs_size s + sz, bs_files := bs_files s + 1\<rparr>) (bu_sources b)\<rparr>, False)
         | None \<Rightarrow>
             (b\<lparr>bu_sources := bu_sources b
                 @ [bundle_source_new aUser (sz - getDownloadedSegments (qi_done (qs q))) 0]\<rparr>, True))"

definition addUserQueue_all :: "env \<Rightarrow> (nat \<Rightarrow> queue_item) \<Rightarrow> nat \<Rightarrow> bundle_t \<Rightarrow> bundle_t" where
  "addUserQueue_all e qs q b = fold (\<lambda>s b. fst (addUserQueue e qs q (src_user s) False b)) (qi_sources (qs q)) b"

text \<open>
  \<open>removeUserQueue\<close>: whether the user is no source any more.  The code dereferences the source that it
  finds; without one (\<open>None\<close>) its behaviour is undefined.
\<close>

definition removeUserQueue :: "(nat \<Rightarrow> queue_item) \<Rightarrow> nat \<Rightarrow> user \<Rightarrow> flags \<Rightarrow> bundle_t \<Rightarrow> (bundle_t \<times> bool) option" where
  "removeUserQueue qs q aUser reason b =
     (let p = qi_priority (qs q); sz = qi_size (qs q) in
      case bu_userQueue b p aUser of
        None \<Rightarrow> Some (b, False)
      | Some l \<Rightarrow>
          let l = erase_first (\<lambda>x. x = q) l;
              b = set_user_queue p aUser (if l = [] then None else Some l) b
          in case find_source aUser (bu_sources b) of
               None \<Rightarrow> None
             | Some m \<Rightarrow>
                 let b = (if 0 < reason then
                            case find_source aUser (bu_badSources b) of
                              None \<Rightarrow> b\<lparr>bu_badSources := bu_badSources b @ [bundle_source_new (bs_user m) sz reason]\<rparr>
                            | Some _ \<Rightarrow>
                                b\<lparr>bu_badSources := modify_first (\<lambda>s. hu_user (bs_user s) = aUser)
                                    (\<lambda>s. s\<lparr>bs_size := bs_size s + sz, bs_flags := setFlag (bs_flags s) reason,
                                          bs_files := bs_files s + 1\<rparr>) (bu_badSources b)\<rparr>
                          else b);
                     (ss, gone) = drop_source_file aUser sz (bu_sources b)
                 in Some (b\<lparr>bu_sources := ss\<rparr>, gone))"

definition rotateUserQueue :: "(nat \<Rightarrow> queue_item) \<Rightarrow> nat \<Rightarrow> user \<Rightarrow> bundle_t \<Rightarrow> bundle_t" where
  "rotateUserQueue qs q aUser b =
     (let p = qi_priority (qs q) in
      case bu_userQueue b p aUser of
        None \<Rightarrow> b
      | Some l \<Rightarrow>
          if 1 < length l \<and> q \<in> set l
          then set_user_queue p aUser (Some (erase_first (\<lambda>x. x = q) l @ [q])) b else b)"

definition queue_prios :: "prio list" where
  "queue_prios = [PAUSED_FORCE, PAUSED, LOWEST, LOW, NORMAL, HIGH, HIGHEST]"

definition getItems :: "user \<Rightarrow> bundle_t \<Rightarrow> nat list" where
  "getItems u b = concat (map (\<lambda>p. user_queue b p u) queue_prios)"

text \<open>The loop over one queue: the item found, \<open>lastError_\<close> and the store of items.\<close>

fun next_in_queue ::
  "env \<Rightarrow> prio option \<Rightarrow> query \<Rightarrow> bool \<Rightarrow> nat list \<Rightarrow> resource option \<Rightarrow> (nat \<Rightarrow> queue_item)
    \<Rightarrow> (nat option \<times> resource option \<times> (nat \<Rightarrow> queue_item)) option" where
  "next_in_queue e bp aQuery ovl [] err qs = Some (None, err, qs)"
| "next_in_queue e bp aQuery ovl (i # is) err qs =
     (case hasSegment e bp aQuery ovl err (qs i) of
        None \<Rightarrow> None
      | Some (found, err, q) \<Rightarrow>
          if found then Some (Some i, err, qs(i := q))
          else next_in_queue e bp aQuery ovl is err (qs(i := q)))"

text \<open>The \<open>do\<close> loop over the priorities from \<open>p\<close> down.\<close>

function next_by_prio ::
  "env \<Rightarrow> prio option \<Rightarrow> query \<Rightarrow> bool \<Rightarrow> bundle_t \<Rightarrow> int \<Rightarrow> resource option \<Rightarrow> (nat \<Rightarrow> queue_item)
    \<Rightarrow> (nat option \<times> resource option \<times> (nat \<Rightarrow> queue_item)) option" where
  "next_by_prio e bp aQuery ovl b p err qs =
     (case next_in_queue e bp aQuery ovl (user_queue b (prio_of_int p) (qu_user aQuery)) err qs of
        None \<Rightarrow> None
      | Some (Some i, err, qs) \<Rightarrow> Some (Some i, err, qs)
      | Some (None, err, qs) \<Rightarrow>
          if prio_int (qu_minPrio aQuery) \<le> p - 1
          then next_by_prio e bp aQuery ovl b (p - 1) err qs
          else Some (None, err, qs))"
  by pat_completeness auto
termination
  by (relation "measure (\<lambda>(e, bp, aQuery, ovl, b, p, err, qs). nat (p - prio_int (qu_minPrio aQuery) + 1))") auto

definition getNextQI ::
  "env \<Rightarrow> query \<Rightarrow> bool \<Rightarrow> resource option \<Rightarrow> bundle_t \<Rightarrow> (nat \<Rightarrow> queue_item)
    \<Rightarrow> (nat option \<times> resource option \<times> (nat \<Rightarrow> queue_item)) option" where
  "getNextQI e aQuery ovl err b qs =
     next_by_prio e (Some (bu_priority b)) aQuery ovl b (prio_int LAST - 1) err qs"

section \<open>Search and running downloads\<close>

definition bu_countOnlineUsers :: "users \<Rightarrow> bundle_t \<Rightarrow> int" where
  "bu_countOnlineUsers us b =
     (if length (bu_queueItems b) = 0 then 0
      else sum_list (map bs_files (filter (\<lambda>s. us_online us (hu_user (bs_user s))) (bu_sources b)))
             sdiv int (length (bu_queueItems b)))"

definition allowAutoSearch :: "env \<Rightarrow> (nat \<Rightarrow> queue_item) \<Rightarrow> bundle_t \<Rightarrow> bool" where
  "allowAutoSearch e qs b =
     (if isSet (bu_flags b) FLAG_SCHEDULE_SEARCH then False
      else if AUTO_SEARCH_LIMIT (e_set e) \<le> bu_countOnlineUsers (e_users e) b then False
      else if \<not> list_ex (\<lambda>i. \<not> qi_isPausedPrio (Some (bu_priority b)) (qs i)) (bu_queueItems b) then False
      else if bu_getSecondsLeft b < 20 \<and> bu_getSecondsLeft b \<noteq> 0 then False
      else True)"

definition bu_addDownload :: "tick \<Rightarrow> nat \<Rightarrow> bundle_t \<Rightarrow> bundle_t" where
  "bu_addDownload now d b =
     (let b = (if bu_start b = 0 then b\<lparr>bu_start := now\<rparr> else b)
      in b\<lparr>bu_downloads := bu_downloads b @ [d]\<rparr>)"

definition bu_removeDownload :: "nat \<Rightarrow> bundle_t \<Rightarrow> bundle_t" where
  "bu_removeDownload d b =
     (let b = b\<lparr>bu_downloads := erase_first (\<lambda>x. x = d) (bu_downloads b)\<rparr>
      in if bu_downloads b = [] then b\<lparr>bu_speed := 0, bu_currentDownloaded := 0\<rparr> else b)"

text \<open>
  \<open>onDownloadTick\<close> averages the ratio of bytes on the wire to bytes written over the downloads that
  move: with exact quotients, \<open>actual\<close> is the product of the total with the mean ratio.
\<close>

definition truncate_rat :: "rat \<Rightarrow> int" where
  "truncate_rat r = (if r < 0 then - \<lfloor>- r\<rfloor> else \<lfloor>r\<rfloor>)"

definition onDownloadTick :: "(nat \<Rightarrow> transfer) \<Rightarrow> bundle_t \<Rightarrow> bundle_t \<times> bool" where
  "onDownloadTick ds b =
     (let moving = filter (\<lambda>d. 0 < getAverageSpeed d \<and> 0 < tr_start d) (map ds (bu_downloads b));
          bundleSpeed = sum_list (map getAverageSpeed moving);
          bundlePos = sum_list (map tr_pos moving);
          bundleRatio = sum_list (map (\<lambda>d. if 0 < tr_pos d then of_int (tr_actual d) / of_int (tr_pos d) else 1) moving)
      in if 0 < bundleSpeed then
           let b = (setDownloadedBytes bundlePos b)\<lparr>bu_speed := bundleSpeed\<rparr>;
               ratio = bundleRatio / of_nat (length moving)
           in (b\<lparr>bu_actual := truncate_rat (of_int (bu_finishedSegments b + bundlePos) * (if ratio = 0 then 1 else ratio))\<rparr>, True)
         else (b, False))"

definition countRunningUsers :: "(nat \<Rightarrow> transfer) \<Rightarrow> bundle_t \<Rightarrow> nat" where
  "countRunningUsers ds b = length (remdups (map (\<lambda>d. hu_user (tr_user (ds d))) (bu_downloads b)))"

section \<open>Accounts\<close>

lemma swap_remove_set: "distinct xs \<Longrightarrow> set (swap_remove x xs) = set xs - {x}"
proof (induction xs)
  case (Cons y ys)
  then show ?case by (cases ys rule: rev_cases) auto
qed simp

lemma swap_remove_distinct: "distinct xs \<Longrightarrow> distinct (swap_remove x xs)"
proof (induction xs)
  case (Cons y ys)
  then show ?case by (cases ys rule: rev_cases) (auto simp: swap_remove_set)
qed simp

lemma swap_remove_sum:
  fixes f :: "'a \<Rightarrow> int"
  shows "x \<in> set xs \<Longrightarrow> sum_list (map f (swap_remove x xs)) = sum_list (map f xs) - f x"
proof (induction xs)
  case (Cons y ys)
  then show ?case by (cases ys rule: rev_cases) auto
qed simp

text \<open>What a queued file has to satisfy, and the counters of a bundle over a store of files.\<close>

definition item_ok :: "nat \<Rightarrow> queue_item \<Rightarrow> bool" where
  "item_ok i q \<longleftrightarrow>
     qi_token q = i \<and> 0 \<le> qi_size q \<and> gapped (qi_done q) \<and> covered (qi_done q) \<subseteq> {0 ..< qi_size q}"

definition bundle_ok :: "(nat \<Rightarrow> queue_item) \<Rightarrow> bundle_t \<Rightarrow> bool" where
  "bundle_ok qs b \<longleftrightarrow>
     distinct (bu_queueItems b @ bu_finishedFiles b)
     \<and> (\<forall>i\<in>set (bu_queueItems b @ bu_finishedFiles b). item_ok i (qs i))
     \<and> (\<forall>i\<in>set (bu_queueItems b). \<not> qi_isDownloaded (qs i))
     \<and> (\<forall>i\<in>set (bu_finishedFiles b). qi_isDownloaded (qs i) \<and> getDownloadedSegments (qi_done (qs i)) = qi_size (qs i))
     \<and> bu_size b = sum_list (map (\<lambda>i. qi_size (qs i)) (bu_queueItems b @ bu_finishedFiles b))
     \<and> bu_finishedSegments b
         = sum_list (map (\<lambda>i. getDownloadedSegments (qi_done (qs i))) (bu_queueItems b @ bu_finishedFiles b))"

text \<open>
  The operations of the queue manager on the files of a bundle: a file is added (queued, or already
  downloaded), removed, gets a finished segment, is reset, or is completed.
\<close>

inductive bundle_step :: "(nat \<Rightarrow> queue_item) \<times> bundle_t \<Rightarrow> (nat \<Rightarrow> queue_item) \<times> bundle_t \<Rightarrow> bool" where
  add: "i \<notin> set (bu_queueItems b @ bu_finishedFiles b) \<Longrightarrow> item_ok i q \<Longrightarrow>
    qi_isDownloaded q \<longrightarrow> getDownloadedSegments (qi_done q) = qi_size q \<Longrightarrow>
    bundle_step (qs, b) (qs(i := q), addQueue q b)"
| remove: "i \<in> set (bu_queueItems b @ bu_finishedFiles b) \<Longrightarrow>
    bundle_step (qs, b) (qs, removeQueue (qs i) False b)"
| segment: "i \<in> set (bu_queueItems b) \<Longrightarrow> 0 < sg_size s \<Longrightarrow> 0 \<le> sg_start s \<Longrightarrow> sg_end s \<le> qi_size (qs i) \<Longrightarrow>
    \<not> list_ex (sg_overlaps s) (qi_done (qs i)) \<Longrightarrow> addFinishedSegment_item s (qs i) = (q, bytes) \<Longrightarrow>
    bundle_step (qs, b) (qs(i := q), addFinishedSegment_bundle bytes b)"
| reset: "i \<in> set (bu_queueItems b) \<Longrightarrow> Queue_Item.resetDownloaded (qs i) = (q, bytes) \<Longrightarrow>
    bundle_step (qs, b) (qs(i := q), removeFinishedSegment bytes b)"
| complete: "i \<in> set (bu_queueItems b) \<Longrightarrow> segmentsDone (qi_size (qs i)) (qi_done (qs i)) \<Longrightarrow>
    q = (qs i)\<lparr>qi_status := QI_DOWNLOADED\<rparr> \<Longrightarrow>
    bundle_step (qs, b) (qs(i := q), removeQueue q True b)"

inductive_cases bundle_stepE: "bundle_step (qs, b) (qs', b')"

lemmas bundle_ops = addQueue_def addFinishedItem_def removeQueue_def removeFinishedItem_def increaseSize_def
  decreaseSize_def addFinishedSegment_bundle_def removeFinishedSegment_def setDirty_def Let_def

lemma setDirty_simps [simp]:
  "bu_queueItems (setDirty b) = bu_queueItems b" "bu_finishedFiles (setDirty b) = bu_finishedFiles b"
  "bu_size (setDirty b) = bu_size b" "bu_finishedSegments (setDirty b) = bu_finishedSegments b"
  by (simp_all add: setDirty_def)

lemma sum_list_update_store:
  fixes f :: "'b \<Rightarrow> int"
  assumes "distinct xs"
  shows "sum_list (map (\<lambda>j. f ((qs(i := q)) j)) xs)
    = sum_list (map (\<lambda>j. f (qs j)) xs) + (if i \<in> set xs then f q - f (qs i) else 0)"
  using assms
proof (induction xs)
  case (Cons x xs)
  then show ?case by (cases "x = i") auto
qed simp

lemma disjoint_no_nesting:
  assumes "0 < sg_size s" and "gapped dn" and "\<not> list_ex (sg_overlaps s) dn"
  shows "no_nesting s dn" and "\<not> list_ex (\<lambda>d. sg_eq d s) dn"
proof -
  have "0 < sg_size d" if "d \<in> set dn" for d using gapped_size [OF assms(2) that] .
  then show "no_nesting s dn" "\<not> list_ex (\<lambda>d. sg_eq d s) dn"
    using assms(1,3) by (fastforce simp: no_nesting_def list_all_iff list_ex_iff sg_overlaps_def sg_end_def sg_eq_def)+
qed

lemma addFinishedSegment_item_ok:
  assumes "item_ok i q" and "0 < sg_size s" and "0 \<le> sg_start s" and "sg_end s \<le> qi_size q"
    and "\<not> list_ex (sg_overlaps s) (qi_done q)" and "addFinishedSegment_item s q = (q', bytes)"
  shows "item_ok i q' \<and> qi_size q' = qi_size q \<and> qi_status q' = qi_status q
    \<and> getDownloadedSegments (qi_done q') = getDownloadedSegments (qi_done q) + bytes"
proof -
  have g: "gapped (qi_done q)" using assms(1) by (simp add: item_ok_def)
  obtain dn where r: "addFinishedSegment s (qi_done q) = (dn, bytes)" "q' = q\<lparr>qi_done := dn\<rparr>"
    using assms(6) by (auto simp: addFinishedSegment_item_def split: prod.splits)
  have "seg_bytes s \<subseteq> {0 ..< qi_size q}" using assms(3,4) by (auto simp: seg_bytes_def)
  then show ?thesis
    using addFinishedSegment_facts [OF g assms(2) disjoint_no_nesting [OF assms(2) g assms(5)]] assms(1,5) r
    by (auto simp: item_ok_def)
qed

lemma item_ok_bytes:
  assumes "item_ok i q"
  shows "0 \<le> getDownloadedSegments (qi_done q)" and "getDownloadedSegments (qi_done q) \<le> qi_size q"
proof -
  have "int (card (covered (qi_done q))) \<le> int (card {0 ..< qi_size q})"
    using assms by (intro of_nat_mono card_mono) (auto simp: item_ok_def)
  then show "0 \<le> getDownloadedSegments (qi_done q)" "getDownloadedSegments (qi_done q) \<le> qi_size q"
    using assms by (auto simp: item_ok_def getDownloadedSegments_card)
qed

lemma segmentsDone_bytes: "segmentsDone sz dn \<Longrightarrow> getDownloadedSegments dn = sz"
  by (auto simp: segmentsDone_def getDownloadedSegments_def length_Suc_conv sg_eq_def)

lemma map_fun_upd_other: "i \<notin> set xs \<Longrightarrow> map (\<lambda>j. f ((qs(i := q)) j)) xs = map (\<lambda>j. f (qs j)) xs"
  by auto

lemma bundle_ok_add:
  assumes "bundle_ok qs b" and i: "i \<notin> set (bu_queueItems b @ bu_finishedFiles b)" and q: "item_ok i q"
    and full: "qi_isDownloaded q \<longrightarrow> getDownloadedSegments (qi_done q) = qi_size q"
  shows "bundle_ok (qs(i := q)) (addQueue q b)"
proof -
  have tok: "qi_token q = i" using q by (simp add: item_ok_def)
  let ?L = "bu_queueItems b @ bu_finishedFiles b" and ?qs = "qs(i := q)"
  have same: "sum_list (map (\<lambda>j. qi_size (?qs j)) ?L) = sum_list (map (\<lambda>j. qi_size (qs j)) ?L)"
    "sum_list (map (\<lambda>j. getDownloadedSegments (qi_done (?qs j))) ?L) = sum_list (map (\<lambda>j. getDownloadedSegments (qi_done (qs j))) ?L)"
    using i by (auto intro!: arg_cong2 [where f = "(+)"] arg_cong [where f = sum_list])
  have counts: "bu_size (addQueue q b) = sum_list (map (\<lambda>j. qi_size (?qs j)) ?L) + qi_size q"
    "bu_finishedSegments (addQueue q b)
      = sum_list (map (\<lambda>j. getDownloadedSegments (qi_done (?qs j))) ?L) + getDownloadedSegments (qi_done q)"
    using assms(1) full unfolding same by (auto simp: bundle_ok_def bundle_ops)
  have lists: "bu_queueItems (addQueue q b) = bu_queueItems b @ (if qi_isDownloaded q then [] else [i])"
    "bu_finishedFiles (addQueue q b) = bu_finishedFiles b @ (if qi_isDownloaded q then [i] else [])"
    using tok by (auto simp: bundle_ops)
  show ?thesis
    using assms(1) i q full unfolding bundle_ok_def counts lists by auto
qed

lemma bundle_ok_remove:
  assumes "bundle_ok qs b" and i: "i \<in> set (bu_queueItems b @ bu_finishedFiles b)"
  shows "bundle_ok qs (removeQueue (qs i) False b)"
proof -
  have tok: "qi_token (qs i) = i" "item_ok i (qs i)" using assms by (auto simp: bundle_ok_def item_ok_def)
  have d: "distinct (bu_queueItems b)" "distinct (bu_finishedFiles b)" using assms(1) by (auto simp: bundle_ok_def)
  note sr = swap_remove_set [OF d(1)] swap_remove_set [OF d(2)] swap_remove_distinct [OF d(1)] swap_remove_distinct [OF d(2)]
  show ?thesis
  proof (cases "qi_isDownloaded (qs i)")
    case True
    then have "i \<in> set (bu_finishedFiles b)" using assms by (auto simp: bundle_ok_def)
    then show ?thesis
      using True assms tok sr by (auto simp: bundle_ok_def bundle_ops swap_remove_sum)
  next
    case False
    then have "i \<in> set (bu_queueItems b)" using assms by (auto simp: bundle_ok_def)
    moreover have "0 \<le> getDownloadedSegments (qi_done (qs i))" by (rule item_ok_bytes [OF tok(2)])
    ultimately show ?thesis
      using False assms tok sr by (auto simp: bundle_ok_def bundle_ops swap_remove_sum)
  qed
qed

lemma bundle_ok_change:
  assumes "bundle_ok qs b" and i: "i \<in> set (bu_queueItems b)" and q: "item_ok i q" "qi_size q = qi_size (qs i)"
    "\<not> qi_isDownloaded q"
    and b': "b' = b\<lparr>bu_finishedSegments := bu_finishedSegments b
      + getDownloadedSegments (qi_done q) - getDownloadedSegments (qi_done (qs i)), bu_dirty := dirty\<rparr>"
  shows "bundle_ok (qs(i := q)) b'"
proof -
  have d: "distinct (bu_queueItems b @ bu_finishedFiles b)" "i \<notin> set (bu_finishedFiles b)"
    using assms(1) i by (auto simp: bundle_ok_def)
  note s = sum_list_update_store [OF d(1), where f = qi_size and qs = qs and i = i and q = q]
    sum_list_update_store [OF d(1), where f = "\<lambda>q. getDownloadedSegments (qi_done q)" and qs = qs and i = i and q = q]
  have "bu_size b' = sum_list (map (\<lambda>j. qi_size ((qs(i := q)) j)) (bu_queueItems b' @ bu_finishedFiles b'))"
    "bu_finishedSegments b' = sum_list (map (\<lambda>j. getDownloadedSegments (qi_done ((qs(i := q)) j))) (bu_queueItems b' @ bu_finishedFiles b'))"
    using s assms(1) i q(2) unfolding bundle_ok_def b' by simp_all
  then show ?thesis using assms d by (auto simp: bundle_ok_def b')
qed

lemma bundle_ok_complete:
  assumes "bundle_ok qs b" and i: "i \<in> set (bu_queueItems b)" and dn: "segmentsDone (qi_size (qs i)) (qi_done (qs i))"
    and q: "q = (qs i)\<lparr>qi_status := QI_DOWNLOADED\<rparr>"
  shows "bundle_ok (qs(i := q)) (removeQueue q True b)"
proof -
  have tok: "qi_token q = i" "item_ok i q" "qi_isDownloaded q" "qi_size q = qi_size (qs i)" "qi_done q = qi_done (qs i)"
    using assms by (auto simp: bundle_ok_def item_ok_def qi_isDownloaded_def)
  have d: "distinct (bu_queueItems b)" "i \<notin> set (bu_finishedFiles b)" using assms(1) i by (auto simp: bundle_ok_def)
  note sr = swap_remove_set [OF d(1), of i] swap_remove_distinct [OF d(1), of i]
  have bytes: "getDownloadedSegments (qi_done (qs i)) = qi_size (qs i)" using segmentsDone_bytes [OF dn] .
  let ?qs = "qs(i := q)" and ?L = "swap_remove i (bu_queueItems b) @ bu_finishedFiles b @ [i]"
  have lists: "bu_queueItems (removeQueue q True b) = swap_remove i (bu_queueItems b)"
    "bu_finishedFiles (removeQueue q True b) = bu_finishedFiles b @ [i]"
    "bu_size (removeQueue q True b) = bu_size b" "bu_finishedSegments (removeQueue q True b) = bu_finishedSegments b"
    using tok i by (auto simp: bundle_ops)
  have "distinct ?L" using sr d assms(1) by (auto simp: bundle_ok_def)
  note u = sum_list_update_store [OF this, where qs = qs and i = i and q = q]
  have sums: "bu_size b = sum_list (map (\<lambda>j. qi_size (?qs j)) ?L)"
    "bu_finishedSegments b = sum_list (map (\<lambda>j. getDownloadedSegments (qi_done (?qs j))) ?L)"
    unfolding u [where f = qi_size] u [where f = "\<lambda>q. getDownloadedSegments (qi_done q)"]
    using assms(1) i tok by (simp_all add: bundle_ok_def swap_remove_sum)
  show ?thesis
    using assms(1) i tok sr d bytes unfolding bundle_ok_def lists using sums by auto
qed

lemma bundle_step_ok: "bundle_step s t \<Longrightarrow> bundle_ok (fst s) (snd s) \<Longrightarrow> bundle_ok (fst t) (snd t)"
proof (induction rule: bundle_step.induct)
  case (add i b q qs)
  then show ?case by (simp add: bundle_ok_add del: fun_upd_apply)
next
  case (remove i b qs)
  then show ?case by (simp add: bundle_ok_remove)
next
  case (segment i b s qs q bytes)
  then have ok: "item_ok i (qs i)" "\<not> qi_isDownloaded (qs i)" by (auto simp: bundle_ok_def)
  note f = addFinishedSegment_item_ok [OF ok(1) segment(2-6)]
  then have "\<not> qi_isDownloaded q" using ok by (simp add: qi_isDownloaded_def)
  then show ?case
    using bundle_ok_change [of qs b i q "addFinishedSegment_bundle bytes b" "bu_dirty (addFinishedSegment_bundle bytes b)"]
      segment f by (auto simp: bundle_ops simp del: fun_upd_apply split: if_splits)
next
  case (reset i b qs q bytes)
  then have ok: "item_ok i (qs i)" "\<not> qi_isDownloaded (qs i)" by (auto simp: bundle_ok_def)
  then have "item_ok i q" "\<not> qi_isDownloaded q" "qi_size q = qi_size (qs i)" "getDownloadedSegments (qi_done q) = 0"
    "bytes = getDownloadedSegments (qi_done (qs i))"
    using reset(2) by (auto simp: resetDownloaded_def item_ok_def qi_isDownloaded_def getDownloadedSegments_def)
  then show ?case
    using bundle_ok_change [of qs b i q "removeFinishedSegment bytes b" "bu_dirty b"] reset
    by (simp add: bundle_ops del: fun_upd_apply)
next
  case (complete i b qs q)
  then show ?case by (simp add: bundle_ok_complete del: fun_upd_apply)
qed

lemma bundle_steps_ok: "bundle_step\<^sup>*\<^sup>* s t \<Longrightarrow> bundle_ok (fst s) (snd s) \<Longrightarrow> bundle_ok (fst t) (snd t)"
  by (induction rule: rtranclp_induct) (auto dest: bundle_step_ok)

lemma bundle_new_simps [simp]:
  "bu_queueItems (bundle_new cfg now tok tgt added p date dirty isFile) = []"
  "bu_finishedFiles (bundle_new cfg now tok tgt added p date dirty isFile) = []"
  "bu_size (bundle_new cfg now tok tgt added p date dirty isFile) = 0"
  "bu_finishedSegments (bundle_new cfg now tok tgt added p date dirty isFile) = 0"
  "bu_sources (bundle_new cfg now tok tgt added p date dirty isFile) = []"
  "bu_badSources (bundle_new cfg now tok tgt added p date dirty isFile) = []"
  "bu_userQueue (bundle_new cfg now tok tgt added p date dirty isFile) = (\<lambda>_ _. None)"
  by (simp_all add: bundle_new_def checkRecent_def Let_def)

lemma bundle_ok_new: "bundle_ok qs (bundle_new cfg now tok tgt added p date dirty isFile)"
  by (simp add: bundle_ok_def)

lemma bundle_ok_bytes:
  assumes "bundle_ok qs b"
  shows "0 \<le> bu_finishedSegments b" and "bu_finishedSegments b \<le> bu_size b"
    and "bu_queueItems b = [] \<Longrightarrow> bu_finishedSegments b = bu_size b"
proof -
  let ?L = "bu_queueItems b @ bu_finishedFiles b"
  have ok: "item_ok i (qs i)" if "i \<in> set ?L" for i using assms that by (simp add: bundle_ok_def)
  have "0 \<le> sum_list (map (\<lambda>i. getDownloadedSegments (qi_done (qs i))) ?L)"
    by (rule sum_list_nonneg) (use ok item_ok_bytes(1) in fastforce)
  moreover have "sum_list (map (\<lambda>i. getDownloadedSegments (qi_done (qs i))) ?L) \<le> sum_list (map (\<lambda>i. qi_size (qs i)) ?L)"
    by (rule sum_list_mono) (use ok item_ok_bytes(2) in blast)
  ultimately show "0 \<le> bu_finishedSegments b" "bu_finishedSegments b \<le> bu_size b"
    using assms unfolding bundle_ok_def by simp_all
  assume "bu_queueItems b = []"
  then show "bu_finishedSegments b = bu_size b"
    using assms unfolding bundle_ok_def by (auto intro!: arg_cong [where f = sum_list])
qed

section \<open>User queues\<close>

text \<open>
  How many entries a user has in the queues of a bundle, and what holds of these queues: no empty
  or repeated entries, files stand under their priority, and a user is a source, with the right
  number of files, exactly when it has entries.
\<close>

definition entry_count :: "bundle_t \<Rightarrow> user \<Rightarrow> nat" where
  "entry_count b u = sum_list (map (\<lambda>p. length (user_queue b p u)) queue_prios)"

definition user_queues_ok :: "(nat \<Rightarrow> queue_item) \<Rightarrow> bundle_t \<Rightarrow> bool" where
  "user_queues_ok qs b \<longleftrightarrow>
     (\<forall>p u l. bu_userQueue b p u = Some l \<longrightarrow>
        p \<in> set queue_prios \<and> l \<noteq> [] \<and> distinct l \<and> (\<forall>i\<in>set l. qi_priority (qs i) = p))
     \<and> distinct (map (\<lambda>s. hu_user (bs_user s)) (bu_sources b))
     \<and> (\<forall>u. case find_source u (bu_sources b) of
              Some s \<Rightarrow> bs_files s = int (entry_count b u) \<and> 0 < entry_count b u
            | None \<Rightarrow> entry_count b u = 0)"

lemma find_source_Nil [simp]: "find_source u [] = None"
  by (simp add: find_source_def)

lemma find_source_Cons [simp]:
  "find_source u (s # ss) = (if hu_user (bs_user s) = u then Some s else find_source u ss)"
  by (simp add: find_source_def)

lemma find_source_append [simp]:
  "find_source u (ss @ ts) = (case find_source u ss of Some s \<Rightarrow> Some s | None \<Rightarrow> find_source u ts)"
  by (induction ss) auto

lemma find_source_user: "find_source u ss = Some s \<Longrightarrow> hu_user (bs_user s) = u"
  by (induction ss) (auto split: if_splits)

lemma find_source_modify:
  assumes "\<And>s. hu_user (bs_user (f s)) = hu_user (bs_user s)"
  shows "find_source v (modify_first (\<lambda>s. hu_user (bs_user s) = u) f ss)
    = (if v = u then map_option f (find_source u ss) else find_source v ss)"
  using assms by (induction ss) auto

lemma users_modify:
  assumes "\<And>s. hu_user (bs_user (f s)) = hu_user (bs_user s)"
  shows "map (\<lambda>s. hu_user (bs_user s)) (modify_first P f ss) = map (\<lambda>s. hu_user (bs_user s)) ss"
  using assms by (induction ss) auto

lemma find_source_None_iff: "find_source u ss = None \<longleftrightarrow> u \<notin> set (map (\<lambda>s. hu_user (bs_user s)) ss)"
  by (induction ss) auto

lemma find_source_erase:
  "distinct (map (\<lambda>s. hu_user (bs_user s)) ss) \<Longrightarrow>
   find_source v (erase_first (\<lambda>s. hu_user (bs_user s) = u) ss) = (if v = u then None else find_source v ss)"
  by (induction ss) (auto simp: find_source_None_iff)

lemma users_erase: "distinct (map f ss) \<Longrightarrow> distinct (map f (erase_first P ss))"
proof (induction ss)
  case (Cons s ss)
  moreover have "set (erase_first P ss) \<subseteq> set ss" by (induction ss) auto
  ultimately show ?case by auto
qed simp

lemma user_queue_set:
  "user_queue (set_user_queue p u l b) p' u' = (if p' = p \<and> u' = u then (case l of None \<Rightarrow> [] | Some l \<Rightarrow> l) else user_queue b p' u')"
  by (simp add: user_queue_def set_user_queue_def)

lemma sum_queue_prios:
  "sum_list (map f queue_prios) = f PAUSED_FORCE + f PAUSED + f LOWEST + f LOW + f NORMAL + f HIGH + (f HIGHEST :: nat)"
  by (simp add: queue_prios_def)

lemma entry_count_set:
  assumes "p \<in> set queue_prios"
  shows "entry_count (set_user_queue p u l b) v + (if v = u then length (user_queue b p u) else 0)
    = entry_count b v + (if v = u then length (case l of None \<Rightarrow> [] | Some l \<Rightarrow> l) else 0)"
  using assms by (auto simp: entry_count_def sum_queue_prios user_queue_set) (auto simp: queue_prios_def)

lemma addUserQueue_list_facts:
  assumes "q \<notin> set l"
  shows "set (addUserQueue_list e qs s q l) = insert q (set l)" and "length (addUserQueue_list e qs s q l) = Suc (length l)"
    and "distinct l \<Longrightarrow> distinct (addUserQueue_list e qs s q l)"
proof -
  have at: "set (insert_at n q l) = insert q (set l)" "length (insert_at n q l) = Suc (length l)"
    "distinct l \<Longrightarrow> distinct (insert_at n q l)" for n
  proof -
    have "set (take n l) \<union> set (drop n l) = set l"
      using set_append [of "take n l" "drop n l"] by (simp only: append_take_drop_id)
    then show "set (insert_at n q l) = insert q (set l)" by (simp add: insert_at_def)
    have "distinct l \<Longrightarrow> distinct (take n l @ drop n l)" by simp
    then have d: "distinct l \<Longrightarrow> set (take n l) \<inter> set (drop n l) = {}"
      unfolding distinct_append by blast
    show "distinct l \<Longrightarrow> distinct (insert_at n q l)"
      using assms d by (simp add: insert_at_def) (blast dest: in_set_takeD in_set_dropD)
    show "length (insert_at n q l) = Suc (length l)" by (simp add: insert_at_def)
  qed
  show "set (addUserQueue_list e qs s q l) = insert q (set l)" "length (addUserQueue_list e qs s q l) = Suc (length l)"
    "distinct l \<Longrightarrow> distinct (addUserQueue_list e qs s q l)"
    using at assms by (auto simp: addUserQueue_list_def)
qed

lemma user_queues_ok_add:
  assumes "user_queues_ok qs b" and p: "qi_priority (qs q) \<in> set queue_prios"
    and new: "q \<notin> set (user_queue b (qi_priority (qs q)) (hu_user aUser))"
    and r: "addUserQueue e qs q aUser isBad b = (b', isNew)"
  shows "user_queues_ok qs b'" and "isNew \<longleftrightarrow> \<not> bu_isSource (hu_user aUser) b"
    and "bu_isSource v b' \<longleftrightarrow> v = hu_user aUser \<or> bu_isSource v b"
    and "q \<in> set (user_queue b' (qi_priority (qs q)) (hu_user aUser))"
proof -
  define u where "u = hu_user aUser"
  define pr where "pr = qi_priority (qs q)"
  define l where "l = addUserQueue_list e qs (bu_seqOrder b) q (user_queue b pr u)"
  define ss where "ss = (case find_source u (bu_sources b) of
      Some s \<Rightarrow> modify_first (\<lambda>s. hu_user (bs_user s) = u) (\<lambda>s. s\<lparr>bs_size := bs_size s + qi_size (qs q), bs_files := bs_files s + 1\<rparr>) (bu_sources b)
    | None \<Rightarrow> bu_sources b @ [bundle_source_new aUser (qi_size (qs q) - getDownloadedSegments (qi_done (qs q))) 0])"
  have b': "bu_userQueue b' = bu_userQueue (set_user_queue pr u (Some l) b)" "bu_sources b' = ss"
    and isNew: "isNew \<longleftrightarrow> find_source u (bu_sources b) = None"
    using r by (auto simp: addUserQueue_def Let_def u_def [symmetric] pr_def [symmetric] l_def [symmetric] ss_def
        set_user_queue_def split: option.splits if_splits)
  note lf = addUserQueue_list_facts [OF new, of e qs "bu_seqOrder b", folded u_def pr_def, folded l_def]
  have uq: "user_queue b' p v = user_queue (set_user_queue pr u (Some l) b) p v" for p v
    by (simp add: user_queue_def b')
  then have "entry_count b' v = entry_count (set_user_queue pr u (Some l) b) v" for v
    by (simp add: entry_count_def)
  then have count: "entry_count b' v = entry_count b v + (if v = u then 1 else 0)" for v
    using entry_count_set [of pr u "Some l" b v] p lf(2) by (simp add: pr_def split: if_splits)
  have fs: "find_source v ss = (if v = u then
      (case find_source u (bu_sources b) of
         Some s \<Rightarrow> Some (s\<lparr>bs_size := bs_size s + qi_size (qs q), bs_files := bs_files s + 1\<rparr>)
       | None \<Rightarrow> Some (bundle_source_new aUser (qi_size (qs q) - getDownloadedSegments (qi_done (qs q))) 0))
      else find_source v (bu_sources b))" for v
    by (auto simp: ss_def find_source_modify bundle_source_new_def u_def [symmetric] split: option.splits)
  have du: "distinct (map (\<lambda>s. hu_user (bs_user s)) ss)"
    using assms(1) by (auto simp: ss_def users_modify user_queues_ok_def bundle_source_new_def
        find_source_None_iff u_def [symmetric] split: option.splits)
  have old: "case find_source v (bu_sources b) of
      Some s \<Rightarrow> bs_files s = int (entry_count b v) \<and> 0 < entry_count b v | None \<Rightarrow> entry_count b v = 0" for v
    using assms(1) by (auto simp: user_queues_ok_def)
  have "case find_source v (bu_sources b') of
      Some s \<Rightarrow> bs_files s = int (entry_count b' v) \<and> 0 < entry_count b' v | None \<Rightarrow> entry_count b' v = 0" for v
    using old [of v] by (auto simp: b'(2) fs count bundle_source_new_def split: option.splits)
  moreover have "p \<in> set queue_prios \<and> l' \<noteq> [] \<and> distinct l' \<and> (\<forall>i\<in>set l'. qi_priority (qs i) = p)"
    if "bu_userQueue b' p v = Some l'" for p v l'
  proof (cases "p = pr \<and> v = u")
    case True
    have "distinct (user_queue b pr u)" "\<forall>i\<in>set (user_queue b pr u). qi_priority (qs i) = pr"
      using assms(1) by (cases "bu_userQueue b pr u"; simp add: user_queues_ok_def user_queue_def)+
    moreover have "l' = l" using that True by (simp add: b'(1) set_user_queue_def)
    moreover have "l \<noteq> []" using lf(2) by auto
    ultimately show ?thesis using True lf p by (auto simp: pr_def)
  next
    case False
    then have "bu_userQueue b p v = Some l'" using that by (auto simp: b'(1) set_user_queue_def split: if_splits)
    then show ?thesis using assms(1) by (simp add: user_queues_ok_def)
  qed
  ultimately show "user_queues_ok qs b'" using du by (simp add: user_queues_ok_def b'(2))
  show "isNew \<longleftrightarrow> \<not> bu_isSource (hu_user aUser) b" using isNew by (simp add: bu_isSource_def u_def)
  show "bu_isSource v b' \<longleftrightarrow> v = hu_user aUser \<or> bu_isSource v b"
    by (auto simp: bu_isSource_def b'(2) fs u_def split: option.splits)
  show "q \<in> set (user_queue b' (qi_priority (qs q)) (hu_user aUser))"
    using lf(1) by (simp add: uq user_queue_set u_def pr_def)
qed

lemma set_erase_first_eq: "distinct xs \<Longrightarrow> set (erase_first (\<lambda>x. x = q) xs) = set xs - {q}"
  by (induction xs) auto

lemma distinct_erase_first: "distinct xs \<Longrightarrow> distinct (erase_first (\<lambda>x. x = q) xs)"
  by (induction xs) (auto simp: set_erase_first_eq)

lemma length_erase_first: "q \<in> set xs \<Longrightarrow> Suc (length (erase_first (\<lambda>x. x = q) xs)) = length xs"
  by (induction xs) auto

lemma user_queues_ok_remove:
  assumes "user_queues_ok qs b" and q: "q \<in> set (user_queue b (qi_priority (qs q)) u)"
  shows "\<exists>b' gone. removeUserQueue qs q u reason b = Some (b', gone) \<and> user_queues_ok qs b'
    \<and> (gone \<longleftrightarrow> \<not> bu_isSource u b') \<and> (\<forall>v. v \<noteq> u \<longrightarrow> bu_isSource v b' = bu_isSource v b)
    \<and> q \<notin> set (user_queue b' (qi_priority (qs q)) u)
    \<and> (\<forall>p v. (p, v) \<noteq> (qi_priority (qs q), u) \<longrightarrow> user_queue b' p v = user_queue b p v)"
proof -
  define pr where "pr = qi_priority (qs q)"
  obtain l where l: "bu_userQueue b pr u = Some l" "q \<in> set l"
    using q by (cases "bu_userQueue b pr u") (simp_all add: pr_def user_queue_def)
  define l' where "l' = erase_first (\<lambda>x. x = q) l"
  define ol where "ol = (if l' = [] then None else Some l')"
  have lok: "pr \<in> set queue_prios" "distinct l" "\<forall>i\<in>set l. qi_priority (qs i) = pr"
    using assms(1) l by (auto simp: user_queues_ok_def)
  note l's = set_erase_first_eq [OF lok(2), of q, folded l'_def] distinct_erase_first [OF lok(2), of q, folded l'_def]
    length_erase_first [OF l(2), folded l'_def]
  have old: "case find_source v (bu_sources b) of
      Some s \<Rightarrow> bs_files s = int (entry_count b v) \<and> 0 < entry_count b v | None \<Rightarrow> entry_count b v = 0" for v
    using assms(1) by (auto simp: user_queues_ok_def)
  have uql: "user_queue b pr u = l" using l by (simp add: user_queue_def)
  have "length l \<le> entry_count b u"
    using lok(1) uql by (auto simp: entry_count_def sum_queue_prios) (auto simp: queue_prios_def)
  then have "entry_count b u \<noteq> 0" using l(2) by (cases l) auto
  then obtain m where m: "find_source u (bu_sources b) = Some m" "bs_files m = int (entry_count b u)"
    using old [of u] by (auto split: option.splits)
  define f :: "bundle_source \<Rightarrow> bundle_source" where "f = (\<lambda>s. s\<lparr>bs_size := bs_size s - qi_size (qs q), bs_files := bs_files s - 1\<rparr>)"
  define ss where "ss = modify_first (\<lambda>s. hu_user (bs_user s) = u) f (bu_sources b)"
  have fu: "hu_user (bs_user (f s)) = hu_user (bs_user s)" for s by (simp add: f_def)
  have fss: "find_source v ss = (if v = u then Some (f m) else find_source v (bu_sources b))" for v
    using m(1) find_source_modify [of f v u "bu_sources b"] fu by (simp add: ss_def)
  define gone where "gone \<longleftrightarrow> bs_files m = 1"
  define ss' where "ss' = (if gone then erase_first (\<lambda>s. hu_user (bs_user s) = u) ss else ss)"
  have dss: "distinct (map (\<lambda>s. hu_user (bs_user s)) ss)"
    using assms(1) users_modify [of f, OF fu] by (simp add: ss_def user_queues_ok_def)
  have fss': "find_source v ss' = (if v = u then if gone then None else Some (f m) else find_source v (bu_sources b))" for v
    using fss find_source_erase [OF dss, of v u] by (auto simp: ss'_def)
  have dsf: "drop_source_file u (qi_size (qs q)) (bu_sources b) = (ss', gone)"
    using fss [of u] by (simp add: drop_source_file_def Let_def f_def [symmetric] ss_def [symmetric] ss'_def gone_def)
       (simp add: f_def)
  define b1 where "b1 = set_user_queue pr u ol b"
  define b2 where "b2 = (if 0 < reason then
      case find_source u (bu_badSources b1) of
        None \<Rightarrow> b1\<lparr>bu_badSources := bu_badSources b1 @ [bundle_source_new (bs_user m) (qi_size (qs q)) reason]\<rparr>
      | Some _ \<Rightarrow> b1\<lparr>bu_badSources := modify_first (\<lambda>s. hu_user (bs_user s) = u)
          (\<lambda>s. s\<lparr>bs_size := bs_size s + qi_size (qs q), bs_flags := setFlag (bs_flags s) reason, bs_files := bs_files s + 1\<rparr>)
          (bu_badSources b1)\<rparr>
    else b1)"
  define b' where "b' = b2\<lparr>bu_sources := ss'\<rparr>"
  have s1: "bu_sources b1 = bu_sources b" by (simp add: b1_def set_user_queue_def)
  have s2: "bu_sources b2 = bu_sources b" "bu_userQueue b2 = bu_userQueue b1"
    using s1 by (auto simp: b2_def split: option.splits)
  have "removeUserQueue qs q u reason b = Some (b', gone)"
    unfolding removeUserQueue_def Let_def pr_def [symmetric] l option.case l'_def [symmetric] ol_def [symmetric]
      b1_def [symmetric] s1 m b2_def [symmetric] s2 dsf by (simp add: b'_def)
  then have b': "removeUserQueue qs q u reason b = Some (b', gone)" "bu_sources b' = ss'"
    "bu_userQueue b' = bu_userQueue (set_user_queue pr u ol b)"
    by (simp_all add: b'_def s2 b1_def)
  have uq: "user_queue b' p v = (if p = pr \<and> v = u then l' else user_queue b p v)" for p v
    using user_queue_set [of pr u ol b p v] by (simp add: user_queue_def b'(3) ol_def split: if_splits)
  have "entry_count b' v = entry_count (set_user_queue pr u ol b) v" for v
    by (simp add: entry_count_def user_queue_def b'(3))
  then have count: "entry_count b' v + (if v = u then 1 else 0) = entry_count b v" for v
    using entry_count_set [OF lok(1), of u ol b v] l's(3) uql by (auto simp: ol_def split: if_splits option.splits)
  have "case find_source v (bu_sources b') of
      Some s \<Rightarrow> bs_files s = int (entry_count b' v) \<and> 0 < entry_count b' v | None \<Rightarrow> entry_count b' v = 0" for v
    using old [of v] count [of v] m by (auto simp: b'(2) fss' f_def gone_def split: option.splits)
  moreover have "p \<in> set queue_prios \<and> k \<noteq> [] \<and> distinct k \<and> (\<forall>i\<in>set k. qi_priority (qs i) = p)"
    if "bu_userQueue b' p v = Some k" for p v k
  proof (cases "p = pr \<and> v = u")
    case True
    then have "k = l'" "l' \<noteq> []" using that by (auto simp: b'(3) set_user_queue_def ol_def split: if_splits)
    then show ?thesis using True l's lok by auto
  next
    case False
    then have "bu_userQueue b p v = Some k" using that by (auto simp: b'(3) set_user_queue_def split: if_splits)
    then show ?thesis using assms(1) by (simp add: user_queues_ok_def)
  qed
  moreover have "distinct (map (\<lambda>s. hu_user (bs_user s)) (bu_sources b'))"
    using users_erase [OF dss] dss by (simp add: b'(2) ss'_def)
  ultimately have "user_queues_ok qs b'" by (simp add: user_queues_ok_def)
  moreover have "gone \<longleftrightarrow> \<not> bu_isSource u b'" "\<forall>v. v \<noteq> u \<longrightarrow> bu_isSource v b' = bu_isSource v b"
    by (auto simp: bu_isSource_def b'(2) fss')
  ultimately show ?thesis using b'(1) l's(1) by (auto simp: uq pr_def)
qed

section \<open>The next file for a user\<close>

text \<open>Whether a file has a segment for the user; the error text does not matter for that.\<close>

definition available :: "env \<Rightarrow> prio option \<Rightarrow> query \<Rightarrow> bool \<Rightarrow> queue_item \<Rightarrow> bool" where
  "available e bp aQuery ovl q =
     (case hasSegment e bp aQuery ovl None q of Some (found, _, _) \<Rightarrow> found | None \<Rightarrow> False)"

lemma hasSegment_err:
  "map_option (\<lambda>(r, _, q). (r, q)) (hasSegment e bp aQuery ovl err q)
    = map_option (\<lambda>(r, _, q). (r, q)) (hasSegment e bp aQuery ovl None q)"
  by (simp add: hasSegment_def Let_def split: option.splits prod.splits)

lemma hasSegment_cases:
  assumes "hasSegment e bp aQuery ovl None q \<noteq> None"
  obtains err' q' where "hasSegment e bp aQuery ovl err q = Some (available e bp aQuery ovl q, err', q')"
proof -
  obtain r x y where n: "hasSegment e bp aQuery ovl None q = Some (r, x, y)" using assms by auto
  then have "map_option (\<lambda>(r, _, q). (r, q)) (hasSegment e bp aQuery ovl err q) = Some (r, y)"
    by (subst hasSegment_err) simp
  then show ?thesis using n that by (auto simp: available_def)
qed

lemma next_in_queue_find:
  "distinct is \<Longrightarrow> \<forall>i\<in>set is. hasSegment e bp aQuery ovl None (qs i) \<noteq> None \<Longrightarrow>
   \<exists>err' qs'. next_in_queue e bp aQuery ovl is err qs = Some (find (\<lambda>i. available e bp aQuery ovl (qs i)) is, err', qs')
     \<and> (\<forall>j. j \<notin> set is \<longrightarrow> qs' j = qs j)"
proof (induction "is" arbitrary: err qs)
  case (Cons i "is")
  obtain err' q' where h: "hasSegment e bp aQuery ovl err (qs i) = Some (available e bp aQuery ovl (qs i), err', q')"
    using hasSegment_cases [of e bp aQuery ovl "qs i" err] Cons.prems(2) by auto
  show ?case
  proof (cases "available e bp aQuery ovl (qs i)")
    case True
    then show ?thesis using h by auto
  next
    case False
    have same: "\<forall>j\<in>set is. (qs(i := q')) j = qs j" using Cons.prems(1) by auto
    have "\<exists>err'' qs''. next_in_queue e bp aQuery ovl is err' (qs(i := q'))
        = Some (find (\<lambda>j. available e bp aQuery ovl ((qs(i := q')) j)) is, err'', qs'')
      \<and> (\<forall>j. j \<notin> set is \<longrightarrow> qs'' j = (qs(i := q')) j)"
      by (rule Cons.IH) (use Cons.prems same in auto)
    moreover have "find (\<lambda>j. available e bp aQuery ovl ((qs(i := q')) j)) is = find (\<lambda>j. available e bp aQuery ovl (qs j)) is"
      by (rule find_cong) (use same in auto)
    ultimately show ?thesis using False h by (auto simp del: fun_upd_apply) (metis fun_upd_other)
  qed
qed simp

lemma find_append: "find P (xs @ ys) = (case find P xs of Some x \<Rightarrow> Some x | None \<Rightarrow> find P ys)"
  by (induction xs) auto

text \<open>The order in which the loop over the priorities visits the files of a user.\<close>

definition visit_order :: "bundle_t \<Rightarrow> user \<Rightarrow> int \<Rightarrow> int \<Rightarrow> nat list" where
  "visit_order b u hi lo = concat (map (\<lambda>p. user_queue b (prio_of_int p) u) (rev [lo..hi]))"

lemma visit_order_step:
  "lo \<le> hi \<Longrightarrow> visit_order b u hi lo = user_queue b (prio_of_int hi) u @ visit_order b u (hi - 1) lo"
  by (simp add: visit_order_def upto_rec2)

declare next_by_prio.simps [simp del]

lemma next_by_prio_find:
  "distinct (visit_order b (qu_user aQuery) p (min p (prio_int (qu_minPrio aQuery)))) \<Longrightarrow>
   \<forall>i\<in>set (visit_order b (qu_user aQuery) p (min p (prio_int (qu_minPrio aQuery)))).
     hasSegment e bp aQuery ovl None (qs i) \<noteq> None \<Longrightarrow>
   \<exists>err' qs'. next_by_prio e bp aQuery ovl b p err qs
     = Some (find (\<lambda>i. available e bp aQuery ovl (qs i))
               (visit_order b (qu_user aQuery) p (min p (prio_int (qu_minPrio aQuery)))), err', qs')"
proof (induction "nat (p - prio_int (qu_minPrio aQuery))" arbitrary: p err qs)
  case 0
  then have m: "min p (prio_int (qu_minPrio aQuery)) = p" by simp
  have v: "visit_order b (qu_user aQuery) p p = user_queue b (prio_of_int p) (qu_user aQuery)"
    by (simp add: visit_order_def)
  show ?case
    using next_in_queue_find [of "user_queue b (prio_of_int p) (qu_user aQuery)" e bp aQuery ovl qs err] 0(2,3) "0.hyps"
    unfolding m v by (subst next_by_prio.simps) (auto split: option.splits)
next
  case (Suc n)
  define u where "u = qu_user aQuery"
  define m where "m = prio_int (qu_minPrio aQuery)"
  define l where "l = user_queue b (prio_of_int p) u"
  define r where "r = visit_order b u (p - 1) m"
  have less: "m < p" "min p m = m" "min (p - 1) m = m" using Suc(2) by (auto simp: m_def)
  have v: "visit_order b u p m = l @ r" using less visit_order_step [of m p b u] by (simp add: l_def r_def)
  have d: "distinct l" "distinct r" "set l \<inter> set r = {}"
    and hs: "\<forall>i\<in>set l. hasSegment e bp aQuery ovl None (qs i) \<noteq> None"
      "\<forall>i\<in>set r. hasSegment e bp aQuery ovl None (qs i) \<noteq> None"
    using Suc.prems unfolding u_def [symmetric] m_def [symmetric] less(2) v by auto
  obtain err' qs' where n: "next_in_queue e bp aQuery ovl l err qs
      = Some (find (\<lambda>i. available e bp aQuery ovl (qs i)) l, err', qs')" "\<forall>j. j \<notin> set l \<longrightarrow> qs' j = qs j"
    using next_in_queue_find [OF d(1) hs(1)] by blast
  have same: "\<forall>j\<in>set r. qs' j = qs j" using n(2) d(3) by auto
  show ?case
  proof (cases "find (\<lambda>i. available e bp aQuery ovl (qs i)) l")
    case None
    have "\<exists>err'' qs''. next_by_prio e bp aQuery ovl b (p - 1) err' qs'
      = Some (find (\<lambda>i. available e bp aQuery ovl (qs' i)) (visit_order b (qu_user aQuery) (p - 1) (min (p - 1) (prio_int (qu_minPrio aQuery)))), err'', qs'')"
    proof (rule Suc.hyps(1))
      show "n = nat (p - 1 - prio_int (qu_minPrio aQuery))" using Suc(2) by simp
    qed (unfold u_def [symmetric] m_def [symmetric] less(3) r_def [symmetric], use d hs same in auto)
    moreover have "find (\<lambda>i. available e bp aQuery ovl (qs' i)) r = find (\<lambda>i. available e bp aQuery ovl (qs i)) r"
      by (rule find_cong) (use same in auto)
    ultimately show ?thesis
      using n None less v by (subst next_by_prio.simps)
        (simp add: u_def [symmetric] m_def [symmetric] l_def [symmetric] r_def [symmetric] find_append)
  next
    case (Some i)
    then show ?thesis
      using n v less by (subst next_by_prio.simps) (simp add: u_def [symmetric] m_def [symmetric] l_def [symmetric] find_append)
  qed
qed

lemma visit_order_distinct:
  assumes "user_queues_ok qs b"
  shows "hi < 7 \<Longrightarrow> -1 \<le> lo \<Longrightarrow> distinct (visit_order b u hi lo) \<and> (\<forall>i\<in>set (visit_order b u hi lo). prio_int (qi_priority (qs i)) \<le> hi)"
proof (induction "nat (hi - lo + 1)" arbitrary: hi)
  case 0
  then show ?case by (simp add: visit_order_def)
next
  case (Suc n)
  then have le: "lo \<le> hi" by simp
  have pi: "prio_int (prio_of_int hi) = hi" using le Suc.prems
    by (auto simp: prio_of_int_def)
  have q: "distinct (user_queue b (prio_of_int hi) u)" "\<forall>i\<in>set (user_queue b (prio_of_int hi) u). qi_priority (qs i) = prio_of_int hi"
    using assms by (cases "bu_userQueue b (prio_of_int hi) u"; simp add: user_queues_ok_def user_queue_def)+
  have "distinct (visit_order b u (hi - 1) lo) \<and> (\<forall>i\<in>set (visit_order b u (hi - 1) lo). prio_int (qi_priority (qs i)) \<le> hi - 1)"
    by (rule Suc.hyps(1)) (use Suc in auto)
  then show ?case using q pi unfolding visit_order_step [OF le] by fastforce
qed

section \<open>Properties\<close>


definition test_bundle :: bundle_t where
  "test_bundle = bundle_new test_settings 1000000 5 ''/d/'' 10 NORMAL 0 True False"


text \<open>
  C19: the file that a bundle hands out for a user is the first one with a segment available, from
  the highest priority down to the lowest allowed, in queue order within a priority; there is none
  exactly when no file of these queues has a segment.
\<close>

theorem next_item_of_bundle:
  assumes "user_queues_ok qs b"
    and "\<forall>i\<in>set (getItems (qu_user aQuery) b). hasSegment e (Some (bu_priority b)) aQuery ovl None (qs i) \<noteq> None"
  shows "\<exists>err' qs'. getNextQI e aQuery ovl err b qs
    = Some (find (\<lambda>i. available e (Some (bu_priority b)) aQuery ovl (qs i))
              (visit_order b (qu_user aQuery) 6 (min 6 (prio_int (qu_minPrio aQuery)))), err', qs')"
proof -
  define v where "v = visit_order b (qu_user aQuery) 6 (min 6 (prio_int (qu_minPrio aQuery)))"
  have "-1 \<le> min 6 (prio_int (qu_minPrio aQuery))" by (cases "qu_minPrio aQuery") simp_all
  then have d: "distinct v" using visit_order_distinct [OF assms(1), of 6] by (simp add: v_def)
  have "set (user_queue b p u) \<subseteq> set (getItems u b)" for p u
  proof (cases "bu_userQueue b p u")
    case (Some l)
    then have "p \<in> set queue_prios" using assms(1) by (auto simp: user_queues_ok_def)
    then show ?thesis by (auto simp: getItems_def)
  qed (simp add: user_queue_def)
  then have "set v \<subseteq> set (getItems (qu_user aQuery) b)" by (auto simp: v_def visit_order_def)
  then have "\<forall>i\<in>set v. hasSegment e (Some (bu_priority b)) aQuery ovl None (qs i) \<noteq> None" using assms(2) by blast
  then show ?thesis
    using next_by_prio_find [of b aQuery 6 e "Some (bu_priority b)" ovl qs err] d
    by (simp add: getNextQI_def v_def)
qed

definition test_query :: query where
  "test_query = \<lparr>qu_user = 7, qu_downloadType = ANY, qu_wantedSize = 20, qu_lastSpeed = 0, qu_minPrio = LOWEST,
     qu_onlineHubs = [''h''], qu_runningBundles = []\<rparr>"

definition test_sourced :: queue_item where
  "test_sourced = addSource \<lparr>hu_user = 7, hu_hint = ''h''\<rparr> test_item"

theorem next_item_of_bundle_witness:
  "\<exists>err qs. getNextQI test_env test_query False None
     (fst (addUserQueue test_env (\<lambda>_. test_sourced) 1 \<lparr>hu_user = 7, hu_hint = ''h''\<rparr> False test_bundle)) (\<lambda>_. test_sourced)
   = Some (Some 1, err, qs)"
proof -
  define b where "b = fst (addUserQueue test_env (\<lambda>_. test_sourced) 1 \<lparr>hu_user = 7, hu_hint = ''h''\<rparr> False test_bundle)"
  have ts: "qi_badSources test_item = []" "qi_sources test_item = []" "qi_flags test_item = 0"
    by (simp_all add: test_defs isSet_def Let_def)
  have s: "getSource 7 test_sourced = Some (source_new \<lparr>hu_user = 7, hu_hint = ''h''\<rparr>)" "qi_priority test_sourced = NORMAL"
    "qi_done test_sourced = [seg 0 30]" "qi_size test_sourced = 100" "qi_downloads test_sourced = []" "qi_flags test_sourced = 0"
    by (simp_all add: test_sourced_def addSource_def getBadSource_def ts getSource_def source_new_def)
  have bp: "bu_priority test_bundle = NORMAL" "bu_userQueue test_bundle = (\<lambda>_ _. None)"
    by (simp_all add: test_bundle_def bundle_new_def test_settings_def Let_def)
  have b: "bu_priority b = NORMAL" "bu_userQueue b = (\<lambda>_ _. None)(NORMAL := (\<lambda>_. None)(7 := Some [1]))"
    "bu_sources b = [bundle_source_new \<lparr>hu_user = 7, hu_hint = ''h''\<rparr> (100 - getDownloadedSegments [seg 0 30]) 0]"
    using bp by (simp_all add: b_def addUserQueue_def Let_def set_user_queue_def s addUserQueue_list_def user_queue_def)
      (simp_all add: test_bundle_def s)
  have uq: "user_queues_ok (\<lambda>_. test_sourced) b"
    by (auto simp: user_queues_ok_def b s queue_prios_def bundle_source_new_def entry_count_def user_queue_def split: if_splits)
  have h: "hasSegment test_env (Some NORMAL) test_query False None test_sourced = Some (True, None, test_sourced)"
    by (simp add: hasSegment_def qi_isPausedPrio_def base_isPausedPrio_def s test_query_def source_validateHub_def
        source_new_def allowUrlChange_def qi_isSet_def file_flags isSet_def segmentsDone_def sg_eq_def
        matchesDownloadType_def isWaiting_def)
  have v: "visit_order b 7 6 2 = [1]"
    by (simp add: visit_order_def upto.simps user_queue_def b prio_of_int_def)
  show ?thesis
    using next_item_of_bundle [OF uq, of test_query test_env False None] h v
    unfolding b_def [symmetric] by (simp add: b(1) available_def) (simp add: test_query_def)
qed

end
