(* ===== verification/User_Queue.thy ===== *)
theory User_Queue
  imports Bundle
begin

text \<open>
  \<^bold>\<open>queue/UserQueue.cpp\<close>: the queues of files and bundles by user.  The state has the stores of files and
  bundles, which the code shares by pointer, the two maps of the class, and the queued bytes of each
  user (\<open>User::addQueued\<close>).  \<open>None\<close> as the result of an operation: the code reads through an iterator
  at the end of a container.
\<close>

section \<open>State and operations\<close>

record queue_state =
  st_items :: "nat \<Rightarrow> queue_item"
  st_bundles :: "nat \<Rightarrow> bundle_t"
  st_userPrioQueue :: "user \<Rightarrow> nat list option"
  st_userBundleQueue :: "user \<Rightarrow> nat list option"
  st_queued :: "user \<Rightarrow> int"

definition map_list :: "(user \<Rightarrow> nat list option) \<Rightarrow> user \<Rightarrow> nat list" where
  "map_list m u = (case m u of None \<Rightarrow> [] | Some l \<Rightarrow> l)"

definition addBundle :: "nat \<Rightarrow> user \<Rightarrow> queue_state \<Rightarrow> queue_state" where
  "addBundle b u st =
     st\<lparr>st_userBundleQueue := (st_userBundleQueue st)(u :=
        Some (insert_upper (\<lambda>x y. bundle_less (st_bundles st x) (st_bundles st y)) b
               (map_list (st_userBundleQueue st) u)))\<rparr>"

definition removeBundle :: "nat \<Rightarrow> user \<Rightarrow> queue_state \<Rightarrow> queue_state" where
  "removeBundle b u st =
     (case st_userBundleQueue st u of
        None \<Rightarrow> st
      | Some l \<Rightarrow>
          if b \<notin> set l then st
          else
            let l = erase_first (\<lambda>x. x = b) l
            in st\<lparr>st_userBundleQueue := (st_userBundleQueue st)(u := if l = [] then None else Some l)\<rparr>)"

definition addQI :: "env \<Rightarrow> nat \<Rightarrow> hinted_user \<Rightarrow> bool \<Rightarrow> queue_state \<Rightarrow> queue_state" where
  "addQI e q aUser isBad st =
     (let u = hu_user aUser; qi = st_items st q;
          st = (if qi_priority qi = HIGHEST then
                  st\<lparr>st_userPrioQueue := (st_userPrioQueue st)(u :=
                    Some (insert_upper (\<lambda>x y. SizeSortOrder e (st_items st x) (st_items st y)) q
                           (map_list (st_userPrioQueue st) u)))\<rparr>
                else st)
      in case qi_bundle qi of
           None \<Rightarrow> st
         | Some b \<Rightarrow>
             let st = st\<lparr>st_queued := (st_queued st)(u := st_queued st u + qi_size qi)\<rparr>;
                 (bu, isNew) = addUserQueue e (st_items st) q aUser isBad (st_bundles st b);
                 st = st\<lparr>st_bundles := (st_bundles st)(b := bu)\<rparr>
             in if isNew then addBundle b u st else st)"

definition addQI_all :: "env \<Rightarrow> nat \<Rightarrow> queue_state \<Rightarrow> queue_state" where
  "addQI_all e q st = fold (\<lambda>s. addQI e q (src_user s) False) (qi_sources (st_items st q)) st"

text \<open>The end of \<open>removeQI\<close>: the file leaves the priority queue of the user.\<close>

definition removePrioQI :: "nat \<Rightarrow> user \<Rightarrow> queue_state \<Rightarrow> queue_state" where
  "removePrioQI q u st =
     (if qi_priority (st_items st q) = HIGHEST then
        case st_userPrioQueue st u of
          None \<Rightarrow> st
        | Some l \<Rightarrow>
            if q \<notin> set l then st
            else
              let l = erase_first (\<lambda>x. x = q) l
              in st\<lparr>st_userPrioQueue := (st_userPrioQueue st)(u := if l = [] then None else Some l)\<rparr>
      else st)"

definition removeQI :: "nat \<Rightarrow> user \<Rightarrow> bool \<Rightarrow> flags \<Rightarrow> queue_state \<Rightarrow> queue_state option" where
  "removeQI q u removeRunning reason st =
     (let st = (if removeRunning
                then st\<lparr>st_items := (st_items st)(q := removeDownloads u (st_items st q))\<rparr> else st)
      in case qi_bundle (st_items st q) of
           None \<Rightarrow> Some (removePrioQI q u st)
         | Some b \<Rightarrow>
             if \<not> bu_isSource u (st_bundles st b) then Some st
             else
               let st = st\<lparr>st_queued := (st_queued st)(u := st_queued st u - qi_size (st_items st q))\<rparr>
               in case removeUserQueue (st_items st) q u reason (st_bundles st b) of
                    None \<Rightarrow> None
                  | Some (bu, gone) \<Rightarrow>
                      let st = st\<lparr>st_bundles := (st_bundles st)(b := bu)\<rparr>;
                          st = (if gone then removeBundle b u st else st)
                      in Some (removePrioQI q u st))"

fun removeQI_users :: "nat \<Rightarrow> user list \<Rightarrow> bool \<Rightarrow> queue_state \<Rightarrow> queue_state option" where
  "removeQI_users q [] removeRunning st = Some st"
| "removeQI_users q (u # us) removeRunning st =
     (case removeQI q u removeRunning 0 st of
        None \<Rightarrow> None
      | Some st \<Rightarrow> removeQI_users q us removeRunning st)"

definition removeQI_all :: "nat \<Rightarrow> bool \<Rightarrow> queue_state \<Rightarrow> queue_state option" where
  "removeQI_all q removeRunning st =
     removeQI_users q (map (\<lambda>s. hu_user (src_user s)) (qi_sources (st_items st q))) removeRunning st"

definition setQIPriority :: "env \<Rightarrow> nat \<Rightarrow> prio \<Rightarrow> queue_state \<Rightarrow> queue_state option" where
  "setQIPriority e q p st =
     map_option (\<lambda>st. addQI_all e q (st\<lparr>st_items := (st_items st)(q := (st_items st q)\<lparr>qi_priority := p\<rparr>)\<rparr>))
       (removeQI_all q False st)"

definition setBundlePriority :: "nat \<Rightarrow> prio \<Rightarrow> queue_state \<Rightarrow> queue_state" where
  "setBundlePriority b p st =
     (let sources = map hu_user (getSourceUsers (st_bundles st b));
          st = fold (removeBundle b) sources st;
          st = st\<lparr>st_bundles := (st_bundles st)(b := (st_bundles st b)\<lparr>bu_priority := p\<rparr>)\<rparr>
      in fold (addBundle b) sources st)"

definition uq_addDownload :: "nat \<Rightarrow> transfer \<Rightarrow> queue_state \<Rightarrow> queue_state" where
  "uq_addDownload q d st = st\<lparr>st_items := (st_items st)(q := addDownload d (st_items st q))\<rparr>"

definition uq_removeDownload :: "nat \<Rightarrow> nat \<Rightarrow> queue_state \<Rightarrow> queue_state" where
  "uq_removeDownload q d st = st\<lparr>st_items := (st_items st)(q := removeDownload d (st_items st q))\<rparr>"

definition getUserQIs :: "user \<Rightarrow> queue_state \<Rightarrow> nat list" where
  "getUserQIs u st =
     filter (\<lambda>q. qi_bundle (st_items st q) = None) (map_list (st_userPrioQueue st) u)
     @ concat (map (\<lambda>b. getItems u (st_bundles st b)) (map_list (st_userBundleQueue st) u))"

section \<open>The next file\<close>

text \<open>Results: the file found, \<open>lastError_\<close>, \<open>hasDownload_\<close> and the store of files.\<close>

definition item_bundle_prio :: "queue_state \<Rightarrow> nat \<Rightarrow> prio option" where
  "item_bundle_prio st q = map_option (\<lambda>b. bu_priority (st_bundles st b)) (qi_bundle (st_items st q))"

fun next_prio_qi ::
  "env \<Rightarrow> (nat \<Rightarrow> prio option) \<Rightarrow> query \<Rightarrow> bool \<Rightarrow> nat list \<Rightarrow> resource option \<Rightarrow> (nat \<Rightarrow> queue_item)
    \<Rightarrow> (nat option \<times> resource option \<times> (nat \<Rightarrow> queue_item)) option" where
  "next_prio_qi e bp aQuery ovl [] err qs = Some (None, err, qs)"
| "next_prio_qi e bp aQuery ovl (i # is) err qs =
     (case hasSegment e (bp i) aQuery ovl err (qs i) of
        None \<Rightarrow> None
      | Some (found, err, q) \<Rightarrow>
          if found then Some (Some i, err, qs(i := q))
          else next_prio_qi e bp aQuery ovl is err (qs(i := q)))"

definition getNextPrioQI ::
  "env \<Rightarrow> query \<Rightarrow> bool \<Rightarrow> queue_state \<Rightarrow> (nat option \<times> resource option \<times> (nat \<Rightarrow> queue_item)) option" where
  "getNextPrioQI e aQuery ovl st =
     next_prio_qi e (item_bundle_prio st) aQuery ovl (map_list (st_userPrioQueue st) (qu_user aQuery)) None (st_items st)"

fun next_bundle_qi ::
  "env \<Rightarrow> query \<Rightarrow> bool \<Rightarrow> (nat \<Rightarrow> bundle_t) \<Rightarrow> nat list \<Rightarrow> resource option \<Rightarrow> bool \<Rightarrow> (nat \<Rightarrow> queue_item)
    \<Rightarrow> (nat option \<times> resource option \<times> bool \<times> (nat \<Rightarrow> queue_item)) option" where
  "next_bundle_qi e aQuery ovl bs [] err hasDownload qs = Some (None, err, hasDownload, qs)"
| "next_bundle_qi e aQuery ovl bs (b # rest) err hasDownload qs =
     (let bundleLimit = MAX_RUNNING_BUNDLES (e_set e) in
      if 0 < bundleLimit \<and> bundleLimit \<le> int (length (qu_runningBundles aQuery))
         \<and> bu_token (bs b) \<notin> set (qu_runningBundles aQuery)
      then next_bundle_qi e aQuery ovl bs rest (Some MAX_BUNDLES_RUNNING) True qs
      else if bu_priority (bs b) < qu_minPrio aQuery then Some (None, err, hasDownload, qs)
      else
        case getNextQI e aQuery ovl err (bs b) qs of
          None \<Rightarrow> None
        | Some (Some i, err, qs) \<Rightarrow> Some (Some i, err, hasDownload, qs)
        | Some (None, err, qs) \<Rightarrow> next_bundle_qi e aQuery ovl bs rest err hasDownload qs)"

definition getNextBundleQI ::
  "env \<Rightarrow> query \<Rightarrow> bool \<Rightarrow> bool \<Rightarrow> queue_state
    \<Rightarrow> (nat option \<times> resource option \<times> bool \<times> (nat \<Rightarrow> queue_item)) option" where
  "getNextBundleQI e aQuery ovl hasDownload st =
     next_bundle_qi e aQuery ovl (st_bundles st) (map_list (st_userBundleQueue st) (qu_user aQuery)) None
       hasDownload (st_items st)"

text \<open>One round of \<open>getNext\<close>; the second round allows overlapping.\<close>

definition getNext_round ::
  "env \<Rightarrow> query \<Rightarrow> bool \<Rightarrow> bool \<Rightarrow> queue_state
    \<Rightarrow> (nat option \<times> resource option \<times> bool \<times> queue_state) option" where
  "getNext_round e aQuery ovl hasDownload st =
     (case getNextPrioQI e aQuery ovl st of
        None \<Rightarrow> None
      | Some (Some i, err, qs) \<Rightarrow> Some (Some i, err, hasDownload, st\<lparr>st_items := qs\<rparr>)
      | Some (None, err, qs) \<Rightarrow>
          map_option (\<lambda>(i, err, hasD, qs). (i, err, hasD, st\<lparr>st_items := qs\<rparr>))
            (getNextBundleQI e aQuery ovl hasDownload (st\<lparr>st_items := qs\<rparr>)))"

definition getNext ::
  "env \<Rightarrow> query \<Rightarrow> bool \<Rightarrow> queue_state \<Rightarrow> (nat option \<times> resource option \<times> bool \<times> queue_state) option" where
  "getNext e aQuery hasDownload st =
     (case getNext_round e aQuery False hasDownload st of
        None \<Rightarrow> None
      | Some (Some i, err, hasD, st) \<Rightarrow> Some (Some i, err, True, st)
      | Some (None, err, hasD, st) \<Rightarrow>
          (case getNext_round e aQuery True hasD st of
             None \<Rightarrow> None
           | Some (i, err, hasD, st) \<Rightarrow> Some (i, err, hasD \<or> i \<noteq> None, st)))"

section \<open>Invariant\<close>

text \<open>
  The queues of every bundle are right, and the list of bundles of a user holds, in order and without
  repetition, exactly the bundles that the user is a source of.
\<close>

definition bundle_queue_ok :: "queue_state \<Rightarrow> bool" where
  "bundle_queue_ok st \<longleftrightarrow>
     (\<forall>u l. st_userBundleQueue st u = Some l \<longrightarrow>
        l \<noteq> [] \<and> distinct l \<and> sorted_wrt (\<lambda>x y. \<not> bundle_less (st_bundles st y) (st_bundles st x)) l)
     \<and> (\<forall>u b. b \<in> set (map_list (st_userBundleQueue st) u) \<longleftrightarrow> bu_isSource u (st_bundles st b))"

definition queues_ok :: "queue_state \<Rightarrow> bool" where
  "queues_ok st \<longleftrightarrow> (\<forall>b. user_queues_ok (st_items st) (st_bundles st b)) \<and> bundle_queue_ok st"

lemma user_queues_ok_items:
  assumes "\<And>i. qi_priority (qs' i) = qi_priority (qs i)"
  shows "user_queues_ok qs' b = user_queues_ok qs b"
  by (simp add: user_queues_ok_def assms)

lemma bundle_less_cong:
  "bu_priority a = bu_priority a' \<Longrightarrow> bu_timeAdded a = bu_timeAdded a' \<Longrightarrow>
   bu_priority b = bu_priority b' \<Longrightarrow> bu_timeAdded b = bu_timeAdded b' \<Longrightarrow> bundle_less a b = bundle_less a' b'"
  by (simp add: bundle_less_def)

lemma sorted_bundles_cong:
  assumes "\<And>b. bu_priority (bs' b) = bu_priority (bs b)" and "\<And>b. bu_timeAdded (bs' b) = bu_timeAdded (bs b)"
  shows "sorted_wrt (\<lambda>x y. \<not> bundle_less (bs' y) (bs' x)) l = sorted_wrt (\<lambda>x y. \<not> bundle_less (bs y) (bs x)) l"
  by (simp add: bundle_less_def assms)

lemma sorted_erase_first: "sorted_wrt P l \<Longrightarrow> sorted_wrt P (erase_first Q l)"
proof (induction l)
  case (Cons x l)
  have "set (erase_first Q l) \<subseteq> set l" by (induction l) auto
  with Cons show ?case by auto
qed simp

lemma user_queue_entry:
  assumes "user_queues_ok qs b" and "q \<in> set (user_queue b p u)"
  shows "p \<in> set queue_prios" and "qi_priority (qs q) = p"
  using assms by (cases "bu_userQueue b p u"; simp add: user_queues_ok_def user_queue_def)+

lemma addBundle_simps [simp]:
  "st_items (addBundle b u st) = st_items st" "st_bundles (addBundle b u st) = st_bundles st"
  "st_userPrioQueue (addBundle b u st) = st_userPrioQueue st"
  by (simp_all add: addBundle_def)

lemma removeBundle_simps [simp]:
  "st_items (removeBundle b u st) = st_items st" "st_bundles (removeBundle b u st) = st_bundles st"
  "st_userPrioQueue (removeBundle b u st) = st_userPrioQueue st"
  by (simp_all add: removeBundle_def Let_def split: option.splits)

text \<open>The lists are ordered, whatever bundles they hold.\<close>

definition lists_ok :: "queue_state \<Rightarrow> bool" where
  "lists_ok st \<longleftrightarrow>
     (\<forall>u l. st_userBundleQueue st u = Some l \<longrightarrow>
        l \<noteq> [] \<and> distinct l \<and> sorted_wrt (\<lambda>x y. \<not> bundle_less (st_bundles st y) (st_bundles st x)) l)"

lemma addBundle_lists:
  assumes "lists_ok st" and "b \<notin> set (map_list (st_userBundleQueue st) u)"
  shows "lists_ok (addBundle b u st)"
    and "set (map_list (st_userBundleQueue (addBundle b u st)) v)
      = (if v = u then insert b (set (map_list (st_userBundleQueue st) u)) else set (map_list (st_userBundleQueue st) v))"
proof -
  have "insert_upper lt b l \<noteq> []" for lt :: "nat \<Rightarrow> nat \<Rightarrow> bool" and l by (cases l) auto
  moreover have "distinct (map_list (st_userBundleQueue st) u)"
    "sorted_wrt (\<lambda>x y. \<not> bundle_less (st_bundles st y) (st_bundles st x)) (map_list (st_userBundleQueue st) u)"
    using assms(1) by (cases "st_userBundleQueue st u"; simp add: lists_ok_def map_list_def)+
  ultimately show "lists_ok (addBundle b u st)"
    using assms bundle_order.sorted_insert_upper
    by (auto simp: lists_ok_def addBundle_def split: if_splits)
  show "set (map_list (st_userBundleQueue (addBundle b u st)) v)
      = (if v = u then insert b (set (map_list (st_userBundleQueue st) u)) else set (map_list (st_userBundleQueue st) v))"
    by (cases "st_userBundleQueue st u") (auto simp: addBundle_def map_list_def)
qed

lemma erase_first_other: "b \<notin> set l \<Longrightarrow> erase_first (\<lambda>x. x = b) l = l"
  by (induction l) auto

lemma removeBundle_lists:
  assumes "lists_ok st"
  shows "lists_ok (removeBundle b u st)"
    and "set (map_list (st_userBundleQueue (removeBundle b u st)) v)
      = (if v = u then set (map_list (st_userBundleQueue st) u) - {b} else set (map_list (st_userBundleQueue st) v))"
proof -
  show "lists_ok (removeBundle b u st)"
    using assms by (auto simp: lists_ok_def removeBundle_def Let_def distinct_erase_first sorted_erase_first split: option.splits if_splits)
  show "set (map_list (st_userBundleQueue (removeBundle b u st)) v)
      = (if v = u then set (map_list (st_userBundleQueue st) u) - {b} else set (map_list (st_userBundleQueue st) v))"
  proof (cases "st_userBundleQueue st u")
    case (Some l)
    then have "distinct l" using assms by (auto simp: lists_ok_def)
    from set_erase_first_eq [OF this, of b] have e: "set (erase_first (\<lambda>x. x = b) l) = set l - {b}" .
    have "map_list (st_userBundleQueue (removeBundle b u st)) v
        = (if v = u then erase_first (\<lambda>x. x = b) l else map_list (st_userBundleQueue st) v)"
      using Some erase_first_other [of b l] by (simp add: removeBundle_def Let_def map_list_def)
    then show ?thesis using Some e by (simp add: map_list_def)
  qed (simp add: removeBundle_def map_list_def)
qed

lemma set_user_queue_simps [simp]:
  "bu_priority (set_user_queue p u l b) = bu_priority b" "bu_timeAdded (set_user_queue p u l b) = bu_timeAdded b"
  "bu_sources (set_user_queue p u l b) = bu_sources b" "bu_badSources (set_user_queue p u l b) = bu_badSources b"
  by (simp_all add: set_user_queue_def)

lemma addUserQueue_keeps:
  assumes "addUserQueue e qs q aUser isBad b = (b', n)"
  shows "bu_priority b' = bu_priority b \<and> bu_timeAdded b' = bu_timeAdded b"
proof -
  have "bu_priority (fst (addUserQueue e qs q aUser isBad b)) = bu_priority b
    \<and> bu_timeAdded (fst (addUserQueue e qs q aUser isBad b)) = bu_timeAdded b"
    by (simp add: addUserQueue_def Let_def split: option.split)
  then show ?thesis by (simp add: assms)
qed

lemma removeUserQueue_keeps:
  assumes "removeUserQueue qs q u reason b = Some (b', n)"
  shows "bu_priority b' = bu_priority b \<and> bu_timeAdded b' = bu_timeAdded b"
proof -
  have "case removeUserQueue qs q u reason b of None \<Rightarrow> True
    | Some (b', n) \<Rightarrow> bu_priority b' = bu_priority b \<and> bu_timeAdded b' = bu_timeAdded b"
    by (simp add: removeUserQueue_def Let_def split: option.split prod.split)
  then show ?thesis by (simp add: assms)
qed

lemma queues_ok_bundle:
  assumes ok: "queues_ok st" and b': "user_queues_ok (st_items st) bu"
    and keep: "bu_priority bu = bu_priority (st_bundles st b)" "bu_timeAdded bu = bu_timeAdded (st_bundles st b)"
    and q': "st_userBundleQueue st' = st_userBundleQueue (st\<lparr>st_bundles := (st_bundles st)(b := bu)\<rparr>)"
      "st_bundles st' = (st_bundles st)(b := bu)" "st_items st' = st_items st"
  shows "\<forall>c. user_queues_ok (st_items st') (st_bundles st' c)" and "lists_ok st'"
proof -
  show "\<forall>c. user_queues_ok (st_items st') (st_bundles st' c)" using ok b' by (simp add: queues_ok_def q')
  have "bu_priority (st_bundles st' c) = bu_priority (st_bundles st c)" "bu_timeAdded (st_bundles st' c) = bu_timeAdded (st_bundles st c)" for c
    using keep by (simp_all add: q')
  from sorted_bundles_cong [of "st_bundles st'" "st_bundles st", OF this] show "lists_ok st'"
    using ok by (simp add: lists_ok_def queues_ok_def bundle_queue_ok_def q')
qed

lemma bundle_queue_ok_alt:
  "bundle_queue_ok st \<longleftrightarrow> lists_ok st \<and> (\<forall>u b. b \<in> set (map_list (st_userBundleQueue st) u) \<longleftrightarrow> bu_isSource u (st_bundles st b))"
  by (auto simp: bundle_queue_ok_def lists_ok_def)

lemma addQI_ok:
  assumes ok: "queues_ok st" and b: "qi_bundle (st_items st q) = Some b"
    and p: "qi_priority (st_items st q) \<in> set queue_prios"
    and new: "q \<notin> set (user_queue (st_bundles st b) (qi_priority (st_items st q)) (hu_user aUser))"
  shows "queues_ok (addQI e q aUser isBad st)"
proof -
  define u where "u = hu_user aUser"
  obtain bu n where a: "addUserQueue e (st_items st) q aUser isBad (st_bundles st b) = (bu, n)" by fastforce
  have uqb: "user_queues_ok (st_items st) (st_bundles st b)" using ok by (simp add: queues_ok_def)
  note add = user_queues_ok_add [OF uqb p new a, folded u_def]
  note keeps = addUserQueue_keeps [OF a]
  define st1 where "st1 = (if qi_priority (st_items st q) = HIGHEST then
      st\<lparr>st_userPrioQueue := (st_userPrioQueue st)(u :=
         Some (insert_upper (\<lambda>x y. SizeSortOrder e (st_items st x) (st_items st y)) q (map_list (st_userPrioQueue st) u)))\<rparr>
      else st)"
  have st1: "st_items st1 = st_items st" "st_bundles st1 = st_bundles st" "st_userBundleQueue st1 = st_userBundleQueue st"
    by (simp_all add: st1_def)
  define st2 where "st2 = st1\<lparr>st_queued := (st_queued st1)(u := st_queued st1 u + qi_size (st_items st q)),
     st_bundles := (st_bundles st)(b := bu)\<rparr>"
  have r: "addQI e q aUser isBad st = (if n then addBundle b u st2 else st2)"
    using b a by (simp add: addQI_def u_def [symmetric] st1_def [symmetric] st1 st2_def Let_def)
  have q2: "st_userBundleQueue st2 = st_userBundleQueue (st\<lparr>st_bundles := (st_bundles st)(b := bu)\<rparr>)"
    "st_bundles st2 = (st_bundles st)(b := bu)" "st_items st2 = st_items st"
    by (simp_all add: st2_def st1)
  note s2 = queues_ok_bundle [OF ok add(1) _ _ q2]
  have l2: "lists_ok st2" "\<forall>c. user_queues_ok (st_items st2) (st_bundles st2 c)" using s2 keeps by blast+
  have mem: "c \<in> set (map_list (st_userBundleQueue st2) v) \<longleftrightarrow> bu_isSource v (st_bundles st c)" for c v
    using ok by (simp add: queues_ok_def bundle_queue_ok_def q2)
  have src: "bu_isSource v (st_bundles st2 c) \<longleftrightarrow> (if c = b then v = u \<or> bu_isSource v (st_bundles st b) else bu_isSource v (st_bundles st c))" for v c
    using add(3) by (simp add: q2)
  show ?thesis
  proof (cases n)
    case True
    then have "b \<notin> set (map_list (st_userBundleQueue st2) u)" using add(2) mem by simp
    note ab = addBundle_lists [OF l2(1) this]
    show ?thesis unfolding r queues_ok_def bundle_queue_ok_alt
      using True ab l2 mem src by auto
  next
    case False
    then have "bu_isSource u (st_bundles st b)" using add(2) by simp
    then show ?thesis unfolding r queues_ok_def bundle_queue_ok_alt
      using False l2 mem src by auto
  qed
qed

lemma removePrioQI_simps [simp]:
  "st_items (removePrioQI q u st) = st_items st" "st_bundles (removePrioQI q u st) = st_bundles st"
  "st_userBundleQueue (removePrioQI q u st) = st_userBundleQueue st"
  by (simp_all add: removePrioQI_def Let_def split: option.splits)

lemma queues_ok_cong:
  assumes "st_bundles st' = st_bundles st" and "st_userBundleQueue st' = st_userBundleQueue st"
    and "\<And>i. qi_priority (st_items st' i) = qi_priority (st_items st i)"
  shows "queues_ok st' = queues_ok st"
  using user_queues_ok_items [of "st_items st'" "st_items st", OF assms(3)] assms(1,2)
  by (simp add: queues_ok_def bundle_queue_ok_def)

lemma removeQI_ok:
  assumes ok: "queues_ok st" and b: "qi_bundle (st_items st q) = Some b"
    and q: "q \<in> set (user_queue (st_bundles st b) (qi_priority (st_items st q)) u)"
  shows "\<exists>st'. removeQI q u removeRunning reason st = Some st' \<and> queues_ok st'
    \<and> q \<notin> set (user_queue (st_bundles st' b) (qi_priority (st_items st q)) u)
    \<and> (\<forall>p v. (p, v) \<noteq> (qi_priority (st_items st q), u) \<longrightarrow> user_queue (st_bundles st' b) p v = user_queue (st_bundles st b) p v)
    \<and> (\<forall>c. c \<noteq> b \<longrightarrow> st_bundles st' c = st_bundles st c)"
proof -
  define st1 where "st1 = (if removeRunning
      then st\<lparr>st_items := (st_items st)(q := removeDownloads u (st_items st q))\<rparr> else st)"
  have st1: "st_bundles st1 = st_bundles st" "st_userBundleQueue st1 = st_userBundleQueue st"
    "qi_bundle (st_items st1 q) = qi_bundle (st_items st q)" "\<And>i. qi_priority (st_items st1 i) = qi_priority (st_items st i)"
    by (simp_all add: st1_def removeDownloads_def)
  have ok1: "queues_ok st1" using queues_ok_cong [OF st1(1,2,4)] ok by simp
  have uqb: "user_queues_ok (st_items st1) (st_bundles st1 b)" using ok1 by (simp add: queues_ok_def)
  have q1: "q \<in> set (user_queue (st_bundles st1 b) (qi_priority (st_items st1 q)) u)" using q st1 by simp
  obtain bu gone where rm: "removeUserQueue (st_items st1) q u reason (st_bundles st1 b) = Some (bu, gone)"
    "user_queues_ok (st_items st1) bu" "gone \<longleftrightarrow> \<not> bu_isSource u bu" "\<forall>v. v \<noteq> u \<longrightarrow> bu_isSource v bu = bu_isSource v (st_bundles st1 b)"
    "q \<notin> set (user_queue bu (qi_priority (st_items st1 q)) u)"
    "\<forall>p v. (p, v) \<noteq> (qi_priority (st_items st1 q), u) \<longrightarrow> user_queue bu p v = user_queue (st_bundles st1 b) p v"
    using user_queues_ok_remove [OF uqb q1, of reason] by blast
  note keeps = removeUserQueue_keeps [OF rm(1)]
  have "user_queue (st_bundles st1 b) (qi_priority (st_items st1 q)) u \<noteq> []" using q1 by auto
  moreover have "qi_priority (st_items st1 q) \<in> set queue_prios"
    using user_queue_entry [OF uqb q1] by simp
  ultimately have "entry_count (st_bundles st1 b) u \<noteq> 0" by (auto simp: entry_count_def)
  moreover have "case find_source u (bu_sources (st_bundles st1 b)) of
      Some s \<Rightarrow> bs_files s = int (entry_count (st_bundles st1 b) u) \<and> 0 < entry_count (st_bundles st1 b) u
    | None \<Rightarrow> entry_count (st_bundles st1 b) u = 0"
    using uqb unfolding user_queues_ok_def by blast
  ultimately have src: "bu_isSource u (st_bundles st1 b)" by (auto simp: bu_isSource_def split: option.splits)
  define st2 where "st2 = st1\<lparr>st_queued := (st_queued st1)(u := st_queued st1 u - qi_size (st_items st1 q)),
     st_bundles := (st_bundles st1)(b := bu)\<rparr>"
  define st3 where "st3 = (if gone then removeBundle b u st2 else st2)"
  have r: "removeQI q u removeRunning reason st = Some (removePrioQI q u st3)"
  proof -
    define sq where "sq = st1\<lparr>st_queued := (st_queued st1)(u := st_queued st1 u - qi_size (st_items st1 q))\<rparr>"
    have sq: "st_items sq = st_items st1" "st_bundles sq = st_bundles st1" by (simp_all add: sq_def)
    have st2: "st2 = sq\<lparr>st_bundles := (st_bundles st1)(b := bu)\<rparr>" by (simp add: st2_def sq_def)
    have bs: "qi_bundle (st_items st1 q) = Some b" using b st1(3) by simp
    show ?thesis
      unfolding removeQI_def st1_def [symmetric] Let_def bs option.case sq_def [symmetric] sq rm(1) prod.case
        st2 [symmetric] st3_def [symmetric] using src by simp
  qed
  have q2: "st_userBundleQueue st2 = st_userBundleQueue (st1\<lparr>st_bundles := (st_bundles st1)(b := bu)\<rparr>)"
    "st_bundles st2 = (st_bundles st1)(b := bu)" "st_items st2 = st_items st1"
    by (simp_all add: st2_def)
  have l2: "lists_ok st2" "\<forall>c. user_queues_ok (st_items st2) (st_bundles st2 c)"
    using queues_ok_bundle [OF ok1 rm(2) _ _ q2] keeps by blast+
  have mem: "c \<in> set (map_list (st_userBundleQueue st2) v) \<longleftrightarrow> bu_isSource v (st_bundles st1 c)" for c v
    using ok1 by (simp add: queues_ok_def bundle_queue_ok_def q2)
  note rb = removeBundle_lists [OF l2(1), of b u]
  have "queues_ok st3"
  proof (cases gone)
    case True
    then show ?thesis unfolding queues_ok_def bundle_queue_ok_alt
      using rb l2 mem rm(3,4) by (auto simp: st3_def q2)
  next
    case False
    then have same: "bu_isSource v bu = bu_isSource v (st_bundles st1 b)" for v
      using rm(3,4) src by (cases "v = u") auto
    show ?thesis unfolding queues_ok_def bundle_queue_ok_alt
      using l2 mem False by (simp add: st3_def q2 same)
  qed
  then have "queues_ok (removePrioQI q u st3)" using queues_ok_cong [of "removePrioQI q u st3" st3] by simp
  moreover have "st_bundles st3 = (st_bundles st)(b := bu)" by (simp add: st3_def q2 st1)
  ultimately show ?thesis using r rm(5,6) st1 by simp
qed

lemma removeBundle_fold:
  assumes "lists_ok st"
  shows "lists_ok (fold (removeBundle b) us st)
    \<and> (\<forall>c v. c \<in> set (map_list (st_userBundleQueue (fold (removeBundle b) us st)) v)
          \<longleftrightarrow> c \<in> set (map_list (st_userBundleQueue st) v) \<and> \<not> (c = b \<and> v \<in> set us))
    \<and> st_items (fold (removeBundle b) us st) = st_items st \<and> st_bundles (fold (removeBundle b) us st) = st_bundles st"
  using assms
proof (induction us arbitrary: st)
  case (Cons u us)
  note rb = removeBundle_lists [OF Cons.prems, of b u]
  from Cons.IH [OF rb(1)] rb(2) show ?case by auto
qed simp

lemma addBundle_fold:
  assumes "lists_ok st" and "distinct us" and "\<forall>u\<in>set us. b \<notin> set (map_list (st_userBundleQueue st) u)"
  shows "lists_ok (fold (addBundle b) us st)
    \<and> (\<forall>c v. c \<in> set (map_list (st_userBundleQueue (fold (addBundle b) us st)) v)
          \<longleftrightarrow> c \<in> set (map_list (st_userBundleQueue st) v) \<or> c = b \<and> v \<in> set us)
    \<and> st_items (fold (addBundle b) us st) = st_items st \<and> st_bundles (fold (addBundle b) us st) = st_bundles st"
  using assms
proof (induction us arbitrary: st)
  case (Cons u us)
  have n: "b \<notin> set (map_list (st_userBundleQueue st) u)" using Cons.prems by simp
  note ab = addBundle_lists [OF Cons.prems(1) n]
  have "\<forall>v\<in>set us. b \<notin> set (map_list (st_userBundleQueue (addBundle b u st)) v)"
    using Cons.prems ab(2) by auto
  from Cons.IH [OF ab(1) _ this] Cons.prems(2) ab(2) show ?case by auto
qed simp

lemma find_source_mem: "(find_source u ss \<noteq> None) \<longleftrightarrow> u \<in> (\<lambda>s. hu_user (bs_user s)) ` set ss"
proof (induction ss)
  case (Cons s ss)
  then show ?case by (cases "hu_user (bs_user s) = u") auto
qed simp

lemma setBundlePriority_ok:
  assumes ok: "queues_ok st"
  shows "queues_ok (setBundlePriority b p st)"
proof -
  define us where "us = map hu_user (getSourceUsers (st_bundles st b))"
  define st1 where "st1 = fold (removeBundle b) us st"
  define bu where "bu = (st_bundles st b)\<lparr>bu_priority := p\<rparr>"
  define st2 where "st2 = st1\<lparr>st_bundles := (st_bundles st1)(b := bu)\<rparr>"
  have l: "lists_ok st" and mem: "\<And>u c. c \<in> set (map_list (st_userBundleQueue st) u) \<longleftrightarrow> bu_isSource u (st_bundles st c)"
    and uq: "\<And>c. user_queues_ok (st_items st) (st_bundles st c)"
    using ok by (simp_all add: queues_ok_def bundle_queue_ok_alt)
  have us: "bu_isSource u (st_bundles st b) \<longleftrightarrow> u \<in> set us" for u
    unfolding bu_isSource_def find_source_mem us_def getSourceUsers_def by (simp add: image_image)
  have "distinct us" using uq [of b] by (simp add: us_def getSourceUsers_def user_queues_ok_def comp_def)
  have rm: "lists_ok st1" "\<And>c v. c \<in> set (map_list (st_userBundleQueue st1) v)
      \<longleftrightarrow> c \<in> set (map_list (st_userBundleQueue st) v) \<and> \<not> (c = b \<and> v \<in> set us)"
    "st_items st1 = st_items st" "st_bundles st1 = st_bundles st"
    using removeBundle_fold [OF l, of b us] by (simp_all add: st1_def)
  have out: "b \<notin> set (map_list (st_userBundleQueue st1) u)" for u using rm(2) mem us by blast
  have "lists_ok st2"
    unfolding lists_ok_def
  proof (intro allI impI)
    fix u l assume q: "st_userBundleQueue st2 u = Some l"
    then have q1: "st_userBundleQueue st1 u = Some l" by (simp add: st2_def)
    with out [of u] have b: "b \<notin> set l" by (simp add: map_list_def)
    from rm(1) q1 have l1: "l \<noteq> []" "distinct l" "sorted_wrt (\<lambda>x y. \<not> bundle_less (st_bundles st1 y) (st_bundles st1 x)) l"
      by (simp_all add: lists_ok_def)
    have "sorted_wrt (\<lambda>x y. \<not> bundle_less (st_bundles st2 y) (st_bundles st2 x)) l"
      by (rule sorted_wrt_mono_rel [OF _ l1(3)]) (use b in \<open>auto simp: st2_def\<close>)
    with l1 show "l \<noteq> [] \<and> distinct l \<and> sorted_wrt (\<lambda>x y. \<not> bundle_less (st_bundles st2 y) (st_bundles st2 x)) l" by simp
  qed
  moreover have "\<forall>u\<in>set us. b \<notin> set (map_list (st_userBundleQueue st2) u)" using out by (simp add: st2_def)
  ultimately have ab: "lists_ok (fold (addBundle b) us st2)"
    "\<And>c v. c \<in> set (map_list (st_userBundleQueue (fold (addBundle b) us st2)) v)
      \<longleftrightarrow> c \<in> set (map_list (st_userBundleQueue st2) v) \<or> c = b \<and> v \<in> set us"
    "st_items (fold (addBundle b) us st2) = st_items st2" "st_bundles (fold (addBundle b) us st2) = st_bundles st2"
    using addBundle_fold [of st2 us b] \<open>distinct us\<close> by blast+
  have st2: "st_items st2 = st_items st" "st_bundles st2 = (st_bundles st)(b := bu)"
    "st_userBundleQueue st2 = st_userBundleQueue st1"
    by (simp_all add: st2_def rm)
  have src: "bu_isSource u bu = bu_isSource u (st_bundles st b)" for u by (simp add: bu_def bu_isSource_def)
  have ubu: "user_queues_ok (st_items st) bu"
  proof -
    have *: "entry_count bu u = entry_count (st_bundles st b) u" "bu_userQueue bu = bu_userQueue (st_bundles st b)"
      "bu_sources bu = bu_sources (st_bundles st b)" for u
      by (simp_all add: bu_def entry_count_def user_queue_def)
    have "user_queues_ok (st_items st) bu = user_queues_ok (st_items st) (st_bundles st b)"
      unfolding user_queues_ok_def * ..
    then show ?thesis using uq by simp
  qed
  have r: "setBundlePriority b p st = fold (addBundle b) us st2"
    unfolding setBundlePriority_def Let_def us_def [symmetric] st1_def [symmetric]
    by (simp add: st2_def rm bu_def)
  show ?thesis
    unfolding r queues_ok_def bundle_queue_ok_alt
    using ab uq ubu src us mem rm(2) by (auto simp: st2)
qed

lemma hasSegment_priority:
  "hasSegment e bp aQuery ovl err q = Some (r, err', q') \<Longrightarrow> qi_priority q' = qi_priority q"
  by (auto simp: hasSegment_def getBlockSize_def Let_def split: if_splits option.splits)

lemma next_prio_qi_priority:
  "next_prio_qi e bp aQuery ovl is err qs = Some (r, err', qs') \<Longrightarrow> qi_priority (qs' i) = qi_priority (qs i)"
proof (induction "is" arbitrary: err qs)
  case (Cons j js)
  obtain x err1 q where h: "hasSegment e (bp j) aQuery ovl err (qs j) = Some (x, err1, q)"
    using Cons.prems by (auto split: option.splits)
  have k: "qi_priority ((qs(j := q)) i) = qi_priority (qs i)" using hasSegment_priority [OF h] by simp
  show ?case
  proof (cases x)
    case False
    then have "next_prio_qi e bp aQuery ovl js err1 (qs(j := q)) = Some (r, err', qs')"
      using Cons.prems h by (simp del: fun_upd_apply)
    from Cons.IH [OF this] k show ?thesis by (simp del: fun_upd_apply)
  qed (use Cons.prems h k in auto)
qed simp

lemma next_in_queue_priority:
  "next_in_queue e bp aQuery ovl is err qs = Some (r, err', qs') \<Longrightarrow> qi_priority (qs' i) = qi_priority (qs i)"
proof (induction "is" arbitrary: err qs)
  case (Cons j js)
  obtain x err1 q where h: "hasSegment e bp aQuery ovl err (qs j) = Some (x, err1, q)"
    using Cons.prems by (auto split: option.splits)
  have k: "qi_priority ((qs(j := q)) i) = qi_priority (qs i)" using hasSegment_priority [OF h] by simp
  show ?case
  proof (cases x)
    case False
    then have "next_in_queue e bp aQuery ovl js err1 (qs(j := q)) = Some (r, err', qs')"
      using Cons.prems h by (simp del: fun_upd_apply)
    from Cons.IH [OF this] k show ?thesis by (simp del: fun_upd_apply)
  qed (use Cons.prems h k in auto)
qed simp

lemma next_by_prio_priority:
  "next_by_prio e bp aQuery ovl b p err qs = Some (r, err', qs') \<Longrightarrow> qi_priority (qs' i) = qi_priority (qs i)"
proof (induction e bp aQuery ovl b p err qs arbitrary: r err' qs' rule: next_by_prio.induct)
  case (1 e bp aQuery ovl b p err qs)
  obtain x err1 qs1 where n: "next_in_queue e bp aQuery ovl (user_queue b (prio_of_int p) (qu_user aQuery)) err qs = Some (x, err1, qs1)"
    using 1(2) by (subst (asm) next_by_prio.simps) (auto split: option.splits)
  note eq = next_in_queue_priority [OF n, of i]
  show ?case
  proof (cases "x = None \<and> prio_int (qu_minPrio aQuery) \<le> p - 1")
    case True
    with 1(2) n have "next_by_prio e bp aQuery ovl b (p - 1) err1 qs1 = Some (r, err', qs')"
      by (subst (asm) next_by_prio.simps) simp
    from 1(1) [OF n refl _ refl _ this] True eq show ?thesis by simp
  next
    case False
    with 1(2) n have "qs' = qs1"
      by (subst (asm) next_by_prio.simps) (auto split: option.splits)
    with eq show ?thesis by simp
  qed
qed

lemma next_bundle_qi_priority:
  "next_bundle_qi e aQuery ovl bs l err hasD qs = Some (r, err', hasD', qs') \<Longrightarrow> qi_priority (qs' i) = qi_priority (qs i)"
proof (induction e aQuery ovl bs l err hasD qs rule: next_bundle_qi.induct)
  case (2 e aQuery ovl bs b rest err hasD qs)
  then show ?case
    by (auto simp: Let_def getNextQI_def split: option.splits if_splits prod.splits dest: next_by_prio_priority [where i = i])
qed simp

lemma getNext_round_keeps:
  assumes "getNext_round e aQuery ovl hasD st = Some (r, err, hasD', st')"
  shows "st_bundles st' = st_bundles st" "st_userBundleQueue st' = st_userBundleQueue st"
    "qi_priority (st_items st' i) = qi_priority (st_items st i)"
proof -
  show "st_bundles st' = st_bundles st" "st_userBundleQueue st' = st_userBundleQueue st"
    using assms by (auto simp: getNext_round_def split: option.splits)
  obtain x err1 qs where p: "getNextPrioQI e aQuery ovl st = Some (x, err1, qs)"
    using assms by (auto simp: getNext_round_def split: option.splits)
  then have k: "qi_priority (qs i) = qi_priority (st_items st i)"
    unfolding getNextPrioQI_def by (rule next_prio_qi_priority)
  show "qi_priority (st_items st' i) = qi_priority (st_items st i)"
  proof (cases x)
    case None
    then obtain y qs2 where "getNextBundleQI e aQuery ovl hasD (st\<lparr>st_items := qs\<rparr>) = Some (y, err, hasD', qs2)"
      and "st' = st\<lparr>st_items := qs2\<rparr>"
      using assms p by (auto simp: getNext_round_def)
    then show ?thesis unfolding getNextBundleQI_def using next_bundle_qi_priority [where i = i] k by fastforce
  qed (use assms p k in \<open>auto simp: getNext_round_def\<close>)
qed

lemma getNext_ok:
  assumes "getNext e aQuery hasD st = Some (r, err, hasD', st')" and ok: "queues_ok st"
  shows "queues_ok st'"
proof -
  obtain r1 err1 h1 st1 where 1: "getNext_round e aQuery False hasD st = Some (r1, err1, h1, st1)"
    using assms(1) by (auto simp: getNext_def split: option.splits)
  have ok1: "queues_ok st1" using queues_ok_cong [OF getNext_round_keeps [OF 1]] ok by simp
  show ?thesis
  proof (cases r1)
    case None
    then obtain r2 h2 where 2: "getNext_round e aQuery True h1 st1 = Some (r2, err, h2, st')"
      using assms(1) 1 by (auto simp: getNext_def split: option.splits)
    show ?thesis using queues_ok_cong [OF getNext_round_keeps [OF 2]] ok1 by simp
  next
    case (Some i)
    then show ?thesis using assms(1) 1 ok1 by (simp add: getNext_def)
  qed
qed

section \<open>Runs\<close>

text \<open>
  The calls of the class.  A file enters the queue of a user once, with a priority that has queues, and
  leaves it only from there, as \<open>QueueManager\<close> calls it.
\<close>

inductive queue_step :: "queue_state \<Rightarrow> queue_state \<Rightarrow> bool" where
  step_addQI: "qi_bundle (st_items st q) = Some b \<Longrightarrow> qi_priority (st_items st q) \<in> set queue_prios \<Longrightarrow>
     q \<notin> set (user_queue (st_bundles st b) (qi_priority (st_items st q)) (hu_user aUser)) \<Longrightarrow>
     queue_step st (addQI e q aUser isBad st)"
| step_removeQI: "qi_bundle (st_items st q) = Some b \<Longrightarrow>
     q \<in> set (user_queue (st_bundles st b) (qi_priority (st_items st q)) u) \<Longrightarrow>
     removeQI q u removeRunning reason st = Some st' \<Longrightarrow> queue_step st st'"
| step_priority: "queue_step st (setBundlePriority b p st)"
| step_addDownload: "queue_step st (uq_addDownload q d st)"
| step_removeDownload: "queue_step st (uq_removeDownload q t st)"
| step_getNext: "getNext e aQuery hasDownload st = Some (r, err, hasD, st') \<Longrightarrow> queue_step st st'"

inductive_cases queue_stepE: "queue_step st st'"

lemma queue_step_ok: "queue_step st st' \<Longrightarrow> queues_ok st \<Longrightarrow> queues_ok st'"
proof (induction rule: queue_step.induct)
  case (step_removeQI st q b u removeRunning reason st')
  then show ?case using removeQI_ok [of st q b u removeRunning reason] by auto
next
  case (step_addDownload st q d)
  show ?case
    using queues_ok_cong [of "uq_addDownload q d st" st] step_addDownload
    by (simp add: uq_addDownload_def addDownload_def)
next
  case (step_removeDownload st q t)
  show ?case
    using queues_ok_cong [of "uq_removeDownload q t st" st] step_removeDownload
    by (simp add: uq_removeDownload_def removeDownload_def)
qed (auto intro: addQI_ok setBundlePriority_ok getNext_ok)

text \<open>A start: no queue has an entry and no bundle has a source.\<close>

definition queues_empty :: "queue_state \<Rightarrow> bool" where
  "queues_empty st \<longleftrightarrow> st_userBundleQueue st = Map.empty
     \<and> (\<forall>b. bu_userQueue (st_bundles st b) = (\<lambda>_ _. None) \<and> bu_sources (st_bundles st b) = [])"

lemma queues_empty_ok: "queues_empty st \<Longrightarrow> queues_ok st"
  by (simp add: queues_empty_def queues_ok_def user_queues_ok_def bundle_queue_ok_def entry_count_def user_queue_def
      map_list_def bu_isSource_def find_source_def)

lemma queue_run_ok: "queue_step\<^sup>*\<^sup>* st st' \<Longrightarrow> queues_ok st \<Longrightarrow> queues_ok st'"
  by (induction rule: rtranclp_induct) (auto intro: queue_step_ok)


definition test_state :: queue_state where
  "test_state = \<lparr>st_items = (\<lambda>_. test_sourced\<lparr>qi_bundle := Some 0\<rparr>), st_bundles = (\<lambda>_. test_bundle),
     st_userPrioQueue = Map.empty, st_userBundleQueue = Map.empty, st_queued = (\<lambda>_. 0)\<rparr>"


end
