(* ===== verification/Paths.thy ===== *)
theory Paths
  imports Queue_Item
begin

text \<open>
  \<^bold>\<open>util/PathUtil.cpp\<close> (as it is compiled outside Windows), the case conversion of \<open>util/text/Text.cpp\<close>, and
  the names of \<open>filelist/ListLoader.cpp\<close> and \<open>filelist/DirectoryListingDirectory.cpp\<close> that become paths
  of downloads.  A position of the code is a natural number, \<open>npos\<close> is \<open>None\<close>; \<open>i - 1\<close> at \<open>i = 0\<close> is
  \<open>npos\<close>.  \<open>None\<close> as a result: a comparison without case reads past the end of a string.
\<close>

section \<open>Searching and case\<close>

abbreviation sep :: char where "sep \<equiv> CHR ''/''"

text \<open>\<open>s.find(pat, i)\<close> for a pattern that is not empty.\<close>

definition str_find :: "string \<Rightarrow> string \<Rightarrow> nat \<Rightarrow> nat option" where
  "str_find pat s i = find (\<lambda>k. take (length pat) (drop k s) = pat) [i..<length s]"

text \<open>\<open>s.rfind(c, i - 1)\<close> and \<open>s.find_last_of(c, i)\<close>.\<close>

definition rfind_before :: "char \<Rightarrow> string \<Rightarrow> nat \<Rightarrow> nat option" where
  "rfind_before c s i = (if i = 0 then rfind c s else rfind c (take i s))"

definition find_last_of :: "char \<Rightarrow> string \<Rightarrow> nat \<Rightarrow> nat option" where
  "find_last_of c s i = rfind c (take (Suc i) s)"

function toLower_loop :: "(wchar \<Rightarrow> wchar) \<Rightarrow> string \<Rightarrow> string" where
  "toLower_loop lower p =
     (if p = [] then []
      else
        let (n, c) = utf8ToWc p
        in if n < 0 then CHR ''_'' # toLower_loop lower (drop (nat \<bar>n\<bar>) p)
           else wcToUtf8 (lower c) @ toLower_loop lower (drop (nat n) p))"
  by pat_completeness auto
termination
proof (relation "measure (\<lambda>(lower, p). length p)", simp_all, goal_cases)
  case (1 p x n c)
  then have "n \<noteq> 0" using utf8ToWc_nonzero [of p] by (cases "utf8ToWc p") auto
  with 1 show ?case by (cases p) auto
qed

definition text_toLower :: "(wchar \<Rightarrow> wchar) \<Rightarrow> string \<Rightarrow> string" where
  "text_toLower lower str = (if str = [] then [] else toLower_loop lower str)"

section \<open>Cleaning\<close>

definition badChars :: "char \<Rightarrow> bool" where
  "badChars c \<longleftrightarrow> 1 \<le> (of_char c :: nat) \<and> (of_char c :: nat) \<le> 31"

text \<open>\<open>while((i = tmp.find(pat, i)) != npos) tmp.erase(i + 1, n)\<close>\<close>

function erase_loop :: "string \<Rightarrow> nat \<Rightarrow> nat \<Rightarrow> string \<Rightarrow> string" where
  "erase_loop pat n i tmp =
     (case str_find pat tmp i of
        None \<Rightarrow> tmp
      | Some j \<Rightarrow>
          if 0 < n \<and> Suc j < length tmp
          then erase_loop pat n j (take (Suc j) tmp @ drop (Suc j + n) tmp) else tmp)"
  by pat_completeness auto
termination
  by (relation "measure (\<lambda>(pat, n, i, tmp). length tmp)") auto

text \<open>The loops that break parent references, and dots in front of a separator \<open>s\<close>.\<close>

function parent_loop :: "char \<Rightarrow> nat \<Rightarrow> string \<Rightarrow> string" where
  "parent_loop s i tmp =
     (case str_find [s, CHR ''.'', CHR ''.'', s] tmp i of
        None \<Rightarrow> tmp
      | Some j \<Rightarrow>
          if i \<le> j \<and> j < length tmp
          then parent_loop s (j + 2) (tmp[j + 1 := CHR ''_'', j + 2 := CHR ''_'', j + 3 := CHR ''_'']) else tmp)"
  by pat_completeness auto
termination
  by (relation "measure (\<lambda>(s, i, tmp). length tmp - i)") auto

function dot_loop :: "char \<Rightarrow> nat \<Rightarrow> string \<Rightarrow> string" where
  "dot_loop s i tmp =
     (case str_find [CHR ''.'', s] tmp i of
        None \<Rightarrow> tmp
      | Some j \<Rightarrow>
          if i \<le> j \<and> j < length tmp
          then dot_loop s (j + 1) (if j \<noteq> 0 then tmp[j := CHR ''_''] else tmp) else tmp)"
  by pat_completeness auto
termination
  by (relation "measure (\<lambda>(s, i, tmp). length tmp - i)") auto

declare toLower_loop.simps [simp del] erase_loop.simps [simp del] parent_loop.simps [simp del] dot_loop.simps [simp del]

definition cleanPathSeparators :: "string \<Rightarrow> string" where
  "cleanPathSeparators str = map (\<lambda>c. if c = CHR ''/'' \<or> c = CHR 0x5C then CHR ''_'' else c) str"

definition cleanPathChars :: "string \<Rightarrow> bool \<Rightarrow> string" where
  "cleanPathChars tmp isFileName =
     (let tmp = map (\<lambda>c. if badChars c then CHR ''_'' else c) tmp;
          tmp = erase_loop [CHR 0x5C, CHR ''.'', CHR 0x5C] 2 0 tmp;
          tmp = erase_loop ''/./'' 2 0 tmp;
          i = (if isFileName then 0 else 1);
          tmp = erase_loop [CHR 0x5C, CHR 0x5C] 1 i tmp;
          tmp = erase_loop ''//'' 1 i tmp;
          tmp = parent_loop (CHR 0x5C) 0 tmp;
          tmp = parent_loop sep 0 tmp;
          tmp = dot_loop (CHR 0x5C) 0 tmp;
          tmp = dot_loop sep 0 tmp
      in if isFileName then cleanPathSeparators tmp else tmp)"

definition isDirectoryPath :: "string \<Rightarrow> char \<Rightarrow> bool" where
  "isDirectoryPath aPath aSeparator \<longleftrightarrow> aPath \<noteq> [] \<and> last aPath = aSeparator"

definition ensureTrailingSlash :: "string \<Rightarrow> char \<Rightarrow> string" where
  "ensureTrailingSlash aPath aSeparator =
     (if aPath \<noteq> [] \<and> \<not> isDirectoryPath aPath aSeparator then aPath @ [aSeparator] else aPath)"

definition validatePath :: "string \<Rightarrow> bool \<Rightarrow> string" where
  "validatePath aPath aRequireEndSeparator =
     (let path = cleanPathChars aPath False
      in if aRequireEndSeparator then ensureTrailingSlash path sep else path)"

definition validateDirectoryPath :: "string \<Rightarrow> string" where "validateDirectoryPath aPath = validatePath aPath True"
definition validateFilePath :: "string \<Rightarrow> string" where "validateFilePath aPath = validatePath aPath False"
definition validateFileName :: "string \<Rightarrow> string" where "validateFileName aFileName = cleanPathChars aFileName True"

text \<open>\<open>char\<close> is signed.\<close>

definition checkExtension :: "string \<Rightarrow> bool" where
  "checkExtension tmp \<longleftrightarrow>
     list_all (\<lambda>c. \<not> (128 \<le> (of_char c :: nat)) \<and> of_char c \<noteq> (32 :: nat) \<and> c \<noteq> CHR '':'') tmp
     \<and> \<not> list_ex (\<lambda>c. badChars c) tmp"

section \<open>Parts of paths\<close>

definition isAdcDirectoryPath :: "string \<Rightarrow> bool" where
  "isAdcDirectoryPath aPath \<longleftrightarrow> aPath \<noteq> [] \<and> hd aPath = sep \<and> last aPath = sep"

definition isAdcRoot :: "string \<Rightarrow> bool" where
  "isAdcRoot aPath \<longleftrightarrow> length aPath = 1 \<and> hd aPath = sep"

definition toAdcFile :: "string \<Rightarrow> string" where
  "toAdcFile file =
     (if file = ''files.xml.bz2'' \<or> file = ''files.xml'' then file
      else map (\<lambda>c. if c = CHR 0x5C then sep else c) (sep # file))"

definition toNmdcFile :: "string \<Rightarrow> string" where
  "toNmdcFile file = (if file = [] then [] else map (\<lambda>c. if c = sep then CHR 0x5C else c) (drop 1 file))"

definition getFilePath :: "char \<Rightarrow> string \<Rightarrow> string" where
  "getFilePath separator path = (case rfind separator path of Some i \<Rightarrow> take (i + 1) path | None \<Rightarrow> path)"

definition getFileName :: "char \<Rightarrow> string \<Rightarrow> string" where
  "getFileName separator path = (case rfind separator path of Some i \<Rightarrow> drop (i + 1) path | None \<Rightarrow> path)"

definition getFileExt :: "string \<Rightarrow> string" where
  "getFileExt path = (case rfind CHR ''.'' path of Some i \<Rightarrow> drop i path | None \<Rightarrow> [])"

text \<open>With \<open>i = j = 0\<close> the length \<open>i - j - 1\<close> is \<open>npos\<close>.\<close>

definition getLastDir :: "char \<Rightarrow> string \<Rightarrow> string" where
  "getLastDir separator path =
     (case rfind separator path of
        None \<Rightarrow> path
      | Some i \<Rightarrow>
          (case rfind_before separator path i of
             None \<Rightarrow> take i path
           | Some j \<Rightarrow> if i < j + 1 then drop (j + 1) path else take (i - j - 1) (drop (j + 1) path)))"

definition getParentDir :: "char \<Rightarrow> bool \<Rightarrow> string \<Rightarrow> string" where
  "getParentDir separator allowEmpty path =
     (case rfind separator path of
        None \<Rightarrow> if allowEmpty then [] else path
      | Some i \<Rightarrow>
          (case rfind_before separator path i of
             Some j \<Rightarrow> take (j + 1) path
           | None \<Rightarrow> if allowEmpty then [] else path))"

definition joinDirectory :: "string \<Rightarrow> string \<Rightarrow> char \<Rightarrow> string" where
  "joinDirectory aPath aDirectoryName separator = aPath @ aDirectoryName @ [separator]"

text \<open>\<open>compare\<close> of strings, by bytes.\<close>

definition str_compare :: "string \<Rightarrow> string \<Rightarrow> int" where
  "str_compare a b = (if a = b then 0 else if a < b then -1 else 1)"

definition pathSort :: "string \<Rightarrow> string \<Rightarrow> int" where
  "pathSort a b =
     (let comp = str_compare (getFilePath sep a) (getFilePath sep b)
      in if comp = 0 then str_compare a b else comp)"

section \<open>Comparing paths\<close>

definition isSub :: "(wchar \<Rightarrow> wchar) \<Rightarrow> char \<Rightarrow> string \<Rightarrow> string \<Rightarrow> bool option" where
  "isSub lower aSeparator aTestSub aParent =
     (if length aTestSub \<le> length aParent then Some False
      else
        case strnicmp lower aTestSub aParent (length aParent) of
          None \<Rightarrow> None
        | Some r \<Rightarrow>
            Some (r = 0 \<and> (aParent = [] \<or> last aParent = aSeparator \<or> aTestSub ! length aParent = aSeparator)))"

definition isParentOrExact :: "(wchar \<Rightarrow> wchar) \<Rightarrow> char \<Rightarrow> string \<Rightarrow> string \<Rightarrow> bool option" where
  "isParentOrExact lower aSeparator aTestParent aSub =
     (if length aSub < length aTestParent then Some False
      else
        case strnicmp lower aSub aTestParent (length aTestParent) of
          None \<Rightarrow> None
        | Some r \<Rightarrow>
            Some (r = 0 \<and> (aTestParent = [] \<or> length aTestParent = length aSub \<or> last aTestParent = aSeparator
                          \<or> aSub ! length aTestParent = aSeparator)))"

text \<open>\<open>strncmp\<close> compares C strings, which end at a null character.\<close>

definition isParentOrExactLower :: "char \<Rightarrow> string \<Rightarrow> string \<Rightarrow> bool" where
  "isParentOrExactLower aSeparator aParentLower aSubLower \<longleftrightarrow>
     (if length aSubLower < length aParentLower then False
      else if takeWhile (\<lambda>c. c \<noteq> CHR 0x00) (take (length aParentLower) aSubLower)
              \<noteq> takeWhile (\<lambda>c. c \<noteq> CHR 0x00) aParentLower then False
      else aParentLower = [] \<or> length aParentLower = length aSubLower \<or> last aParentLower = aSeparator
           \<or> aSubLower ! length aParentLower = aSeparator)"

lemma rfind_bound: "rfind c s = Some k \<Longrightarrow> k < length s"
  by (auto simp: rfind_def Let_def split: if_splits)

lemma find_last_of_bound: "find_last_of c s i = Some k \<Longrightarrow> k \<le> i"
  using rfind_bound [of c "take (Suc i) s" k] by (simp add: find_last_of_def)

text \<open>The lengths are far below \<open>2^31\<close>, where the cast to \<open>int\<close> is exact.\<close>

function compare_end_loop :: "(wchar \<Rightarrow> wchar) \<Rightarrow> char \<Rightarrow> string \<Rightarrow> string \<Rightarrow> nat \<Rightarrow> nat option" where
  "compare_end_loop lower aSubSeparator aMainPath aSubPath i =
     (let j = (case find_last_of aSubSeparator aSubPath i of None \<Rightarrow> 0 | Some j \<Rightarrow> j + 1)
      in if int (length aMainPath) - (int (length aSubPath) - int j) < 0 then Some (i + 2)
         else
           case stricmp lower (take (i + 1 - j) (drop j aSubPath))
                  (take (i + 1 - j) (drop (length aMainPath + j - length aSubPath) aMainPath)) of
             None \<Rightarrow> None
           | Some r \<Rightarrow>
               if r \<noteq> 0 then Some (i + 2)
               else if j \<le> 1 then Some 0
               else compare_end_loop lower aSubSeparator aMainPath aSubPath (j - 2))"
  by pat_completeness auto
termination
proof (relation "measure (\<lambda>(lower, s, m, p, i). i)", simp_all, goal_cases)
  case (1 lower s m p i)
  then show ?case using find_last_of_bound [of s p i] by (cases "find_last_of s p i") auto
qed

definition compareFromEnd :: "(wchar \<Rightarrow> wchar) \<Rightarrow> char \<Rightarrow> string \<Rightarrow> string \<Rightarrow> nat option" where
  "compareFromEnd lower aSubSeparator aMainPath aSubPath =
     (if 1 < length aSubPath
      then compare_end_loop lower aSubSeparator aMainPath aSubPath (length aSubPath - 2)
      else Some (length aSubPath))"

definition subtractCommonDirs :: "(wchar \<Rightarrow> wchar) \<Rightarrow> char \<Rightarrow> string \<Rightarrow> string \<Rightarrow> string option" where
  "subtractCommonDirs lower aSeparator aToCompare aToSubtract =
     map_option (\<lambda>res. take res aToSubtract) (compareFromEnd lower aSeparator aToCompare aToSubtract)"

text \<open>\<open>aMainPath.length() - aMainBaseLength\<close> wraps when the base is longer: then it exceeds every length.\<close>

definition getLastCommonDirectoryPathFromSub ::
  "(wchar \<Rightarrow> wchar) \<Rightarrow> char \<Rightarrow> string \<Rightarrow> string \<Rightarrow> nat \<Rightarrow> string option" where
  "getLastCommonDirectoryPathFromSub lower aSubSeparator aMainPath aSubPath aMainBaseLength =
     map_option
       (\<lambda>pos.
          let pos = (if pos < length aSubPath then
                       (case str_find [aSubSeparator] aSubPath (pos + 1) of Some pos2 \<Rightarrow> pos2 + 1 | None \<Rightarrow> pos)
                     else pos);
              rest = (if length aMainPath < aMainBaseLength then 0
                      else length aSubPath - (length aMainPath - aMainBaseLength))
          in take (max pos rest) aSubPath)
       (compareFromEnd lower aSubSeparator aMainPath aSubPath)"

definition getAdcMatchPath :: "(wchar \<Rightarrow> wchar) \<Rightarrow> string \<Rightarrow> string \<Rightarrow> string \<Rightarrow> bool \<Rightarrow> string option" where
  "getAdcMatchPath lower aRemoteFile aLocalFile aLocalBundlePath aNmdc =
     (if aNmdc then
        let pat = text_toLower lower (getLastDir sep aLocalBundlePath)
        in if pat = [] \<or> str_find pat (text_toLower lower aRemoteFile) 0 \<noteq> None then Some aLocalBundlePath
           else Some [sep]
      else
        let remoteFileDir = getFilePath sep aRemoteFile; localBundleFileDir = getFilePath sep aLocalFile
        in getLastCommonDirectoryPathFromSub lower sep localBundleFileDir remoteFileDir (length aLocalBundlePath))"

section \<open>Names in file lists\<close>

datatype listing_error = Name_missing | Forbidden_name | Name_has_separator

definition validateName :: "string \<Rightarrow> listing_error option" where
  "validateName aName =
     (if aName = [] then Some Name_missing
      else if aName = ''.'' \<or> aName = ''..'' then Some Forbidden_name
      else if sep \<in> set aName then Some Name_has_separator
      else None)"

record listing_file =
  lf_name :: string
  lf_size :: int
  lf_tth :: hash_value
  lf_remoteDate :: int

datatype dir_type = TYPE_NORMAL | TYPE_INCOMPLETE_CHILD | TYPE_INCOMPLETE_NOCHILD | TYPE_VIRTUAL

datatype listing_dir =
  Listing_dir (ld_name: string) (ld_type: dir_type) (ld_directories: "listing_dir list") (ld_files: "listing_file list")

text \<open>The directories are in the order of the map that holds them; every file has the default priority.\<close>

fun toBundleInfoList :: "string \<Rightarrow> listing_dir \<Rightarrow> (string \<times> listing_file) list" where
  "toBundleInfoList aTarget (Listing_dir name ty directories files) =
     concat (map (\<lambda>d. toBundleInfoList (joinDirectory aTarget (ld_name d) sep) d) directories)
     @ map (\<lambda>f. (aTarget @ lf_name f, f)) files"

text \<open>What the loader lets into a directory: every name below it was validated.\<close>

fun listing_accepted :: "listing_dir \<Rightarrow> bool" where
  "listing_accepted (Listing_dir name ty directories files) \<longleftrightarrow>
     list_all (\<lambda>d. validateName (ld_name d) = None \<and> listing_accepted d) directories
     \<and> list_all (\<lambda>f. validateName (lf_name f) = None) files"

section \<open>What a path names\<close>

text \<open>The components of a path, and the directories it leads through when \<open>..\<close> goes up.\<close>

fun components :: "string \<Rightarrow> string list" where
  "components [] = [[]]"
| "components (c # s) =
     (if c = sep then [] # components s else (c # hd (components s)) # tl (components s))"

definition resolve_step :: "string list \<Rightarrow> string \<Rightarrow> string list" where
  "resolve_step ds c = (if c = [] \<or> c = ''.'' then ds else if c = ''..'' then butlast ds else ds @ [c])"

definition resolve :: "string \<Rightarrow> string list" where
  "resolve path = foldl resolve_step [] (components path)"

lemma components_nonempty [simp]: "components s \<noteq> []"
  by (cases s) auto

lemma components_append: "components (a @ sep # b) = components a @ components b"
  by (induction a) auto

lemma components_plain: "sep \<notin> set s \<Longrightarrow> components s = [s]"
  by (induction s) auto

lemma resolve_append: "resolve (a @ sep # b) = foldl resolve_step (resolve a) (components b)"
  by (simp add: resolve_def components_append)

text \<open>A name that the loader accepts adds one directory.\<close>

lemma resolve_name:
  assumes "validateName n = None"
  shows "foldl resolve_step ds (components n) = ds @ [n]"
  using assms by (auto simp: validateName_def components_plain resolve_step_def split: if_splits)

fun join_names :: "string list \<Rightarrow> string" where
  "join_names [] = []"
| "join_names [n] = n"
| "join_names (n # m # ns) = n @ sep # join_names (m # ns)"

lemma resolve_names:
  "ns \<noteq> [] \<Longrightarrow> list_all (\<lambda>n. validateName n = None) ns \<Longrightarrow>
   foldl resolve_step ds (components (join_names ns)) = ds @ ns"
  by (induction ns arbitrary: ds rule: join_names.induct) (auto simp: components_append resolve_name)

lemma join_names_Cons: "ns \<noteq> [] \<Longrightarrow> join_names (n # ns) = n @ sep # join_names ns"
  by (cases ns) auto

lemma bundle_info_names:
  "listing_accepted d \<Longrightarrow> (n, f) \<in> set (toBundleInfoList t d) \<Longrightarrow>
   \<exists>ns. ns \<noteq> [] \<and> list_all (\<lambda>n. validateName n = None) ns \<and> n = t @ join_names ns"
proof (induction t d rule: toBundleInfoList.induct)
  case (1 t name ty directories files)
  then consider (here) "\<exists>g\<in>set files. n = t @ lf_name g"
    | (below) "\<exists>d\<in>set directories. (n, f) \<in> set (toBundleInfoList (joinDirectory t (ld_name d) sep) d)"
    by auto
  then show ?case
  proof cases
    case here
    then obtain g where "g \<in> set files" "n = t @ lf_name g" by auto
    with 1(2) show ?thesis by (intro exI [of _ "[lf_name g]"]) (auto simp: list_all_iff)
  next
    case below
    then obtain d where d: "d \<in> set directories" "(n, f) \<in> set (toBundleInfoList (joinDirectory t (ld_name d) sep) d)"
      by auto
    with 1(2) have a: "validateName (ld_name d) = None" "listing_accepted d" by (auto simp: list_all_iff)
    from 1(1) [OF d(1) a(2) d(2)] obtain ns where ns: "ns \<noteq> []" "list_all (\<lambda>n. validateName n = None) ns"
      "n = joinDirectory t (ld_name d) sep @ join_names ns" by auto
    then show ?thesis using a(1)
      by (intro exI [of _ "ld_name d # ns"]) (auto simp: join_names_Cons joinDirectory_def)
  qed
qed

section \<open>What cleaning leaves\<close>

lemma str_find_Some:
  assumes "str_find pat s i = Some j"
  shows "i \<le> j \<and> j < length s \<and> take (length pat) (drop j s) = pat
    \<and> (\<forall>k. i \<le> k \<and> k < j \<longrightarrow> take (length pat) (drop k s) \<noteq> pat)"
proof -
  obtain m where m: "m < length s - i" "j = [i..<length s] ! m" "take (length pat) (drop j s) = pat"
    "\<forall>l<m. take (length pat) (drop ([i..<length s] ! l) s) \<noteq> pat"
    using assms by (auto simp: str_find_def find_Some_iff)
  have "take (length pat) (drop k s) \<noteq> pat" if "i \<le> k" "k < j" for k
    using m(4) [rule_format, of "k - i"] m(1,2) that by auto
  with m show ?thesis by auto
qed

lemma str_find_None: "str_find pat s i = None \<Longrightarrow> i \<le> k \<Longrightarrow> k < length s \<Longrightarrow> take (length pat) (drop k s) \<noteq> pat"
  by (auto simp: str_find_def find_None_iff)

lemma take_two_eq: "take 2 (drop k s) = [a, b] \<longleftrightarrow> Suc k < length s \<and> s ! k = a \<and> s ! Suc k = b"
proof (cases "Suc k < length s")
  case True
  then have "drop k s = s ! k # s ! Suc k # drop (Suc (Suc k)) s" by (simp add: Cons_nth_drop_Suc)
  then show ?thesis using True by (simp add: numeral_2_eq_2)
next
  case False
  then have "length (take 2 (drop k s)) < 2" by simp
  then show ?thesis using False by (metis length_Cons list.size(3) numeral_2_eq_2 less_irrefl)
qed

text \<open>The loop over the dots replaces each dot in front of a separator, except at the start.\<close>

lemma dot_loop_nth:
  assumes "s \<noteq> CHR ''.''" and "s \<noteq> CHR ''_''"
  shows "length (dot_loop s i tmp) = length tmp
    \<and> (\<forall>k<length tmp. dot_loop s i tmp ! k
          = (if i \<le> k \<and> k \<noteq> 0 \<and> Suc k < length tmp \<and> tmp ! k = CHR ''.'' \<and> tmp ! Suc k = s then CHR ''_'' else tmp ! k))"
  using assms
proof (induction s i tmp rule: dot_loop.induct)
  case (1 s i tmp)
  show ?case
  proof (cases "str_find [CHR ''.'', s] tmp i")
    case None
    have "\<not> (Suc k < length tmp \<and> tmp ! k = CHR ''.'' \<and> tmp ! Suc k = s)" if "i \<le> k" "k < length tmp" for k
      using str_find_None [OF None that] take_two_eq [of k tmp "CHR ''.''" s] by (simp add: numeral_2_eq_2)
    moreover have "dot_loop s i tmp = tmp" using None by (subst dot_loop.simps) simp
    ultimately show ?thesis by auto
  next
    case (Some j)
    have f: "i \<le> j" "Suc j < length tmp" "tmp ! j = CHR ''.''" "tmp ! Suc j = s"
      and before: "\<And>k. i \<le> k \<Longrightarrow> k < j \<Longrightarrow> \<not> (Suc k < length tmp \<and> tmp ! k = CHR ''.'' \<and> tmp ! Suc k = s)"
      using str_find_Some [OF Some] take_two_eq [of _ tmp "CHR ''.''" s] by (auto simp: numeral_2_eq_2)
    define t where "t = (if j \<noteq> 0 then tmp[j := CHR ''_''] else tmp)"
    have r: "dot_loop s i tmp = dot_loop s (j + 1) t"
      using Some f by (subst dot_loop.simps) (simp add: t_def)
    have t: "length t = length tmp" "\<And>k. k \<noteq> j \<Longrightarrow> t ! k = tmp ! k" "j \<noteq> 0 \<Longrightarrow> t ! j = CHR ''_''" "j = 0 \<Longrightarrow> t = tmp"
      using f by (auto simp: t_def)
    have IH: "length (dot_loop s (j + 1) t) = length t"
      "\<And>k. k < length t \<Longrightarrow> dot_loop s (j + 1) t ! k
        = (if j + 1 \<le> k \<and> k \<noteq> 0 \<and> Suc k < length t \<and> t ! k = CHR ''.'' \<and> t ! Suc k = s then CHR ''_'' else t ! k)"
      using "1.IH" [OF Some] f "1.prems" by (auto simp: t_def)
    have "dot_loop s i tmp ! k
        = (if i \<le> k \<and> k \<noteq> 0 \<and> Suc k < length tmp \<and> tmp ! k = CHR ''.'' \<and> tmp ! Suc k = s then CHR ''_'' else tmp ! k)"
      if k: "k < length tmp" for k
    proof (cases "k = j")
      case True
      then show ?thesis using IH(2) [of k] k t f r by (cases "j = 0") auto
    next
      case False
      then show ?thesis using IH(2) [of k] k t f(1-3) before [of k] r by (cases "k < j") auto
    qed
    then show ?thesis using IH(1) t(1) r by simp
  qed
qed

lemma dot_loop_simps:
  assumes "s \<noteq> CHR ''.''" "s \<noteq> CHR ''_''"
  shows "length (dot_loop s 0 tmp) = length tmp"
    and "k < length tmp \<Longrightarrow> dot_loop s 0 tmp ! k
      = (if k \<noteq> 0 \<and> Suc k < length tmp \<and> tmp ! k = CHR ''.'' \<and> tmp ! Suc k = s then CHR ''_'' else tmp ! k)"
  using dot_loop_nth [OF assms, of 0 tmp] by auto

lemma no_dot_separator:
  assumes t: "cleanPathChars p False = a @ CHR ''.'' # c # b" and c: "c = sep \<or> c = CHR 0x5C"
  shows "a = []"
proof (rule ccontr)
  assume "a \<noteq> []"
  obtain u where u: "cleanPathChars p False = dot_loop sep 0 (dot_loop (CHR 0x5C) 0 u)"
    unfolding cleanPathChars_def Let_def by simp
  define v where "v = dot_loop (CHR 0x5C) 0 u"
  define k where "k = length a"
  have k: "k \<noteq> 0" "Suc k < length (dot_loop sep 0 v)" "dot_loop sep 0 v ! k = CHR ''.''" "dot_loop sep 0 v ! Suc k = c"
    using \<open>a \<noteq> []\<close> t u by (simp_all add: k_def v_def nth_append)
  then have len: "Suc k < length v" "Suc k < length u" using dot_loop_simps(1) [of sep v] dot_loop_simps(1) [of "CHR 0x5C" u] by (simp_all add: v_def)
  have o: "v ! k = CHR ''.''" "v ! Suc k = c" "c \<noteq> sep"
    using k c len dot_loop_simps(2) [of sep k v] dot_loop_simps(2) [of sep "Suc k" v] by (auto split: if_splits)
  then have "c = CHR 0x5C" using c by simp
  with o(1,2) len k(1) show False
    using dot_loop_simps(2) [of "CHR 0x5C" k u] dot_loop_simps(2) [of "CHR 0x5C" "Suc k" u] by (auto simp: v_def split: if_splits)
qed

lemma components_join:
  "concat (map (\<lambda>c. c @ [sep]) (butlast (components t))) @ last (components t) = t"
proof (induction t)
  case (Cons x t)
  then show ?case by (cases "components t") auto
qed simp

lemma butlast_component:
  assumes "c \<in> set (butlast (components t))"
  shows "\<exists>a b. t = a @ c @ sep # b"
proof -
  obtain us vs where "butlast (components t) = us @ c # vs" using split_list [OF assms] by blast
  then have "t = concat (map (\<lambda>c. c @ [sep]) us) @ c @ sep # (concat (map (\<lambda>c. c @ [sep]) vs) @ last (components t))"
    using components_join [of t] by simp
  then show ?thesis by blast
qed

lemma set_erase_loop: "set (erase_loop pat n i tmp) \<subseteq> set tmp"
proof (induction pat n i tmp rule: erase_loop.induct)
  case (1 pat n i tmp)
  show ?case
  proof (cases "str_find pat tmp i")
    case (Some j)
    have "set (take (Suc j) tmp @ drop (Suc j + n) tmp) \<subseteq> set tmp" by (auto dest: in_set_takeD in_set_dropD)
    with 1 [OF Some] show ?thesis using Some by (subst erase_loop.simps) auto
  qed (simp add: erase_loop.simps)
qed

lemma set_update: "set (xs[i := x]) \<subseteq> insert x (set xs)"
  by (rule set_update_subset_insert)

lemma set_parent_loop: "set (parent_loop s i tmp) \<subseteq> insert CHR ''_'' (set tmp)"
proof (induction s i tmp rule: parent_loop.induct)
  case (1 s i tmp)
  show ?case
  proof (cases "str_find [s, CHR ''.'', CHR ''.'', s] tmp i")
    case (Some j)
    let ?t = "tmp[j + 1 := CHR ''_'', j + 2 := CHR ''_'', j + 3 := CHR ''_'']"
    have "set ?t \<subseteq> insert CHR ''_'' (set tmp)" by (meson order_trans set_update insert_mono insert_subset order_refl insertI1)
    with 1 [OF Some] show ?thesis using Some by (subst parent_loop.simps) auto
  qed (subst parent_loop.simps, auto)
qed

lemma set_dot_loop: "set (dot_loop s i tmp) \<subseteq> insert CHR ''_'' (set tmp)"
proof (induction s i tmp rule: dot_loop.induct)
  case (1 s i tmp)
  show ?case
  proof (cases "str_find [CHR ''.'', s] tmp i")
    case (Some j)
    define t where "t = (if j \<noteq> 0 then tmp[j := CHR ''_''] else tmp)"
    have t: "set t \<subseteq> insert CHR ''_'' (set tmp)" using set_update [of tmp j "CHR ''_''"] by (simp add: t_def subset_insertI)
    have "set (dot_loop s (j + 1) t) \<subseteq> insert CHR ''_'' (set t)" if "i \<le> j \<and> j < length tmp"
      using 1 [OF Some that] by (simp add: t_def)
    moreover have "dot_loop s i tmp = (if i \<le> j \<and> j < length tmp then dot_loop s (j + 1) t else tmp)"
      using Some by (subst dot_loop.simps) (simp add: t_def)
    ultimately show ?thesis using t by auto
  qed (subst dot_loop.simps, auto)
qed

lemma set_cleanPathChars: "c \<in> set (cleanPathChars p f) \<Longrightarrow> \<not> badChars c"
proof -
  define t0 where "t0 = map (\<lambda>c. if badChars c then CHR ''_'' else c) p"
  define i where "i = (if f then 0 else 1 :: nat)"
  define t1 where "t1 = erase_loop ''//'' 1 i (erase_loop [CHR 0x5C, CHR 0x5C] 1 i
    (erase_loop ''/./'' 2 0 (erase_loop [CHR 0x5C, CHR ''.'', CHR 0x5C] 2 0 t0)))"
  define t2 where "t2 = dot_loop sep 0 (dot_loop (CHR 0x5C) 0 (parent_loop sep 0 (parent_loop (CHR 0x5C) 0 t1)))"
  have u: "\<not> badChars CHR ''_''" by (simp add: badChars_def)
  have "set t1 \<subseteq> set t0" unfolding t1_def using set_erase_loop by blast
  then have "set t2 \<subseteq> insert CHR ''_'' (set t0)" unfolding t2_def using set_parent_loop set_dot_loop by blast
  then have "\<forall>c\<in>set t2. \<not> badChars c" using u by (auto simp: t0_def)
  moreover have "cleanPathChars p f = (if f then cleanPathSeparators t2 else t2)"
    unfolding cleanPathChars_def Let_def t2_def t1_def t0_def i_def ..
  moreover assume "c \<in> set (cleanPathChars p f)"
  ultimately show ?thesis using u by (auto simp: cleanPathSeparators_def split: if_splits)
qed

section \<open>Properties\<close>

text \<open>
  C21: a cleaned path has no control character, no dot in front of a separator except as its first
  character, and no component \<open>..\<close> that is followed by a separator; a cleaned file name has no separator
  either.  A last component \<open>..\<close> is not changed, and the separator that \<open>validateDirectoryPath\<close> adds
  turns it into a parent reference.
\<close>

theorem clean_path_components:
  "(\<forall>c\<in>set (cleanPathChars p False). \<not> badChars c)
   \<and> (\<forall>a b c. cleanPathChars p False = a @ CHR ''.'' # c # b \<and> (c = sep \<or> c = CHR 0x5C) \<longrightarrow> a = [])
   \<and> ''..'' \<notin> set (butlast (components (cleanPathChars p False)))
   \<and> sep \<notin> set (validateFileName p)
   \<and> validateDirectoryPath ''/a/..'' = ''/a/../''"
proof (intro conjI)
  show "''..'' \<notin> set (butlast (components (cleanPathChars p False)))"
  proof
    assume "''..'' \<in> set (butlast (components (cleanPathChars p False)))"
    then obtain a b where "cleanPathChars p False = a @ ''..'' @ sep # b" using butlast_component by blast
    then have "cleanPathChars p False = (a @ ''.'') @ CHR ''.'' # sep # b" by simp
    from no_dot_separator [OF this] show False by simp
  qed
  show "sep \<notin> set (validateFileName p)"
    by (auto simp: validateFileName_def cleanPathChars_def Let_def cleanPathSeparators_def split: if_splits)
  show "validateDirectoryPath ''/a/..'' = ''/a/../''" by code_simp
qed (use set_cleanPathChars no_dot_separator in blast)+

theorem clean_path_components_witness:
  "''..'' \<notin> set (butlast (components (cleanPathChars ''/a/../b'' False))) \<and> cleanPathChars ''/a/../b'' False = ''/a/___b''"
proof
  show "''..'' \<notin> set (butlast (components (cleanPathChars ''/a/../b'' False)))"
    using clean_path_components [of "''/a/../b''"] by blast
  show "cleanPathChars ''/a/../b'' False = ''/a/___b''" by code_simp
qed

text \<open>
  C22: the files of a list whose names the loader accepted are downloaded below the chosen directory: the
  path of each file is the base followed by accepted names, and leads from the base only downwards.
\<close>

theorem listing_stays_inside:
  assumes "listing_accepted d" and "(n, f) \<in> set (toBundleInfoList [] d)"
  shows "\<exists>ns. ns \<noteq> [] \<and> n = join_names ns \<and> resolve (base @ sep # n) = resolve base @ ns"
  using bundle_info_names [OF assms] by (force simp: resolve_append resolve_names)

theorem listing_stays_inside_witness:
  "\<exists>ns. ns \<noteq> [] \<and> resolve ''/home/x/..//b/d/f'' = resolve ''/home/x/../'' @ ns"
proof -
  let ?f = "\<lparr>lf_name = ''f'', lf_size = 3, lf_tth = [], lf_remoteDate = 0\<rparr>"
  have a: "listing_accepted (Listing_dir ''r'' TYPE_NORMAL [Listing_dir ''b'' TYPE_NORMAL [Listing_dir ''d'' TYPE_NORMAL [] [?f]] []] [])"
    by (simp add: validateName_def)
  have "(''b/d/f'', ?f) \<in> set (toBundleInfoList [] (Listing_dir ''r'' TYPE_NORMAL [Listing_dir ''b'' TYPE_NORMAL [Listing_dir ''d'' TYPE_NORMAL [] [?f]] []] []))"
    by (simp add: joinDirectory_def)
  from listing_stays_inside [OF a this, of "''/home/x/../''"] show ?thesis by auto
qed

end
