(* ===== verification/Dupes.thy ===== *)
theory Dupes
  imports Main
begin

text \<open>
  \<^bold>\<open>core/types/DupeType.h\<close> and the decisions of \<open>util/DupeUtil.cpp\<close> on duplicates: what the share, the queue and the
  finished files have of a file or directory.  A set of types is the list of its elements.
\<close>

datatype dupe_type =
    DUPE_NONE | DUPE_SHARE_PARTIAL | DUPE_SHARE_FULL | DUPE_QUEUE_PARTIAL | DUPE_QUEUE_FULL
  | DUPE_FINISHED_PARTIAL | DUPE_FINISHED_FULL | DUPE_SHARE_QUEUE | DUPE_SHARE_FINISHED | DUPE_QUEUE_FINISHED
  | DUPE_SHARE_QUEUE_FINISHED

definition isShareOnlyDupe :: "dupe_type \<Rightarrow> bool" where
  "isShareOnlyDupe aType \<longleftrightarrow> aType = DUPE_SHARE_FULL \<or> aType = DUPE_SHARE_PARTIAL"

definition isQueueOnlyDupe :: "dupe_type \<Rightarrow> bool" where
  "isQueueOnlyDupe aType \<longleftrightarrow> aType = DUPE_QUEUE_FULL \<or> aType = DUPE_QUEUE_PARTIAL"

definition isFinishedOnlyDupe :: "dupe_type \<Rightarrow> bool" where
  "isFinishedOnlyDupe aType \<longleftrightarrow> aType = DUPE_FINISHED_FULL \<or> aType = DUPE_FINISHED_PARTIAL"

definition isShareDupe :: "dupe_type \<Rightarrow> bool \<Rightarrow> bool" where
  "isShareDupe aType aAllowPartial =
     (if aType = DUPE_SHARE_FULL then True
      else if aAllowPartial \<and> (aType = DUPE_SHARE_PARTIAL \<or> aType = DUPE_SHARE_QUEUE_FINISHED
                \<or> aType = DUPE_SHARE_QUEUE \<or> aType = DUPE_SHARE_FINISHED) then True
      else False)"

definition isQueueDupe :: "dupe_type \<Rightarrow> bool \<Rightarrow> bool" where
  "isQueueDupe aType aAllowPartial =
     (if aType = DUPE_QUEUE_FULL then True
      else if aAllowPartial \<and> (aType = DUPE_QUEUE_PARTIAL \<or> aType = DUPE_SHARE_QUEUE_FINISHED
                \<or> aType = DUPE_SHARE_QUEUE \<or> aType = DUPE_QUEUE_FINISHED) then True
      else False)"

definition isFinishedDupe :: "dupe_type \<Rightarrow> bool \<Rightarrow> bool" where
  "isFinishedDupe aType aAllowPartial =
     (if aType = DUPE_FINISHED_FULL then True
      else if aAllowPartial \<and> (aType = DUPE_FINISHED_PARTIAL \<or> aType = DUPE_SHARE_QUEUE_FINISHED
                \<or> aType = DUPE_SHARE_FINISHED \<or> aType = DUPE_QUEUE_FINISHED) then True
      else False)"

text \<open>The share is asked first, then the queue.\<close>

definition checkAdcDirectoryDupe :: "dupe_type \<Rightarrow> dupe_type \<Rightarrow> dupe_type" where
  "checkAdcDirectoryDupe share queue = (if share \<noteq> DUPE_NONE then share else queue)"

definition checkFileDupe :: "bool \<Rightarrow> dupe_type \<Rightarrow> dupe_type" where
  "checkFileDupe shared queue = (if shared then DUPE_SHARE_FULL else queue)"

definition allowOpenDirectoryDupe :: "dupe_type \<Rightarrow> bool" where
  "allowOpenDirectoryDupe aType \<longleftrightarrow> aType \<noteq> DUPE_NONE"

definition allowOpenFileDupe :: "dupe_type \<Rightarrow> bool" where
  "allowOpenFileDupe aType \<longleftrightarrow> aType \<noteq> DUPE_NONE \<and> aType \<noteq> DUPE_QUEUE_FULL"

definition parseDirectoryContentDupe :: "dupe_type list \<Rightarrow> dupe_type" where
  "parseDirectoryContentDupe aDupeSet =
     (if aDupeSet = [] \<or> list_all (\<lambda>d. d = DUPE_NONE) aDupeSet then DUPE_NONE
      else if list_all (\<lambda>d. d = DUPE_SHARE_FULL) aDupeSet then DUPE_SHARE_FULL
      else if list_all (\<lambda>d. d = DUPE_QUEUE_FULL) aDupeSet then DUPE_QUEUE_FULL
      else if list_all (\<lambda>d. d = DUPE_FINISHED_FULL) aDupeSet then DUPE_FINISHED_FULL
      else if list_all (\<lambda>d. isShareOnlyDupe d \<or> d = DUPE_NONE) aDupeSet then DUPE_SHARE_PARTIAL
      else if list_all (\<lambda>d. isQueueOnlyDupe d \<or> d = DUPE_NONE) aDupeSet then DUPE_QUEUE_PARTIAL
      else if list_all (\<lambda>d. isFinishedOnlyDupe d \<or> d = DUPE_NONE) aDupeSet then DUPE_FINISHED_PARTIAL
      else if list_all (\<lambda>d. isFinishedOnlyDupe d \<or> isQueueOnlyDupe d \<or> d = DUPE_QUEUE_FINISHED \<or> d = DUPE_NONE) aDupeSet
           then DUPE_QUEUE_FINISHED
      else if list_all (\<lambda>d. isFinishedOnlyDupe d \<or> isShareOnlyDupe d \<or> d = DUPE_SHARE_FINISHED \<or> d = DUPE_NONE) aDupeSet
           then DUPE_SHARE_FINISHED
      else if list_all (\<lambda>d. isQueueOnlyDupe d \<or> isShareOnlyDupe d \<or> d = DUPE_SHARE_QUEUE \<or> d = DUPE_NONE) aDupeSet
           then DUPE_SHARE_QUEUE
      else DUPE_SHARE_QUEUE_FINISHED)"

lemmas dupe_classes = isShareOnlyDupe_def isQueueOnlyDupe_def isFinishedOnlyDupe_def
  isShareDupe_def isQueueDupe_def isFinishedDupe_def

definition some_dupe :: "(dupe_type \<Rightarrow> bool \<Rightarrow> bool) \<Rightarrow> dupe_type list \<Rightarrow> bool" where
  "some_dupe P ds \<longleftrightarrow> (\<exists>d\<in>set ds. P d True)"

text \<open>The conditions of the cascade, in terms of which kinds occur.\<close>

lemma dupe_conditions:
  "d = DUPE_NONE \<longleftrightarrow> \<not> isShareDupe d True \<and> \<not> isQueueDupe d True \<and> \<not> isFinishedDupe d True"
  "isShareOnlyDupe d \<or> d = DUPE_NONE \<longleftrightarrow> \<not> isQueueDupe d True \<and> \<not> isFinishedDupe d True"
  "isQueueOnlyDupe d \<or> d = DUPE_NONE \<longleftrightarrow> \<not> isShareDupe d True \<and> \<not> isFinishedDupe d True"
  "isFinishedOnlyDupe d \<or> d = DUPE_NONE \<longleftrightarrow> \<not> isShareDupe d True \<and> \<not> isQueueDupe d True"
  "isFinishedOnlyDupe d \<or> isQueueOnlyDupe d \<or> d = DUPE_QUEUE_FINISHED \<or> d = DUPE_NONE \<longleftrightarrow> \<not> isShareDupe d True"
  "isFinishedOnlyDupe d \<or> isShareOnlyDupe d \<or> d = DUPE_SHARE_FINISHED \<or> d = DUPE_NONE \<longleftrightarrow> \<not> isQueueDupe d True"
  "isQueueOnlyDupe d \<or> isShareOnlyDupe d \<or> d = DUPE_SHARE_QUEUE \<or> d = DUPE_NONE \<longleftrightarrow> \<not> isFinishedDupe d True"
  by (cases d; simp add: dupe_classes)+

lemma parse_dupes:
  "parseDirectoryContentDupe ds =
     (let s = some_dupe isShareDupe ds; q = some_dupe isQueueDupe ds; f = some_dupe isFinishedDupe ds in
      if \<not> s \<and> \<not> q \<and> \<not> f then DUPE_NONE
      else if \<forall>d\<in>set ds. d = DUPE_SHARE_FULL then DUPE_SHARE_FULL
      else if \<forall>d\<in>set ds. d = DUPE_QUEUE_FULL then DUPE_QUEUE_FULL
      else if \<forall>d\<in>set ds. d = DUPE_FINISHED_FULL then DUPE_FINISHED_FULL
      else if \<not> q \<and> \<not> f then DUPE_SHARE_PARTIAL
      else if \<not> s \<and> \<not> f then DUPE_QUEUE_PARTIAL
      else if \<not> s \<and> \<not> q then DUPE_FINISHED_PARTIAL
      else if \<not> s then DUPE_QUEUE_FINISHED
      else if \<not> q then DUPE_SHARE_FINISHED
      else if \<not> f then DUPE_SHARE_QUEUE
      else DUPE_SHARE_QUEUE_FINISHED)"
proof -
  have none: "ds = [] \<or> (\<forall>d\<in>set ds. d = DUPE_NONE)
      \<longleftrightarrow> \<not> some_dupe isShareDupe ds \<and> \<not> some_dupe isQueueDupe ds \<and> \<not> some_dupe isFinishedDupe ds"
    unfolding some_dupe_def dupe_conditions(1) by auto
  have rest: "(\<forall>d\<in>set ds. isShareOnlyDupe d \<or> d = DUPE_NONE) \<longleftrightarrow> \<not> some_dupe isQueueDupe ds \<and> \<not> some_dupe isFinishedDupe ds"
    "(\<forall>d\<in>set ds. isQueueOnlyDupe d \<or> d = DUPE_NONE) \<longleftrightarrow> \<not> some_dupe isShareDupe ds \<and> \<not> some_dupe isFinishedDupe ds"
    "(\<forall>d\<in>set ds. isFinishedOnlyDupe d \<or> d = DUPE_NONE) \<longleftrightarrow> \<not> some_dupe isShareDupe ds \<and> \<not> some_dupe isQueueDupe ds"
    "(\<forall>d\<in>set ds. isFinishedOnlyDupe d \<or> isQueueOnlyDupe d \<or> d = DUPE_QUEUE_FINISHED \<or> d = DUPE_NONE) \<longleftrightarrow> \<not> some_dupe isShareDupe ds"
    "(\<forall>d\<in>set ds. isFinishedOnlyDupe d \<or> isShareOnlyDupe d \<or> d = DUPE_SHARE_FINISHED \<or> d = DUPE_NONE) \<longleftrightarrow> \<not> some_dupe isQueueDupe ds"
    "(\<forall>d\<in>set ds. isQueueOnlyDupe d \<or> isShareOnlyDupe d \<or> d = DUPE_SHARE_QUEUE \<or> d = DUPE_NONE) \<longleftrightarrow> \<not> some_dupe isFinishedDupe ds"
    unfolding some_dupe_def dupe_conditions(2-7) by blast+
  show ?thesis unfolding parseDirectoryContentDupe_def list_all_iff none rest Let_def ..
qed

lemma full_dupes:
  "isShareDupe d False \<longleftrightarrow> d = DUPE_SHARE_FULL" "isQueueDupe d False \<longleftrightarrow> d = DUPE_QUEUE_FULL"
  "isFinishedDupe d False \<longleftrightarrow> d = DUPE_FINISHED_FULL"
  by (simp_all add: dupe_classes)

text \<open>Contents that are all of one full kind are of no other kind.\<close>

lemma all_full_dupes:
  "ds \<noteq> [] \<Longrightarrow> \<forall>d\<in>set ds. d = c \<Longrightarrow> some_dupe P ds \<longleftrightarrow> P c True"
  by (cases ds) (auto simp: some_dupe_def)

section \<open>Properties\<close>

text \<open>
  the type of a directory says exactly what its contents say together: it is in the share (the queue,
  the finished files) in part or full when some content is, and in full only when every content is.
\<close>

lemma directory_dupe:
  "(isShareDupe (parseDirectoryContentDupe ds) True \<longleftrightarrow> (\<exists>d\<in>set ds. isShareDupe d True))
   \<and> (isQueueDupe (parseDirectoryContentDupe ds) True \<longleftrightarrow> (\<exists>d\<in>set ds. isQueueDupe d True))
   \<and> (isFinishedDupe (parseDirectoryContentDupe ds) True \<longleftrightarrow> (\<exists>d\<in>set ds. isFinishedDupe d True))
   \<and> (isShareDupe (parseDirectoryContentDupe ds) False \<longleftrightarrow> ds \<noteq> [] \<and> (\<forall>d\<in>set ds. isShareDupe d False))
   \<and> (isQueueDupe (parseDirectoryContentDupe ds) False \<longleftrightarrow> ds \<noteq> [] \<and> (\<forall>d\<in>set ds. isQueueDupe d False))
   \<and> (isFinishedDupe (parseDirectoryContentDupe ds) False \<longleftrightarrow> ds \<noteq> [] \<and> (\<forall>d\<in>set ds. isFinishedDupe d False))"
proof (cases "ds = []")
  case True
  then show ?thesis by (simp add: parseDirectoryContentDupe_def dupe_classes)
next
  case False
  note full = all_full_dupes [OF False]
  let ?p = "parseDirectoryContentDupe ds"
  consider (sf) "\<forall>d\<in>set ds. d = DUPE_SHARE_FULL" | (qf) "\<forall>d\<in>set ds. d = DUPE_QUEUE_FULL"
    | (ff) "\<forall>d\<in>set ds. d = DUPE_FINISHED_FULL"
    | (mixed) "\<not> (\<forall>d\<in>set ds. d = DUPE_SHARE_FULL)" "\<not> (\<forall>d\<in>set ds. d = DUPE_QUEUE_FULL)" "\<not> (\<forall>d\<in>set ds. d = DUPE_FINISHED_FULL)"
    by blast
  then show ?thesis
  proof cases
    case sf
    then have "?p = DUPE_SHARE_FULL" using False full [OF sf] by (simp add: parse_dupes dupe_classes)
    then show ?thesis using sf False by (cases ds) (auto simp: dupe_classes)
  next
    case qf
    then have "?p = DUPE_QUEUE_FULL" using False full [OF qf] by (cases ds) (auto simp: parse_dupes dupe_classes)
    then show ?thesis using qf False by (cases ds) (auto simp: dupe_classes)
  next
    case ff
    then have "?p = DUPE_FINISHED_FULL" using False full [OF ff] by (cases ds) (auto simp: parse_dupes dupe_classes)
    then show ?thesis using ff False by (cases ds) (auto simp: dupe_classes)
  next
    case mixed
    with False show ?thesis
      unfolding full_dupes some_dupe_def [symmetric]
      by (cases "some_dupe isShareDupe ds"; cases "some_dupe isQueueDupe ds"; cases "some_dupe isFinishedDupe ds";
          simp add: parse_dupes dupe_classes)
  qed
qed

lemma directory_dupe_witness:
  "isQueueDupe (parseDirectoryContentDupe [DUPE_SHARE_FULL, DUPE_QUEUE_PARTIAL]) True
   \<and> \<not> isFinishedDupe (parseDirectoryContentDupe [DUPE_SHARE_FULL, DUPE_QUEUE_PARTIAL]) True"
proof -
  have "\<exists>d\<in>set [DUPE_SHARE_FULL, DUPE_QUEUE_PARTIAL]. isQueueDupe d True"
    "\<not> (\<exists>d\<in>set [DUPE_SHARE_FULL, DUPE_QUEUE_PARTIAL]. isFinishedDupe d True)"
    by (simp_all add: dupe_classes)
  with directory_dupe [of "[DUPE_SHARE_FULL, DUPE_QUEUE_PARTIAL]"] show ?thesis by blast
qed

end
