(* ===== verification/File_Queue.thy ===== *)
theory File_Queue
  imports Bundle Paths Dupes
begin

text \<open>
  \<^bold>\<open>queue/FileQueue.cpp\<close>: the queued files by path, by hash and by token.  A file is the number that is its
  token, in the store \<open>fq_items\<close>.  \<open>pathQueue\<close> compares paths without case (\<open>noCaseStringHash\<close>,
  \<open>noCaseStringEq\<close>); its keys are the lower-case characters of the path, which decide \<open>stricmp\<close> (see
  \<open>Utf8\<close>).  The files of one hash are in the order in which they were added; the code takes the order of
  the \<open>unordered_multimap\<close>.
\<close>

section \<open>Operations\<close>

definition path_key :: "env \<Rightarrow> string \<Rightarrow> wchar list" where
  "path_key e aPath = map (e_lower e) (utf8_chars aPath)"

record file_queue =
  fq_items :: "nat \<Rightarrow> queue_item"
  fq_pathQueue :: "wchar list \<Rightarrow> nat option"
  fq_tthIndex :: "hash_value \<Rightarrow> nat list"
  fq_tokenQueue :: "nat \<Rightarrow> nat option"

text \<open>The file of the path, and whether it was added.\<close>

definition fq_add :: "env \<Rightarrow> nat \<Rightarrow> file_queue \<Rightarrow> (nat \<times> bool) \<times> file_queue" where
  "fq_add e i fq =
     (let qi = fq_items fq i in
      case fq_pathQueue fq (path_key e (qi_target qi)) of
        Some j \<Rightarrow> ((j, False), fq)
      | None \<Rightarrow>
          ((i, True),
           fq\<lparr>fq_pathQueue := (fq_pathQueue fq)(path_key e (qi_target qi) \<mapsto> i),
              fq_items := (fq_items fq)(i := qi\<lparr>qi_status := QI_QUEUED\<rparr>),
              fq_tthIndex := (fq_tthIndex fq)(qi_tth qi := fq_tthIndex fq (qi_tth qi) @ [i]),
              fq_tokenQueue := (case fq_tokenQueue fq (qi_token qi) of
                                  None \<Rightarrow> (fq_tokenQueue fq)(qi_token qi \<mapsto> i) | Some _ \<Rightarrow> fq_tokenQueue fq)\<rparr>))"

text \<open>\<open>add\<close> with the parts of a new file, whose token is \<open>tok\<close>.\<close>

definition fq_add_new ::
  "env \<Rightarrow> nat \<Rightarrow> string \<Rightarrow> int \<Rightarrow> flags \<Rightarrow> prio \<Rightarrow> string \<Rightarrow> int \<Rightarrow> hash_value \<Rightarrow> file_queue \<Rightarrow> (nat \<times> bool) \<times> file_queue" where
  "fq_add_new e tok aTarget aSize aFlags p aTempTarget aAdded aRoot fq =
     (let qi = queue_item_new (e_set e) tok aTarget aSize p aFlags aAdded aRoot aTempTarget
      in fq_add e tok (fq\<lparr>fq_items := (fq_items fq)(tok := qi)\<rparr>))"

definition fq_remove :: "env \<Rightarrow> nat \<Rightarrow> file_queue \<Rightarrow> file_queue" where
  "fq_remove e i fq =
     (let qi = fq_items fq i
      in fq\<lparr>fq_pathQueue := (fq_pathQueue fq)(path_key e (qi_target qi) := None),
            fq_tthIndex := (fq_tthIndex fq)(qi_tth qi := erase_first (\<lambda>j. j = i) (fq_tthIndex fq (qi_tth qi))),
            fq_tokenQueue := (fq_tokenQueue fq)(qi_token qi := None)\<rparr>)"

definition findFile :: "env \<Rightarrow> string \<Rightarrow> file_queue \<Rightarrow> nat option" where
  "findFile e aTarget fq = fq_pathQueue fq (path_key e aTarget)"

definition findFile_token :: "nat \<Rightarrow> file_queue \<Rightarrow> nat option" where
  "findFile_token aToken fq = fq_tokenQueue fq aToken"

definition findFiles :: "hash_value \<Rightarrow> file_queue \<Rightarrow> nat list" where
  "findFiles tth fq = fq_tthIndex fq tth"

definition getQueuedFile :: "hash_value \<Rightarrow> file_queue \<Rightarrow> nat option" where
  "getQueuedFile aTTH fq = (case fq_tthIndex fq aTTH of [] \<Rightarrow> None | i # _ \<Rightarrow> Some i)"

definition isFileQueued :: "hash_value \<Rightarrow> file_queue \<Rightarrow> dupe_type" where
  "isFileQueued aTTH fq =
     (case getQueuedFile aTTH fq of
        Some i \<Rightarrow> if qi_isDownloaded (fq_items fq i) then DUPE_FINISHED_FULL else DUPE_QUEUE_FULL
      | None \<Rightarrow> DUPE_NONE)"

definition match_file :: "file_queue \<Rightarrow> listing_file \<Rightarrow> nat list \<Rightarrow> nat list" where
  "match_file fq f ql =
     fold (\<lambda>i ql. if \<not> qi_isDownloaded (fq_items fq i) \<and> qi_size (fq_items fq i) = lf_size f \<and> i \<notin> set ql
                  then ql @ [i] else ql) (fq_tthIndex fq (lf_tth f)) ql"

fun matchDir :: "file_queue \<Rightarrow> listing_dir \<Rightarrow> nat list \<Rightarrow> nat list" where
  "matchDir fq (Listing_dir name ty directories files) ql =
     fold (match_file fq) files
       (fold (\<lambda>d ql. if ld_type d \<noteq> TYPE_VIRTUAL then matchDir fq d ql else ql) directories ql)"

definition matchListing :: "file_queue \<Rightarrow> listing_dir \<Rightarrow> nat list" where
  "matchListing fq aRoot = matchDir fq aRoot []"

section \<open>Invariant\<close>

definition queued :: "file_queue \<Rightarrow> nat set" where
  "queued fq = ran (fq_pathQueue fq)"

text \<open>The three maps hold the same files, each under its own path, hash and token.\<close>

definition fq_ok :: "env \<Rightarrow> file_queue \<Rightarrow> bool" where
  "fq_ok e fq \<longleftrightarrow>
     (\<forall>k i. fq_pathQueue fq k = Some i \<longrightarrow> k = path_key e (qi_target (fq_items fq i)) \<and> qi_token (fq_items fq i) = i)
     \<and> (\<forall>h. distinct (fq_tthIndex fq h))
     \<and> (\<forall>h i. i \<in> set (fq_tthIndex fq h) \<longleftrightarrow> i \<in> queued fq \<and> qi_tth (fq_items fq i) = h)
     \<and> (\<forall>t i. fq_tokenQueue fq t = Some i \<longleftrightarrow> i = t \<and> t \<in> queued fq)"

lemma fq_add_ok:
  assumes ok: "fq_ok e fq" and tok: "qi_token (fq_items fq i) = i" and new: "i \<notin> queued fq"
  shows "fq_ok e (snd (fq_add e i fq))"
    and "queued (snd (fq_add e i fq)) = (if snd (fst (fq_add e i fq)) then insert i (queued fq) else queued fq)"
proof -
  define qi where "qi = fq_items fq i"
  define k where "k = path_key e (qi_target qi)"
  show "queued (snd (fq_add e i fq)) = (if snd (fst (fq_add e i fq)) then insert i (queued fq) else queued fq)"
    by (cases "fq_pathQueue fq k") (simp_all add: fq_add_def Let_def queued_def k_def qi_def)
  show "fq_ok e (snd (fq_add e i fq))"
  proof (cases "fq_pathQueue fq k")
    case None
    define fq' where "fq' = snd (fq_add e i fq)"
    have t: "fq_tokenQueue fq i = None" using ok new by (cases "fq_tokenQueue fq i") (auto simp: fq_ok_def)
    have fq': "fq_pathQueue fq' = (fq_pathQueue fq)(k \<mapsto> i)" "fq_items fq' = (fq_items fq)(i := qi\<lparr>qi_status := QI_QUEUED\<rparr>)"
      "fq_tthIndex fq' = (fq_tthIndex fq)(qi_tth qi := fq_tthIndex fq (qi_tth qi) @ [i])"
      "fq_tokenQueue fq' = (fq_tokenQueue fq)(i \<mapsto> i)"
      using None tok t by (simp_all add: fq'_def fq_add_def Let_def k_def qi_def)
    have q: "queued fq' = insert i (queued fq)" using None by (simp add: queued_def fq')
    have same: "qi_target (fq_items fq' j) = qi_target (fq_items fq j)" "qi_tth (fq_items fq' j) = qi_tth (fq_items fq j)"
      "qi_token (fq_items fq' j) = qi_token (fq_items fq j)" for j
      by (simp_all add: fq' qi_def)
    have "\<forall>k' j. fq_pathQueue fq' k' = Some j \<longrightarrow> k' = path_key e (qi_target (fq_items fq j)) \<and> qi_token (fq_items fq j) = j"
      using ok tok by (auto simp: fq_ok_def fq' k_def qi_def)
    moreover have "distinct (fq_tthIndex fq' h)" for h using ok new by (auto simp: fq_ok_def fq')
    moreover have "j \<in> set (fq_tthIndex fq' h) \<longleftrightarrow> j \<in> queued fq' \<and> qi_tth (fq_items fq j) = h" for h j
      using ok new by (auto simp: fq_ok_def fq' q qi_def)
    moreover have "fq_tokenQueue fq' t = Some j \<longleftrightarrow> j = t \<and> t \<in> queued fq'" for t j
      using ok new by (auto simp: fq_ok_def fq' q)
    ultimately show ?thesis unfolding fq'_def [symmetric] fq_ok_def same by blast
  next
    case (Some j)
    then show ?thesis using ok by (simp add: fq_add_def Let_def k_def qi_def)
  qed
qed

lemma fq_remove_ok:
  assumes ok: "fq_ok e fq" and i: "i \<in> queued fq"
  shows "fq_ok e (fq_remove e i fq)" and "queued (fq_remove e i fq) = queued fq - {i}"
proof -
  define qi where "qi = fq_items fq i"
  define k where "k = path_key e (qi_target qi)"
  have k: "fq_pathQueue fq k' = Some i \<longleftrightarrow> k' = k" "qi_token qi = i" for k'
    using ok i by (auto simp: fq_ok_def queued_def k_def qi_def ran_def)
  define fq' where "fq' = fq_remove e i fq"
  have fq': "fq_pathQueue fq' = (fq_pathQueue fq)(k := None)" "fq_items fq' = fq_items fq"
    "fq_tthIndex fq' = (fq_tthIndex fq)(qi_tth qi := erase_first (\<lambda>j. j = i) (fq_tthIndex fq (qi_tth qi)))"
    "fq_tokenQueue fq' = (fq_tokenQueue fq)(i := None)"
    using k(2) by (simp_all add: fq'_def fq_remove_def Let_def k_def qi_def)
  have "(\<exists>a. (if a = k then None else fq_pathQueue fq a) = Some j) \<longleftrightarrow> j \<noteq> i \<and> (\<exists>a. fq_pathQueue fq a = Some j)" for j
    using k(1) by (metis option.inject option.distinct(1))
  then have q: "queued fq' = queued fq - {i}" by (auto simp: queued_def fq' ran_def)
  then show "queued (fq_remove e i fq) = queued fq - {i}" by (simp add: fq'_def)
  have d: "distinct (fq_tthIndex fq h)" for h using ok by (simp add: fq_ok_def)
  have "distinct (fq_tthIndex fq' h)" for h using d by (simp add: fq' distinct_erase_first)
  moreover have "j \<in> set (fq_tthIndex fq' h) \<longleftrightarrow> j \<in> queued fq' \<and> qi_tth (fq_items fq j) = h" for h j
    using ok set_erase_first_eq [OF d, of i] by (auto simp: fq_ok_def fq' q qi_def)
  moreover have "fq_tokenQueue fq' t = Some j \<longleftrightarrow> j = t \<and> t \<in> queued fq'" for t j
    using ok by (auto simp: fq_ok_def fq' q)
  moreover have "\<forall>k' j. fq_pathQueue fq' k' = Some j \<longrightarrow> k' = path_key e (qi_target (fq_items fq j)) \<and> qi_token (fq_items fq j) = j"
    using ok by (auto simp: fq_ok_def fq')
  ultimately show "fq_ok e (fq_remove e i fq)" unfolding fq'_def [symmetric] fq_ok_def fq'(2) by blast
qed

section \<open>Runs\<close>

inductive fq_step :: "env \<Rightarrow> file_queue \<Rightarrow> file_queue \<Rightarrow> bool" for e where
  fq_step_add: "tok \<notin> queued fq \<Longrightarrow>
     fq_step e fq (snd (fq_add_new e tok aTarget aSize aFlags p aTempTarget aAdded aRoot fq))"
| fq_step_remove: "i \<in> queued fq \<Longrightarrow> fq_step e fq (fq_remove e i fq)"

inductive_cases fq_stepE: "fq_step e fq fq'"

lemma fq_ok_new_item:
  assumes "fq_ok e fq" and "i \<notin> queued fq"
  shows "fq_ok e (fq\<lparr>fq_items := (fq_items fq)(i := q)\<rparr>)" and "queued (fq\<lparr>fq_items := (fq_items fq)(i := q)\<rparr>) = queued fq"
proof -
  show q: "queued (fq\<lparr>fq_items := (fq_items fq)(i := q)\<rparr>) = queued fq" by (simp add: queued_def)
  show "fq_ok e (fq\<lparr>fq_items := (fq_items fq)(i := q)\<rparr>)"
    using assms unfolding fq_ok_def q by (auto simp: queued_def ran_def)
qed

lemma fq_step_ok: "fq_step e fq fq' \<Longrightarrow> fq_ok e fq \<Longrightarrow> fq_ok e fq'"
proof (induction rule: fq_step.induct)
  case (fq_step_add tok fq aTarget aSize aFlags p aTempTarget aAdded aRoot)
  define qi where "qi = queue_item_new (e_set e) tok aTarget aSize p aFlags aAdded aRoot aTempTarget"
  have t: "qi_token qi = tok" by (simp add: qi_def queue_item_new_def Let_def)
  note new = fq_ok_new_item [OF fq_step_add(2,1), of qi]
  have "fq_ok e (snd (fq_add e tok (fq\<lparr>fq_items := (fq_items fq)(tok := qi)\<rparr>)))"
    by (rule fq_add_ok(1)) (use new fq_step_add(1) t in simp_all)
  then show ?case by (simp add: fq_add_new_def qi_def Let_def)
qed (rule fq_remove_ok)

lemma fq_run_ok: "(fq_step e)\<^sup>*\<^sup>* fq fq' \<Longrightarrow> fq_ok e fq \<Longrightarrow> fq_ok e fq'"
  by (induction rule: rtranclp_induct) (auto intro: fq_step_ok)

definition fq_empty :: "(nat \<Rightarrow> queue_item) \<Rightarrow> file_queue" where
  "fq_empty qs = \<lparr>fq_items = qs, fq_pathQueue = Map.empty, fq_tthIndex = (\<lambda>_. []), fq_tokenQueue = Map.empty\<rparr>"

lemma fq_empty_ok: "fq_ok e (fq_empty qs)"
  by (simp add: fq_ok_def fq_empty_def queued_def)

lemma fq_lookups:
  assumes "fq_ok e fq" and "i \<in> queued fq"
  shows "findFile e (qi_target (fq_items fq i)) fq = Some i \<and> findFile_token i fq = Some i
    \<and> i \<in> set (findFiles (qi_tth (fq_items fq i)) fq) \<and> isFileQueued (qi_tth (fq_items fq i)) fq \<noteq> DUPE_NONE"
proof -
  have "i \<in> set (fq_tthIndex fq (qi_tth (fq_items fq i)))" using assms by (simp add: fq_ok_def)
  moreover have "fq_pathQueue fq (path_key e (qi_target (fq_items fq i))) = Some i"
    using assms by (auto simp: fq_ok_def queued_def ran_def)
  moreover have "fq_tokenQueue fq i = Some i" using assms by (simp add: fq_ok_def)
  ultimately show ?thesis
    by (auto simp: findFile_def findFile_token_def findFiles_def isFileQueued_def getQueuedFile_def split: list.split)
qed

text \<open>
  C24: along every run of additions and removals that starts with an empty queue, the three maps hold the
  same files: each queued file is found by its path in any case, by its token and among the files of its
  hash; no two queued files have paths that differ only in case; what is not queued is in no map.
\<close>

theorem file_queue_invariant:
  assumes "(fq_step e)\<^sup>*\<^sup>* (fq_empty qs) fq"
  shows "(i \<in> queued fq \<longrightarrow> findFile e (qi_target (fq_items fq i)) fq = Some i \<and> findFile_token i fq = Some i
      \<and> i \<in> set (findFiles (qi_tth (fq_items fq i)) fq) \<and> isFileQueued (qi_tth (fq_items fq i)) fq \<noteq> DUPE_NONE)
    \<and> (i \<in> queued fq \<and> j \<in> queued fq \<and> path_key e (qi_target (fq_items fq i)) = path_key e (qi_target (fq_items fq j))
        \<longrightarrow> i = j)
    \<and> (i \<notin> queued fq \<longrightarrow> findFile e aPath fq \<noteq> Some i \<and> findFile_token aToken fq \<noteq> Some i
        \<and> i \<notin> set (findFiles h fq))"
proof (intro conjI impI)
  have ok: "fq_ok e fq" by (rule fq_run_ok [OF assms fq_empty_ok])
  note look = fq_lookups [OF ok]
  { assume "i \<in> queued fq" from look [OF this]
    show "findFile e (qi_target (fq_items fq i)) fq = Some i" "findFile_token i fq = Some i"
      "i \<in> set (findFiles (qi_tth (fq_items fq i)) fq)" "isFileQueued (qi_tth (fq_items fq i)) fq \<noteq> DUPE_NONE" by blast+ }
  { assume a: "i \<in> queued fq \<and> j \<in> queued fq \<and> path_key e (qi_target (fq_items fq i)) = path_key e (qi_target (fq_items fq j))"
    then show "i = j" using look [of i] look [of j] by (auto simp: findFile_def) }
  { assume n: "i \<notin> queued fq"
    show "findFile e aPath fq \<noteq> Some i" using n by (auto simp: findFile_def queued_def ran_def)
    show "findFile_token aToken fq \<noteq> Some i" using n ok by (auto simp: findFile_token_def fq_ok_def)
    show "i \<notin> set (findFiles h fq)" using n ok by (auto simp: findFiles_def fq_ok_def) }
qed

theorem file_queue_invariant_witness:
  "\<exists>fq. (fq_step test_env)\<^sup>*\<^sup>* (fq_empty (\<lambda>_. test_item)) fq \<and> findFile_token 4 fq = Some 4 \<and> queued fq = {4}"
proof -
  define fq where "fq = snd (fq_add_new test_env 4 ''/a/b'' 10 0 NORMAL '''' 0 [] (fq_empty (\<lambda>_. test_item)))"
  have s: "fq_step test_env (fq_empty (\<lambda>_. test_item)) fq"
    unfolding fq_def by (rule fq_step_add) (simp add: queued_def fq_empty_def)
  then have run: "(fq_step test_env)\<^sup>*\<^sup>* (fq_empty (\<lambda>_. test_item)) fq" by simp
  have "queued fq = {4}"
    by (simp add: fq_def fq_add_new_def fq_add_def Let_def fq_empty_def queued_def queue_item_new_def)
  then show ?thesis using file_queue_invariant [OF run, of 4] run by auto
qed

end
