(* ===== verification/Sorted_Vector.thy ===== *)
theory Sorted_Vector
  imports Paths
begin

text \<open>
  \<^bold>\<open>core/classes/SortedVector.h\<close>: a vector kept in order of the keys of its elements, with a comparison
  that returns an integer.  Positions stand for iterators.  The locale \<open>key_order\<close> states what the
  comparison has to satisfy; under it the vector is a map from keys to elements.  It is interpreted on the
  comparison of strings and on \<open>PathUtil::pathSort\<close>.
\<close>

section \<open>Operations\<close>

function sv_getPos :: "('k \<Rightarrow> 'k \<Rightarrow> int) \<Rightarrow> ('a \<Rightarrow> 'k) \<Rightarrow> 'a list \<Rightarrow> 'k \<Rightarrow> nat \<Rightarrow> nat \<Rightarrow> nat \<times> bool" where
  "sv_getPos cmp key xs k first count =
     (if 0 < count then
        let step = count div 2; it = first + step; res = cmp (key (xs ! it)) k
        in if res < 0 then sv_getPos cmp key xs k (it + 1) (count - (step + 1))
           else if res = 0 then (it, True)
           else sv_getPos cmp key xs k first step
      else (first, False))"
  by pat_completeness auto
termination
  by (relation "measure (\<lambda>(cmp, key, xs, k, first, count). count)") auto

declare sv_getPos.simps [simp del]

text \<open>The vector, the position of the element with the key \<open>k\<close>, and whether it was added.\<close>

definition emplace_sorted :: "('k \<Rightarrow> 'k \<Rightarrow> int) \<Rightarrow> ('a \<Rightarrow> 'k) \<Rightarrow> 'k \<Rightarrow> 'a \<Rightarrow> 'a list \<Rightarrow> 'a list \<times> nat \<times> bool" where
  "emplace_sorted cmp key k aItem xs =
     (if xs = [] then ([aItem], 0, True)
      else
        let res = cmp (key (last xs)) k
        in if res < 0 then (xs @ [aItem], length xs, True)
           else if res = 0 then (xs, length xs - 1, False)
           else
             let (p, found) = sv_getPos cmp key xs k 0 (length xs)
             in if found then (xs, p, False) else (take p xs @ aItem # drop p xs, p, True))"

definition insert_sorted :: "('k \<Rightarrow> 'k \<Rightarrow> int) \<Rightarrow> ('a \<Rightarrow> 'k) \<Rightarrow> 'a \<Rightarrow> 'a list \<Rightarrow> 'a list \<times> nat \<times> bool" where
  "insert_sorted cmp key aItem xs = emplace_sorted cmp key (key aItem) aItem xs"

definition sv_find :: "('k \<Rightarrow> 'k \<Rightarrow> int) \<Rightarrow> ('a \<Rightarrow> 'k) \<Rightarrow> 'k \<Rightarrow> 'a list \<Rightarrow> nat" where
  "sv_find cmp key k xs = (let (p, found) = sv_getPos cmp key xs k 0 (length xs) in if found then p else length xs)"

definition erase_key :: "('k \<Rightarrow> 'k \<Rightarrow> int) \<Rightarrow> ('a \<Rightarrow> 'k) \<Rightarrow> 'k \<Rightarrow> 'a list \<Rightarrow> 'a list \<times> bool" where
  "erase_key cmp key k xs =
     (let (p, found) = sv_getPos cmp key xs k 0 (length xs)
      in if found then (take p xs @ drop (p + 1) xs, True) else (xs, False))"

section \<open>The vector as a map\<close>

definition sv_map :: "('a \<Rightarrow> 'k) \<Rightarrow> 'a list \<Rightarrow> 'k \<Rightarrow> 'a option" where
  "sv_map key xs k = find (\<lambda>x. key x = k) xs"

locale key_order =
  fixes cmp :: "'k \<Rightarrow> 'k \<Rightarrow> int"
  assumes cmp_eq: "cmp a b = 0 \<longleftrightarrow> a = b"
    and cmp_flip: "0 < cmp a b \<longleftrightarrow> cmp b a < 0"
    and cmp_trans: "cmp a b < 0 \<Longrightarrow> cmp b c < 0 \<Longrightarrow> cmp a c < 0"
begin

definition sv_sorted :: "('a \<Rightarrow> 'k) \<Rightarrow> 'a list \<Rightarrow> bool" where
  "sv_sorted key xs \<longleftrightarrow> sorted_wrt (\<lambda>x y. cmp (key x) (key y) < 0) xs"

lemma sorted_nth: "sv_sorted key xs \<Longrightarrow> i < j \<Longrightarrow> j < length xs \<Longrightarrow> cmp (key (xs ! i)) (key (xs ! j)) < 0"
  by (simp add: sv_sorted_def sorted_wrt_iff_nth_less)

lemma sorted_nth_le:
  assumes "sv_sorted key xs" and "i \<le> j" and "j < length xs"
  shows "cmp (key (xs ! j)) k < 0 \<Longrightarrow> cmp (key (xs ! i)) k < 0"
    and "cmp (key (xs ! i)) k > 0 \<Longrightarrow> cmp (key (xs ! j)) k > 0"
proof -
  have le: "key (xs ! i) = key (xs ! j) \<or> cmp (key (xs ! i)) (key (xs ! j)) < 0"
    using assms sorted_nth [OF assms(1), of i j] by (cases "i = j") auto
  show "cmp (key (xs ! j)) k < 0 \<Longrightarrow> cmp (key (xs ! i)) k < 0" using le cmp_trans by auto
  show "cmp (key (xs ! i)) k > 0 \<Longrightarrow> cmp (key (xs ! j)) k > 0" unfolding cmp_flip using le cmp_trans by auto
qed

text \<open>The binary search keeps the key between the parts left of \<open>first\<close> and right of \<open>first + count\<close>.\<close>

lemma getPos_split:
  assumes "sv_sorted key xs" and "first + count \<le> length xs"
    and "\<forall>i<first. cmp (key (xs ! i)) k < 0" and "\<forall>i. first + count \<le> i \<and> i < length xs \<longrightarrow> 0 < cmp (key (xs ! i)) k"
    and "sv_getPos cmp key xs k first count = (p, found)"
  shows "p \<le> length xs \<and> (found \<longrightarrow> p < length xs \<and> key (xs ! p) = k)
    \<and> (\<not> found \<longrightarrow> (\<forall>i<p. cmp (key (xs ! i)) k < 0) \<and> (\<forall>i. p \<le> i \<and> i < length xs \<longrightarrow> 0 < cmp (key (xs ! i)) k))"
  using assms
proof (induction count arbitrary: first p found rule: less_induct)
  case (less count)
  note ps = less.prems
  show ?case
  proof (cases "count = 0")
    case True
    with ps(5) have "p = first" "\<not> found" by (simp_all add: sv_getPos.simps)
    then show ?thesis using ps(2-4) True by auto
  next
    case False
    define it where "it = first + count div 2"
    have it: "it < first + count" "it < length xs" using False ps(2) by (auto simp: it_def)
    consider (lt) "cmp (key (xs ! it)) k < 0" | (eq) "cmp (key (xs ! it)) k = 0" | (gt) "0 < cmp (key (xs ! it)) k"
      by linarith
    then show ?thesis
    proof cases
      case lt
      have r: "sv_getPos cmp key xs k (it + 1) (count - (count div 2 + 1)) = (p, found)"
        using ps(5) False lt by (subst (asm) sv_getPos.simps) (simp add: Let_def it_def)
      have "\<forall>i<it + 1. cmp (key (xs ! i)) k < 0"
        using sorted_nth_le(1) [OF ps(1) _ it(2), of _ k] lt by (simp add: less_Suc_eq_le)
      moreover have "it + 1 + (count - (count div 2 + 1)) = first + count" using False by (simp add: it_def)
      ultimately show ?thesis
        using less.IH [of "count - (count div 2 + 1)" "it + 1" p found] False ps r by simp
    next
      case eq
      with ps(5) False have "(it, True) = (p, found)" by (subst (asm) sv_getPos.simps) (simp add: Let_def it_def)
      then show ?thesis using eq it cmp_eq by simp
    next
      case gt
      have r: "sv_getPos cmp key xs k first (count div 2) = (p, found)"
        using ps(5) False gt by (subst (asm) sv_getPos.simps) (simp add: Let_def it_def)
      have right: "\<forall>i. first + count div 2 \<le> i \<and> i < length xs \<longrightarrow> 0 < cmp (key (xs ! i)) k"
        using sorted_nth_le(2) [OF ps(1), of it _ k] gt by (simp add: it_def)
      show ?thesis by (rule less.IH [OF _ ps(1) _ ps(3) right r]) (use False ps(2) in simp_all)
    qed
  qed
qed

lemma getPos_all:
  assumes "sv_sorted key xs" and "sv_getPos cmp key xs k 0 (length xs) = (p, found)"
  shows "p \<le> length xs" and "found \<Longrightarrow> p < length xs \<and> key (xs ! p) = k"
    and "\<not> found \<Longrightarrow> \<forall>x\<in>set (take p xs). cmp (key x) k < 0"
    and "\<not> found \<Longrightarrow> \<forall>x\<in>set (drop p xs). cmp k (key x) < 0"
proof -
  from getPos_split [OF assms(1) _ _ _ assms(2)]
  have g: "p \<le> length xs" "found \<longrightarrow> p < length xs \<and> key (xs ! p) = k"
    "\<not> found \<longrightarrow> (\<forall>i<p. cmp (key (xs ! i)) k < 0) \<and> (\<forall>i. p \<le> i \<and> i < length xs \<longrightarrow> 0 < cmp (key (xs ! i)) k)" by auto
  then show "p \<le> length xs" "found \<Longrightarrow> p < length xs \<and> key (xs ! p) = k" by auto
  show "\<forall>x\<in>set (take p xs). cmp (key x) k < 0" if "\<not> found" using g that by (auto simp: in_set_conv_nth)
  show "\<forall>x\<in>set (drop p xs). cmp k (key x) < 0" if "\<not> found"
    using g that cmp_flip by (auto simp: in_set_conv_nth)
qed

lemma cmp_irrefl: "\<not> cmp a a < 0" using cmp_eq [of a a] by simp

text \<open>Keys are distinct, so a part with smaller and a part with larger keys hold no element of the key.\<close>

lemma sv_map_split:
  assumes "\<forall>x\<in>set as. cmp (key x) k < 0" and "\<forall>x\<in>set bs. cmp k (key x) < 0"
  shows "sv_map key (as @ bs) k = None" and "key y = k \<Longrightarrow> sv_map key (as @ y # bs) k = Some y"
    and "key y = k \<Longrightarrow> k' \<noteq> k \<Longrightarrow> sv_map key (as @ y # bs) k' = sv_map key (as @ bs) k'"
proof -
  have n: "\<forall>x\<in>set as. key x \<noteq> k" "\<forall>x\<in>set bs. key x \<noteq> k" using assms cmp_irrefl by fastforce+
  then have f: "find (\<lambda>x. key x = k) as = None" "find (\<lambda>x. key x = k) bs = None" by (auto simp: find_None_iff)
  have app: "find P (as @ cs) = (case find P as of None \<Rightarrow> find P cs | Some x \<Rightarrow> Some x)" for P cs
    by (induction as) auto
  show "sv_map key (as @ bs) k = None" using f by (simp add: sv_map_def app)
  show "key y = k \<Longrightarrow> sv_map key (as @ y # bs) k = Some y" using f by (simp add: sv_map_def app)
  show "key y = k \<Longrightarrow> k' \<noteq> k \<Longrightarrow> sv_map key (as @ y # bs) k' = sv_map key (as @ bs) k'" by (auto simp: sv_map_def app split: option.split)
qed

lemma sorted_around:
  assumes "sv_sorted key xs" and "p < length xs"
  shows "\<forall>x\<in>set (take p xs). cmp (key x) (key (xs ! p)) < 0" and "\<forall>x\<in>set (drop (Suc p) xs). cmp (key (xs ! p)) (key x) < 0"
proof -
  have "sorted_wrt (\<lambda>x y. cmp (key x) (key y) < 0) (take p xs @ xs ! p # drop (Suc p) xs)"
    using assms by (simp add: sv_sorted_def id_take_nth_drop [symmetric])
  then show "\<forall>x\<in>set (take p xs). cmp (key x) (key (xs ! p)) < 0" "\<forall>x\<in>set (drop (Suc p) xs). cmp (key (xs ! p)) (key x) < 0"
    by (auto simp: sorted_wrt_append)
qed

lemma sv_map_nth:
  assumes "sv_sorted key xs" and "p < length xs"
  shows "sv_map key xs (key (xs ! p)) = Some (xs ! p)"
    and "sv_map key (take p xs @ drop (Suc p) xs) = (sv_map key xs)(key (xs ! p) := None)"
proof -
  note around = sorted_around [OF assms]
  have xs: "xs = take p xs @ xs ! p # drop (Suc p) xs" using assms(2) by (simp add: id_take_nth_drop [symmetric])
  show "sv_map key xs (key (xs ! p)) = Some (xs ! p)" by (subst xs) (rule sv_map_split(2) [OF around refl])
  show "sv_map key (take p xs @ drop (Suc p) xs) = (sv_map key xs)(key (xs ! p) := None)"
  proof
    fix k'
    show "sv_map key (take p xs @ drop (Suc p) xs) k' = ((sv_map key xs)(key (xs ! p) := None)) k'"
    proof (cases "k' = key (xs ! p)")
      case True
      then show ?thesis using sv_map_split(1) [OF around] by simp
    next
      case False
      have "sv_map key xs k' = sv_map key (take p xs @ xs ! p # drop (Suc p) xs) k'" using xs by simp
      then show ?thesis using sv_map_split(3) [OF around refl False] False by simp
    qed
  qed
qed

lemma emplace_sorted_correct:
  assumes "sv_sorted key xs" and "key aItem = k"
  shows "case emplace_sorted cmp key k aItem xs of (ys, p, added) \<Rightarrow>
    sv_sorted key ys \<and> p < length ys \<and> key (ys ! p) = k \<and> added = (sv_map key xs k = None)
    \<and> sv_map key ys = (if added then (sv_map key xs)(k \<mapsto> aItem) else sv_map key xs)"
proof -
  have ins: "sv_sorted key (as @ aItem # bs) \<and> (as @ aItem # bs) ! length as = aItem \<and> sv_map key (as @ bs) k = None
      \<and> sv_map key (as @ aItem # bs) = (sv_map key (as @ bs))(k \<mapsto> aItem)"
    if s: "sv_sorted key (as @ bs)" and a: "\<forall>x\<in>set as. cmp (key x) k < 0" and b: "\<forall>x\<in>set bs. cmp k (key x) < 0" for as bs
  proof -
    have "sv_map key (as @ aItem # bs) k' = ((sv_map key (as @ bs))(k \<mapsto> aItem)) k'" for k'
      using sv_map_split [OF a b] assms(2) by (cases "k' = k") auto
    then show ?thesis using s a b assms(2) sv_map_split(1) [OF a b] by (auto simp: sv_sorted_def sorted_wrt_append)
  qed
  show ?thesis
  proof (cases "xs = []")
    case True
    then show ?thesis using ins [of "[]" "[]"] assms by (simp add: emplace_sorted_def)
  next
    case False
    define l where "l = length xs - 1"
    have l: "l < length xs" "last xs = xs ! l" using False by (simp_all add: l_def last_conv_nth)
    consider (lt) "cmp (key (last xs)) k < 0" | (eq) "cmp (key (last xs)) k = 0" | (gt) "0 < cmp (key (last xs)) k" by linarith
    then show ?thesis
    proof cases
      case lt
      have "\<forall>x\<in>set xs. cmp (key x) k < 0"
        using sorted_nth_le(1) [OF assms(1) _ l(1), of _ k] lt l(2) by (auto simp: in_set_conv_nth l_def)
      with ins [of xs "[]"] assms False lt show ?thesis by (simp add: emplace_sorted_def)
    next
      case eq
      then have "key (xs ! l) = k" using cmp_eq l(2) by simp
      then show ?thesis using sv_map_nth(1) [OF assms(1) l(1)] eq False assms(1) l(1)
        by (simp add: emplace_sorted_def l_def)
    next
      case gt
      obtain p found where g: "sv_getPos cmp key xs k 0 (length xs) = (p, found)" by fastforce
      note pos = getPos_all [OF assms(1) g]
      show ?thesis
      proof (cases found)
        case True
        with pos(2) sv_map_nth(1) [OF assms(1), of p] show ?thesis
          using gt False g assms(1) by (simp add: emplace_sorted_def)
      next
        case notfound: False
        have "sv_sorted key (take p xs @ drop p xs)" using assms(1) by simp
        note i = ins [OF this pos(3) [OF notfound] pos(4) [OF notfound]]
        have "key ((take p xs @ aItem # drop p xs) ! p) = k" using pos(1) assms(2) by (simp add: nth_append)
        then show ?thesis using i notfound gt False g pos(1) by (simp add: emplace_sorted_def)
      qed
    qed
  qed
qed

lemma find_erase_correct:
  assumes "sv_sorted key xs"
  shows "(if sv_find cmp key k xs < length xs then sv_map key xs k = Some (xs ! sv_find cmp key k xs)
          else sv_map key xs k = None)
    \<and> (case erase_key cmp key k xs of (ys, erased) \<Rightarrow>
         sv_sorted key ys \<and> erased = (sv_map key xs k \<noteq> None) \<and> sv_map key ys = (sv_map key xs)(k := None))"
proof -
  obtain p found where g: "sv_getPos cmp key xs k 0 (length xs) = (p, found)" by fastforce
  note pos = getPos_all [OF assms g]
  show ?thesis
  proof (cases found)
    case True
    with pos(2) have p: "p < length xs" "key (xs ! p) = k" by auto
    have "sv_sorted key (take p xs @ drop (Suc p) xs)"
      using assms p(1) unfolding sv_sorted_def by (subst (asm) id_take_nth_drop [OF p(1)]) (auto simp: sorted_wrt_append)
    then show ?thesis using True g p sv_map_nth [OF assms p(1)] by (simp add: sv_find_def erase_key_def)
  next
    case False
    have "sv_map key xs k = None" using sv_map_split(1) [OF pos(3) [OF False] pos(4) [OF False]] by simp
    then show ?thesis using False g assms by (simp add: sv_find_def erase_key_def fun_upd_idem)
  qed
qed

end

text \<open>The comparisons that the program uses the vector with.\<close>

lemma str_compare_order:
  "str_compare a b = 0 \<longleftrightarrow> a = b" "0 < str_compare a b \<longleftrightarrow> str_compare b a < 0"
  "str_compare a b < 0 \<Longrightarrow> str_compare b c < 0 \<Longrightarrow> str_compare a c < 0"
  by (auto simp: str_compare_def split: if_splits)

interpretation string_order: key_order str_compare
  by unfold_locales (use str_compare_order in \<open>blast+\<close>)

interpretation path_order: key_order pathSort
  by unfold_locales (auto simp: pathSort_def Let_def str_compare_def split: if_splits)

text \<open>
  C23: a vector of elements in the order of their string keys is a map: \<open>insert_sorted\<close> adds an element
  unless its key is there, and keeps the order; \<open>find\<close> and \<open>erase_key\<close> find exactly the element of the
  key.
\<close>

theorem sorted_vector_map:
  fixes key :: "'a \<Rightarrow> string"
  assumes "string_order.sv_sorted key xs"
  shows "(case insert_sorted str_compare key x xs of (ys, p, added) \<Rightarrow>
      string_order.sv_sorted key ys \<and> p < length ys \<and> key (ys ! p) = key x \<and> added = (sv_map key xs (key x) = None)
      \<and> sv_map key ys = (if added then (sv_map key xs)(key x \<mapsto> x) else sv_map key xs))
    \<and> (if sv_find str_compare key k xs < length xs then sv_map key xs k = Some (xs ! sv_find str_compare key k xs)
       else sv_map key xs k = None)
    \<and> (case erase_key str_compare key k xs of (ys, erased) \<Rightarrow>
      string_order.sv_sorted key ys \<and> erased = (sv_map key xs k \<noteq> None) \<and> sv_map key ys = (sv_map key xs)(k := None))"
  unfolding insert_sorted_def
  by (rule conjI [OF string_order.emplace_sorted_correct [OF assms refl] string_order.find_erase_correct [OF assms]])

theorem sorted_vector_map_witness:
  "insert_sorted str_compare (\<lambda>x. x) ''b'' [''a'', ''c''] = ([''a'', ''b'', ''c''], 1, True)
   \<and> sv_map (\<lambda>x. x) [''a'', ''b'', ''c''] ''b'' = Some ''b''"
proof -
  have s: "string_order.sv_sorted (\<lambda>x. x) [''a'', ''c'']"
    by (simp add: string_order.sv_sorted_def str_compare_def)
  have i: "insert_sorted str_compare (\<lambda>x. x) ''b'' [''a'', ''c''] = ([''a'', ''b'', ''c''], 1, True)"
    by code_simp
  show ?thesis using sorted_vector_map [OF s, of "''b''"] i by simp
qed

end
