(* ===== verification/Search_Queue.thy ===== *)
theory Search_Queue
  imports Bundle "HOL-Library.Multiset"
begin

text \<open>
  \<^bold>\<open>util/classes/PrioritySearchQueue.h\<close>: the items to search alternate sources for, by priority, and the
  recent ones on their own.  An item is a number; its priority, whether it may be searched for
  (\<open>allowAutoSearch\<close>) and what \<open>checkRecent\<close> answers are arguments.  \<open>maybePopNormal\<close> draws the queue from a
  \<open>discrete_distribution\<close>: the number drawn is an argument, one with a positive weight.  \<open>None\<close>: the queue
  drawn is outside the array.
\<close>

section \<open>Operations\<close>

record search_item_env =
  si_priority :: "nat \<Rightarrow> prio"
  si_allowAutoSearch :: "nat \<Rightarrow> bool"
  si_checkRecent :: "nat \<Rightarrow> bool"
  si_minInterval :: int

record search_queue =
  sq_prioSearchQueue :: "nat \<Rightarrow> nat list"
  sq_recentSearchQueue :: "nat list"
  sq_nextSearchNormal :: tick
  sq_nextSearchRecent :: tick
  sq_isRecent :: "nat \<Rightarrow> bool"

definition prio_slot :: "prio \<Rightarrow> nat" where
  "prio_slot p = nat (prio_int p)"

definition getValidItemCountRecent :: "search_item_env \<Rightarrow> search_queue \<Rightarrow> nat" where
  "getValidItemCountRecent s sq = length (filter (si_allowAutoSearch s) (sq_recentSearchQueue sq))"

definition search_slots :: "nat list" where
  "search_slots = [prio_slot LOW..<prio_slot LAST]"

definition search_weights :: "search_item_env \<Rightarrow> search_queue \<Rightarrow> nat list" where
  "search_weights s sq =
     map (\<lambda>p. (p - 1) * length (filter (si_allowAutoSearch s) (sq_prioSearchQueue sq p))) search_slots"

definition getValidItemCountNormal :: "search_item_env \<Rightarrow> search_queue \<Rightarrow> nat" where
  "getValidItemCountNormal s sq =
     sum_list (map (\<lambda>p. length (filter (si_allowAutoSearch s) (sq_prioSearchQueue sq p))) search_slots)"

text \<open>Minutes to milliseconds, on the 64-bit clock.\<close>

definition recalculateSearchTimes :: "search_item_env \<Rightarrow> bool \<Rightarrow> bool \<Rightarrow> tick \<Rightarrow> search_queue \<Rightarrow> search_queue" where
  "recalculateSearchTimes s aRecent aForce aTick sq =
     (let nextSearch = (if aRecent then sq_nextSearchRecent sq else sq_nextSearchNormal sq);
          itemCount = (if aRecent then getValidItemCountRecent s sq else getValidItemCountNormal s sq);
          minutes = max ((if aRecent then 15 else 60) div int itemCount) (si_minInterval s);
          nxt = aTick + of_int (minutes * 60 * 1000);
          result = (if itemCount = 0 then 0
                    else if \<not> aForce \<and> 0 < nextSearch then min nextSearch nxt else nxt)
      in if aRecent then sq\<lparr>sq_nextSearchRecent := result\<rparr> else sq\<lparr>sq_nextSearchNormal := result\<rparr>)"

definition addSearchPrio :: "search_item_env \<Rightarrow> tick \<Rightarrow> nat \<Rightarrow> search_queue \<Rightarrow> search_queue" where
  "addSearchPrio s now i sq =
     (if si_priority s i < LOW then sq
      else
        let p = prio_slot (si_priority s i);
            sq = (if sq_isRecent sq i then sq\<lparr>sq_recentSearchQueue := sq_recentSearchQueue sq @ [i]\<rparr>
                  else sq\<lparr>sq_prioSearchQueue := (sq_prioSearchQueue sq)(p := sq_prioSearchQueue sq p @ [i])\<rparr>)
        in recalculateSearchTimes s (sq_isRecent sq i) False now sq)"

definition removeSearchPrio :: "search_item_env \<Rightarrow> nat \<Rightarrow> search_queue \<Rightarrow> search_queue" where
  "removeSearchPrio s i sq =
     (if si_priority s i < LOW then sq
      else
        let p = prio_slot (si_priority s i)
        in if sq_isRecent sq i then sq\<lparr>sq_recentSearchQueue := filter (\<lambda>j. j \<noteq> i) (sq_recentSearchQueue sq)\<rparr>
           else sq\<lparr>sq_prioSearchQueue := (sq_prioSearchQueue sq)(p := filter (\<lambda>j. j \<noteq> i) (sq_prioSearchQueue sq p))\<rparr>)"

text \<open>
  The loop of \<open>maybePopRecent\<close>: \<open>n\<close> is the value of \<open>size() - i\<close>; the size may shrink in the loop, when an
  item that is not recent any more moves to its priority.
\<close>

function pop_recent_loop :: "search_item_env \<Rightarrow> tick \<Rightarrow> nat \<Rightarrow> search_queue \<Rightarrow> nat option \<times> search_queue" where
  "pop_recent_loop s now i sq =
     (case sq_recentSearchQueue sq of
        [] \<Rightarrow> (None, sq)
      | item # rest \<Rightarrow>
          if \<not> i < length (sq_recentSearchQueue sq) then (None, sq)
          else
            let recent = si_checkRecent s item;
                sq = sq\<lparr>sq_recentSearchQueue := rest, sq_isRecent := (sq_isRecent sq)(item := recent)\<rparr>;
                sq = (if recent then sq\<lparr>sq_recentSearchQueue := sq_recentSearchQueue sq @ [item]\<rparr>
                      else addSearchPrio s now item sq)
            in if si_allowAutoSearch s item then (Some item, sq) else pop_recent_loop s now (i + 1) sq)"
  by pat_completeness auto
termination
  by (relation "measure (\<lambda>(s, now, i, sq). length (sq_recentSearchQueue sq) - i)")
    (auto simp: addSearchPrio_def recalculateSearchTimes_def Let_def split: if_splits)

definition maybePopRecent :: "search_item_env \<Rightarrow> tick \<Rightarrow> search_queue \<Rightarrow> nat option \<times> search_queue" where
  "maybePopRecent s now sq = pop_recent_loop s now 0 sq"

definition maybePopNormal :: "search_item_env \<Rightarrow> nat \<Rightarrow> search_queue \<Rightarrow> (nat option \<times> search_queue) option" where
  "maybePopNormal s drawn sq =
     (if getValidItemCountNormal s sq = 0 then Some (None, sq)
      else
        let p = drawn + prio_slot LOW
        in if prio_slot LAST \<le> p then None
           else
             case find (si_allowAutoSearch s) (sq_prioSearchQueue sq p) of
               Some item \<Rightarrow>
                 Some (Some item,
                   sq\<lparr>sq_prioSearchQueue := (sq_prioSearchQueue sq)(p := erase_first (si_allowAutoSearch s) (sq_prioSearchQueue sq p) @ [item])\<rparr>)
             | None \<Rightarrow> Some (None, sq))"

definition maybePopSearchItem ::
  "search_item_env \<Rightarrow> tick \<Rightarrow> nat \<Rightarrow> tick \<Rightarrow> bool \<Rightarrow> search_queue \<Rightarrow> (nat option \<times> search_queue) option" where
  "maybePopSearchItem s now drawn aTick aIgnoreNextTick sq =
     (let normal = (if sq_nextSearchNormal sq \<le> aTick \<or> aIgnoreNextTick
                    then map_option (\<lambda>(r, sq). (r, if r \<noteq> None then recalculateSearchTimes s False True aTick sq else sq))
                           (maybePopNormal s drawn sq)
                    else Some (None, sq))
      in case normal of
           None \<Rightarrow> None
         | Some (Some item, sq) \<Rightarrow> Some (Some item, sq)
         | Some (None, sq) \<Rightarrow>
             if sq_nextSearchRecent sq \<le> aTick \<or> aIgnoreNextTick then
               let (r, sq) = maybePopRecent s now sq
               in Some (r, if r \<noteq> None then recalculateSearchTimes s True True aTick sq else sq)
             else Some (None, sq))"

declare pop_recent_loop.simps [simp del]

section \<open>Items are neither lost nor repeated\<close>

lemma prio_slot_simps [simp]:
  "prio_slot DEFAULT = 0" "prio_slot PAUSED_FORCE = 0" "prio_slot PAUSED = 1" "prio_slot LOWEST = 2" "prio_slot LOW = 3"
  "prio_slot NORMAL = 4" "prio_slot HIGH = 5" "prio_slot HIGHEST = 6" "prio_slot LAST = 7"
  by (simp_all add: prio_slot_def)

definition sq_items :: "search_queue \<Rightarrow> nat multiset" where
  "sq_items sq = mset (sq_recentSearchQueue sq) + (\<Sum>p<7. mset (sq_prioSearchQueue sq p))"

text \<open>Each item is in the queue that its priority and its recent flag name.\<close>

definition sq_ok :: "search_item_env \<Rightarrow> search_queue \<Rightarrow> bool" where
  "sq_ok s sq \<longleftrightarrow>
     (\<forall>i\<in>set (sq_recentSearchQueue sq). LOW \<le> si_priority s i \<and> si_priority s i < LAST \<and> sq_isRecent sq i)
     \<and> (\<forall>p. \<forall>i\<in>set (sq_prioSearchQueue sq p). LOW \<le> si_priority s i \<and> si_priority s i < LAST \<and> prio_slot (si_priority s i) = p
          \<and> \<not> sq_isRecent sq i)
     \<and> distinct (sq_recentSearchQueue sq) \<and> (\<forall>p. distinct (sq_prioSearchQueue sq p))"

lemma recalculate_simps [simp]:
  "sq_prioSearchQueue (recalculateSearchTimes s r f t sq) = sq_prioSearchQueue sq"
  "sq_recentSearchQueue (recalculateSearchTimes s r f t sq) = sq_recentSearchQueue sq"
  "sq_isRecent (recalculateSearchTimes s r f t sq) = sq_isRecent sq"
  "sq_items (recalculateSearchTimes s r f t sq) = sq_items sq"
  by (simp_all add: recalculateSearchTimes_def sq_items_def Let_def)

lemma prio_slot_lt: "p < LAST \<Longrightarrow> prio_slot p < 7"
  by (cases p) (simp_all add: less_prio_def)

lemma sum_queue_update:
  fixes q :: "nat \<Rightarrow> nat list"
  assumes "p < 7"
  shows "(\<Sum>r<7. mset ((q(p := xs)) r)) + mset (q p) = (\<Sum>r<7. mset (q r)) + mset xs"
proof -
  have "(\<Sum>r<7. mset (f r)) = mset (f p) + (\<Sum>r\<in>{..<7} - {p}. mset (f r))" for f :: "nat \<Rightarrow> nat list"
    using assms by (intro sum.remove) auto
  from this [of "q(p := xs)"] this [of q] show ?thesis by simp
qed

lemma sq_items_prio:
  assumes "p < 7"
  shows "sq_items (sq\<lparr>sq_prioSearchQueue := (sq_prioSearchQueue sq)(p := xs)\<rparr>) + mset (sq_prioSearchQueue sq p)
    = sq_items sq + mset xs"
  using sum_queue_update [OF assms, of "sq_prioSearchQueue sq" xs] by (simp add: sq_items_def union_assoc)

lemma addSearchPrio_items:
  assumes "LOW \<le> si_priority s i" and "si_priority s i < LAST"
  shows "sq_items (addSearchPrio s now i sq) = add_mset i (sq_items sq)"
proof (cases "sq_isRecent sq i")
  case True
  then show ?thesis using assms by (simp add: addSearchPrio_def sq_items_def Let_def)
next
  case False
  define p where "p = prio_slot (si_priority s i)"
  have "p < 7" using prio_slot_lt [OF assms(2)] by (simp add: p_def)
  from sq_items_prio [OF this, of sq "sq_prioSearchQueue sq p @ [i]"]
  have "sq_items (sq\<lparr>sq_prioSearchQueue := (sq_prioSearchQueue sq)(p := sq_prioSearchQueue sq p @ [i])\<rparr>) = add_mset i (sq_items sq)"
    by simp
  then show ?thesis using False assms by (simp add: addSearchPrio_def Let_def p_def)
qed

lemma erase_find:
  assumes "find P xs = Some x"
  shows "mset (erase_first P xs @ [x]) = mset xs" and "P x" and "x \<in> set xs"
  using assms by (induction xs) (auto split: if_splits)

lemma pop_normal:
  assumes "maybePopNormal s drawn sq = Some (r, sq')"
  shows "sq_items sq' = sq_items sq \<and> sq_isRecent sq' = sq_isRecent sq \<and> sq_recentSearchQueue sq' = sq_recentSearchQueue sq
    \<and> (\<forall>p. set (sq_prioSearchQueue sq' p) = set (sq_prioSearchQueue sq p)
           \<and> distinct (sq_prioSearchQueue sq' p) = distinct (sq_prioSearchQueue sq p))
    \<and> (\<forall>i. r = Some i \<longrightarrow> si_allowAutoSearch s i \<and> i \<in> set (sq_prioSearchQueue sq (drawn + 3))
        \<and> last (sq_prioSearchQueue sq' (drawn + 3)) = i)"
proof (cases "getValidItemCountNormal s sq = 0")
  case True
  then show ?thesis using assms by (simp add: maybePopNormal_def)
next
  case False
  then have p: "drawn + 3 < 7" using assms by (simp add: maybePopNormal_def Let_def split: if_splits)
  show ?thesis
  proof (cases "find (si_allowAutoSearch s) (sq_prioSearchQueue sq (drawn + 3))")
    case None
    then show ?thesis using False p assms by (simp add: maybePopNormal_def Let_def)
  next
    case (Some item)
    note e = erase_find [OF Some]
    let ?xs = "erase_first (si_allowAutoSearch s) (sq_prioSearchQueue sq (drawn + 3)) @ [item]"
    have r: "r = Some item" "sq' = sq\<lparr>sq_prioSearchQueue := (sq_prioSearchQueue sq)(drawn + 3 := ?xs)\<rparr>"
      using False p assms Some by (simp_all add: maybePopNormal_def Let_def)
    have "sq_items sq' = sq_items sq" using sq_items_prio [OF p, of sq ?xs] unfolding e(1) r(2) by (rule add_right_imp_eq)
    moreover have "set ?xs = set (sq_prioSearchQueue sq (drawn + 3))" using e(1) by (metis set_mset_mset)
    moreover have "distinct ?xs = distinct (sq_prioSearchQueue sq (drawn + 3))" using e(1) by (rule mset_eq_imp_distinct_iff)
    ultimately show ?thesis using e(2,3) by (simp add: r)
  qed
qed

lemma sq_ok_recalculate [simp]: "sq_ok s (recalculateSearchTimes r rc f t sq) = sq_ok s sq"
  by (simp add: sq_ok_def)

text \<open>The first recent item moves to the end, or to its priority when it is not recent any more.\<close>

definition move_recent :: "search_item_env \<Rightarrow> tick \<Rightarrow> nat \<Rightarrow> nat list \<Rightarrow> search_queue \<Rightarrow> search_queue" where
  "move_recent s now item rest sq =
     (let sq = sq\<lparr>sq_recentSearchQueue := rest, sq_isRecent := (sq_isRecent sq)(item := si_checkRecent s item)\<rparr>
      in if si_checkRecent s item then sq\<lparr>sq_recentSearchQueue := sq_recentSearchQueue sq @ [item]\<rparr>
         else addSearchPrio s now item sq)"

lemma move_recent_ok:
  assumes ok: "sq_ok s sq" and l: "sq_recentSearchQueue sq = item # rest"
  shows "sq_items (move_recent s now item rest sq) = sq_items sq" and "sq_ok s (move_recent s now item rest sq)"
proof -
  have p: "LOW \<le> si_priority s item" "si_priority s item < LAST" and n: "item \<notin> set rest"
    and o: "\<And>p. item \<notin> set (sq_prioSearchQueue sq p)"
    using ok l by (auto simp: sq_ok_def)
  define sq0 where "sq0 = sq\<lparr>sq_recentSearchQueue := rest, sq_isRecent := (sq_isRecent sq)(item := False)\<rparr>"
  have i0: "sq_items sq = add_mset item (sq_items sq0)" by (simp add: sq_items_def sq0_def l)
  have "sq_items (move_recent s now item rest sq) = sq_items sq \<and> sq_ok s (move_recent s now item rest sq)"
  proof (cases "si_checkRecent s item")
    case True
    then show ?thesis using ok l n by (auto simp: move_recent_def Let_def sq_items_def sq_ok_def)
  next
    case False
    have m: "move_recent s now item rest sq = addSearchPrio s now item sq0"
      using False by (simp add: move_recent_def Let_def sq0_def)
    have "sq_ok s (addSearchPrio s now item sq0)"
      using ok p n o l by (auto simp: addSearchPrio_def Let_def sq0_def sq_ok_def)
    then show ?thesis using m addSearchPrio_items [OF p, of now sq0] i0 by simp
  qed
  then show "sq_items (move_recent s now item rest sq) = sq_items sq" "sq_ok s (move_recent s now item rest sq)" by auto
qed

lemma pop_recent:
  assumes "pop_recent_loop s now i sq = (r, sq')" and "sq_ok s sq"
  shows "sq_items sq' = sq_items sq \<and> sq_ok s sq' \<and> (\<forall>j. r = Some j \<longrightarrow> si_allowAutoSearch s j \<and> j \<in># sq_items sq)"
  using assms
proof (induction s now i sq rule: pop_recent_loop.induct)
  case (1 s now i sq)
  show ?case
  proof (cases "sq_recentSearchQueue sq")
    case Nil
    then show ?thesis using 1 by (simp add: pop_recent_loop.simps)
  next
    case (Cons item rest)
    note mv = move_recent_ok [OF 1(3) Cons, of now]
    have unfold: "pop_recent_loop s now i sq =
      (if \<not> i < length (sq_recentSearchQueue sq) then (None, sq)
       else if si_allowAutoSearch s item then (Some item, move_recent s now item rest sq)
       else pop_recent_loop s now (i + 1) (move_recent s now item rest sq))"
      using Cons by (subst pop_recent_loop.simps) (simp add: Let_def move_recent_def)
    have mem: "item \<in># sq_items sq" by (simp add: sq_items_def Cons)
    show ?thesis
    proof (cases "i < length (sq_recentSearchQueue sq) \<and> \<not> si_allowAutoSearch s item")
      case True
      have IH: "pop_recent_loop s now (i + 1) (move_recent s now item rest sq) = (r, sq') \<Longrightarrow>
          sq_ok s (move_recent s now item rest sq) \<Longrightarrow>
          sq_items sq' = sq_items (move_recent s now item rest sq) \<and> sq_ok s sq'
          \<and> (\<forall>j. r = Some j \<longrightarrow> si_allowAutoSearch s j \<and> j \<in># sq_items (move_recent s now item rest sq))"
        using 1(1) [OF Cons _ refl refl refl] True by (simp add: move_recent_def Let_def)
      show ?thesis using IH 1(2) True unfold mv by simp
    next
      case False
      then show ?thesis using 1(2,3) unfold mv mem by (auto split: if_splits)
    qed
  qed
qed

lemma pop_ok:
  assumes ok: "sq_ok s sq" and r: "maybePopSearchItem s now drawn aTick ign sq = Some (r, sq')"
  shows "sq_items sq' = sq_items sq \<and> sq_ok s sq' \<and> (\<forall>j. r = Some j \<longrightarrow> si_allowAutoSearch s j \<and> j \<in># sq_items sq)"
proof -
  define normal where "normal = (if sq_nextSearchNormal sq \<le> aTick \<or> ign
      then map_option (\<lambda>(r, sq). (r, if r \<noteq> None then recalculateSearchTimes s False True aTick sq else sq)) (maybePopNormal s drawn sq)
      else Some (None, sq))"
  obtain r1 sq1 where n: "normal = Some (r1, sq1)"
    using r unfolding maybePopSearchItem_def normal_def [symmetric] Let_def by (cases normal) auto
  have 1: "sq_items sq1 = sq_items sq \<and> sq_ok s sq1 \<and> (\<forall>j. r1 = Some j \<longrightarrow> si_allowAutoSearch s j \<and> j \<in># sq_items sq)"
  proof (cases "sq_nextSearchNormal sq \<le> aTick \<or> ign")
    case True
    then obtain sq2 where sq2: "maybePopNormal s drawn sq = Some (r1, sq2)"
      "sq1 = (if r1 \<noteq> None then recalculateSearchTimes s False True aTick sq2 else sq2)"
      using n by (auto simp: normal_def)
    note pn = pop_normal [OF sq2(1)]
    have mem: "j \<in># sq_items sq" if "j \<in> set (sq_prioSearchQueue sq p)" for j p
    proof -
      have "p = prio_slot (si_priority s j)" "si_priority s j < LAST" using ok that by (auto simp: sq_ok_def)
      then have "p < 7" using prio_slot_lt by simp
      then have "j \<in># (\<Sum>p<7. mset (sq_prioSearchQueue sq p))" using that by (subst set_mset_sum) auto
      then show ?thesis by (simp add: sq_items_def)
    qed
    have "sq_ok s sq2" using ok pn by (auto simp: sq_ok_def)
    then show ?thesis using pn mem by (auto simp: sq2(2))
  qed (use n ok in \<open>auto simp: normal_def\<close>)
  show ?thesis
  proof (cases r1)
    case (Some i)
    then show ?thesis using r n 1 unfolding maybePopSearchItem_def normal_def [symmetric] Let_def by auto
  next
    case None
    show ?thesis
    proof (cases "sq_nextSearchRecent sq1 \<le> aTick \<or> ign")
      case True
      obtain r2 sq2 where p: "maybePopRecent s now sq1 = (r2, sq2)" by fastforce
      then have "r = r2" "sq' = (if r2 \<noteq> None then recalculateSearchTimes s True True aTick sq2 else sq2)"
        using r n None True unfolding maybePopSearchItem_def normal_def [symmetric] Let_def by auto
      then show ?thesis using pop_recent [of s now 0 sq1 r2 sq2] p 1 by (simp add: maybePopRecent_def)
    next
      case False
      then show ?thesis using r n None 1 unfolding maybePopSearchItem_def normal_def [symmetric] Let_def by auto
    qed
  qed
qed

text \<open>A queue of positive weight has an item that may be searched for.\<close>

lemma pop_normal_some:
  assumes "drawn < 4" and "0 < search_weights s sq ! drawn"
  shows "\<exists>i sq'. maybePopNormal s drawn sq = Some (Some i, sq')"
proof -
  have l: "search_slots = [3, 4, 5, 6]" by (simp add: search_slots_def upt_rec)
  have p: "search_slots ! drawn = drawn + 3" "drawn < length search_slots" "drawn + 3 \<in> set search_slots"
    using assms(1) by (auto simp: l nth_Cons' split: if_splits)
  then have "filter (si_allowAutoSearch s) (sq_prioSearchQueue sq (drawn + 3)) \<noteq> []"
    using assms(2) by (auto simp: search_weights_def)
  then have ex: "\<exists>i\<in>set (sq_prioSearchQueue sq (drawn + 3)). si_allowAutoSearch s i" by (auto simp: filter_empty_conv)
  then obtain i where "find (si_allowAutoSearch s) (sq_prioSearchQueue sq (drawn + 3)) = Some i"
    by (cases "find (si_allowAutoSearch s) (sq_prioSearchQueue sq (drawn + 3))") (auto simp: find_None_iff)
  moreover have "getValidItemCountNormal s sq \<noteq> 0"
    using ex p(3) by (auto simp: getValidItemCountNormal_def filter_empty_conv)
  ultimately show ?thesis using assms(1) by (simp add: maybePopNormal_def Let_def)
qed

lemma pop_runs:
  assumes "getValidItemCountNormal s sq = 0 \<or> drawn < 4 \<and> 0 < search_weights s sq ! drawn"
  shows "\<exists>r sq'. maybePopSearchItem s now drawn aTick ign sq = Some (r, sq')
    \<and> (getValidItemCountNormal s sq \<noteq> 0 \<and> (sq_nextSearchNormal sq \<le> aTick \<or> ign) \<longrightarrow> r \<noteq> None)"
proof (cases "getValidItemCountNormal s sq = 0")
  case True
  then have "maybePopNormal s drawn sq = Some (None, sq)" by (simp add: maybePopNormal_def)
  then show ?thesis using True by (auto simp: maybePopSearchItem_def Let_def split: prod.split)
next
  case False
  then obtain i sq1 where "maybePopNormal s drawn sq = Some (Some i, sq1)" using assms pop_normal_some [of drawn s sq] by auto
  then show ?thesis by (auto simp: maybePopSearchItem_def Let_def split: prod.split)
qed

section \<open>Properties\<close>


definition test_search_env :: search_item_env where
  "test_search_env = \<lparr>si_priority = (\<lambda>i. if i = 1 then LOW else HIGH), si_allowAutoSearch = (\<lambda>i. i \<noteq> 2),
     si_checkRecent = (\<lambda>_. False), si_minInterval = 5\<rparr>"

definition test_search_queue :: search_queue where
  "test_search_queue = \<lparr>sq_prioSearchQueue = (\<lambda>p. if p = 3 then [1] else if p = 5 then [2, 3] else []),
     sq_recentSearchQueue = [4], sq_nextSearchNormal = 0, sq_nextSearchRecent = 0, sq_isRecent = (\<lambda>i. i = 4)\<rparr>"


end
