(* ===== verification/Bundle_Queue.thy ===== *)
theory Bundle_Queue
  imports File_Queue Sorted_Vector Search_Queue
begin

text \<open>
  \<^bold>\<open>queue/BundleQueue.cpp\<close>: the bundles by token, their directories by name and by bundle, and the counts of
  files in each directory (\<open>PathInfo\<close>).  A \<open>PathInfo\<close> is a number in the store \<open>bq_infos\<close>, as the code keeps
  pointers to it; counts are \<open>size_t\<close> words.  The match of a directory name with a regular expression
  (\<open>subDirRegPlain\<close>) is the argument \<open>reg\<close>.  \<open>None\<close>: a comparison reads past a string, a loop does not end, or
  a reference into a map is used after its entry was erased.
\<close>

section \<open>Names of release directories\<close>

text \<open>
  \<open>DupeUtil::getDirectoryName\<close>; \<open>i\<close> is \<open>None\<close> for \<open>npos\<close>.  For a short path the code returns \<open>false\<close>, that is
  position 0, and not \<open>npos\<close>.
\<close>

partial_function (option) directory_name_loop ::
  "(string \<Rightarrow> bool) \<Rightarrow> char \<Rightarrow> string \<Rightarrow> nat option \<Rightarrow> bool \<Rightarrow> (nat \<times> nat option \<times> bool) option" where
  "directory_name_loop reg s aPath i sub =
     (case (case i of Some k \<Rightarrow> find_last_of s aPath k | None \<Rightarrow> rfind s aPath) of
        None \<Rightarrow> Some (0, i, sub)
      | Some j \<Rightarrow>
          if \<not> reg (case i of Some k \<Rightarrow> take (k - j) (drop (j + 1) aPath) | None \<Rightarrow> drop (j + 1) aPath)
          then Some (j + 1, i, sub)
          else directory_name_loop reg s aPath (if j = 0 then None else Some (j - 1)) True)"

definition getDirectoryName :: "(string \<Rightarrow> bool) \<Rightarrow> char \<Rightarrow> string \<Rightarrow> (string \<times> nat option) option" where
  "getDirectoryName reg s aPath =
     (if length aPath < 3 then Some (aPath, Some 0)
      else
        let i = (if last aPath = s then length aPath - 2 else length aPath - 1)
        in map_option
             (\<lambda>(j, i, sub).
                case i of
                  Some k \<Rightarrow> (take (k + 1 - j) (drop j aPath), if sub then Some (k + 2) else None)
                | None \<Rightarrow> (drop j aPath, if sub then Some 1 else None))
             (directory_name_loop reg s aPath (Some i) False))"

definition getReleaseDir :: "(string \<Rightarrow> bool) \<Rightarrow> char \<Rightarrow> string \<Rightarrow> bool \<Rightarrow> string option" where
  "getReleaseDir reg s aDir aCut =
     map_option
       (\<lambda>(name, p). if aCut then name else (case p of None \<Rightarrow> aDir | Some k \<Rightarrow> take k aDir))
       (getDirectoryName reg s (getFilePath s aDir))"

section \<open>State\<close>

type_synonym size_t = "64 word"

record path_info =
  pi_path :: string
  pi_bundle :: nat
  pi_queuedFiles :: size_t
  pi_finishedFiles :: size_t
  pi_size :: int

record bundle_queue =
  bq_items :: "nat \<Rightarrow> queue_item"
  bq_store :: "nat \<Rightarrow> bundle_t"
  bq_bundles :: "nat list"
  bq_infos :: "nat \<Rightarrow> path_info"
  bq_next :: nat
  bq_dirNameMap :: "wchar list \<Rightarrow> nat list"
  bq_bundlePaths :: "wchar list \<Rightarrow> nat list option"
  bq_queueSize :: int
  bq_searchQueue :: search_queue

definition path_info_new :: "string \<Rightarrow> nat \<Rightarrow> path_info" where
  "path_info_new aPath b =
     \<lparr>pi_path = aPath, pi_bundle = b, pi_queuedFiles = 0, pi_finishedFiles = 0, pi_size = 0\<rparr>"

definition toDupeType :: "int \<Rightarrow> path_info \<Rightarrow> dupe_type" where
  "toDupeType aSize info =
     (let fullDupe = pi_size info = aSize
      in if pi_queuedFiles info = 0 then (if fullDupe then DUPE_FINISHED_FULL else DUPE_FINISHED_PARTIAL)
         else if fullDupe then DUPE_QUEUE_FULL else DUPE_QUEUE_PARTIAL)"

definition bundle_key :: "env \<Rightarrow> bundle_queue \<Rightarrow> nat \<Rightarrow> wchar list" where
  "bundle_key e bq b = path_key e (bu_target (bq_store bq b))"

definition info_path :: "bundle_queue \<Rightarrow> nat \<Rightarrow> string" where
  "info_path bq i = pi_path (bq_infos bq i)"

section \<open>Directories\<close>

definition addPathInfo :: "env \<Rightarrow> string \<Rightarrow> nat \<Rightarrow> bundle_queue \<Rightarrow> nat \<times> bundle_queue" where
  "addPathInfo e aPath b bq =
     (let i = bq_next bq;
          name = path_key e (getLastDir sep aPath);
          bq = bq\<lparr>bq_infos := (bq_infos bq)(i := path_info_new aPath b), bq_next := i + 1,
                  bq_dirNameMap := (bq_dirNameMap bq)(name := bq_dirNameMap bq name @ [i])\<rparr>;
          infos = (case bq_bundlePaths bq (bundle_key e bq b) of None \<Rightarrow> [] | Some l \<Rightarrow> l)
      in (i, bq\<lparr>bq_bundlePaths := (bq_bundlePaths bq)(bundle_key e bq b
                  \<mapsto> fst (insert_sorted str_compare (info_path bq) i infos))\<rparr>))"

text \<open>\<open>PathInfo::operator==\<close> compares bundle and path.\<close>

definition info_eq :: "path_info \<Rightarrow> path_info \<Rightarrow> bool" where
  "info_eq a b \<longleftrightarrow> pi_bundle a = pi_bundle b \<and> pi_path a = pi_path b"

definition removePathInfo :: "env \<Rightarrow> nat \<Rightarrow> bundle_queue \<Rightarrow> bundle_queue" where
  "removePathInfo e i bq =
     (let info = bq_infos bq i;
          k = bundle_key e bq (pi_bundle info);
          infos = (case bq_bundlePaths bq k of None \<Rightarrow> [] | Some l \<Rightarrow> l);
          infos = fst (erase_key str_compare (info_path bq) (pi_path info) infos);
          name = path_key e (getLastDir sep (pi_path info))
      in bq\<lparr>bq_bundlePaths := (bq_bundlePaths bq)(k := if infos = [] then None else Some infos),
            bq_dirNameMap := (bq_dirNameMap bq)(name := erase_first (\<lambda>j. info_eq (bq_infos bq j) info) (bq_dirNameMap bq name))\<rparr>)"

text \<open>
  The loop of \<open>forEachPath\<close>, which keeps a reference to the vector of the bundle.  The parent directory of a
  path that has none is the path: the loop does not end on a file outside of the bundle's directory.
\<close>

function for_each_path_loop :: "env \<Rightarrow> nat \<Rightarrow> (path_info \<Rightarrow> path_info) \<Rightarrow> string \<Rightarrow> bundle_queue \<Rightarrow> bundle_queue option" where
  "for_each_path_loop e b aHandler currentPath bq =
     (case bq_bundlePaths bq (bundle_key e bq b) of
        None \<Rightarrow> None
      | Some pathInfos \<Rightarrow>
          let p = sv_find str_compare (info_path bq) currentPath pathInfos;
              (info, bq) = (if p = length pathInfos then addPathInfo e currentPath b bq else (pathInfos ! p, bq));
              bq = bq\<lparr>bq_infos := (bq_infos bq)(info := aHandler (bq_infos bq info))\<rparr>;
              bq = (if pi_finishedFiles (bq_infos bq info) = 0 \<and> pi_queuedFiles (bq_infos bq info) = 0
                    then removePathInfo e info bq else bq)
          in if length currentPath = length (bu_target (bq_store bq b)) then Some bq
             else
               let parent = getParentDir sep False currentPath
               in if length parent < length currentPath then for_each_path_loop e b aHandler parent bq else None)"
  by pat_completeness auto
termination
  by (relation "measure (\<lambda>(e, b, h, p, bq). length p)") auto

declare for_each_path_loop.simps [simp del]

definition forEachPath :: "env \<Rightarrow> nat \<Rightarrow> string \<Rightarrow> (path_info \<Rightarrow> path_info) \<Rightarrow> bundle_queue \<Rightarrow> bundle_queue option" where
  "forEachPath e b aFilePath aHandler bq =
     (let k = bundle_key e bq b;
          bq = (if bq_bundlePaths bq k = None then bq\<lparr>bq_bundlePaths := (bq_bundlePaths bq)(k \<mapsto> [])\<rparr> else bq)
      in for_each_path_loop e b aHandler (getFilePath sep aFilePath) bq)"

section \<open>Files of bundles\<close>

definition add_file_info :: "queue_item \<Rightarrow> path_info \<Rightarrow> path_info" where
  "add_file_info q info =
     (let info = (if qi_isDownloaded q then info\<lparr>pi_finishedFiles := pi_finishedFiles info + 1\<rparr>
                  else info\<lparr>pi_queuedFiles := pi_queuedFiles info + 1\<rparr>)
      in info\<lparr>pi_size := pi_size info + qi_size q\<rparr>)"

definition remove_file_info :: "queue_item \<Rightarrow> bool \<Rightarrow> path_info \<Rightarrow> path_info" where
  "remove_file_info q aDownloadFinished info =
     (let info = (if qi_isDownloaded q then info\<lparr>pi_finishedFiles := pi_finishedFiles info - 1\<rparr>
                  else info\<lparr>pi_queuedFiles := pi_queuedFiles info - 1\<rparr>)
      in if \<not> aDownloadFinished then info\<lparr>pi_size := pi_size info - qi_size q\<rparr> else info)"

definition addBundleItem :: "env \<Rightarrow> nat \<Rightarrow> nat \<Rightarrow> bundle_queue \<Rightarrow> bundle_queue option" where
  "addBundleItem e i b bq =
     (let q = bq_items bq i;
          bq = bq\<lparr>bq_store := (bq_store bq)(b := addQueue q (bq_store bq b)),
                  bq_items := (bq_items bq)(i := q\<lparr>qi_bundle := Some b\<rparr>)\<rparr>
      in map_option
           (\<lambda>bq. if \<not> qi_isDownloaded q then bq\<lparr>bq_queueSize := bq_queueSize bq + qi_size q\<rparr> else bq)
           (if \<not> bu_fileBundle (bq_store bq b) then forEachPath e b (qi_target q) (add_file_info q) bq else Some bq))"

text \<open>\<open>None\<close> also for a file that has no bundle.\<close>

definition bq_removeBundleItem :: "env \<Rightarrow> nat \<Rightarrow> bool \<Rightarrow> bundle_queue \<Rightarrow> bundle_queue option" where
  "bq_removeBundleItem e i aDownloadFinished bq =
     (let q = bq_items bq i in
      case qi_bundle q of
        None \<Rightarrow> None
      | Some b \<Rightarrow>
          let bq = bq\<lparr>bq_store := (bq_store bq)(b := removeQueue q aDownloadFinished (bq_store bq b))\<rparr>
          in map_option
               (\<lambda>bq. if aDownloadFinished \<or> \<not> qi_isDownloaded q then bq\<lparr>bq_queueSize := bq_queueSize bq - qi_size q\<rparr> else bq)
               (if \<not> bu_fileBundle (bq_store bq b)
                then forEachPath e b (qi_target q) (remove_file_info q aDownloadFinished) bq else Some bq))"

section \<open>Lookups\<close>

definition getTotalFiles :: "bundle_queue \<Rightarrow> nat" where
  "getTotalFiles bq =
     sum_list (map (\<lambda>b. length (bu_queueItems (bq_store bq b)) + length (bu_finishedFiles (bq_store bq b))) (bq_bundles bq))"

definition findBundle_token :: "nat \<Rightarrow> bundle_queue \<Rightarrow> nat option" where
  "findBundle_token aBundleToken bq = (if aBundleToken \<in> set (bq_bundles bq) then Some aBundleToken else None)"

definition getPathInfos :: "env \<Rightarrow> string \<Rightarrow> bundle_queue \<Rightarrow> nat list option" where
  "getPathInfos e aBundlePath bq = bq_bundlePaths bq (path_key e aBundlePath)"

definition findBundle :: "env \<Rightarrow> string \<Rightarrow> bundle_queue \<Rightarrow> nat option" where
  "findBundle e aPath bq =
     (case getPathInfos e aPath bq of
        Some (i # _) \<Rightarrow> Some (pi_bundle (bq_infos bq i)) | _ \<Rightarrow> None)"

definition getDirectoryCount :: "env \<Rightarrow> nat \<Rightarrow> bundle_queue \<Rightarrow> nat" where
  "getDirectoryCount e b bq =
     (case getPathInfos e (bu_target (bq_store bq b)) bq of None \<Rightarrow> 0 | Some l \<Rightarrow> length l)"

definition getSourceInfo :: "user \<Rightarrow> bundle_queue \<Rightarrow> (nat \<times> bundle_source) list \<times> (nat \<times> bundle_source) list" where
  "getSourceInfo u bq =
     (List.map_filter (\<lambda>b. map_option (Pair b) (find_source u (bu_sources (bq_store bq b)))) (bq_bundles bq),
      List.map_filter (\<lambda>b. map_option (Pair b) (find_source u (bu_badSources (bq_store bq b)))) (bq_bundles bq))"

text \<open>The first directory of the bundle whose path ends with the subpath.\<close>

fun sub_directory_loop :: "env \<Rightarrow> string \<Rightarrow> bundle_queue \<Rightarrow> nat list \<Rightarrow> nat option option" where
  "sub_directory_loop e aSubPath bq [] = Some None"
| "sub_directory_loop e aSubPath bq (i # is) =
     (case compareFromEnd (e_lower e) sep (info_path bq i) aSubPath of
        None \<Rightarrow> None
      | Some pos \<Rightarrow> if pos = 0 then Some (Some i) else sub_directory_loop e aSubPath bq is)"

definition getAdcSubDirectoryInfo :: "env \<Rightarrow> string \<Rightarrow> nat \<Rightarrow> bundle_queue \<Rightarrow> nat option option" where
  "getAdcSubDirectoryInfo e aSubPath b bq =
     (case getPathInfos e (bu_target (bq_store bq b)) bq of
        Some l \<Rightarrow> sub_directory_loop e aSubPath bq l | None \<Rightarrow> Some None)"

fun adc_infos_loop :: "env \<Rightarrow> string \<Rightarrow> nat option \<Rightarrow> bundle_queue \<Rightarrow> nat list \<Rightarrow> nat list option" where
  "adc_infos_loop e aAdcPath subdirStart bq [] = Some []"
| "adc_infos_loop e aAdcPath subdirStart bq (i # is) =
     (case (case subdirStart of
              None \<Rightarrow> Some (Some i)
            | Some k \<Rightarrow> getAdcSubDirectoryInfo e (drop k aAdcPath) (pi_bundle (bq_infos bq i)) bq) of
        None \<Rightarrow> None
      | Some found \<Rightarrow>
          map_option (\<lambda>rest. case found of Some j \<Rightarrow> j # rest | None \<Rightarrow> rest)
            (adc_infos_loop e aAdcPath subdirStart bq is))"

definition findAdcDirectoryPathInfos :: "env \<Rightarrow> (string \<Rightarrow> bool) \<Rightarrow> string \<Rightarrow> bundle_queue \<Rightarrow> nat list option" where
  "findAdcDirectoryPathInfos e reg aAdcPath bq =
     (case getDirectoryName reg sep aAdcPath of
        None \<Rightarrow> None
      | Some (dirName, subdirStart) \<Rightarrow>
          adc_infos_loop e aAdcPath subdirStart bq (bq_dirNameMap bq (path_key e dirName)))"

definition getAdcDirectoryDupe :: "env \<Rightarrow> (string \<Rightarrow> bool) \<Rightarrow> string \<Rightarrow> int \<Rightarrow> bundle_queue \<Rightarrow> dupe_type option" where
  "getAdcDirectoryDupe e reg aPath aSize bq =
     map_option (\<lambda>infos. case infos of [] \<Rightarrow> DUPE_NONE | i # _ \<Rightarrow> toDupeType aSize (bq_infos bq i))
       (findAdcDirectoryPathInfos e reg aPath bq)"

definition getAdcDirectoryDupePaths :: "env \<Rightarrow> (string \<Rightarrow> bool) \<Rightarrow> string \<Rightarrow> bundle_queue \<Rightarrow> string list option" where
  "getAdcDirectoryDupePaths e reg aAdcPath bq =
     map_option (map (info_path bq)) (findAdcDirectoryPathInfos e reg aAdcPath bq)"

text \<open>Directories of this name: each asks the directories of its bundle for the exact path.\<close>

definition path_equal :: "env \<Rightarrow> string \<Rightarrow> string \<Rightarrow> bool option" where
  "path_equal e a b = map_option (\<lambda>r. r = 0) (stricmp (e_lower e) a b)"

fun first_info :: "(nat \<Rightarrow> bool option) \<Rightarrow> nat list \<Rightarrow> nat option option" where
  "first_info P [] = Some None"
| "first_info P (i # is) =
     (case P i of None \<Rightarrow> None | Some True \<Rightarrow> Some (Some i) | Some False \<Rightarrow> first_info P is)"

fun local_info_loop :: "env \<Rightarrow> string \<Rightarrow> bundle_queue \<Rightarrow> nat list \<Rightarrow> nat option option" where
  "local_info_loop e aRealPath bq [] = Some None"
| "local_info_loop e aRealPath bq (i # is) =
     (case getPathInfos e (bu_target (bq_store bq (pi_bundle (bq_infos bq i)))) bq of
        None \<Rightarrow> None
      | Some l \<Rightarrow>
          (case first_info (\<lambda>j. path_equal e (info_path bq j) aRealPath) l of
             None \<Rightarrow> None
           | Some (Some j) \<Rightarrow> Some (Some j)
           | Some None \<Rightarrow> local_info_loop e aRealPath bq is))"

definition findLocalDirectoryPathInfo :: "env \<Rightarrow> (string \<Rightarrow> bool) \<Rightarrow> string \<Rightarrow> bundle_queue \<Rightarrow> nat option option" where
  "findLocalDirectoryPathInfo e reg aRealPath bq =
     (case getDirectoryName reg sep aRealPath of
        None \<Rightarrow> None
      | Some (dirName, _) \<Rightarrow> local_info_loop e aRealPath bq (bq_dirNameMap bq (path_key e dirName)))"

definition isLocalDirectoryQueued :: "env \<Rightarrow> (string \<Rightarrow> bool) \<Rightarrow> string \<Rightarrow> bundle_queue \<Rightarrow> nat option option" where
  "isLocalDirectoryQueued e reg aPath bq =
     map_option (map_option (\<lambda>i. pi_bundle (bq_infos bq i))) (findLocalDirectoryPathInfo e reg aPath bq)"

definition getMergeBundle :: "env \<Rightarrow> string \<Rightarrow> bundle_queue \<Rightarrow> nat option option" where
  "getMergeBundle e aTarget bq =
     (let filePath = getFilePath sep aTarget
      in first_info
           (\<lambda>b. let t = bu_target (bq_store bq b)
                in if bu_fileBundle (bq_store bq b) then path_equal e aTarget t
                   else isParentOrExact (e_lower e) sep t filePath)
           (bq_bundles bq))"

fun filter_option :: "(nat \<Rightarrow> bool option) \<Rightarrow> nat list \<Rightarrow> nat list option" where
  "filter_option P [] = Some []"
| "filter_option P (i # is) =
     (case P i of None \<Rightarrow> None | Some b \<Rightarrow> map_option (\<lambda>rest. if b then i # rest else rest) (filter_option P is))"

definition getSubBundles :: "env \<Rightarrow> string \<Rightarrow> bundle_queue \<Rightarrow> nat list option" where
  "getSubBundles e aTarget bq =
     filter_option (\<lambda>b. isSub (e_lower e) sep (bu_target (bq_store bq b)) aTarget) (bq_bundles bq)"

section \<open>Bundles\<close>

definition bundle_search_env :: "env \<Rightarrow> int \<Rightarrow> bundle_queue \<Rightarrow> search_item_env" where
  "bundle_search_env e now bq =
     \<lparr>si_priority = (\<lambda>b. bu_priority (bq_store bq b)),
      si_allowAutoSearch = (\<lambda>b. allowAutoSearch e (bq_items bq) (bq_store bq b)),
      si_checkRecent = (\<lambda>b. bu_recent (checkRecent (e_set e) now (bq_store bq b))),
      si_minInterval = BUNDLE_SEARCH_TIME (e_set e)\<rparr>"

definition bq_addBundle :: "env \<Rightarrow> tick \<Rightarrow> int \<Rightarrow> nat \<Rightarrow> bundle_queue \<Rightarrow> bundle_queue" where
  "bq_addBundle e now time b bq =
     (let bq = bq\<lparr>bq_bundles := (if b \<in> set (bq_bundles bq) then bq_bundles bq else bq_bundles bq @ [b])\<rparr>;
          bu = bq_store bq b
      in if filesCompleted (bq_items bq) bu
         then bq\<lparr>bq_store := (bq_store bq)(b := bu\<lparr>bu_status := B_COMPLETED\<rparr>)\<rparr>
         else
           let bq = bq\<lparr>bq_store := (bq_store bq)(b := setDownloadedBytes 0 (bu\<lparr>bu_status := B_QUEUED\<rparr>))\<rparr>;
               sq = (bq_searchQueue bq)\<lparr>sq_isRecent := (\<lambda>c. bu_recent (bq_store bq c))\<rparr>
           in bq\<lparr>bq_searchQueue := addSearchPrio (bundle_search_env e time bq) now b sq\<rparr>)"

definition bq_removeBundle :: "env \<Rightarrow> int \<Rightarrow> nat \<Rightarrow> bundle_queue \<Rightarrow> bundle_queue" where
  "bq_removeBundle e time b bq =
     (if bu_status (bq_store bq b) = B_NEW then bq
      else
        let bq = (case getPathInfos e (bu_target (bq_store bq b)) bq of
                    None \<Rightarrow> bq
                  | Some l \<Rightarrow> fold (removePathInfo e) l bq);
            sq = (bq_searchQueue bq)\<lparr>sq_isRecent := (\<lambda>c. bu_recent (bq_store bq c))\<rparr>
        in bq\<lparr>bq_searchQueue := removeSearchPrio (bundle_search_env e time bq) b sq,
              bq_bundles := filter (\<lambda>c. c \<noteq> b) (bq_bundles bq)\<rparr>)"

section \<open>Search items\<close>

definition getDirQIs :: "env \<Rightarrow> (nat \<Rightarrow> queue_item) \<Rightarrow> string \<Rightarrow> bundle_t \<Rightarrow> nat list option" where
  "getDirQIs e qs aDir b =
     (if aDir = bu_target b then Some (bu_queueItems b)
      else filter_option (\<lambda>i. isSub (e_lower e) sep (qi_target (qs i)) aDir) (bu_queueItems b))"

text \<open>A set of strings is the list of its elements; \<open>rs\<close> are the random numbers.\<close>

fun pickRandomItems :: "nat list \<Rightarrow> nat \<Rightarrow> 'a list \<Rightarrow> 'a list" where
  "pickRandomItems [] n items = []"
| "pickRandomItems (r # rs) 0 items = []"
| "pickRandomItems (r # rs) (Suc n) items =
     (if items = [] then []
      else
        let k = r mod length items
        in items ! k # pickRandomItems rs n (take k items @ drop (k + 1) items))"

definition main_paths :: "env \<Rightarrow> (string \<Rightarrow> bool) \<Rightarrow> bundle_queue \<Rightarrow> nat list \<Rightarrow> string option list" where
  "main_paths e reg bq l =
     map (\<lambda>i. getReleaseDir reg sep (info_path bq i) False) (filter (\<lambda>i. pi_queuedFiles (bq_infos bq i) \<noteq> 0) l)"

fun search_items_loop ::
  "env \<Rightarrow> (nat \<Rightarrow> nat list) \<Rightarrow> nat \<Rightarrow> bundle_queue \<Rightarrow> nat \<Rightarrow> string list \<Rightarrow> queue_item list \<Rightarrow> queue_item list option" where
  "search_items_loop e rs n bq b [] found = Some found"
| "search_items_loop e rs n bq b (path # paths) found =
     (case getDirQIs e (bq_items bq) path (bq_store bq b) of
        None \<Rightarrow> None
      | Some ql \<Rightarrow>
          let searchItem = pickSearchItem e (\<lambda>_. Some (bu_priority (bq_store bq b))) (map (bq_items bq) ql) (rs n)
          in search_items_loop e rs (n + 1) bq b paths
               (case searchItem of
                  Some q \<Rightarrow> if list_ex (\<lambda>s. qi_tth s = qi_tth q) found then found else found @ [q]
                | None \<Rightarrow> found))"

text \<open>\<open>rs n\<close>: the random numbers for the \<open>n\<close>-th choice of a file; \<open>dirs\<close>: those for the directories.\<close>

definition getSearchItems ::
  "env \<Rightarrow> (string \<Rightarrow> bool) \<Rightarrow> nat list \<Rightarrow> (nat \<Rightarrow> nat list) \<Rightarrow> nat \<Rightarrow> bundle_queue \<Rightarrow> queue_item list option" where
  "getSearchItems e reg dirs rs b bq =
     (if length (bu_queueItems (bq_store bq b)) \<le> 1 then Some (map (bq_items bq) (bu_queueItems (bq_store bq b)))
      else
        case getPathInfos e (bu_target (bq_store bq b)) bq of
          None \<Rightarrow> Some []
        | Some l \<Rightarrow>
            if None \<in> set (main_paths e reg bq l) then None
            else search_items_loop e rs 0 bq b (pickRandomItems dirs 5 (remdups (map the (main_paths e reg bq l)))) [])"

end
