(* ===== verification/Directory_Counts.thy ===== *)
theory Directory_Counts
  imports Bundle_Queue
begin

text \<open>
  What the directory counts of \<open>BundleQueue\<close> mean: after every addition and removal of files, the directories
  of a bundle are exactly those that hold some file of the bundle, each with the number of queued files, of
  finished files and the size of the files below it.  A download that completes breaks this: its count is
  taken from the finished files.
\<close>

section \<open>Directories as a map\<close>

type_synonym counts = "size_t \<times> size_t \<times> int"

definition info_counts :: "path_info \<Rightarrow> counts" where
  "info_counts i = (pi_queuedFiles i, pi_finishedFiles i, pi_size i)"

definition dir_map :: "bundle_queue \<Rightarrow> wchar list \<Rightarrow> string \<Rightarrow> counts option" where
  "dir_map bq k p =
     (case bq_bundlePaths bq k of
        None \<Rightarrow> None
      | Some l \<Rightarrow> map_option (\<lambda>i. info_counts (bq_infos bq i)) (sv_map (info_path bq) l p))"

text \<open>The vectors are sorted by path, and their entries belong to a bundle of their key.\<close>

definition dirs_ok :: "env \<Rightarrow> bundle_queue \<Rightarrow> bool" where
  "dirs_ok e bq \<longleftrightarrow>
     (\<forall>k l. bq_bundlePaths bq k = Some l \<longrightarrow>
        string_order.sv_sorted (info_path bq) l
        \<and> (\<forall>i\<in>set l. i < bq_next bq \<and> bundle_key e bq (pi_bundle (bq_infos bq i)) = k))"

text \<open>What a handler does to the counts of a directory; a directory without files goes.\<close>

definition count_update :: "(counts \<Rightarrow> counts) \<Rightarrow> counts option \<Rightarrow> counts option" where
  "count_update h c =
     (let r = h (case c of None \<Rightarrow> (0, 0, 0) | Some c \<Rightarrow> c)
      in if fst r = 0 \<and> fst (snd r) = 0 then None else Some r)"

definition handler_of :: "(path_info \<Rightarrow> path_info) \<Rightarrow> (counts \<Rightarrow> counts) \<Rightarrow> bool" where
  "handler_of f h \<longleftrightarrow>
     (\<forall>i. pi_path (f i) = pi_path i \<and> pi_bundle (f i) = pi_bundle i \<and> info_counts (f i) = h (info_counts i))"

text \<open>The paths that the loop goes through; \<open>None\<close> when it does not end.\<close>

function path_chain :: "string \<Rightarrow> string \<Rightarrow> string list option" where
  "path_chain target p =
     (if length p = length target then Some [p]
      else
        let parent = getParentDir sep False p
        in if length parent < length p then map_option (Cons p) (path_chain target parent) else None)"
  by pat_completeness auto
termination
  by (relation "measure (\<lambda>(t, p). length p)") auto

declare path_chain.simps [simp del]

lemma path_chain_lengths:
  "path_chain t p = Some ps \<Longrightarrow> distinct ps \<and> (\<forall>q\<in>set ps. length q \<le> length p) \<and> ps \<noteq> [] \<and> hd ps = p"
proof (induction t p arbitrary: ps rule: path_chain.induct)
  case (1 t p)
  show ?case
  proof (cases "length p = length t")
    case True
    with 1(2) show ?thesis by (auto simp: path_chain.simps)
  next
    case False
    define parent where "parent = getParentDir sep False p"
    from 1(2) False obtain qs where qs: "path_chain t parent = Some qs" "ps = p # qs" "length parent < length p"
      by (subst (asm) path_chain.simps) (auto simp: Let_def parent_def split: if_splits)
    have "distinct qs \<and> (\<forall>q\<in>set qs. length q \<le> length parent) \<and> qs \<noteq> [] \<and> hd qs = parent"
      using 1(1) [OF False parent_def qs(3) qs(1)] .
    then show ?thesis using qs(2,3) by fastforce
  qed
qed

text \<open>Everything but the directories.\<close>

definition same_bundles :: "bundle_queue \<Rightarrow> bundle_queue \<Rightarrow> bool" where
  "same_bundles bq bq' \<longleftrightarrow>
     bq_items bq' = bq_items bq \<and> bq_store bq' = bq_store bq \<and> bq_bundles bq' = bq_bundles bq
     \<and> bq_queueSize bq' = bq_queueSize bq \<and> bq_searchQueue bq' = bq_searchQueue bq"

lemma same_bundles_trans: "same_bundles a b \<Longrightarrow> same_bundles b c \<Longrightarrow> same_bundles a c"
  by (simp add: same_bundles_def)

lemma same_bundles_key: "same_bundles bq bq' \<Longrightarrow> bundle_key e bq' b = bundle_key e bq b"
  by (simp add: same_bundles_def bundle_key_def)

lemma sv_map_cong: "(\<And>x. x \<in> set l \<Longrightarrow> key x = key' x) \<Longrightarrow> sv_map key l p = sv_map key' l p"
  by (simp add: sv_map_def cong: find_cong)

lemma sv_sorted_cong:
  "(\<And>x. x \<in> set l \<Longrightarrow> key x = key' x) \<Longrightarrow> string_order.sv_sorted key l = string_order.sv_sorted key' l"
  by (simp add: string_order.sv_sorted_def sorted_wrt_iff_nth_less)

lemma sv_find_bound:
  assumes "string_order.sv_sorted key l"
  shows "sv_find str_compare key p l \<le> length l"
proof -
  obtain n found where "sv_getPos str_compare key l p 0 (length l) = (n, found)" by fastforce
  with string_order.getPos_all(1) [OF assms this] show ?thesis by (simp add: sv_find_def)
qed

lemma sv_map_SomeD: "sv_map key l p = Some i \<Longrightarrow> i \<in> set l \<and> key i = p"
  by (auto simp: sv_map_def find_Some_iff)

lemma set_insert_sorted: "set (fst (insert_sorted cmp key x xs)) \<subseteq> insert x (set xs)"
  by (auto simp: insert_sorted_def emplace_sorted_def Let_def split: prod.splits if_splits
      dest: in_set_takeD in_set_dropD)

lemma set_erase_key: "set (fst (erase_key cmp key k xs)) \<subseteq> set xs"
  by (auto simp: erase_key_def Let_def split: prod.splits if_splits dest: in_set_takeD in_set_dropD)

lemma dir_map_other:
  assumes "bq_bundlePaths bq' k = bq_bundlePaths bq k"
    and "\<And>l i. bq_bundlePaths bq k = Some l \<Longrightarrow> i \<in> set l \<Longrightarrow> bq_infos bq' i = bq_infos bq i"
  shows "dir_map bq' k = dir_map bq k"
proof
  fix p
  show "dir_map bq' k p = dir_map bq k p"
  proof (cases "bq_bundlePaths bq k")
    case (Some l)
    then have "sv_map (info_path bq') l p = sv_map (info_path bq) l p"
      using assms(2) by (intro sv_map_cong) (simp add: info_path_def)
    then show ?thesis using Some assms sv_map_SomeD [of "info_path bq" l p]
      by (cases "sv_map (info_path bq) l p") (auto simp: dir_map_def)
  qed (simp add: dir_map_def assms(1))
qed

text \<open>Finding or adding the directory \<open>p\<close>: its number and the new state.\<close>

definition dir_entry :: "env \<Rightarrow> nat \<Rightarrow> string \<Rightarrow> nat list \<Rightarrow> bundle_queue \<Rightarrow> nat \<times> bundle_queue" where
  "dir_entry e b p l bq =
     (let n = sv_find str_compare (info_path bq) p l
      in if n = length l then addPathInfo e p b bq else (l ! n, bq))"

lemma dir_entry_correct:
  assumes ok: "dirs_ok e bq" and k: "bundle_key e bq b = k" and l: "bq_bundlePaths bq k = Some l"
    and r: "dir_entry e b p l bq = (i, bq1)"
  shows "dirs_ok e bq1" and "same_bundles bq bq1"
    and "\<exists>l1. bq_bundlePaths bq1 k = Some l1 \<and> sv_map (info_path bq1) l1 p = Some i"
    and "bundle_key e bq1 (pi_bundle (bq_infos bq1 i)) = k"
    and "info_counts (bq_infos bq1 i) = (case dir_map bq k p of None \<Rightarrow> (0, 0, 0) | Some c \<Rightarrow> c)"
    and "q \<noteq> p \<Longrightarrow> dir_map bq1 k q = dir_map bq k q"
    and "k' \<noteq> k \<Longrightarrow> bq_bundlePaths bq1 k' = bq_bundlePaths bq k' \<and> dir_map bq1 k' = dir_map bq k'"
proof -
  have s: "string_order.sv_sorted (info_path bq) l" and m: "\<And>j. j \<in> set l \<Longrightarrow> j < bq_next bq \<and> bundle_key e bq (pi_bundle (bq_infos bq j)) = k"
    using ok l by (auto simp: dirs_ok_def)
  note f = string_order.find_erase_correct [OF s, of p]
  define n where "n = sv_find str_compare (info_path bq) p l"
  have all: "dirs_ok e bq1 \<and> same_bundles bq bq1
    \<and> (\<exists>l1. bq_bundlePaths bq1 k = Some l1 \<and> sv_map (info_path bq1) l1 p = Some i)
    \<and> bundle_key e bq1 (pi_bundle (bq_infos bq1 i)) = k
    \<and> info_counts (bq_infos bq1 i) = (case dir_map bq k p of None \<Rightarrow> (0, 0, 0) | Some c \<Rightarrow> c)
    \<and> (\<forall>q. q \<noteq> p \<longrightarrow> dir_map bq1 k q = dir_map bq k q)
    \<and> (\<forall>k'. k' \<noteq> k \<longrightarrow> bq_bundlePaths bq1 k' = bq_bundlePaths bq k' \<and> dir_map bq1 k' = dir_map bq k')"
  proof (cases "n = length l")
    case False
    then have "n < length l" using sv_find_bound [OF s, of p] by (simp add: n_def)
    with f have sm: "sv_map (info_path bq) l p = Some (l ! n)" by (simp add: n_def)
    have "i = l ! n" "bq1 = bq" using r False by (auto simp: dir_entry_def n_def Let_def)
    then show ?thesis using ok l sm m \<open>n < length l\<close> by (auto simp: same_bundles_def dir_map_def)
  next
    case True
    then have none: "sv_map (info_path bq) l p = None" using f by (simp add: n_def)
    define new where "new = bq_next bq"
    have add: "addPathInfo e p b bq = (i, bq1)" using r True by (simp add: dir_entry_def n_def Let_def)
    have i: "i = new" and infos: "bq_infos bq1 = (bq_infos bq)(new := path_info_new p b)" and nx: "bq_next bq1 = Suc new"
      and sb: "same_bundles bq bq1"
      using add by (auto simp: addPathInfo_def Let_def new_def same_bundles_def)
    have key: "bundle_key e bq1 c = bundle_key e bq c" for c using same_bundles_key [OF sb] .
    have keys: "info_path bq1 j = info_path bq j" if "j < new" for j using that by (simp add: info_path_def infos)
    have newp: "info_path bq1 new = p" by (simp add: info_path_def infos path_info_new_def)
    define l1 where "l1 = fst (insert_sorted str_compare (info_path bq1) new l)"
    have ip: "(\<lambda>x. pi_path (((bq_infos bq)(new := path_info_new p b)) x)) = info_path bq1" by (rule ext) (simp add: info_path_def infos)
    have paths: "bq_bundlePaths bq1 = (bq_bundlePaths bq)(k \<mapsto> l1)"
      using add l k by (auto simp: addPathInfo_def Let_def new_def [symmetric] bundle_key_def l1_def info_path_def [abs_def] ip [unfolded info_path_def] infos)
    have s1: "string_order.sv_sorted (info_path bq1) l" using s m keys sv_sorted_cong [of l "info_path bq1" "info_path bq"] by (auto simp: new_def)
    have same: "sv_map (info_path bq1) l q = sv_map (info_path bq) l q" for q
      using m keys by (intro sv_map_cong) (auto simp: new_def)
    obtain ys n1 added where ins: "insert_sorted str_compare (info_path bq1) new l = (ys, n1, added)" using prod_cases3 by blast
    have em: "string_order.sv_sorted (info_path bq1) ys" "added" "sv_map (info_path bq1) ys = (sv_map (info_path bq1) l)(p \<mapsto> new)"
      using string_order.emplace_sorted_correct [OF s1 newp] ins none same newp by (auto simp: insert_sorted_def)
    have ys: "l1 = ys" by (simp add: l1_def ins)
    have set1: "set l1 \<subseteq> insert new (set l)" unfolding l1_def by (rule set_insert_sorted)
    have ok1: "dirs_ok e bq1"
      unfolding dirs_ok_def
    proof (intro allI impI)
      fix k' l' assume l': "bq_bundlePaths bq1 k' = Some l'"
      show "string_order.sv_sorted (info_path bq1) l' \<and> (\<forall>i\<in>set l'. i < bq_next bq1 \<and> bundle_key e bq1 (pi_bundle (bq_infos bq1 i)) = k')"
      proof (cases "k' = k")
        case True
        then have "l' = l1" using l' paths by simp
        then show ?thesis using em(1) set1 m k True by (auto simp: ys nx new_def infos path_info_new_def key less_Suc_eq)
      next
        case False
        then have "bq_bundlePaths bq k' = Some l'" using l' paths by simp
        with ok have o: "string_order.sv_sorted (info_path bq) l'" "\<forall>i\<in>set l'. i < new \<and> bundle_key e bq (pi_bundle (bq_infos bq i)) = k'"
          by (auto simp: dirs_ok_def new_def)
        have "string_order.sv_sorted (info_path bq1) l'"
          using o keys sv_sorted_cong [of l' "info_path bq1" "info_path bq"] by auto
        then show ?thesis using o by (auto simp: nx infos key)
      qed
    qed
    have "dir_map bq1 k' = dir_map bq k'" if "k' \<noteq> k" for k'
      by (rule dir_map_other) (use that ok in \<open>auto simp: paths infos dirs_ok_def new_def\<close>)
    moreover have "dir_map bq1 k q = dir_map bq k q" if "q \<noteq> p" for q
    proof (cases "sv_map (info_path bq) l q")
      case None
      then show ?thesis using that em(3) same l by (simp add: dir_map_def paths ys)
    next
      case (Some j)
      then have "j < new" using m sv_map_SomeD [OF Some] by (simp add: new_def)
      then show ?thesis using that em(3) same l Some by (simp add: dir_map_def paths ys infos)
    qed
    moreover have "dir_map bq k p = None" using none l by (simp add: dir_map_def)
    ultimately show ?thesis using ok1 sb em(3) k
      by (simp add: paths ys i infos path_info_new_def info_counts_def key)
  qed
  then show "dirs_ok e bq1" "same_bundles bq bq1"
    "\<exists>l1. bq_bundlePaths bq1 k = Some l1 \<and> sv_map (info_path bq1) l1 p = Some i"
    "bundle_key e bq1 (pi_bundle (bq_infos bq1 i)) = k"
    "info_counts (bq_infos bq1 i) = (case dir_map bq k p of None \<Rightarrow> (0, 0, 0) | Some c \<Rightarrow> c)"
    "q \<noteq> p \<Longrightarrow> dir_map bq1 k q = dir_map bq k q"
    "k' \<noteq> k \<Longrightarrow> bq_bundlePaths bq1 k' = bq_bundlePaths bq k' \<and> dir_map bq1 k' = dir_map bq k'"
    by blast+
qed

text \<open>One round of the loop.\<close>

definition path_round :: "env \<Rightarrow> nat \<Rightarrow> (path_info \<Rightarrow> path_info) \<Rightarrow> string \<Rightarrow> nat list \<Rightarrow> bundle_queue \<Rightarrow> bundle_queue" where
  "path_round e b f p l bq =
     (let (info, bq) = dir_entry e b p l bq;
          bq = bq\<lparr>bq_infos := (bq_infos bq)(info := f (bq_infos bq info))\<rparr>
      in if pi_finishedFiles (bq_infos bq info) = 0 \<and> pi_queuedFiles (bq_infos bq info) = 0
         then removePathInfo e info bq else bq)"

text \<open>Applying the handler to the entry.\<close>

lemma apply_handler_correct:
  assumes ok: "dirs_ok e bq" and h: "handler_of f h" and l: "bq_bundlePaths bq k = Some l"
    and i: "sv_map (info_path bq) l p = Some i"
    and bq': "bq' = bq\<lparr>bq_infos := (bq_infos bq)(i := f (bq_infos bq i))\<rparr>"
  shows "dirs_ok e bq'" and "same_bundles bq bq'" and "info_path bq' = info_path bq"
    and "dir_map bq' k = (dir_map bq k)(p \<mapsto> h (info_counts (bq_infos bq i)))"
    and "k' \<noteq> k \<Longrightarrow> dir_map bq' k' = dir_map bq k'"
proof -
  have f: "pi_path (f x) = pi_path x" "pi_bundle (f x) = pi_bundle x" "info_counts (f x) = h (info_counts x)" for x
    using h by (auto simp: handler_of_def)
  show ip: "info_path bq' = info_path bq" by (rule ext) (simp add: info_path_def bq' f)
  have upd: "bq_bundlePaths bq' = bq_bundlePaths bq" "bq_infos bq' i = f (bq_infos bq i)"
    "\<And>j. j \<noteq> i \<Longrightarrow> bq_infos bq' j = bq_infos bq j"
    by (simp_all add: bq')
  show "same_bundles bq bq'" by (simp add: same_bundles_def bq')
  have "pi_bundle (bq_infos bq' j) = pi_bundle (bq_infos bq j)" for j by (simp add: bq' f)
  then show "dirs_ok e bq'" using ok unfolding dirs_ok_def ip by (simp add: bq' bundle_key_def)
  have mem: "i \<in> set l" "info_path bq i = p" using sv_map_SomeD [OF i] by auto
  show "dir_map bq' k = (dir_map bq k)(p \<mapsto> h (info_counts (bq_infos bq i)))"
  proof
    fix q
    show "dir_map bq' k q = ((dir_map bq k)(p \<mapsto> h (info_counts (bq_infos bq i)))) q"
    proof (cases "q = p")
      case True
      then show ?thesis using i l f(3) by (simp add: dir_map_def ip upd)
    next
      case False
      have "j \<noteq> i" if "sv_map (info_path bq) l q = Some j" for j using sv_map_SomeD [OF that] mem False by auto
      then show ?thesis using False l by (cases "sv_map (info_path bq) l q") (auto simp: dir_map_def ip upd)
    qed
  qed
  show "dir_map bq' k' = dir_map bq k'" if "k' \<noteq> k"
  proof (rule dir_map_other)
    fix l' j assume "bq_bundlePaths bq k' = Some l'" "j \<in> set l'"
    then have "j \<noteq> i" using ok that l mem(1) unfolding dirs_ok_def by metis
    then show "bq_infos bq' j = bq_infos bq j" by (simp add: bq')
  qed (simp add: bq')
qed

lemma removePathInfo_correct:
  assumes ok: "dirs_ok e bq" and l: "bq_bundlePaths bq k = Some l" and i: "sv_map (info_path bq) l p = Some i"
  shows "dirs_ok e (removePathInfo e i bq)" and "same_bundles bq (removePathInfo e i bq)"
    and "dir_map (removePathInfo e i bq) k = (dir_map bq k)(p := None)"
    and "k' \<noteq> k \<Longrightarrow> bq_bundlePaths (removePathInfo e i bq) k' = bq_bundlePaths bq k'"
    and "k' \<noteq> k \<Longrightarrow> dir_map (removePathInfo e i bq) k' = dir_map bq k'"
    and "q \<noteq> p \<Longrightarrow> dir_map bq k q \<noteq> None \<Longrightarrow> bq_bundlePaths (removePathInfo e i bq) k \<noteq> None"
proof -
  define bq' where "bq' = removePathInfo e i bq"
  have s: "string_order.sv_sorted (info_path bq) l" using ok l by (auto simp: dirs_ok_def)
  have mem: "i \<in> set l" "info_path bq i = p" using sv_map_SomeD [OF i] by auto
  then have k: "bundle_key e bq (pi_bundle (bq_infos bq i)) = k" using ok l by (auto simp: dirs_ok_def)
  define l1 where "l1 = fst (erase_key str_compare (info_path bq) p l)"
  obtain erased where er: "erase_key str_compare (info_path bq) p l = (l1, erased)" by (metis l1_def prod.collapse)
  have e1: "string_order.sv_sorted (info_path bq) l1" "sv_map (info_path bq) l1 = (sv_map (info_path bq) l)(p := None)"
    using string_order.find_erase_correct [OF s, of p] er by auto
  have pth: "pi_path (bq_infos bq i) = p" using mem(2) by (simp add: info_path_def)
  have bq': "bq_bundlePaths bq' = (bq_bundlePaths bq)(k := if l1 = [] then None else Some l1)"
    "bq_infos bq' = bq_infos bq" "bq_next bq' = bq_next bq" "bq_store bq' = bq_store bq"
    using k l by (simp_all add: bq'_def removePathInfo_def Let_def l1_def pth)
  have ip: "info_path bq' = info_path bq" by (rule ext) (simp add: info_path_def bq')
  show "same_bundles bq (removePathInfo e i bq)" by (simp add: same_bundles_def removePathInfo_def Let_def)
  have sub: "set l1 \<subseteq> set l" unfolding l1_def by (rule set_erase_key)
  have "string_order.sv_sorted (info_path bq') l' \<and> (\<forall>i\<in>set l'. i < bq_next bq' \<and> bundle_key e bq' (pi_bundle (bq_infos bq' i)) = k')"
    if "bq_bundlePaths bq' k' = Some l'" for k' l'
    using that ok l e1(1) sub unfolding dirs_ok_def ip bundle_key_def bq'(2-4)
    by (cases "k' = k") (auto simp: bq'(1) split: if_splits)
  then show "dirs_ok e (removePathInfo e i bq)" unfolding dirs_ok_def bq'_def by blast
  have dk: "dir_map bq' k q = (if q = p then None else dir_map bq k q)" for q
  proof (cases "l1 = []")
    case True
    then have "sv_map (info_path bq) l1 q = None" by (simp add: sv_map_def)
    then have "q \<noteq> p \<longrightarrow> sv_map (info_path bq) l q = None" using e1(2) by (auto simp: fun_upd_def split: if_splits)
    then show ?thesis using True l by (simp add: dir_map_def bq'(1))
  next
    case False
    then show ?thesis using e1(2) l by (simp add: dir_map_def bq' ip)
  qed
  then show "dir_map (removePathInfo e i bq) k = (dir_map bq k)(p := None)" by (auto simp: bq'_def)
  show "bq_bundlePaths (removePathInfo e i bq) k' = bq_bundlePaths bq k'" if "k' \<noteq> k"
    using that bq'(1) by (simp add: bq'_def)
  show "dir_map (removePathInfo e i bq) k' = dir_map bq k'" if "k' \<noteq> k"
    unfolding bq'_def [symmetric] by (rule dir_map_other) (use that bq' in simp_all)
  show "bq_bundlePaths (removePathInfo e i bq) k \<noteq> None" if "q \<noteq> p" "dir_map bq k q \<noteq> None"
    using dk [of q] that by (auto simp: dir_map_def bq'_def split: option.splits)
qed

lemma path_round_correct:
  assumes ok: "dirs_ok e bq" and h: "handler_of f h" and k: "bundle_key e bq b = k" and l: "bq_bundlePaths bq k = Some l"
    and r: "bq' = path_round e b f p l bq"
  shows "dirs_ok e bq'" and "same_bundles bq bq'"
    and "dir_map bq' k = (dir_map bq k)(p := count_update h (dir_map bq k p))"
    and "k' \<noteq> k \<Longrightarrow> dir_map bq' k' = dir_map bq k'"
    and "count_update h (dir_map bq k p) \<noteq> None \<or> q \<noteq> p \<and> dir_map bq k q \<noteq> None \<Longrightarrow> bq_bundlePaths bq' k \<noteq> None"
proof -
  obtain i bq1 where d: "dir_entry e b p l bq = (i, bq1)" by fastforce
  note de = dir_entry_correct [OF ok k l d]
  from de(3) obtain l1 where l1: "bq_bundlePaths bq1 k = Some l1" "sv_map (info_path bq1) l1 p = Some i" by blast
  define bq2 where "bq2 = bq1\<lparr>bq_infos := (bq_infos bq1)(i := f (bq_infos bq1 i))\<rparr>"
  note ah = apply_handler_correct [OF de(1) h l1 bq2_def]
  define c where "c = h (info_counts (bq_infos bq1 i))"
  have c: "c = h (case dir_map bq k p of None \<Rightarrow> (0, 0, 0) | Some c \<Rightarrow> c)" by (simp add: c_def de(5))
  have counts: "(pi_queuedFiles (bq_infos bq2 i), pi_finishedFiles (bq_infos bq2 i)) = (fst c, fst (snd c))"
    using h by (auto simp: bq2_def handler_of_def info_counts_def c_def) (metis fst_conv snd_conv info_counts_def)+
  have bq': "bq' = (if fst c = 0 \<and> fst (snd c) = 0 then removePathInfo e i bq2 else bq2)"
    unfolding r path_round_def d prod.case Let_def bq2_def [symmetric] using counts by auto
  have m1: "dir_map bq1 k q = dir_map bq k q" if "q \<noteq> p" for q using de(6) that by blast
  have m2: "dir_map bq2 k = (dir_map bq k)(p \<mapsto> c)" using m1 ah(4) by (auto simp: c_def)
  have l2: "bq_bundlePaths bq2 k = Some l1" "sv_map (info_path bq2) l1 p = Some i" using l1 ah(3) by (simp_all add: bq2_def)
  have sb2: "same_bundles bq bq2" by (rule same_bundles_trans [OF de(2) ah(2)])
  have oth2: "dir_map bq2 k' = dir_map bq k'" if "k' \<noteq> k" for k' using ah(5) de(7) that by simp
  show "dirs_ok e bq'" using removePathInfo_correct(1) [OF ah(1) l2] ah(1) by (simp add: bq')
  show "same_bundles bq bq'"
    using same_bundles_trans [OF sb2 removePathInfo_correct(2) [OF ah(1) l2]] sb2 by (simp add: bq')
  show "dir_map bq' k = (dir_map bq k)(p := count_update h (dir_map bq k p))"
    using removePathInfo_correct(3) [OF ah(1) l2] m2 by (simp add: bq' count_update_def Let_def c)
  show "dir_map bq' k' = dir_map bq k'" if "k' \<noteq> k"
    using removePathInfo_correct(5) [OF ah(1) l2 that] oth2 [OF that] by (simp add: bq')
  show "bq_bundlePaths bq' k \<noteq> None"
    if "count_update h (dir_map bq k p) \<noteq> None \<or> q \<noteq> p \<and> dir_map bq k q \<noteq> None"
  proof (cases "fst c = 0 \<and> fst (snd c) = 0")
    case True
    then have "count_update h (dir_map bq k p) = None" by (simp add: count_update_def Let_def c)
    then have "q \<noteq> p" "dir_map bq2 k q \<noteq> None" using that m2 by auto
    then show ?thesis using removePathInfo_correct(6) [OF ah(1) l2] True by (simp add: bq')
  next
    case False
    then show ?thesis using l2 by (auto simp: bq')
  qed
qed

section \<open>The loop over the parent directories\<close>

lemma for_each_path_unfold:
  assumes "bq_bundlePaths bq (bundle_key e bq b) = Some l" and "same_bundles bq (path_round e b f p l bq)"
  shows "for_each_path_loop e b f p bq =
    (if length p = length (bu_target (bq_store bq b)) then Some (path_round e b f p l bq)
     else if length (getParentDir sep False p) < length p
          then for_each_path_loop e b f (getParentDir sep False p) (path_round e b f p l bq) else None)"
proof -
  have st: "bq_store (path_round e b f p l bq) = bq_store bq" using assms(2) by (simp add: same_bundles_def)
  obtain i bq1 where d: "dir_entry e b p l bq = (i, bq1)" by fastforce
  then have d': "(if sv_find str_compare (info_path bq) p l = length l then addPathInfo e p b bq
       else (l ! sv_find str_compare (info_path bq) p l, bq)) = (i, bq1)"
    by (simp add: dir_entry_def Let_def)
  define bq2 where "bq2 = bq1\<lparr>bq_infos := (bq_infos bq1)(i := f (bq_infos bq1 i))\<rparr>"
  have pr: "path_round e b f p l bq = (if pi_finishedFiles (bq_infos bq2 i) = 0 \<and> pi_queuedFiles (bq_infos bq2 i) = 0
      then removePathInfo e i bq2 else bq2)"
    by (simp add: path_round_def d Let_def bq2_def)
  show ?thesis
    apply (subst for_each_path_loop.simps)
    unfolding assms(1) option.case Let_def d' prod.case bq2_def [symmetric] pr [symmetric] st ..
qed

lemma for_each_path_loop_correct:
  assumes "dirs_ok e bq" and h: "handler_of f h" and "bundle_key e bq b = k" and "bq_bundlePaths bq k \<noteq> None"
    and "path_chain (bu_target (bq_store bq b)) p = Some ps"
    and "(\<forall>q\<in>set ps. count_update h (dir_map bq k q) \<noteq> None) \<or> (\<forall>q\<in>set ps. dir_map bq k q \<noteq> None)"
  shows "\<exists>bq'. for_each_path_loop e b f p bq = Some bq' \<and> dirs_ok e bq' \<and> same_bundles bq bq'
    \<and> (\<forall>q. dir_map bq' k q = (if q \<in> set ps then count_update h (dir_map bq k q) else dir_map bq k q))
    \<and> (\<forall>k'. k' \<noteq> k \<longrightarrow> dir_map bq' k' = dir_map bq k')"
  using assms(1,3-)
proof (induction p arbitrary: bq ps rule: measure_induct_rule [of length])
  case (less p)
  obtain l where l: "bq_bundlePaths bq k = Some l" using less.prems(3) by blast
  define bq1 where "bq1 = path_round e b f p l bq"
  note pr = path_round_correct [OF less.prems(1) h less.prems(2) l bq1_def]
  have unf: "for_each_path_loop e b f p bq =
    (if length p = length (bu_target (bq_store bq b)) then Some bq1
     else if length (getParentDir sep False p) < length p then for_each_path_loop e b f (getParentDir sep False p) bq1 else None)"
    unfolding bq1_def by (rule for_each_path_unfold) (use l less.prems(2) pr(2) bq1_def in auto)
  show ?case
  proof (cases "length p = length (bu_target (bq_store bq b))")
    case True
    then have "ps = [p]" using less.prems(4) by (simp add: path_chain.simps)
    then show ?thesis using unf True pr by auto
  next
    case False
    define parent where "parent = getParentDir sep False p"
    from less.prems(4) False obtain qs where qs: "path_chain (bu_target (bq_store bq b)) parent = Some qs" "ps = p # qs"
      "length parent < length p"
      by (subst (asm) path_chain.simps) (auto simp: Let_def parent_def split: if_splits)
    from path_chain_lengths [OF qs(1)] have q: "p \<notin> set qs" "hd qs \<in> set qs" using qs(3) by fastforce+
    have k1: "bundle_key e bq1 b = k" using same_bundles_key [OF pr(2)] less.prems(2) by simp
    have t1: "bq_store bq1 = bq_store bq" using pr(2) by (simp add: same_bundles_def)
    have m1: "dir_map bq1 k r = dir_map bq k r" if "r \<in> set qs" for r using pr(3) that q(1) by auto
    have c1: "path_chain (bu_target (bq_store bq1 b)) parent = Some qs" using qs(1) t1 by simp
    have some: "bq_bundlePaths bq1 k \<noteq> None"
      by (rule pr(5) [of "hd qs"]) (use less.prems(5) qs(2) q in auto)
    have cond: "(\<forall>q\<in>set qs. count_update h (dir_map bq1 k q) \<noteq> None) \<or> (\<forall>q\<in>set qs. dir_map bq1 k q \<noteq> None)"
      using less.prems(5) m1 by (auto simp: qs(2))
    from less.IH [OF qs(3) pr(1) k1 some c1 cond] obtain bq2 where bq2: "for_each_path_loop e b f parent bq1 = Some bq2" "dirs_ok e bq2" "same_bundles bq1 bq2"
      "\<forall>q. dir_map bq2 k q = (if q \<in> set qs then count_update h (dir_map bq1 k q) else dir_map bq1 k q)"
      "\<forall>k'. k' \<noteq> k \<longrightarrow> dir_map bq2 k' = dir_map bq1 k'"
      by blast
    have "dir_map bq2 k r = (if r \<in> set ps then count_update h (dir_map bq k r) else dir_map bq k r)" for r
      using bq2(4) pr(3) m1 q(1) by (auto simp: qs(2))
    moreover have "same_bundles bq bq2" by (rule same_bundles_trans [OF pr(2) bq2(3)])
    ultimately show ?thesis using unf False qs(3) bq2 pr(4) by (auto simp: parent_def)
  qed
qed

lemma forEachPath_correct:
  assumes ok: "dirs_ok e bq" and h: "handler_of f h" and k: "bundle_key e bq b = k"
    and c: "path_chain (bu_target (bq_store bq b)) (getFilePath sep aFilePath) = Some ps"
    and n: "(\<forall>q\<in>set ps. count_update h (dir_map bq k q) \<noteq> None) \<or> (\<forall>q\<in>set ps. dir_map bq k q \<noteq> None)"
  shows "\<exists>bq'. forEachPath e b aFilePath f bq = Some bq' \<and> dirs_ok e bq' \<and> same_bundles bq bq'
    \<and> (\<forall>q. dir_map bq' k q = (if q \<in> set ps then count_update h (dir_map bq k q) else dir_map bq k q))
    \<and> (\<forall>k'. k' \<noteq> k \<longrightarrow> dir_map bq' k' = dir_map bq k')"
proof -
  define bq0 where "bq0 = (if bq_bundlePaths bq k = None then bq\<lparr>bq_bundlePaths := (bq_bundlePaths bq)(k \<mapsto> [])\<rparr> else bq)"
  have i: "bq_infos bq0 = bq_infos bq" "bq_next bq0 = bq_next bq" "bq_store bq0 = bq_store bq" "bq_bundlePaths bq0 k \<noteq> None"
    and sb: "same_bundles bq bq0"
    by (auto simp: bq0_def same_bundles_def)
  have ip: "info_path bq0 = info_path bq" by (rule ext) (simp add: info_path_def i)
  have d: "dir_map bq0 = dir_map bq"
    unfolding dir_map_def i ip by (intro ext) (simp add: bq0_def sv_map_def)
  have ok0: "dirs_ok e bq0"
    using ok unfolding dirs_ok_def ip i bundle_key_def
    by (auto simp: bq0_def string_order.sv_sorted_def split: if_splits)
  have k0: "bundle_key e bq0 b = k" using k by (simp add: bundle_key_def i)
  have "forEachPath e b aFilePath f bq = for_each_path_loop e b f (getFilePath sep aFilePath) bq0"
    by (simp add: forEachPath_def Let_def k bq0_def)
  moreover have c': "path_chain (bu_target (bq_store bq0 b)) (getFilePath sep aFilePath) = Some ps" using c by (simp add: i)
  have n': "(\<forall>q\<in>set ps. count_update h (dir_map bq0 k q) \<noteq> None) \<or> (\<forall>q\<in>set ps. dir_map bq0 k q \<noteq> None)"
    unfolding d by (rule n)
  from for_each_path_loop_correct [OF ok0 h k0 i(4) c' n'] obtain bq' where
    l: "for_each_path_loop e b f (getFilePath sep aFilePath) bq0 = Some bq'" "dirs_ok e bq'" "same_bundles bq0 bq'"
    "\<forall>q. dir_map bq' k q = (if q \<in> set ps then count_update h (dir_map bq k q) else dir_map bq k q)"
    "\<forall>k'. k' \<noteq> k \<longrightarrow> dir_map bq' k' = dir_map bq k'"
    unfolding d by blast
  ultimately have "forEachPath e b aFilePath f bq = Some bq'" by simp
  with l same_bundles_trans [OF sb l(3)] show ?thesis by blast
qed

section \<open>The files below a directory\<close>

definition chain_set :: "string \<Rightarrow> string \<Rightarrow> string set" where
  "chain_set target f = (case path_chain target (getFilePath sep f) of Some ps \<Rightarrow> set ps | None \<Rightarrow> {})"

definition bundle_files :: "bundle_queue \<Rightarrow> nat \<Rightarrow> nat multiset" where
  "bundle_files bq b = mset (bu_queueItems (bq_store bq b)) + mset (bu_finishedFiles (bq_store bq b))"

definition files_below :: "bundle_queue \<Rightarrow> nat \<Rightarrow> string \<Rightarrow> nat multiset" where
  "files_below bq b p =
     filter_mset (\<lambda>i. p \<in> chain_set (bu_target (bq_store bq b)) (qi_target (bq_items bq i))) (bundle_files bq b)"

definition counts_of :: "(nat \<Rightarrow> queue_item) \<Rightarrow> nat multiset \<Rightarrow> counts" where
  "counts_of qs M =
     (of_nat (size (filter_mset (\<lambda>i. \<not> qi_isDownloaded (qs i)) M)),
      of_nat (size (filter_mset (\<lambda>i. qi_isDownloaded (qs i)) M)),
      \<Sum>\<^sub># (image_mset (\<lambda>i. qi_size (qs i)) M))"

definition dir_counts :: "(nat \<Rightarrow> queue_item) \<Rightarrow> nat multiset \<Rightarrow> counts option" where
  "dir_counts qs M = (if M = {#} then None else Some (counts_of qs M))"

definition add_counts :: "queue_item \<Rightarrow> counts \<Rightarrow> counts" where
  "add_counts q = (\<lambda>(n, f, s). (if qi_isDownloaded q then n else n + 1, if qi_isDownloaded q then f + 1 else f, s + qi_size q))"

definition remove_counts :: "queue_item \<Rightarrow> counts \<Rightarrow> counts" where
  "remove_counts q = (\<lambda>(n, f, s). (if qi_isDownloaded q then n else n - 1, if qi_isDownloaded q then f - 1 else f, s - qi_size q))"

lemma add_handler: "handler_of (add_file_info q) (add_counts q)"
  by (simp add: handler_of_def add_file_info_def add_counts_def info_counts_def Let_def)

lemma remove_handler: "handler_of (remove_file_info q False) (remove_counts q)"
  by (simp add: handler_of_def remove_file_info_def remove_counts_def info_counts_def Let_def)

lemma counts_of_add: "counts_of qs (add_mset i M) = add_counts (qs i) (counts_of qs M)"
  by (simp add: counts_of_def add_counts_def)

lemma remove_add_counts: "remove_counts q (add_counts q c) = c"
  by (cases c) (simp add: add_counts_def remove_counts_def)

lemma of_nat_size_t: "n < 2 ^ 64 \<Longrightarrow> (of_nat n :: size_t) = 0 \<longleftrightarrow> n = 0"
proof -
  assume "n < 2 ^ 64"
  then have "unat (of_nat n :: size_t) = n" by (simp add: unat_of_nat take_bit_nat_eq_self)
  then have "unat (of_nat n :: size_t) = 0 \<longleftrightarrow> n = 0" by simp
  then show ?thesis by (simp only: unat_eq_zero)
qed

lemma counts_zero:
  assumes "size M < 2 ^ 64"
  shows "fst (counts_of qs M) = 0 \<and> fst (snd (counts_of qs M)) = 0 \<longleftrightarrow> M = {#}"
proof -
  let ?q = "filter_mset (\<lambda>i. \<not> qi_isDownloaded (qs i)) M" and ?f = "filter_mset (\<lambda>i. qi_isDownloaded (qs i)) M"
  have "size ?q < 2 ^ 64" "size ?f < 2 ^ 64"
    using assms size_filter_mset_lesseq [of _ M] by (meson order_le_less_trans)+
  then have "fst (counts_of qs M) = 0 \<longleftrightarrow> ?q = {#}" "fst (snd (counts_of qs M)) = 0 \<longleftrightarrow> ?f = {#}"
    by (simp_all add: counts_of_def of_nat_size_t)
  moreover have "?q = {#} \<and> ?f = {#} \<longleftrightarrow> M = {#}"
    using multiset_partition [of M "\<lambda>i. qi_isDownloaded (qs i)"] by auto
  ultimately show ?thesis by simp
qed

lemma counts_empty: "counts_of qs {#} = (0, 0, 0)"
  by (simp add: counts_of_def)

lemma dir_counts_default: "(case dir_counts qs M of None \<Rightarrow> (0, 0, 0) | Some c \<Rightarrow> c) = counts_of qs M"
  by (simp add: dir_counts_def counts_empty)

lemma dir_counts_add:
  assumes "size M + 1 < 2 ^ 64"
  shows "count_update (add_counts (qs i)) (dir_counts qs M) = dir_counts qs (add_mset i M)"
  using counts_zero [of "add_mset i M" qs] assms
  by (simp add: count_update_def dir_counts_default counts_of_add [symmetric] Let_def) (simp add: dir_counts_def)

lemma dir_counts_remove:
  assumes "size M < 2 ^ 64"
  shows "count_update (remove_counts (qs i)) (dir_counts qs (add_mset i M)) = dir_counts qs M"
  using counts_zero [of M qs] assms
  by (simp add: count_update_def dir_counts_default counts_of_add remove_add_counts Let_def) (simp add: dir_counts_def)

lemma mset_swap_remove: "x \<in> set xs \<Longrightarrow> mset (swap_remove x xs) = mset xs - {#x#}"
proof (induction xs)
  case (Cons y ys)
  then show ?case by (cases ys rule: rev_cases) auto
qed simp

section \<open>Adding and removing files\<close>

text \<open>What holds of one bundle of directories, and of all of them.\<close>

definition dir_bundle_ok :: "env \<Rightarrow> bundle_queue \<Rightarrow> nat \<Rightarrow> bool" where
  "dir_bundle_ok e bq b \<longleftrightarrow>
     \<not> bu_fileBundle (bq_store bq b)
     \<and> (\<forall>i\<in>set (bu_queueItems (bq_store bq b)). \<not> qi_isDownloaded (bq_items bq i))
     \<and> (\<forall>i\<in>set (bu_finishedFiles (bq_store bq b)). qi_isDownloaded (bq_items bq i))
     \<and> (\<forall>i\<in>#bundle_files bq b. qi_token (bq_items bq i) = i \<and> qi_bundle (bq_items bq i) = Some b
          \<and> path_chain (bu_target (bq_store bq b)) (getFilePath sep (qi_target (bq_items bq i))) \<noteq> None)
     \<and> (\<forall>i. count (bundle_files bq b) i \<le> 1) \<and> size (bundle_files bq b) < 2 ^ 64
     \<and> (\<forall>p. dir_map bq (bundle_key e bq b) p = dir_counts (bq_items bq) (files_below bq b p))"

definition dirs_inv :: "env \<Rightarrow> nat set \<Rightarrow> bundle_queue \<Rightarrow> bool" where
  "dirs_inv e D bq \<longleftrightarrow> dirs_ok e bq \<and> inj_on (bundle_key e bq) D \<and> (\<forall>b\<in>D. dir_bundle_ok e bq b)"

lemma dir_counts_cong:
  assumes "\<And>i. i \<in># M \<Longrightarrow> qi_isDownloaded (qs' i) = qi_isDownloaded (qs i) \<and> qi_size (qs' i) = qi_size (qs i)"
  shows "dir_counts qs' M = dir_counts qs M"
proof -
  have "filter_mset (\<lambda>i. qi_isDownloaded (qs' i)) M = filter_mset (\<lambda>i. qi_isDownloaded (qs i)) M"
    "filter_mset (\<lambda>i. \<not> qi_isDownloaded (qs' i)) M = filter_mset (\<lambda>i. \<not> qi_isDownloaded (qs i)) M"
    "image_mset (\<lambda>i. qi_size (qs' i)) M = image_mset (\<lambda>i. qi_size (qs i)) M"
    using assms by (auto intro!: filter_mset_cong image_mset_cong)
  then show ?thesis by (simp add: dir_counts_def counts_of_def)
qed

lemma bundle_ok_other:
  assumes ok: "dir_bundle_ok e bq c" and st: "bq_store bq' c = bq_store bq c"
    and it: "\<And>i. i \<in># bundle_files bq c \<Longrightarrow> bq_items bq' i = bq_items bq i"
    and d: "dir_map bq' (bundle_key e bq c) = dir_map bq (bundle_key e bq c)"
  shows "dir_bundle_ok e bq' c"
proof -
  have f: "bundle_files bq' c = bundle_files bq c" by (simp add: bundle_files_def st)
  have b: "files_below bq' c p = files_below bq c p" for p
    unfolding files_below_def f st by (rule filter_mset_cong) (simp_all add: it)
  have k: "bundle_key e bq' c = bundle_key e bq c" by (simp add: bundle_key_def st)
  have "dir_counts (bq_items bq') (files_below bq c p) = dir_counts (bq_items bq) (files_below bq c p)" for p
    by (rule dir_counts_cong) (simp add: files_below_def it)
  moreover have "i \<in># bundle_files bq c" if "i \<in> set (bu_queueItems (bq_store bq c)) \<union> set (bu_finishedFiles (bq_store bq c))" for i
    using that by (auto simp: bundle_files_def)
  ultimately show ?thesis using ok it unfolding dir_bundle_ok_def f b k st d by auto
qed

lemma addQueue_simps [simp]:
  "bu_target (addQueue q b) = bu_target b" "bu_fileBundle (addQueue q b) = bu_fileBundle b"
  "bu_queueItems (addQueue q b) = (if qi_isDownloaded q then bu_queueItems b else bu_queueItems b @ [qi_token q])"
  "bu_finishedFiles (addQueue q b) = (if qi_isDownloaded q then bu_finishedFiles b @ [qi_token q] else bu_finishedFiles b)"
  by (simp_all add: bundle_ops)

lemma removeQueue_simps [simp]:
  "bu_target (removeQueue q c b) = bu_target b" "bu_fileBundle (removeQueue q c b) = bu_fileBundle b"
  by (simp_all add: bundle_ops)

lemma removeQueue_files:
  assumes "qi_token q \<in> set (if qi_isDownloaded q then bu_finishedFiles b else bu_queueItems b)"
  shows "bu_queueItems (removeQueue q False b) =
      (if qi_isDownloaded q then bu_queueItems b else swap_remove (qi_token q) (bu_queueItems b))"
    and "bu_finishedFiles (removeQueue q False b) =
      (if qi_isDownloaded q then swap_remove (qi_token q) (bu_finishedFiles b) else bu_finishedFiles b)"
  using assms by (auto simp: bundle_ops)

lemma isDownloaded_bundle [simp]: "qi_isDownloaded (q\<lparr>qi_bundle := b\<rparr>) = qi_isDownloaded q"
  by (simp add: qi_isDownloaded_def)

lemma info_path_same: "bq_infos bq' = bq_infos bq \<Longrightarrow> info_path bq' = info_path bq"
  by (rule ext) (simp add: info_path_def)

lemma dir_map_same: "bq_bundlePaths bq' = bq_bundlePaths bq \<Longrightarrow> bq_infos bq' = bq_infos bq \<Longrightarrow> dir_map bq' = dir_map bq"
  by (intro ext) (simp add: dir_map_def info_path_same [of bq' bq] split: option.split)

text \<open>A change of the files of one bundle, followed by a pass over its directories.\<close>

lemma dirs_inv_change:
  assumes inv: "dirs_inv e D bq" and b: "b \<in> D"
    and st: "bq_store bq' = (bq_store bq)(b := bu)" "bu_target bu = bu_target (bq_store bq b)"
    and it: "\<And>j c. c \<in> D \<Longrightarrow> c \<noteq> b \<Longrightarrow> j \<in># bundle_files bq c \<Longrightarrow> bq_items bq' j = bq_items bq j"
    and ok: "dirs_ok e bq'"
    and dm: "\<And>k. k \<noteq> bundle_key e bq b \<Longrightarrow> dir_map bq' k = dir_map bq k"
    and bok: "dir_bundle_ok e bq' b"
  shows "dirs_inv e D bq'"
proof -
  have k: "bundle_key e bq' c = bundle_key e bq c" for c by (simp add: bundle_key_def st)
  have "dir_bundle_ok e bq' c" if c: "c \<in> D" "c \<noteq> b" for c
  proof (rule bundle_ok_other)
    show "dir_bundle_ok e bq c" using inv c by (simp add: dirs_inv_def)
    have "bundle_key e bq c \<noteq> bundle_key e bq b" using inv c b by (auto simp: dirs_inv_def dest: inj_onD)
    then show "dir_map bq' (bundle_key e bq c) = dir_map bq (bundle_key e bq c)" by (rule dm)
  qed (use it c in \<open>auto simp: st\<close>)
  then show ?thesis using bok ok inv unfolding dirs_inv_def k by metis
qed

lemma dirs_ok_store:
  assumes "dirs_ok e bq" and "bq_infos bq' = bq_infos bq" and "bq_next bq' = bq_next bq"
    and "bq_bundlePaths bq' = bq_bundlePaths bq" and "\<And>c. bu_target (bq_store bq' c) = bu_target (bq_store bq c)"
  shows "dirs_ok e bq'"
  using assms by (simp add: dirs_ok_def bundle_key_def info_path_same [of bq' bq])

lemma counts_with_default:
  "h (case c of None \<Rightarrow> (0, 0, 0) | Some c \<Rightarrow> c) = (a, f, s) \<Longrightarrow> \<not> (a = 0 \<and> f = 0) \<Longrightarrow> count_update h c = Some (a, f, s)"
  by (simp add: count_update_def)

lemma files_below_chain:
  assumes "path_chain (bu_target (bq_store bq b)) (getFilePath sep (qi_target (bq_items bq i))) = Some ps"
  shows "p \<in> chain_set (bu_target (bq_store bq b)) (qi_target (bq_items bq i)) \<longleftrightarrow> p \<in> set ps"
  using assms by (simp add: chain_set_def)

lemma size_filter_less: "size M < (n::nat) \<Longrightarrow> size (filter_mset P M) < n"
  by (rule le_less_trans [OF size_filter_mset_lesseq])

lemma addBundleItem_dirs_inv:
  assumes inv: "dirs_inv e D bq" and b: "b \<in> D"
    and new: "\<forall>c\<in>D. i \<notin># bundle_files bq c" and tok: "qi_token (bq_items bq i) = i"
    and c: "path_chain (bu_target (bq_store bq b)) (getFilePath sep (qi_target (bq_items bq i))) \<noteq> None"
    and n: "size (bundle_files bq b) + 1 < 2 ^ 64"
  shows "\<exists>bq'. addBundleItem e i b bq = Some bq' \<and> dirs_inv e D bq'
    \<and> bq_store bq' = (bq_store bq)(b := addQueue (bq_items bq i) (bq_store bq b))
    \<and> bq_items bq' = (bq_items bq)(i := (bq_items bq i)\<lparr>qi_bundle := Some b\<rparr>)"
proof -
  define q where "q = bq_items bq i"
  define bu where "bu = addQueue q (bq_store bq b)"
  define bq1 where "bq1 = bq\<lparr>bq_store := (bq_store bq)(b := bu), bq_items := (bq_items bq)(i := q\<lparr>qi_bundle := Some b\<rparr>)\<rparr>"
  define k where "k = bundle_key e bq b"
  have bok: "dir_bundle_ok e bq b" and ok: "dirs_ok e bq" using inv b by (auto simp: dirs_inv_def)
  have bu: "bu_target bu = bu_target (bq_store bq b)" "\<not> bu_fileBundle bu" using bok by (simp_all add: bu_def dir_bundle_ok_def)
  from c obtain ps where ps: "path_chain (bu_target bu) (getFilePath sep (qi_target q)) = Some ps" by (auto simp: bu q_def)
  have dm: "dir_map bq1 = dir_map bq" by (rule dir_map_same) (simp_all add: bq1_def)
  have ok1: "dirs_ok e bq1" by (rule dirs_ok_store [OF ok]) (simp_all add: bq1_def bu)
  have k1: "bundle_key e bq1 c = bundle_key e bq c" for c by (simp add: bundle_key_def bq1_def bu)
  have bf: "bundle_files bq1 b = add_mset i (bundle_files bq b)"
    using tok by (simp add: bundle_files_def bq1_def bu_def q_def)
  have ni: "i \<notin># bundle_files bq b" using new b by blast
  have below: "files_below bq1 b p = (if p \<in> set ps then add_mset i (files_below bq b p) else files_below bq b p)" for p
  proof -
    have "filter_mset (\<lambda>j. p \<in> chain_set (bu_target bu) (qi_target (bq_items bq1 j))) (bundle_files bq b) = files_below bq b p"
      unfolding files_below_def by (rule filter_mset_cong) (use ni in \<open>auto simp: bq1_def bu\<close>)
    moreover have "p \<in> chain_set (bu_target bu) (qi_target q) \<longleftrightarrow> p \<in> set ps" using ps by (simp add: chain_set_def)
    moreover have "bq_store bq1 b = bu" "qi_target (bq_items bq1 i) = qi_target q" by (simp_all add: bq1_def)
    ultimately show ?thesis unfolding files_below_def [of bq1] bf by simp
  qed
  have same: "dir_counts (bq_items bq1) M = dir_counts (bq_items bq) M" for M
    by (rule dir_counts_cong) (simp add: bq1_def q_def)
  have upd: "count_update (add_counts q) (dir_map bq1 k p) = dir_counts (bq_items bq) (add_mset i (files_below bq b p))" for p
  proof -
    have "size (files_below bq b p) + 1 < 2 ^ 64"
      using n size_filter_less [of "bundle_files bq b" "2 ^ 64 - 1"] by (simp add: files_below_def)
    from dir_counts_add [OF this, of "bq_items bq" i] show ?thesis
      using bok by (simp add: dm k_def dir_bundle_ok_def q_def)
  qed
  have ps1: "path_chain (bu_target (bq_store bq1 b)) (getFilePath sep (qi_target q)) = Some ps"
    using ps by (simp add: bq1_def)
  have "(\<forall>p\<in>set ps. count_update (add_counts q) (dir_map bq1 k p) \<noteq> None) \<or> (\<forall>p\<in>set ps. dir_map bq1 k p \<noteq> None)"
    unfolding upd by (simp add: dir_counts_def)
  from forEachPath_correct [OF ok1 add_handler k1 [of b, folded k_def] ps1 this] obtain bq2 where
    f: "forEachPath e b (qi_target q) (add_file_info q) bq1 = Some bq2" "dirs_ok e bq2" "same_bundles bq1 bq2"
      "\<And>p. dir_map bq2 k p = (if p \<in> set ps then count_update (add_counts q) (dir_map bq1 k p) else dir_map bq1 k p)"
      "\<And>k'. k' \<noteq> k \<Longrightarrow> dir_map bq2 k' = dir_map bq1 k'"
    by blast
  define bq3 where "bq3 = (if \<not> qi_isDownloaded q then bq2\<lparr>bq_queueSize := bq_queueSize bq2 + qi_size q\<rparr> else bq2)"
  have r: "addBundleItem e i b bq = Some bq3"
    using f(1) bu(2) bok by (simp add: dir_bundle_ok_def addBundleItem_def Let_def q_def [symmetric] bu_def [symmetric] bq1_def bq3_def)
  have s3: "bq_store bq3 = bq_store bq1" "bq_items bq3 = bq_items bq1" using f(3) by (simp_all add: bq3_def same_bundles_def)
  have d3: "dir_map bq3 = dir_map bq2" by (rule dir_map_same) (simp_all add: bq3_def)
  have "dirs_inv e D bq3"
  proof (rule dirs_inv_change [OF inv b])
    show "bq_store bq3 = (bq_store bq)(b := bu)" by (simp add: s3 bq1_def)
    show "bq_items bq3 j = bq_items bq j" if "c \<in> D" "c \<noteq> b" "j \<in># bundle_files bq c" for j c
      using that new by (auto simp: s3 bq1_def)
    show "dirs_ok e bq3" by (rule dirs_ok_store [OF f(2)]) (simp_all add: bq3_def)
    show "dir_map bq3 k' = dir_map bq k'" if "k' \<noteq> bundle_key e bq b" for k' using f(5) that by (simp add: d3 dm k_def)
    have fb: "files_below bq3 b p = files_below bq1 b p" "bundle_files bq3 b = bundle_files bq1 b" for p
      by (simp_all add: files_below_def bundle_files_def s3)
    have k3: "bundle_key e bq3 b = k" by (simp add: bundle_key_def s3 k_def bq1_def bu)
    have "dir_map bq3 k p = dir_counts (bq_items bq3) (files_below bq3 b p)" for p
      using f(4) [of p] upd bok by (simp add: d3 fb below s3 same) (simp add: dm k_def dir_bundle_ok_def)
    then show "dir_bundle_ok e bq3 b"
      using bok bu(2) ni n c tok
      unfolding dir_bundle_ok_def k3 fb bf s3
      by (auto simp: bq1_def bu bu_def q_def bundle_files_def not_in_iff split: if_splits)
  qed (simp add: bu)
  with r s3 show ?thesis by (auto simp: bq1_def bu_def q_def)
qed

lemma removeBundleItem_dirs_inv:
  assumes inv: "dirs_inv e D bq" and b: "b \<in> D" and i: "i \<in># bundle_files bq b"
    and other: "\<forall>c\<in>D. c \<noteq> b \<longrightarrow> i \<notin># bundle_files bq c"
  shows "\<exists>bq'. bq_removeBundleItem e i False bq = Some bq' \<and> dirs_inv e D bq'
    \<and> bq_store bq' = (bq_store bq)(b := removeQueue (bq_items bq i) False (bq_store bq b)) \<and> bq_items bq' = bq_items bq"
proof -
  define q where "q = bq_items bq i"
  define bu where "bu = removeQueue q False (bq_store bq b)"
  define bq1 where "bq1 = bq\<lparr>bq_store := (bq_store bq)(b := bu)\<rparr>"
  define k where "k = bundle_key e bq b"
  have bok: "dir_bundle_ok e bq b" and ok: "dirs_ok e bq" using inv b by (auto simp: dirs_inv_def)
  have bu: "bu_target bu = bu_target (bq_store bq b)" "\<not> bu_fileBundle bu" using bok by (simp_all add: bu_def dir_bundle_ok_def)
  have q: "qi_token q = i" "qi_bundle q = Some b"
    "path_chain (bu_target bu) (getFilePath sep (qi_target q)) \<noteq> None"
    using bok i by (auto simp: dir_bundle_ok_def q_def bu)
  from q(3) obtain ps where ps: "path_chain (bu_target bu) (getFilePath sep (qi_target q)) = Some ps" by blast
  have mem: "qi_token q \<in> set (if qi_isDownloaded q then bu_finishedFiles (bq_store bq b) else bu_queueItems (bq_store bq b))"
    using i bok by (auto simp: q(1) bundle_files_def dir_bundle_ok_def) (auto simp: q_def)
  note rf = removeQueue_files [OF mem, folded bu_def]
  have dm: "dir_map bq1 = dir_map bq" by (rule dir_map_same) (simp_all add: bq1_def)
  have ok1: "dirs_ok e bq1" by (rule dirs_ok_store [OF ok]) (simp_all add: bq1_def bu)
  have k1: "bundle_key e bq1 c = bundle_key e bq c" for c by (simp add: bundle_key_def bq1_def bu)
  have bf: "bundle_files bq b = add_mset i (bundle_files bq1 b)"
    using mem rf mset_swap_remove [of i "bu_finishedFiles (bq_store bq b)"] mset_swap_remove [of i "bu_queueItems (bq_store bq b)"]
    by (auto simp: bundle_files_def bq1_def q(1))
  have tgt: "bq_store bq1 b = bu" "bq_items bq1 = bq_items bq" by (simp_all add: bq1_def)
  have "p \<in> chain_set (bu_target bu) (qi_target q) \<longleftrightarrow> p \<in> set ps" for p using ps by (simp add: chain_set_def)
  then have below: "files_below bq b p = (if p \<in> set ps then add_mset i (files_below bq1 b p) else files_below bq1 b p)" for p
    unfolding files_below_def bf tgt bu by (simp add: q_def)
  have upd: "count_update (remove_counts q) (dir_map bq1 k p) = dir_counts (bq_items bq) (files_below bq1 b p)" if "p \<in> set ps" for p
  proof -
    have "size (bundle_files bq1 b) < 2 ^ 64" using bok bf by (simp add: dir_bundle_ok_def)
    then have "size (files_below bq1 b p) < 2 ^ 64" unfolding files_below_def by (rule size_filter_less)
    from dir_counts_remove [OF this, of "bq_items bq" i] show ?thesis
      using bok that below by (simp add: dm k_def dir_bundle_ok_def q_def)
  qed
  have ps1: "path_chain (bu_target (bq_store bq1 b)) (getFilePath sep (qi_target q)) = Some ps"
    using ps by (simp add: bq1_def)
  have "\<forall>p\<in>set ps. dir_map bq1 k p \<noteq> None"
    using bok below by (simp add: dm k_def dir_bundle_ok_def dir_counts_def)
  then have "(\<forall>p\<in>set ps. count_update (remove_counts q) (dir_map bq1 k p) \<noteq> None) \<or> (\<forall>p\<in>set ps. dir_map bq1 k p \<noteq> None)" by blast
  from forEachPath_correct [OF ok1 remove_handler k1 [of b, folded k_def] ps1 this] obtain bq2 where
    f: "forEachPath e b (qi_target q) (remove_file_info q False) bq1 = Some bq2" "dirs_ok e bq2" "same_bundles bq1 bq2"
      "\<And>p. dir_map bq2 k p = (if p \<in> set ps then count_update (remove_counts q) (dir_map bq1 k p) else dir_map bq1 k p)"
      "\<And>k'. k' \<noteq> k \<Longrightarrow> dir_map bq2 k' = dir_map bq1 k'"
    by blast
  define bq3 where "bq3 = (if \<not> qi_isDownloaded q then bq2\<lparr>bq_queueSize := bq_queueSize bq2 - qi_size q\<rparr> else bq2)"
  have r: "bq_removeBundleItem e i False bq = Some bq3"
    using f(1) bu(2) bok q(2) by (simp add: dir_bundle_ok_def bq_removeBundleItem_def Let_def q_def [symmetric] bu_def [symmetric] bq1_def bq3_def)
  have s3: "bq_store bq3 = bq_store bq1" "bq_items bq3 = bq_items bq" using f(3) by (simp_all add: bq3_def same_bundles_def tgt)
  have d3: "dir_map bq3 = dir_map bq2" by (rule dir_map_same) (simp_all add: bq3_def)
  have "dirs_inv e D bq3"
  proof (rule dirs_inv_change [OF inv b])
    show "bq_store bq3 = (bq_store bq)(b := bu)" by (simp add: s3 bq1_def)
    show "dirs_ok e bq3" by (rule dirs_ok_store [OF f(2)]) (simp_all add: bq3_def)
    show "dir_map bq3 k' = dir_map bq k'" if "k' \<noteq> bundle_key e bq b" for k' using f(5) that by (simp add: d3 dm k_def)
    have fb: "files_below bq3 b p = files_below bq1 b p" "bundle_files bq3 b = bundle_files bq1 b" for p
      by (simp_all add: files_below_def bundle_files_def s3 tgt)
    have k3: "bundle_key e bq3 b = k" by (simp add: bundle_key_def s3 k_def bq1_def bu)
    have "dir_map bq3 k p = dir_counts (bq_items bq3) (files_below bq3 b p)" for p
      using f(4) [of p] upd [of p] bok below [of p] by (simp add: d3 fb s3 dm k_def dir_bundle_ok_def split: if_splits)
    moreover have "set (bu_queueItems bu) \<subseteq> set (bu_queueItems (bq_store bq b))" "set (bu_finishedFiles bu) \<subseteq> set (bu_finishedFiles (bq_store bq b))"
      using rf mem q(1) mset_swap_remove [of i "bu_finishedFiles (bq_store bq b)"] mset_swap_remove [of i "bu_queueItems (bq_store bq b)"]
      by (auto split: if_splits dest!: mset_eq_setD) (metis in_diffD set_mset_mset)+
    moreover have "count (bundle_files bq1 b) j \<le> 1" for j
      using bok bf count_add_mset [of i "bundle_files bq1 b" j] unfolding dir_bundle_ok_def by (metis Suc_leD)
    ultimately show "dir_bundle_ok e bq3 b"
      using bok bu(2) bf
      unfolding dir_bundle_ok_def k3 fb s3 tgt bu
      by auto
  qed (simp_all add: bu s3)
  with r s3 show ?thesis by (auto simp: bq1_def bu_def q_def)
qed

section \<open>Completed downloads\<close>

lemma complete_handler:
  "qi_isDownloaded q \<Longrightarrow> handler_of (remove_file_info q True) (\<lambda>(n, f, s). (n, f - 1, s))"
  by (simp add: handler_of_def remove_file_info_def info_counts_def Let_def)

lemma counts_of_downloaded:
  assumes "i \<notin># M" and "\<not> qi_isDownloaded (qs i)"
  shows "counts_of (qs(i := (qs i)\<lparr>qi_status := QI_DOWNLOADED\<rparr>)) (add_mset i M) =
    (case counts_of qs (add_mset i M) of (n, f, s) \<Rightarrow> (n - 1, f + 1, s))"
proof -
  let ?qs = "qs(i := (qs i)\<lparr>qi_status := QI_DOWNLOADED\<rparr>)"
  have d: "qi_isDownloaded (?qs i)" by (simp add: qi_isDownloaded_def)
  have same: "\<And>j. j \<in># M \<Longrightarrow> ?qs j = qs j" using assms(1) by auto
  have "filter_mset (\<lambda>j. qi_isDownloaded (?qs j)) M = filter_mset (\<lambda>j. qi_isDownloaded (qs j)) M"
    "filter_mset (\<lambda>j. \<not> qi_isDownloaded (?qs j)) M = filter_mset (\<lambda>j. \<not> qi_isDownloaded (qs j)) M"
    "image_mset (\<lambda>j. qi_size (?qs j)) M = image_mset (\<lambda>j. qi_size (qs j)) M"
    using assms(1) by (auto intro!: filter_mset_cong image_mset_cong)
  then have "counts_of ?qs M = counts_of qs M" unfolding counts_of_def by presburger
  moreover have "qi_size (?qs i) = qi_size (qs i)" by simp
  ultimately show ?thesis using assms(2) d
    by (cases "counts_of qs M") (simp only: counts_of_add add_counts_def, simp)
qed

lemma removeQueue_completed:
  assumes "qi_token q \<in> set (bu_queueItems b)"
  shows "bu_queueItems (removeQueue q True b) = swap_remove (qi_token q) (bu_queueItems b)"
    and "bu_finishedFiles (removeQueue q True b) = bu_finishedFiles b @ [qi_token q]"
  using assms by (auto simp: bundle_ops)

text \<open>The state in which \<open>QueueManager\<close> removes a file whose download is complete.\<close>

definition file_done :: "nat \<Rightarrow> bundle_queue \<Rightarrow> bundle_queue" where
  "file_done i bq = bq\<lparr>bq_items := (bq_items bq)(i := (bq_items bq i)\<lparr>qi_status := QI_DOWNLOADED\<rparr>)\<rparr>"

lemma completeBundleItem_counts:
  assumes inv: "dirs_inv e D bq" and b: "b \<in> D" and i: "i \<in> set (bu_queueItems (bq_store bq b))"
    and k: "k = bundle_key e bq b"
  shows "\<exists>bq'. bq_removeBundleItem e i True (file_done i bq) = Some bq'
    \<and> (\<forall>p. i \<in># files_below bq b p \<longrightarrow>
         (\<exists>n f s. dir_map bq k p = Some (n, f, s) \<and> dir_map bq' k p = Some (n, f - 1, s)
            \<and> dir_counts (bq_items bq') (files_below bq' b p) = Some (n - 1, f + 1, s)))"
proof -
  define q where "q = (bq_items bq i)\<lparr>qi_status := QI_DOWNLOADED\<rparr>"
  define bu where "bu = removeQueue q True (bq_store bq b)"
  define bq1 where "bq1 = (file_done i bq)\<lparr>bq_store := (bq_store bq)(b := bu)\<rparr>"
  have bok: "dir_bundle_ok e bq b" and ok: "dirs_ok e bq" using inv b by (auto simp: dirs_inv_def)
  have bu: "bu_target bu = bu_target (bq_store bq b)" "\<not> bu_fileBundle bu" "\<not> bu_fileBundle (bq_store bq b)"
    using bok by (simp_all add: bu_def dir_bundle_ok_def)
  have ib: "i \<in># bundle_files bq b" using i by (simp add: bundle_files_def)
  have q: "qi_token q = i" "qi_bundle q = Some b" "qi_isDownloaded q" "\<not> qi_isDownloaded (bq_items bq i)"
    "path_chain (bu_target bu) (getFilePath sep (qi_target q)) \<noteq> None" "qi_target q = qi_target (bq_items bq i)"
    using bok ib i by (auto simp: dir_bundle_ok_def q_def bu) (auto simp: qi_isDownloaded_def)
  from q(5) obtain ps where ps: "path_chain (bu_target bu) (getFilePath sep (qi_target q)) = Some ps" by blast
  have mem: "qi_token q \<in> set (bu_queueItems (bq_store bq b))" using i q(1) by simp
  have dm: "dir_map bq1 = dir_map bq" by (rule dir_map_same) (simp_all add: bq1_def file_done_def)
  have ok1: "dirs_ok e bq1" by (rule dirs_ok_store [OF ok]) (simp_all add: bq1_def bu file_done_def)
  have k1: "bundle_key e bq1 b = k" by (simp add: bundle_key_def bq1_def bu k)
  have st: "bq_store bq1 b = bu" "bq_items bq1 = (bq_items bq)(i := q)" by (simp_all add: bq1_def file_done_def q_def)
  have bf: "bundle_files bq1 b = bundle_files bq b"
    using i removeQueue_completed [OF mem, folded bu_def] mset_swap_remove [OF i]
    by (simp add: bundle_files_def st q(1))
  have below: "files_below bq1 b p = files_below bq b p" for p
    unfolding files_below_def bf st bu by (rule filter_mset_cong) (auto simp: q(6))
  have in_ps: "p \<in> set ps \<longleftrightarrow> i \<in># files_below bq b p" for p
    using ps ib by (simp add: files_below_def chain_set_def bu q(6))
  have before: "dir_map bq1 k p = dir_counts (bq_items bq) (files_below bq b p)" for p
    using bok by (simp add: dm k dir_bundle_ok_def)
  have "\<forall>p\<in>set ps. dir_map bq1 k p \<noteq> None" by (auto simp: before in_ps dir_counts_def simp del: not_None_eq)
  then have nz: "(\<forall>p\<in>set ps. count_update (\<lambda>(n, f, s). (n, f - 1, s)) (dir_map bq1 k p) \<noteq> None) \<or> (\<forall>p\<in>set ps. dir_map bq1 k p \<noteq> None)"
    by blast
  have ps1: "path_chain (bu_target (bq_store bq1 b)) (getFilePath sep (qi_target q)) = Some ps" by (simp add: st ps)
  from forEachPath_correct [OF ok1 complete_handler [OF q(3)] k1 ps1 nz] obtain bq2 where
    f: "forEachPath e b (qi_target q) (remove_file_info q True) bq1 = Some bq2" "same_bundles bq1 bq2"
      "\<And>p. p \<in> set ps \<Longrightarrow> dir_map bq2 k p = count_update (\<lambda>(n, f, s). (n, f - 1, s)) (dir_map bq1 k p)"
    by force
  define bq3 where "bq3 = bq2\<lparr>bq_queueSize := bq_queueSize bq2 - qi_size q\<rparr>"
  have r: "bq_removeBundleItem e i True (file_done i bq) = Some bq3"
    using f(1) bu q(2) by (simp add: bq_removeBundleItem_def Let_def bq1_def bq3_def file_done_def q_def [symmetric] bu_def [symmetric])
  have s3: "bq_store bq3 = bq_store bq1" "bq_items bq3 = bq_items bq1" using f(2) by (simp_all add: bq3_def same_bundles_def)
  have d3: "dir_map bq3 = dir_map bq2" by (rule dir_map_same) (simp_all add: bq3_def)
  have below3: "files_below bq3 b p = files_below bq b p" for p
    using below [of p] by (simp add: files_below_def bundle_files_def s3)
  have "\<exists>n f s. dir_map bq k p = Some (n, f, s) \<and> dir_map bq3 k p = Some (n, f - 1, s)
      \<and> dir_counts (bq_items bq3) (files_below bq3 b p) = Some (n - 1, f + 1, s)" if p: "i \<in># files_below bq b p" for p
  proof -
    obtain M where M: "files_below bq b p = add_mset i M" using p by (metis mset_add)
    obtain n f s where nfs: "counts_of (bq_items bq) (add_mset i M) = (n, f, s)" by (metis prod_cases3)
    have c1: "count (files_below bq b p) i \<le> 1" using bok by (simp add: files_below_def dir_bundle_ok_def)
    then have niM: "i \<notin># M" by (simp add: M not_in_iff)
    have "size (bundle_files bq b) < 2 ^ 64" using bok by (simp add: dir_bundle_ok_def)
    then have sz: "size (files_below bq b p) < 2 ^ 64" unfolding files_below_def by (rule size_filter_less)
    define F where "F = filter_mset (\<lambda>j. \<not> qi_isDownloaded (bq_items bq j)) (add_mset i M)"
    have "size F < 2 ^ 64" using sz unfolding M F_def by (rule size_filter_less)
    then have "of_nat (size F) = (0 :: size_t) \<longleftrightarrow> size F = 0" by (rule of_nat_size_t)
    moreover have "size F \<noteq> 0" using q(4) by (simp add: F_def)
    moreover have "n = of_nat (size F)" using nfs by (simp only: counts_of_def F_def prod.inject)
    ultimately have n: "n \<noteq> 0" by simp
    have "dir_map bq k p = Some (n, f, s)" using before [of p] by (simp add: dm M dir_counts_def nfs)
    moreover have "dir_map bq3 k p = Some (n, f - 1, s)"
      using f(3) [of p] in_ps p before [of p] n by (simp add: d3 M dir_counts_def nfs count_update_def)
    moreover have "dir_counts (bq_items bq3) (files_below bq3 b p) = Some (n - 1, f + 1, s)"
      using counts_of_downloaded [of i M "bq_items bq", OF niM q(4)]
      by (simp add: below3 s3 st M dir_counts_def nfs q_def)
    ultimately show ?thesis by blast
  qed
  then show ?thesis using r by blast
qed

section \<open>Runs\<close>

text \<open>
  Files are added to the bundles of directories \<open>D\<close> and taken from them, each path below its bundle's
  directory, with fewer than \<open>2 ^ 64\<close> files in a bundle.
\<close>

inductive dir_step :: "env \<Rightarrow> nat set \<Rightarrow> bundle_queue \<Rightarrow> bundle_queue \<Rightarrow> bool" for e D where
  add: "b \<in> D \<Longrightarrow> \<forall>c\<in>D. i \<notin># bundle_files bq c \<Longrightarrow> qi_token (bq_items bq i) = i \<Longrightarrow>
    path_chain (bu_target (bq_store bq b)) (getFilePath sep (qi_target (bq_items bq i))) \<noteq> None \<Longrightarrow>
    size (bundle_files bq b) + 1 < 2 ^ 64 \<Longrightarrow> addBundleItem e i b bq = Some bq' \<Longrightarrow> dir_step e D bq bq'"
| remove: "b \<in> D \<Longrightarrow> i \<in># bundle_files bq b \<Longrightarrow> bq_removeBundleItem e i False bq = Some bq' \<Longrightarrow> dir_step e D bq bq'"

lemma one_bundle: "dirs_inv e D bq \<Longrightarrow> b \<in> D \<Longrightarrow> i \<in># bundle_files bq b \<Longrightarrow> \<forall>c\<in>D. c \<noteq> b \<longrightarrow> i \<notin># bundle_files bq c"
  unfolding dirs_inv_def dir_bundle_ok_def by (metis option.inject)

lemma dir_step_inv:
  assumes "dir_step e D bq bq'" and "dirs_inv e D bq"
  shows "dirs_inv e D bq'"
  using assms
proof (cases rule: dir_step.cases)
  case (add b i)
  from addBundleItem_dirs_inv [OF assms(2) add(1-5)] add(6) show ?thesis by auto
next
  case (remove b i)
  from removeBundleItem_dirs_inv [OF assms(2) remove(1,2) one_bundle [OF assms(2) remove(1,2)]] remove(3) show ?thesis by auto
qed

lemma dir_steps_inv: "(dir_step e D)\<^sup>*\<^sup>* bq bq' \<Longrightarrow> dirs_inv e D bq \<Longrightarrow> dirs_inv e D bq'"
  by (induction rule: rtranclp_induct) (auto intro: dir_step_inv)

text \<open>Bundles of directories without files.\<close>

definition dirs_empty :: "env \<Rightarrow> nat set \<Rightarrow> bundle_queue \<Rightarrow> bool" where
  "dirs_empty e D bq \<longleftrightarrow>
     bq_bundlePaths bq = (\<lambda>_. None) \<and> inj_on (bundle_key e bq) D
     \<and> (\<forall>b\<in>D. \<not> bu_fileBundle (bq_store bq b) \<and> bu_queueItems (bq_store bq b) = [] \<and> bu_finishedFiles (bq_store bq b) = [])"

lemma dirs_empty_inv: "dirs_empty e D bq \<Longrightarrow> dirs_inv e D bq"
  by (auto simp: dirs_empty_def dirs_inv_def dir_bundle_ok_def dirs_ok_def bundle_files_def files_below_def dir_counts_def dir_map_def)


text \<open>
  C27: A file that is complete is taken off the finished files of its directories, and stays a queued one:
  \<open>QueueManager\<close> sets its status before \<open>removeBundleItem\<close> asks for it.  With \<open>n\<close> queued and \<open>f\<close> finished files
  before, the counts become \<open>n\<close> and \<open>f - 1\<close> (the largest \<open>size_t\<close> for the first file), and the files of the
  directory are \<open>n - 1\<close> and \<open>f + 1\<close>.
\<close>

theorem completed_file_counts:
  assumes "dirs_empty e D bq0" and "(dir_step e D)\<^sup>*\<^sup>* bq0 bq" and "b \<in> D"
    and "i \<in> set (bu_queueItems (bq_store bq b))"
  shows "\<exists>bq'. bq_removeBundleItem e i True (file_done i bq) = Some bq'
    \<and> (\<forall>p. i \<in># files_below bq b p \<longrightarrow>
         (\<exists>n f s. dir_map bq (bundle_key e bq b) p = Some (n, f, s)
            \<and> dir_map bq' (bundle_key e bq b) p = Some (n, f - 1, s)
            \<and> dir_counts (bq_items bq') (files_below bq' b p) = Some (n - 1, f + 1, s)))"
  by (rule completeBundleItem_counts [OF dir_steps_inv [OF assms(2) dirs_empty_inv [OF assms(1)]] assms(3,4) refl])

section \<open>Witnesses\<close>

definition test_dirs :: bundle_queue where
  "test_dirs =
     \<lparr>bq_items = (\<lambda>i. test_item\<lparr>qi_token := i, qi_target := ''/d/x/a''\<rparr>), bq_store = (\<lambda>_. test_bundle), bq_bundles = [5],
      bq_infos = (\<lambda>_. path_info_new [] 0), bq_next = 0, bq_dirNameMap = (\<lambda>_. []), bq_bundlePaths = (\<lambda>_. None),
      bq_queueSize = 0, bq_searchQueue = test_search_queue\<rparr>"

lemma test_dirs_empty: "dirs_empty test_env {5} test_dirs"
  by (simp add: dirs_empty_def test_dirs_def test_bundle_def bundle_new_def Let_def checkRecent_def test_settings_def)

lemma test_dirs_run:
  "\<exists>bq. (dir_step test_env {5})\<^sup>*\<^sup>* test_dirs bq \<and> bu_queueItems (bq_store bq 5) = [2] \<and> bundle_files bq 5 = {#2#}
     \<and> files_below bq 5 ''/d/'' = {#2#} \<and> qi_size (bq_items bq 2) = 100 \<and> \<not> qi_isDownloaded (bq_items bq 2)"
proof -
  have t: "bu_queueItems test_bundle = []" "bu_finishedFiles test_bundle = []" "bu_target test_bundle = ''/d/''"
    by (simp_all add: test_bundle_def bundle_new_def Let_def checkRecent_def test_settings_def)
  have q: "\<not> qi_isDownloaded (bq_items test_dirs 2)" "qi_token (bq_items test_dirs 2) = 2" "qi_target (bq_items test_dirs 2) = ''/d/x/a''"
    "qi_size (bq_items test_dirs 2) = 100"
    by (simp add: test_dirs_def qi_isDownloaded_def test_item_def) (simp_all add: test_dirs_def)
  have st: "bq_store test_dirs 5 = test_bundle" by (simp add: test_dirs_def)
  have c: "path_chain ''/d/'' (getFilePath sep ''/d/x/a'') = Some [''/d/x/'', ''/d/'']"
    by code_simp
  have new: "\<forall>c\<in>{5::nat}. 2 \<notin># bundle_files test_dirs c" by (simp add: bundle_files_def st t)
  from addBundleItem_dirs_inv [OF dirs_empty_inv [OF test_dirs_empty], of 5 2] obtain bq where
    bq: "addBundleItem test_env 2 5 test_dirs = Some bq" "bq_store bq = (bq_store test_dirs)(5 := addQueue (bq_items test_dirs 2) test_bundle)"
      "bq_items bq = (bq_items test_dirs)(2 := (bq_items test_dirs 2)\<lparr>qi_bundle := Some 5\<rparr>)"
    using new q c by (auto simp: st t bundle_files_def)
  have "dir_step test_env {5} test_dirs bq"
    by (rule dir_step.add [OF _ new q(2) _ _ bq(1)]) (simp_all add: st t c q bundle_files_def)
  then have "(dir_step test_env {5})\<^sup>*\<^sup>* test_dirs bq" by simp
  moreover have "bu_queueItems (bq_store bq 5) = [2]" "bundle_files bq 5 = {#2#}"
    using q by (simp_all add: bq t bundle_files_def)
  moreover have "files_below bq 5 ''/d/'' = {#2#}"
    using q c by (simp add: files_below_def calculation(3) chain_set_def bq t)
  moreover have "qi_size (bq_items bq 2) = 100" "\<not> qi_isDownloaded (bq_items bq 2)" using q by (simp_all add: bq)
  ultimately show ?thesis by blast
qed


theorem completed_file_counts_witness:
  "\<exists>bq bq'. (dir_step test_env {5})\<^sup>*\<^sup>* test_dirs bq \<and> bq_removeBundleItem test_env 2 True (file_done 2 bq) = Some bq'
     \<and> dir_map bq' (bundle_key test_env bq 5) ''/d/'' = Some (1, - 1, 100)"
proof -
  from test_dirs_run obtain bq where bq: "(dir_step test_env {5})\<^sup>*\<^sup>* test_dirs bq" "bu_queueItems (bq_store bq 5) = [2]"
    "files_below bq 5 ''/d/'' = {#2#}" "qi_size (bq_items bq 2) = 100" "\<not> qi_isDownloaded (bq_items bq 2)" by blast
  have inv: "dir_bundle_ok test_env bq 5"
    using dir_steps_inv [OF bq(1) dirs_empty_inv [OF test_dirs_empty]] by (simp add: dirs_inv_def)
  have "dir_map bq (bundle_key test_env bq 5) ''/d/'' = Some (1, 0, 100)"
    using inv bq by (simp add: dir_bundle_ok_def dir_counts_def counts_of_def)
  moreover have "\<exists>bq'. bq_removeBundleItem test_env 2 True (file_done 2 bq) = Some bq'
    \<and> (\<exists>n f s. dir_map bq (bundle_key test_env bq 5) ''/d/'' = Some (n, f, s)
          \<and> dir_map bq' (bundle_key test_env bq 5) ''/d/'' = Some (n, f - 1, s))"
  proof -
    have "(5::nat) \<in> {5}" "2 \<in> set (bu_queueItems (bq_store bq 5))" by (simp_all add: bq(2))
    note complete = completed_file_counts [OF test_dirs_empty bq(1) this]
    have "2 \<in># files_below bq 5 ''/d/''" by (simp add: bq(3))
    with complete show ?thesis by blast
  qed
  ultimately show ?thesis using bq(1) by auto
qed

end
