(* ===== verification/Streams.thy ===== *)
theory Streams
  imports Prelude
begin

text \<open>
  \<^bold>\<open>core/io/stream/Streams.h\<close>, \<open>FilteredFile.h\<close> (counting) and \<open>SharedFileStream.cpp\<close>: the streams that
  uploads and downloads nest into each other.  A stream owns the stream inside of it, so nesting is a
  datatype.  A file is its bytes; reading a regular file gives what is left of it, up to the size of the buffer.
  \<open>read\<close> takes the size of the buffer and gives the bytes and the changed \<open>len\<close>.
\<close>

section \<open>Input\<close>

datatype istream =
    Memory_In "byte list" nat
  | File_In "byte list" int
  | Limited_In istream int

text \<open>\<open>(size_t)min(maxBytes, (int64_t)len)\<close>: a conversion between words.\<close>

definition limited_len :: "int \<Rightarrow> nat \<Rightarrow> nat" where
  "limited_len maxBytes len = unat (word_of_int (min maxBytes (int len)) :: 64 word)"

fun is_read :: "nat \<Rightarrow> istream \<Rightarrow> byte list \<times> nat \<times> istream" where
  "is_read len (Memory_In src pos) =
     (let len = min len (length src - pos) in (take len (drop pos src), len, Memory_In src (pos + len)))"
| "is_read len (File_In src pos) =
     (let bs = take len (drop (nat pos) src) in (bs, length bs, File_In src (pos + int (length bs))))"
| "is_read len (Limited_In s maxBytes) =
     (let len = limited_len maxBytes len
      in if len = 0 then ([], 0, Limited_In s maxBytes)
         else let (bs, len, s) = is_read len s in (bs, len, Limited_In s (maxBytes - int (length bs))))"

text \<open>The default of \<open>setPos\<close> does nothing.\<close>

fun is_setPos :: "int \<Rightarrow> istream \<Rightarrow> istream" where
  "is_setPos p (File_In src pos) = File_In src p"
| "is_setPos p s = s"

fun is_getSize :: "istream \<Rightarrow> int" where
  "is_getSize (Memory_In src pos) = int (length src)"
| "is_getSize (File_In src pos) = int (length src)"
| "is_getSize (Limited_In s maxBytes) = is_getSize s"

fun is_releaseRootStream :: "istream \<Rightarrow> istream" where
  "is_releaseRootStream (Limited_In s maxBytes) = is_releaseRootStream s"
| "is_releaseRootStream s = s"

section \<open>Output\<close>

datatype stream_error = TOO_MUCH_DATA | WRITE_FAILED

text \<open>\<open>write\<close> of a stream over its state: the number of bytes written to the stream inside, or an exception.\<close>

type_synonym 's writer = "byte list \<Rightarrow> 's \<Rightarrow> stream_error + nat \<times> 's"
type_synonym 's flusher = "'s \<Rightarrow> stream_error + nat \<times> 's"

definition string_write :: "byte list writer" where
  "string_write bs str = Inr (length bs, str @ bs)"

definition string_flush :: "byte list flusher" where
  "string_flush str = Inr (0, str)"

text \<open>
  A \<open>SharedFileStream\<close>: the bytes of the file (shared with other streams), the position of this stream, and the
  size at which the disk is full.  A write past the end of the file fills the gap with zeroes.
\<close>

record shared_file =
  sf_bytes :: "byte list"
  sf_pos :: nat
  sf_space :: nat

definition file_write :: "byte list \<Rightarrow> nat \<Rightarrow> byte list \<Rightarrow> byte list" where
  "file_write c pos bs =
     (let c = c @ replicate (pos - length c) 0 in take pos c @ bs @ drop (pos + length bs) c)"

definition shared_write :: "shared_file writer" where
  "shared_write bs s =
     (if sf_space s < sf_pos s + length bs then Inl WRITE_FAILED
      else Inr (length bs, s\<lparr>sf_bytes := file_write (sf_bytes s) (sf_pos s) bs, sf_pos := sf_pos s + length bs\<rparr>))"

definition shared_flush :: "shared_file flusher" where
  "shared_flush s = Inr (0, s)"

definition count_write :: "'s writer \<Rightarrow> ('s \<times> int) writer" where
  "count_write w bs = (\<lambda>(s, count). case w bs s of Inl e \<Rightarrow> Inl e | Inr (n, s) \<Rightarrow> Inr (n, s, count + int n))"

definition count_flush :: "'s flusher \<Rightarrow> ('s \<times> int) flusher" where
  "count_flush f = (\<lambda>(s, count). case f s of Inl e \<Rightarrow> Inl e | Inr (n, s) \<Rightarrow> Inr (n, s, count + int n))"

definition limited_write :: "'s writer \<Rightarrow> ('s \<times> nat) writer" where
  "limited_write w bs =
     (\<lambda>(s, maxBytes).
        if maxBytes < length bs then Inl TOO_MUCH_DATA
        else case w bs s of Inl e \<Rightarrow> Inl e | Inr (n, s) \<Rightarrow> Inr (n, s, maxBytes - length bs))"

definition limited_flush :: "'s flusher \<Rightarrow> ('s \<times> nat) flusher" where
  "limited_flush f = (\<lambda>(s, maxBytes). case f s of Inl e \<Rightarrow> Inl e | Inr (n, s) \<Rightarrow> Inr (n, s, maxBytes))"

definition limited_eof :: "'s \<times> nat \<Rightarrow> bool" where
  "limited_eof = (\<lambda>(s, maxBytes). maxBytes = 0)"

text \<open>The loop of \<open>BufferedOutputStream::write\<close>: the stream inside and the bytes that wait.\<close>

function buffered_loop :: "'s writer \<Rightarrow> nat \<Rightarrow> byte list \<Rightarrow> 's \<Rightarrow> byte list \<Rightarrow> stream_error + 's \<times> byte list" where
  "buffered_loop w bufSize b s buf =
     (if b = [] then Inr (s, buf)
      else if buf = [] \<and> bufSize \<le> length b then
        (case w b s of Inl e \<Rightarrow> Inl e | Inr (_, s) \<Rightarrow> Inr (s, buf))
      else
        let n = min (bufSize - length buf) (length b);
            buf = buf @ take n b;
            b = drop n b
        in if length buf = bufSize then
             (case w buf s of Inl e \<Rightarrow> Inl e | Inr (_, s) \<Rightarrow> buffered_loop w bufSize b s [])
           else if n = 0 then Inr (s, buf) else buffered_loop w bufSize b s buf)"
  by pat_completeness auto
termination
  by (relation "measure (\<lambda>(w, n, b, s, buf). 2 * length b + (if buf = [] then 0 else 1))")
    (auto simp: neq_Nil_conv)

declare buffered_loop.simps [simp del]

definition buffered_write :: "nat \<Rightarrow> 's writer \<Rightarrow> ('s \<times> byte list) writer" where
  "buffered_write bufSize w bs =
     (\<lambda>(s, buf). case buffered_loop w bufSize bs s buf of Inl e \<Rightarrow> Inl e | Inr t \<Rightarrow> Inr (length bs, t))"

definition buffered_flush :: "'s writer \<Rightarrow> 's flusher \<Rightarrow> ('s \<times> byte list) flusher" where
  "buffered_flush w f =
     (\<lambda>(s, buf).
        case (if buf = [] then Inr (0, s) else w buf s) of
          Inl e \<Rightarrow> Inl e
        | Inr (_, s) \<Rightarrow> (case f s of Inl e \<Rightarrow> Inl e | Inr (_, s) \<Rightarrow> Inr (0, s, [])))"

fun write_all :: "'s writer \<Rightarrow> byte list list \<Rightarrow> 's \<Rightarrow> stream_error + 's" where
  "write_all w [] s = Inr s"
| "write_all w (b # bs) s = (case w b s of Inl e \<Rightarrow> Inl e | Inr (_, s) \<Rightarrow> write_all w bs s)"

section \<open>Interface\<close>

text \<open>
  A stream holds what it was given: \<open>content\<close> are the bytes that have reached the end of the nesting, \<open>pending\<close>
  those that wait in buffers, and \<open>flush\<close> moves them on.
\<close>

locale output_stream =
  fixes wr :: "'s writer" and fl :: "'s flusher"
    and ok :: "'s \<Rightarrow> bool" and content :: "'s \<Rightarrow> byte list" and pending :: "'s \<Rightarrow> byte list"
  assumes write_ok: "ok s \<Longrightarrow> wr bs s = Inr (n, s') \<Longrightarrow> ok s'"
    and write_content: "ok s \<Longrightarrow> wr bs s = Inr (n, s') \<Longrightarrow> content s' @ pending s' = content s @ pending s @ bs"
    and flush_ok: "ok s \<Longrightarrow> fl s = Inr (n, s') \<Longrightarrow> ok s'"
    and flush_content: "ok s \<Longrightarrow> fl s = Inr (n, s') \<Longrightarrow> content s' = content s @ pending s \<and> pending s' = []"
begin

lemma write_all_content:
  "ok s \<Longrightarrow> write_all wr bss s = Inr s' \<Longrightarrow> ok s' \<and> content s' @ pending s' = content s @ pending s @ concat bss"
proof (induction bss arbitrary: s)
  case (Cons b bss)
  then obtain n s1 where w: "wr b s = Inr (n, s1)" "write_all wr bss s1 = Inr s'"
    by (auto split: sum.splits)
  show ?case using Cons.IH [OF write_ok [OF Cons.prems(1) w(1)] w(2)] write_content [OF Cons.prems(1) w(1)] by simp
qed simp

lemma written_and_flushed:
  assumes "ok s" and "write_all wr bss s = Inr s1" and "fl s1 = Inr (n, s')"
  shows "content s' = content s @ pending s @ concat bss"
  using write_all_content [OF assms(1,2)] flush_content [OF _ assms(3)] by simp

lemma limited: "output_stream (limited_write wr) (limited_flush fl) (\<lambda>(s, m). ok s) (\<lambda>(s, m). content s) (\<lambda>(s, m). pending s)"
  by unfold_locales
    (auto simp: limited_write_def limited_flush_def write_content dest: write_ok flush_ok flush_content split: if_splits sum.splits)

lemma counted: "output_stream (count_write wr) (count_flush fl) (\<lambda>(s, c). ok s) (\<lambda>(s, c). content s) (\<lambda>(s, c). pending s)"
  by unfold_locales
    (auto simp: count_write_def count_flush_def write_content dest: write_ok flush_ok flush_content split: sum.splits)

lemma buffered_loop_content:
  "w = wr \<Longrightarrow> ok s \<Longrightarrow> length buf < k \<Longrightarrow> buffered_loop w k b s buf = Inr (s', buf') \<Longrightarrow>
    ok s' \<and> length buf' < k \<and> content s' @ pending s' @ buf' = content s @ pending s @ buf @ b"
proof (induction w k b s buf rule: buffered_loop.induct)
  case (1 w k b s buf)
  show ?case
  proof (cases "b = [] \<or> buf = [] \<and> k \<le> length b")
    case True
    then show ?thesis
      using 1(3-) by (subst (asm) (1) buffered_loop.simps)
        (auto simp: write_content dest: write_ok split: if_splits sum.splits)
  next
    case False
    define n where "n = min (k - length buf) (length b)"
    have n: "0 < n" "n \<le> length b" using False 1(5) by (auto simp: n_def)
    define buf1 where "buf1 = buf @ take n b"
    define b1 where "b1 = drop n b"
    have app: "buf1 @ b1 = buf @ b" by (simp add: buf1_def b1_def)
    have len: "length buf1 \<le> k" using n 1(5) by (auto simp: buf1_def n_def)
    have c: "(b = []) = False" "(buf = [] \<and> k \<le> length b) = False" "(n = 0) = False" using False n by auto
    have unf: "buffered_loop w k b s buf =
      (if length buf1 = k then case w buf1 s of Inl e \<Rightarrow> Inl e | Inr (_, s) \<Rightarrow> buffered_loop w k b1 s []
       else buffered_loop w k b1 s buf1)"
      apply (subst buffered_loop.simps)
      unfolding Let_def n_def [symmetric] buf1_def [symmetric] b1_def [symmetric] c if_False ..
    have fb: "b \<noteq> []" "\<not> (buf = [] \<and> k \<le> length b)" using False by auto
    note IH1 = 1(1) [OF fb n_def buf1_def b1_def] and IH2 = 1(2) [OF fb n_def buf1_def b1_def]
    show ?thesis
    proof (cases "length buf1 = k")
      case True
      with unf 1(6) obtain m s1 where w: "w buf1 s = Inr (m, s1)" "buffered_loop w k b1 s1 [] = Inr (s', buf')"
        by (auto split: sum.splits)
      have s1: "ok s1" "content s1 @ pending s1 = content s @ pending s @ buf1"
        using w(1) 1(3,4) by (auto dest: write_ok write_content)
      have "0 < k" using True n by (auto simp: buf1_def)
      then have "ok s' \<and> length buf' < k \<and> content s' @ pending s' @ buf' = content s1 @ pending s1 @ [] @ b1"
        using IH1 [OF True w(1)] 1(3) s1(1) w(2) by simp
      moreover have "content s1 @ pending s1 @ [] @ b1 = (content s @ pending s @ buf1) @ b1" unfolding s1(2) [symmetric] by simp
      ultimately show ?thesis using app by simp
    next
      case False
      then have "length buf1 < k" using len by simp
      then have "ok s' \<and> length buf' < k \<and> content s' @ pending s' @ buf' = content s @ pending s @ buf1 @ b1"
        using IH2 [OF False] n 1(3,4,6) unf False by auto
      then show ?thesis using app by simp
    qed
  qed
qed

lemma buffered:
  assumes "0 < k"
  shows "output_stream (buffered_write k wr) (buffered_flush wr fl) (\<lambda>(s, buf). ok s \<and> length buf < k) (\<lambda>(s, buf). content s)
    (\<lambda>(s, buf). pending s @ buf)"
proof
  fix s bs n s'
  assume ok: "(\<lambda>(s, buf). ok s \<and> length buf < k) s" and w: "buffered_write k wr bs s = Inr (n, s')"
  obtain t buf t' buf' where s: "s = (t, buf)" "s' = (t', buf')" by fastforce
  have l: "buffered_loop wr k bs t buf = Inr (t', buf')" using w s by (auto simp: buffered_write_def split: sum.splits)
  note b = buffered_loop_content [OF refl _ _ l]
  show "(\<lambda>(s, buf). ok s \<and> length buf < k) s'" using b ok s by simp
  show "(\<lambda>(s, buf). content s) s' @ (\<lambda>(s, buf). pending s @ buf) s' =
      (\<lambda>(s, buf). content s) s @ (\<lambda>(s, buf). pending s @ buf) s @ bs"
    using b ok s by simp
next
  fix s n s'
  assume ok: "(\<lambda>(s, buf). ok s \<and> length buf < k) s" and w: "buffered_flush wr fl s = Inr (n, s')"
  obtain t buf t' buf' where s: "s = (t, buf)" "s' = (t', buf')" by fastforce
  have okt: "ok t" using ok s by simp
  from w s obtain n1 t1 n2 where t1: "(if buf = [] then Inr (0, t) else wr buf t) = Inr (n1, t1)" "fl t1 = Inr (n2, t')" "buf' = []"
    by (auto simp: buffered_flush_def split: sum.splits)
  have "ok t1 \<and> content t1 @ pending t1 = content t @ pending t @ buf"
    using t1(1) okt by (auto dest: write_ok write_content split: if_splits)
  then show "(\<lambda>(s, buf). ok s \<and> length buf < k) s'"
    "(\<lambda>(s, buf). content s) s' = (\<lambda>(s, buf). content s) s @ (\<lambda>(s, buf). pending s @ buf) s \<and> (\<lambda>(s, buf). pending s @ buf) s' = []"
    using t1(2,3) s assms by (auto dest: flush_ok flush_content)
qed

end

section \<open>The streams of the program\<close>

text \<open>
  A stream into a file from the position \<open>p\<close> on, over the file \<open>f\<close>: its content is what lies between \<open>p\<close> and its
  position, and the rest of the file is that of \<open>f\<close>.
\<close>

definition written :: "nat \<Rightarrow> nat \<Rightarrow> byte list \<Rightarrow> byte list" where
  "written p q f = take (q - p) (drop p f)"

definition written_ok :: "nat \<Rightarrow> byte list \<Rightarrow> shared_file \<Rightarrow> bool" where
  "written_ok p f s \<longleftrightarrow>
     p \<le> sf_pos s \<and> (sf_pos s \<le> length (sf_bytes s) \<or> sf_pos s = p) \<and> length f \<le> length (sf_bytes s)
     \<and> (\<forall>i<length f. i < p \<or> sf_pos s \<le> i \<longrightarrow> sf_bytes s ! i = f ! i)"

lemma nth_file_write:
  "i < length (file_write c p bs) \<Longrightarrow> file_write c p bs ! i =
    (if p \<le> i \<and> i < p + length bs then bs ! (i - p) else if i < length c then c ! i else 0)"
  by (auto simp: file_write_def Let_def nth_append min_def)

lemma length_file_write: "length (file_write c p bs) = max (length c) (p + length bs)"
  by (auto simp: file_write_def Let_def)

lemma shared_write_content:
  assumes "written_ok p f s" and "shared_write bs s = Inr (n, s')"
  shows "written_ok p f s'" and "written p (sf_pos s') (sf_bytes s') = written p (sf_pos s) (sf_bytes s) @ bs"
proof -
  have s': "s' = s\<lparr>sf_bytes := file_write (sf_bytes s) (sf_pos s) bs, sf_pos := sf_pos s + length bs\<rparr>"
    using assms(2) by (auto simp: shared_write_def split: if_splits)
  have p: "p \<le> sf_pos s" "sf_pos s \<le> length (sf_bytes s) \<or> sf_pos s = p" using assms(1) by (auto simp: written_ok_def)
  show "written_ok p f s'" using assms(1) by (auto simp: s' written_ok_def length_file_write nth_file_write)
  have l: "length (written p (sf_pos s') (sf_bytes s')) = length (written p (sf_pos s) (sf_bytes s) @ bs)"
    using p by (auto simp: s' written_def length_file_write)
  show "written p (sf_pos s') (sf_bytes s') = written p (sf_pos s) (sf_bytes s) @ bs"
  proof (rule nth_equalityI [OF l])
    fix i assume i: "i < length (written p (sf_pos s') (sf_bytes s'))"
    then have "i < sf_pos s - p + length bs" using p by (auto simp: s' written_def length_file_write)
    then show "written p (sf_pos s') (sf_bytes s') ! i = (written p (sf_pos s) (sf_bytes s) @ bs) ! i"
      using p i by (auto simp: s' written_def nth_file_write length_file_write nth_append add.commute)
  qed
qed

interpretation string_out: output_stream string_write string_flush "\<lambda>_. True" "\<lambda>s. s" "\<lambda>_. []"
  by unfold_locales (auto simp: string_write_def string_flush_def)

interpretation file_out: output_stream shared_write shared_flush "written_ok p f" "\<lambda>s. written p (sf_pos s) (sf_bytes s)" "\<lambda>_. []" for p f
  by unfold_locales (auto simp: shared_flush_def dest: shared_write_content)

text \<open>\<open>Download::open\<close>: a buffer in front of the file, and the limit of the segment's size in front of the buffer.\<close>

type_synonym download_stream = "(shared_file \<times> byte list) \<times> nat"

definition download_write :: "nat \<Rightarrow> download_stream writer" where
  "download_write bufSize = limited_write (buffered_write bufSize shared_write)"

definition download_flush :: "download_stream flusher" where
  "download_flush = limited_flush (buffered_flush shared_write shared_flush)"

interpretation buffered_out: output_stream "buffered_write (Suc k) shared_write" "buffered_flush shared_write shared_flush"
  "\<lambda>(s, buf). written_ok p f s \<and> length buf < Suc k" "\<lambda>(s, buf). written p (sf_pos s) (sf_bytes s)" "\<lambda>(s, buf). buf" for k p f
  using file_out.buffered [of "Suc k" p f] by simp

section \<open>Segments of one file\<close>

text \<open>
  Several downloads write segments of one file at the same time, each through streams of its own.  \<open>None\<close>: some
  stream has thrown.
\<close>

record segment_stream =
  ss_start :: nat
  ss_size :: nat
  ss_pos :: nat
  ss_buf :: "byte list"
  ss_max :: nat

datatype segment_op = Op_Write nat "byte list" | Op_Flush nat

fun op_stream :: "segment_op \<Rightarrow> nat" where
  "op_stream (Op_Write i bs) = i"
| "op_stream (Op_Flush i) = i"

fun op_data :: "nat \<Rightarrow> segment_op \<Rightarrow> byte list" where
  "op_data i (Op_Write j bs) = (if i = j then bs else [])"
| "op_data i (Op_Flush j) = []"

definition segment_open :: "nat \<Rightarrow> nat \<Rightarrow> segment_stream" where
  "segment_open start sz = \<lparr>ss_start = start, ss_size = sz, ss_pos = start, ss_buf = [], ss_max = sz\<rparr>"

definition segment_state :: "nat \<Rightarrow> byte list \<Rightarrow> segment_stream \<Rightarrow> download_stream" where
  "segment_state space f t = ((\<lparr>sf_bytes = f, sf_pos = ss_pos t, sf_space = space\<rparr>, ss_buf t), ss_max t)"

fun segment_call :: "nat \<Rightarrow> nat \<Rightarrow> segment_op \<Rightarrow> byte list \<times> segment_stream list \<Rightarrow> (byte list \<times> segment_stream list) option" where
  "segment_call k space op (f, ts) =
     (let i = op_stream op; t = ts ! i in
      case (case op of Op_Write _ bs \<Rightarrow> download_write k bs (segment_state space f t)
                     | Op_Flush _ \<Rightarrow> download_flush (segment_state space f t)) of
        Inl e \<Rightarrow> None
      | Inr (_, (s, buf), m) \<Rightarrow> Some (sf_bytes s, ts[i := t\<lparr>ss_pos := sf_pos s, ss_buf := buf, ss_max := m\<rparr>]))"

fun segment_ops :: "nat \<Rightarrow> nat \<Rightarrow> segment_op list \<Rightarrow> byte list \<times> segment_stream list \<Rightarrow> (byte list \<times> segment_stream list) option" where
  "segment_ops k space [] st = Some st"
| "segment_ops k space (op # ops) st =
     (case segment_call k space op st of None \<Rightarrow> None | Some st \<Rightarrow> segment_ops k space ops st)"

definition stream_inv :: "nat \<Rightarrow> byte list \<Rightarrow> segment_stream \<Rightarrow> byte list \<Rightarrow> bool" where
  "stream_inv k f t d \<longleftrightarrow>
     ss_start t \<le> ss_pos t \<and> (ss_pos t \<le> length f \<or> ss_pos t = ss_start t) \<and> length (ss_buf t) < k
     \<and> ss_pos t + length (ss_buf t) + ss_max t = ss_start t + ss_size t
     \<and> written (ss_start t) (ss_pos t) f @ ss_buf t = d"

lemma written_split: "p \<le> q \<Longrightarrow> q \<le> r \<Longrightarrow> written p r f = written p q f @ written q r f"
proof -
  assume "p \<le> q" "q \<le> r"
  then have r: "r - p = (q - p) + (r - q)" "q - p + p = q" by simp_all
  show ?thesis unfolding written_def r(1) take_add by (simp add: \<open>p \<le> q\<close>)
qed

lemma written_same:
  assumes "length f \<le> length f'" and "q \<le> length f" and "\<And>i. p \<le> i \<Longrightarrow> i < q \<Longrightarrow> f' ! i = f ! i"
  shows "written p q f' = written p q f"
  using assms by (intro nth_equalityI) (auto simp: written_def)

lemma length_written: "q \<le> length f \<or> q = p \<Longrightarrow> length (written p q f) = q - p"
  by (auto simp: written_def)

text \<open>One call: the stream's data grow by the bytes of the call, and the file changes only behind its position.\<close>

lemma segment_call_frame:
  assumes inv: "stream_inv (Suc k) f t d" and ok: "written_ok (ss_pos t) f s \<and> length buf < Suc k"
    and w: "written (ss_pos t) (sf_pos s) (sf_bytes s) @ buf = ss_buf t @ bs"
    and m: "m + length bs = ss_max t"
    and t': "t' = t\<lparr>ss_pos := sf_pos s, ss_buf := buf, ss_max := m\<rparr>"
  shows "stream_inv (Suc k) (sf_bytes s) t' (d @ bs)"
proof -
  have p: "ss_start t \<le> ss_pos t" "ss_pos t \<le> length f \<or> ss_pos t = ss_start t"
    "ss_pos t + length (ss_buf t) + ss_max t = ss_start t + ss_size t" "written (ss_start t) (ss_pos t) f @ ss_buf t = d"
    using inv by (auto simp: stream_inv_def)
  have q: "ss_pos t \<le> sf_pos s" "sf_pos s \<le> length (sf_bytes s) \<or> sf_pos s = ss_pos t" "length f \<le> length (sf_bytes s)"
    "\<And>i. i < length f \<Longrightarrow> i < ss_pos t \<Longrightarrow> sf_bytes s ! i = f ! i"
    using ok by (auto simp: written_ok_def)
  have "written (ss_start t) (ss_pos t) (sf_bytes s) = written (ss_start t) (ss_pos t) f"
  proof (cases "ss_pos t \<le> length f")
    case True
    then show ?thesis using q by (intro written_same) auto
  next
    case False
    then show ?thesis using p(2) by (simp add: written_def)
  qed
  then have "written (ss_start t) (sf_pos s) (sf_bytes s) @ buf = d @ bs"
    using written_split [OF p(1) q(1), of "sf_bytes s"] w p(4) by simp
  moreover have "sf_pos s - ss_pos t + length buf = length (ss_buf t) + length bs"
    using arg_cong [OF w, of length] length_written [OF q(2)] by simp
  ultimately show ?thesis using p q ok m by (auto simp: stream_inv_def t')
qed

lemma segment_call_correct:
  assumes c: "segment_call (Suc k) space op (f, ts) = Some (f', ts')" and i: "op_stream op < length ts"
    and inv: "stream_inv (Suc k) f (ts ! op_stream op) d"
  shows "\<exists>t'. ts' = ts[op_stream op := t'] \<and> stream_inv (Suc k) f' t' (d @ op_data (op_stream op) op)
    \<and> ss_start t' = ss_start (ts ! op_stream op) \<and> ss_size t' = ss_size (ts ! op_stream op)
    \<and> length f \<le> length f' \<and> (\<forall>i<length f. i < ss_pos (ts ! op_stream op) \<or> ss_pos t' \<le> i \<longrightarrow> f' ! i = f ! i)
    \<and> (\<forall>j. op = Op_Flush j \<longrightarrow> ss_buf t' = [])"
proof -
  define t where "t = ts ! op_stream op"
  have ok0: "(\<lambda>(s, buf). written_ok (ss_pos t) f s \<and> length buf < Suc k) (\<lparr>sf_bytes = f, sf_pos = ss_pos t, sf_space = space\<rparr>, ss_buf t)"
    using inv by (auto simp: written_ok_def stream_inv_def t_def)
  have w0: "written (ss_pos t) (ss_pos t) f = []" by (simp add: written_def)
  define res where "res = (case op of Op_Write _ bs \<Rightarrow> download_write (Suc k) bs (segment_state space f t)
         | Op_Flush _ \<Rightarrow> download_flush (segment_state space f t))"
  have c': "(case res of Inl e \<Rightarrow> None
      | Inr (_, (s, buf), m) \<Rightarrow> Some (sf_bytes s, ts[op_stream op := t\<lparr>ss_pos := sf_pos s, ss_buf := buf, ss_max := m\<rparr>]))
      = Some (f', ts')"
    using c unfolding segment_call.simps Let_def t_def [symmetric] res_def [symmetric] .
  then obtain x where "res = Inr x" by (cases res) auto
  then obtain n s buf m where res: "res = Inr (n, (s, buf), m)" by (metis surj_pair)
  note r = res [unfolded res_def]
  have f': "f' = sf_bytes s" and ts': "ts' = ts[op_stream op := t\<lparr>ss_pos := sf_pos s, ss_buf := buf, ss_max := m\<rparr>]"
    using c' by (simp_all add: res)
  have key: "written_ok (ss_pos t) f s \<and> length buf < Suc k
    \<and> written (ss_pos t) (sf_pos s) (sf_bytes s) @ buf = ss_buf t @ op_data (op_stream op) op
    \<and> m + length (op_data (op_stream op) op) = ss_max t \<and> (\<forall>j. op = Op_Flush j \<longrightarrow> buf = [])"
  proof (cases op)
    case (Op_Write j bs)
    then have "buffered_write (Suc k) shared_write bs (\<lparr>sf_bytes = f, sf_pos = ss_pos t, sf_space = space\<rparr>, ss_buf t) = Inr (n, s, buf)"
      and m: "length bs \<le> ss_max t" "m = ss_max t - length bs"
      using r by (auto simp: download_write_def limited_write_def segment_state_def split: if_splits sum.splits)
    from buffered_out.write_ok [OF ok0 this(1)] buffered_out.write_content [OF ok0 this(1)] m Op_Write
    show ?thesis by (simp add: w0)
  next
    case (Op_Flush j)
    then have "buffered_flush shared_write shared_flush (\<lparr>sf_bytes = f, sf_pos = ss_pos t, sf_space = space\<rparr>, ss_buf t) = Inr (n, s, buf)"
      and m: "m = ss_max t"
      using r by (auto simp: download_flush_def limited_flush_def segment_state_def split: sum.splits)
    from buffered_out.flush_ok [OF ok0 this(1)] buffered_out.flush_content [OF ok0 this(1)] m Op_Flush
    show ?thesis by (simp add: w0)
  qed
  define t' where "t' = t\<lparr>ss_pos := sf_pos s, ss_buf := buf, ss_max := m\<rparr>"
  have "stream_inv (Suc k) f' t' (d @ op_data (op_stream op) op)"
    unfolding f' by (rule segment_call_frame [of k f t d s buf _ m]) (use inv key in \<open>auto simp: t_def t'_def\<close>)
  moreover have "\<forall>i<length f. i < ss_pos t \<or> sf_pos s \<le> i \<longrightarrow> f' ! i = f ! i" "length f \<le> length f'"
    using key by (simp_all add: written_ok_def f')
  ultimately show ?thesis using ts' key unfolding t_def [symmetric] t'_def [symmetric] by (intro exI [of _ t']) (auto simp: t'_def)
qed

definition apart :: "segment_stream list \<Rightarrow> bool" where
  "apart ts \<longleftrightarrow> (\<forall>i<length ts. \<forall>j<length ts. i \<noteq> j \<longrightarrow>
     ss_start (ts ! i) + ss_size (ts ! i) \<le> ss_start (ts ! j) \<or> ss_start (ts ! j) + ss_size (ts ! j) \<le> ss_start (ts ! i))"

definition streams_inv :: "nat \<Rightarrow> byte list \<times> segment_stream list \<Rightarrow> (nat \<Rightarrow> byte list) \<Rightarrow> bool" where
  "streams_inv k st ds \<longleftrightarrow> apart (snd st) \<and> (\<forall>i<length (snd st). stream_inv (Suc k) (fst st) (snd st ! i) (ds i))"

definition ranges :: "segment_stream list \<Rightarrow> (nat \<times> nat) list" where
  "ranges ts = map (\<lambda>t. (ss_start t, ss_size t)) ts"

lemma ranges_nth: "i < length ts \<Longrightarrow> ranges ts = ranges ts' \<Longrightarrow> ss_start (ts ! i) = ss_start (ts' ! i) \<and> ss_size (ts ! i) = ss_size (ts' ! i)"
  unfolding ranges_def by (metis (no_types, lifting) length_map nth_map prod.inject)

lemma apart_ranges: "ranges ts = ranges ts' \<Longrightarrow> apart ts \<Longrightarrow> apart ts'"
proof -
  assume r: "ranges ts = ranges ts'"
  then have "length ts = length ts'" by (metis ranges_def length_map)
  then show "apart ts \<Longrightarrow> apart ts'" using ranges_nth [OF _ r] by (simp add: apart_def)
qed

lemma segment_call_streams:
  assumes inv: "streams_inv k (f, ts) ds" and i: "op_stream op < length ts"
    and c: "segment_call (Suc k) space op (f, ts) = Some (f', ts')"
  shows "streams_inv k (f', ts') (\<lambda>j. ds j @ op_data j op)" and "ranges ts' = ranges ts" and "length f \<le> length f'"
    and "\<And>x. x < length f \<Longrightarrow> \<forall>(a, n)\<in>set (ranges ts). x < a \<or> a + n \<le> x \<Longrightarrow> f' ! x = f ! x"
proof -
  define i where "i = op_stream op"
  have il: "i < length ts" using i by (simp add: i_def)
  have ii: "stream_inv (Suc k) f (ts ! i) (ds i)" and ap: "apart ts" using inv il by (auto simp: streams_inv_def)
  from segment_call_correct [OF c i, folded i_def, OF ii] obtain t' where
    t': "ts' = ts[i := t']" "stream_inv (Suc k) f' t' (ds i @ op_data i op)" "ss_start t' = ss_start (ts ! i)"
      "ss_size t' = ss_size (ts ! i)" "length f \<le> length f'"
    and same: "\<And>x. x < length f \<Longrightarrow> x < ss_pos (ts ! i) \<or> ss_pos t' \<le> x \<Longrightarrow> f' ! x = f ! x" by blast
  show r: "ranges ts' = ranges ts" using t'(1,3,4) il by (simp add: ranges_def map_update list_update_same_conv)
  show "length f \<le> length f'" by (rule t'(5))
  have lo: "ss_start (ts ! i) \<le> ss_pos (ts ! i)" using ii by (simp add: stream_inv_def)
  have hi: "ss_pos t' \<le> ss_start (ts ! i) + ss_size (ts ! i)" using t'(2-4) by (simp add: stream_inv_def)
  have out: "f' ! x = f ! x" if "x < length f" "x < ss_start (ts ! i) \<or> ss_start (ts ! i) + ss_size (ts ! i) \<le> x" for x
    using same [OF that(1)] that(2) lo hi by linarith
  show "\<And>x. x < length f \<Longrightarrow> \<forall>(a, n)\<in>set (ranges ts). x < a \<or> a + n \<le> x \<Longrightarrow> f' ! x = f ! x"
    using out il by (fastforce simp: ranges_def)
  have other: "stream_inv (Suc k) f' (ts ! j) (ds j)" if j: "j < length ts" "j \<noteq> i" for j
  proof -
    have jj: "stream_inv (Suc k) f (ts ! j) (ds j)" using inv j by (simp add: streams_inv_def)
    have pj: "ss_pos (ts ! j) \<le> ss_start (ts ! j) + ss_size (ts ! j)" using jj by (simp add: stream_inv_def)
    have "written (ss_start (ts ! j)) (ss_pos (ts ! j)) f' = written (ss_start (ts ! j)) (ss_pos (ts ! j)) f"
    proof (cases "ss_pos (ts ! j) \<le> length f")
      case True
      have "f' ! x = f ! x" if "ss_start (ts ! j) \<le> x" "x < ss_pos (ts ! j)" for x
      proof (rule out)
        show "x < length f" using that True by simp
        have "ss_start (ts ! i) + ss_size (ts ! i) \<le> ss_start (ts ! j) \<or> ss_start (ts ! j) + ss_size (ts ! j) \<le> ss_start (ts ! i)"
          using ap il j by (simp add: apart_def)
        then show "x < ss_start (ts ! i) \<or> ss_start (ts ! i) + ss_size (ts ! i) \<le> x" using that pj by linarith
      qed
      then show ?thesis using True t'(5) by (intro written_same)
    next
      case False
      then show ?thesis using jj by (simp add: stream_inv_def written_def)
    qed
    then show ?thesis using jj t'(5) by (auto simp: stream_inv_def)
  qed
  have "stream_inv (Suc k) f' (ts' ! j) (ds j @ op_data j op)" if j: "j < length ts" for j
  proof (cases "j = i")
    case True
    then show ?thesis using t'(1,2) il by simp
  next
    case False
    then have "op_data j op = []" by (cases op) (auto simp: i_def)
    then show ?thesis using other [OF j False] t'(1) False by simp
  qed
  then show "streams_inv k (f', ts') (\<lambda>j. ds j @ op_data j op)"
    using t'(1) apart_ranges [OF r [symmetric] ap] by (simp add: streams_inv_def)
qed

lemma segment_ops_streams:
  "streams_inv k (f, ts) ds \<Longrightarrow> \<forall>op\<in>set ops. op_stream op < length ts \<Longrightarrow>
    segment_ops (Suc k) space ops (f, ts) = Some (f', ts') \<Longrightarrow>
    streams_inv k (f', ts') (\<lambda>j. ds j @ concat (map (op_data j) ops)) \<and> ranges ts' = ranges ts \<and> length f \<le> length f'
    \<and> (\<forall>x<length f. (\<forall>(a, n)\<in>set (ranges ts). x < a \<or> a + n \<le> x) \<longrightarrow> f' ! x = f ! x)"
proof (induction ops arbitrary: f ts ds)
  case (Cons op ops)
  from Cons.prems(3) obtain f1 ts1 where c: "segment_call (Suc k) space op (f, ts) = Some (f1, ts1)"
    "segment_ops (Suc k) space ops (f1, ts1) = Some (f', ts')" by (auto simp del: segment_call.simps split: option.splits)
  have "op_stream op < length ts" using Cons.prems(2) by simp
  note one = segment_call_streams [OF Cons.prems(1) this c(1)]
  have len: "length ts1 = length ts" using one(2) by (metis ranges_def length_map)
  have "\<forall>op\<in>set ops. op_stream op < length ts1" using Cons.prems(2) len by simp
  from Cons.IH [OF one(1) this c(2)] one(2-4) show ?case by (auto simp: order_trans)
qed simp

lemma segment_ops_append:
  "segment_ops k space (xs @ ys) st = (case segment_ops k space xs st of None \<Rightarrow> None | Some st \<Rightarrow> segment_ops k space ys st)"
  by (induction xs arbitrary: st) (auto simp del: segment_call.simps split: option.splits)

lemma flush_all:
  "streams_inv k (f, ts) ds \<Longrightarrow> m \<le> length ts \<Longrightarrow> segment_ops (Suc k) space (map Op_Flush [0..<m]) (f, ts) = Some (f', ts') \<Longrightarrow>
    \<forall>i<m. ss_buf (ts' ! i) = []"
proof (induction m arbitrary: f' ts')
  case (Suc m)
  from Suc.prems(3) obtain f1 ts1 where s: "segment_ops (Suc k) space (map Op_Flush [0..<m]) (f, ts) = Some (f1, ts1)"
    and c: "segment_call (Suc k) space (Op_Flush m) (f1, ts1) = Some (f', ts')"
    by (auto simp: segment_ops_append simp del: segment_call.simps split: option.splits)
  have b: "\<forall>i<m. ss_buf (ts1 ! i) = []" using Suc.IH [OF Suc.prems(1) _ s] Suc.prems(2) by simp
  have "streams_inv k (f1, ts1) (\<lambda>j. ds j @ concat (map (op_data j) (map Op_Flush [0..<m]))) \<and> ranges ts1 = ranges ts"
    using segment_ops_streams [OF Suc.prems(1) _ s] Suc.prems(2) by auto
  then have inv: "streams_inv k (f1, ts1) (\<lambda>j. ds j @ concat (map (op_data j) (map Op_Flush [0..<m])))"
    and len: "length ts1 = length ts" by (auto simp: ranges_def dest: map_eq_imp_length_eq)
  have m: "op_stream (Op_Flush m) < length ts1" using Suc.prems(2) len by simp
  then have "stream_inv (Suc k) f1 (ts1 ! op_stream (Op_Flush m)) (ds m @ concat (map (op_data m) (map Op_Flush [0..<m])))"
    using inv by (simp add: streams_inv_def)
  from segment_call_correct [OF c m this] obtain t' where "ts' = ts1[m := t']" "ss_buf t' = []" by auto
  then show ?case using b m by (auto simp: less_Suc_eq nth_list_update)
qed simp

definition disjoint_ranges :: "(nat \<times> nat) list \<Rightarrow> bool" where
  "disjoint_ranges rs \<longleftrightarrow> (\<forall>i<length rs. \<forall>j<length rs. i \<noteq> j \<longrightarrow>
     fst (rs ! i) + snd (rs ! i) \<le> fst (rs ! j) \<or> fst (rs ! j) + snd (rs ! j) \<le> fst (rs ! i))"

text \<open>
  C29: downloads that write disjoint segments of one file at the same time, each through a limit, a buffer and a
  stream of its own, leave in every segment what was received for it, however their calls are interleaved, once
  all are flushed; no segment receives more than its size, and the rest of the file is unchanged.
\<close>

theorem segments_do_not_interfere:
  assumes "0 < bufSize" and "disjoint_ranges rs" and "\<forall>op\<in>set ops. op_stream op < length rs"
    and "segment_ops bufSize space (ops @ map Op_Flush [0..<length rs]) (f, map (\<lambda>(a, n). segment_open a n) rs) = Some (f', ts')"
  shows "(\<forall>i<length rs. length (concat (map (op_data i) ops)) \<le> snd (rs ! i)
        \<and> take (length (concat (map (op_data i) ops))) (drop (fst (rs ! i)) f') = concat (map (op_data i) ops))
    \<and> length f \<le> length f' \<and> (\<forall>x<length f. (\<forall>(a, n)\<in>set rs. x < a \<or> a + n \<le> x) \<longrightarrow> f' ! x = f ! x)"
proof -
  obtain k where k: "bufSize = Suc k" using assms(1) by (cases bufSize) auto
  define ts where "ts = map (\<lambda>(a, n). segment_open a n) rs"
  have r: "ranges ts = rs" by (simp add: ranges_def ts_def o_def segment_open_def split_beta)
  have len: "length ts = length rs" by (simp add: ts_def)
  have nth: "ts ! i = segment_open (fst (rs ! i)) (snd (rs ! i))" if "i < length rs" for i
    using that by (simp add: ts_def split_beta)
  have inv: "streams_inv k (f, ts) (\<lambda>_. [])"
    using assms(2) by (auto simp: streams_inv_def apart_def disjoint_ranges_def stream_inv_def written_def nth segment_open_def len)
  from assms(4) obtain f1 ts1 where s1: "segment_ops (Suc k) space ops (f, ts) = Some (f1, ts1)"
    and s2: "segment_ops (Suc k) space (map Op_Flush [0..<length rs]) (f1, ts1) = Some (f', ts')"
    by (auto simp: segment_ops_append k ts_def split: option.splits)
  have "\<forall>op\<in>set ops. op_stream op < length ts" using assms(3) len by simp
  from segment_ops_streams [OF inv this s1] have i1: "streams_inv k (f1, ts1) (\<lambda>j. concat (map (op_data j) ops))"
    "ranges ts1 = rs" "length f \<le> length f1" "\<forall>x<length f. (\<forall>(a, n)\<in>set rs. x < a \<or> a + n \<le> x) \<longrightarrow> f1 ! x = f ! x"
    by (auto simp: r)
  have len1: "length ts1 = length rs" using arg_cong [OF i1(2), of length] by (simp add: ranges_def)
  have nothing: "\<And>j. concat (map (op_data j) (map Op_Flush [0..<length rs])) = []"
    by (simp add: concat_eq_Nil_conv)
  have "\<forall>op\<in>set (map Op_Flush [0..<length rs]). op_stream op < length ts1" using len1 by auto
  note flushed = segment_ops_streams [OF i1(1) this s2]
  have z: "(\<lambda>j. concat (map (op_data j) ops) @ concat (map (op_data j) (map Op_Flush [0..<length rs]))) = (\<lambda>j. concat (map (op_data j) ops))"
  proof (rule ext)
    show "concat (map (op_data j) ops) @ concat (map (op_data j) (map Op_Flush [0..<length rs])) = concat (map (op_data j) ops)" for j
      using nothing [of j] by simp
  qed
  have i2: "streams_inv k (f', ts') (\<lambda>j. concat (map (op_data j) ops))" using flushed unfolding z by (rule conjunct1)
  have i3: "ranges ts' = rs" "length f1 \<le> length f'" "\<forall>x<length f1. (\<forall>(a, n)\<in>set rs. x < a \<or> a + n \<le> x) \<longrightarrow> f' ! x = f1 ! x"
    using flushed unfolding i1(2) by auto
  have len2: "length ts' = length rs" using arg_cong [OF i3(1), of length] by (simp add: ranges_def)
  have b: "\<forall>i<length rs. ss_buf (ts' ! i) = []" by (rule flush_all [OF i1(1) _ s2]) (simp add: len1)
  have "length (concat (map (op_data i) ops)) \<le> snd (rs ! i)
      \<and> take (length (concat (map (op_data i) ops))) (drop (fst (rs ! i)) f') = concat (map (op_data i) ops)" if i: "i < length rs" for i
  proof -
    have "ranges ts' ! i = (ss_start (ts' ! i), ss_size (ts' ! i))" using i len2 by (simp add: ranges_def)
    then have rg: "ss_start (ts' ! i) = fst (rs ! i)" "ss_size (ts' ! i) = snd (rs ! i)" unfolding i3(1) by simp_all
    have s: "stream_inv (Suc k) f' (ts' ! i) (concat (map (op_data i) ops))" using i2 i len2 by (simp add: streams_inv_def)
    then have w: "written (fst (rs ! i)) (ss_pos (ts' ! i)) f' = concat (map (op_data i) ops)"
      using b i by (simp add: stream_inv_def rg)
    have l: "length (concat (map (op_data i) ops)) = ss_pos (ts' ! i) - fst (rs ! i)"
      unfolding w [symmetric] using s by (intro length_written) (auto simp: stream_inv_def rg)
    show ?thesis using w s unfolding l by (auto simp: written_def stream_inv_def rg)
  qed
  then show ?thesis using i1(3,4) i3(2,3) by auto
qed

text \<open>Two downloads whose calls alternate, over a file that is shorter than their segments.\<close>

definition test_segment_ops :: "segment_op list" where
  "test_segment_ops = [Op_Write 1 [7], Op_Write 0 [1, 2, 3], Op_Write 1 [8, 9]]"

definition test_ranges :: "(nat \<times> nat) list" where
  "test_ranges = [(1, 3), (4, 3)]"

theorem segments_do_not_interfere_witness:
  "\<exists>f' ts'. segment_ops 2 9 (test_segment_ops @ map Op_Flush [0..<length test_ranges])
       ([5], map (\<lambda>(a, n). segment_open a n) test_ranges) = Some (f', ts') \<and> take 3 (drop 4 f') = [7, 8, 9]"
proof -
  have run: "segment_ops 2 9 (test_segment_ops @ map Op_Flush [0..<length test_ranges]) ([5], map (\<lambda>(a, n). segment_open a n) test_ranges)
    = Some ([5, 1, 2, 3, 7, 8, 9], [(segment_open 1 3)\<lparr>ss_pos := 4, ss_max := 0\<rparr>, (segment_open 4 3)\<lparr>ss_pos := 7, ss_max := 0\<rparr>])"
    unfolding test_segment_ops_def test_ranges_def by code_simp
  have "disjoint_ranges test_ranges" by (auto simp: disjoint_ranges_def test_ranges_def nth_Cons split: nat.splits)
  moreover have "\<forall>op\<in>set test_segment_ops. op_stream op < length test_ranges" by (simp add: test_segment_ops_def test_ranges_def)
  ultimately have all: "\<forall>i<length test_ranges. take (length (concat (map (op_data i) test_segment_ops)))
      (drop (fst (test_ranges ! i)) [5, 1, 2, 3, 7, 8, 9]) = concat (map (op_data i) test_segment_ops)"
    using segments_do_not_interfere [OF zero_less_numeral _ _ run] by blast
  have "take 3 (drop 4 [5, 1, 2, 3, 7, 8, 9]) = [7, 8, 9 :: byte]"
    using spec [OF all, of 1] by (simp add: test_segment_ops_def test_ranges_def)
  with run show ?thesis by blast
qed

end
