(* ===== verification/Upload_File.thy ===== *)
theory Upload_File
  imports Streams Segments Base32 Queue_Item Paths
begin

text \<open>
  \<^bold>\<open>transfer/upload/UploadFileParser.cpp\<close> and \<^bold>\<open>UploadRequest.h\<close>: what a request for an upload asks for, and
  the stream that answers it; with the lookup of \<open>ShareManager::toRealWithSize\<close> over its providers.  Start and
  size come from the other side and are \<open>int64_t\<close>: \<open>add64\<close> and \<open>sub64\<close> are \<open>None\<close> when the result does not fit,
  which C++ leaves undefined.  The providers of the share, the generators of lists, the files on disk (bytes by
  path), the matcher of small file names and the unpacking of bzip2 are the record \<open>share_env\<close>.
\<close>

section \<open>Requests\<close>

definition int64 :: "int \<Rightarrow> int option" where
  "int64 x = (if - (2 ^ 63) \<le> x \<and> x < 2 ^ 63 then Some x else None)"

definition add64 :: "int \<Rightarrow> int \<Rightarrow> int option" where
  "add64 a b = int64 (a + b)"

definition sub64 :: "int \<Rightarrow> int \<Rightarrow> int option" where
  "sub64 a b = int64 (a - b)"

definition transfer_names :: "transfer_type \<Rightarrow> string" where
  "transfer_names t =
     (case t of TYPE_FILE \<Rightarrow> ''file'' | TYPE_FULL_LIST \<Rightarrow> ''file'' | TYPE_PARTIAL_LIST \<Rightarrow> ''list''
      | TYPE_TREE \<Rightarrow> ''tthl'' | TYPE_TTH_LIST \<Rightarrow> ''tthlist'')"

definition USER_LIST_NAME_EXTRACTED :: string where
  "USER_LIST_NAME_EXTRACTED = ''files.xml''"

definition USER_LIST_NAME_BZ :: string where
  "USER_LIST_NAME_BZ = ''files.xml.bz2''"

record upload_request =
  ur_type :: string
  ur_file :: string
  ur_segment :: segment
  ur_userSID :: string
  ur_listRecursive :: bool

definition request_validate :: "upload_request \<Rightarrow> bool" where
  "request_validate r \<longleftrightarrow>
     \<not> (ur_file r = [] \<or> sg_start (ur_segment r) < 0 \<or> sg_size (ur_segment r) < - 1 \<or> sg_size (ur_segment r) = 0)"

definition isFullFilelist :: "upload_request \<Rightarrow> bool" where
  "isFullFilelist r \<longleftrightarrow> ur_file r = USER_LIST_NAME_BZ \<or> ur_file r = USER_LIST_NAME_EXTRACTED"

section \<open>The share\<close>

text \<open>A provider answers whether it has the file, and may change path, size and the mark of a denied access.\<close>

type_synonym file_provider = "byte list \<Rightarrow> segment \<Rightarrow> string \<times> int \<times> bool \<Rightarrow> bool \<times> string \<times> int \<times> bool"

record share_env =
  sh_providers :: "file_provider list"
  sh_fileList :: "string \<Rightarrow> string + int \<times> string"
  sh_tree :: "string \<Rightarrow> byte list option"
  sh_bundleTTHList :: "string \<Rightarrow> string + (byte list option \<times> string option)"
  sh_tthList :: "string \<Rightarrow> bool \<Rightarrow> string + byte list option"
  sh_partialList :: "string \<Rightarrow> bool \<Rightarrow> string + byte list option"
  sh_disk :: "string \<Rightarrow> string + byte list"
  sh_unpack :: "byte list \<Rightarrow> string + byte list"
  sh_freeSlotMatch :: "string \<Rightarrow> bool"
  SET_MINISLOT_SIZE :: int

record file_info =
  fi_path :: string
  fi_size :: int
  fi_found :: bool
  fi_noAccess :: bool

fun provider_loop :: "file_provider list \<Rightarrow> byte list \<Rightarrow> segment \<Rightarrow> string \<times> int \<times> bool \<Rightarrow> file_info" where
  "provider_loop [] tth s (p, n, a) = \<lparr>fi_path = p, fi_size = n, fi_found = False, fi_noAccess = a\<rparr>"
| "provider_loop (q # qs) tth s r =
     (case q tth s r of
        (True, p, n, a) \<Rightarrow> \<lparr>fi_path = p, fi_size = n, fi_found = True, fi_noAccess = a\<rparr>
      | (False, r) \<Rightarrow> provider_loop qs tth s r)"

definition share_toRealWithSize :: "share_env \<Rightarrow> string \<Rightarrow> segment \<Rightarrow> file_info" where
  "share_toRealWithSize sh aVirtualFile s =
     (if take 4 aVirtualFile \<noteq> ''TTH/'' then \<lparr>fi_path = [], fi_size = 0, fi_found = False, fi_noAccess = False\<rparr>
      else provider_loop (sh_providers sh) (HashValue_fromBase32 (drop 4 aVirtualFile)) s ([], 0, False))"

section \<open>What is asked for\<close>

record parsed_upload =
  pu_sourceFile :: string
  pu_fileSize :: int
  pu_type :: transfer_type
  pu_miniSlot :: bool

text \<open>\<open>Parser_Error e noAccess\<close> is caught by the caller, \<open>Share_Error e\<close> is an exception of another class.\<close>

datatype parse_exception = Parser_Error string bool | Share_Error string

definition parser_toRealWithSize :: "share_env \<Rightarrow> upload_request \<Rightarrow> parse_exception + string \<times> int" where
  "parser_toRealWithSize sh r =
     (let result = share_toRealWithSize sh (ur_file r) (ur_segment r)
      in if \<not> fi_found result
         then Inl (Parser_Error (if fi_noAccess result then ''You don't have access to this file'' else ''File Not Available'')
                (fi_noAccess result))
         else Inr (fi_path result, fi_size result))"

definition parseFileInfo :: "share_env \<Rightarrow> upload_request \<Rightarrow> parse_exception + parsed_upload" where
  "parseFileInfo sh r =
     (if ur_type r = transfer_names TYPE_FILE then
        let full = isFullFilelist r in
        case (if full then (case sh_fileList sh (ur_file r) of Inl e \<Rightarrow> Inl (Share_Error e) | Inr (n, p) \<Rightarrow> Inr (p, n))
              else parser_toRealWithSize sh r) of
          Inl e \<Rightarrow> Inl e
        | Inr (p, n) \<Rightarrow>
            let miniSlot = (if full then True else sh_freeSlotMatch sh (getFileName sep p))
            in Inr \<lparr>pu_sourceFile = p, pu_fileSize = n, pu_type = (if full then TYPE_FULL_LIST else TYPE_FILE),
                    pu_miniSlot = miniSlot \<or> n \<le> convertSize_KB (SET_MINISLOT_SIZE sh)\<rparr>
      else if ur_type r = transfer_names TYPE_TREE then
        (case parser_toRealWithSize sh r of
           Inl e \<Rightarrow> Inl e
         | Inr (p, n) \<Rightarrow> Inr \<lparr>pu_sourceFile = p, pu_fileSize = n, pu_type = TYPE_TREE, pu_miniSlot = True\<rparr>)
      else if ur_type r = transfer_names TYPE_PARTIAL_LIST then
        Inr \<lparr>pu_sourceFile = [], pu_fileSize = 0, pu_type = TYPE_PARTIAL_LIST, pu_miniSlot = True\<rparr>
      else if ur_type r = transfer_names TYPE_TTH_LIST then
        Inr \<lparr>pu_sourceFile = [], pu_fileSize = 0, pu_type = TYPE_TTH_LIST, pu_miniSlot = True\<rparr>
      else Inl (Parser_Error ''Unknown file type'' False))"

definition parser_usesSmallSlot :: "parsed_upload \<Rightarrow> bool" where
  "parser_usesSmallSlot p \<longleftrightarrow>
     pu_type p = TYPE_PARTIAL_LIST \<or> pu_type p = TYPE_TTH_LIST \<or> pu_type p \<noteq> TYPE_FULL_LIST \<and> pu_fileSize p \<le> 65792"

section \<open>Uploads\<close>

record upload =
  up_token :: nat
  up_conn :: nat
  up_path :: string
  up_stream :: istream
  up_segment :: segment
  up_fileSize :: int
  up_type :: transfer_type
  up_flags :: flags
  up_delayTime :: int

definition FLAG_ZUPLOAD :: flags where "FLAG_ZUPLOAD = 0x01"
definition FLAG_PENDING_KICK :: flags where "FLAG_PENDING_KICK = 0x02"
definition FLAG_RESUMED_UPLOAD :: flags where "FLAG_RESUMED_UPLOAD = 0x04"
definition FLAG_CHUNKED_UPLOAD :: flags where "FLAG_CHUNKED_UPLOAD = 0x08"

lemmas upload_flags = FLAG_ZUPLOAD_def FLAG_PENDING_KICK_def FLAG_RESUMED_UPLOAD_def FLAG_CHUNKED_UPLOAD_def

text \<open>
  The source, the stream, its start and size, and the size of the whole; \<open>Inr None\<close>: there is no such thing.
  The outer \<open>None\<close> is an overflow.
\<close>

definition file_stream ::
  "share_env \<Rightarrow> parsed_upload \<Rightarrow> upload_request \<Rightarrow> istream option \<Rightarrow> (string + istream \<times> int \<times> int \<times> int) option" where
  "file_stream sh p r is =
     (let startPos = sg_start (ur_segment r); bytes = sg_size (ur_segment r); fileSize = pu_fileSize p in
      if ur_file r = USER_LIST_NAME_EXTRACTED then
        Some (case sh_disk sh (pu_sourceFile p) of
                Inl e \<Rightarrow> Inl e
              | Inr bz2 \<Rightarrow>
                  (case sh_unpack sh bz2 of
                     Inl e \<Rightarrow> Inl e
                   | Inr xml \<Rightarrow> Inr (Memory_In xml 0, 0, int (length xml), int (length xml))))
      else
        case (if bytes = - 1 then sub64 fileSize startPos else Some bytes) of
          None \<Rightarrow> None
        | Some bytes \<Rightarrow>
            (case add64 startPos bytes of
               None \<Rightarrow> None
             | Some e \<Rightarrow>
                 Some (if fileSize < e then Inl ''Bytes were requested beyond the end of the file''
                       else
                         case (case is of Some s \<Rightarrow> Inr s
                               | None \<Rightarrow> map_sum id (\<lambda>c. File_In c 0) (sh_disk sh (pu_sourceFile p))) of
                           Inl e \<Rightarrow> Inl e
                         | Inr s \<Rightarrow>
                             let s = is_setPos startPos s;
                                 s = (if e < fileSize then Limited_In s bytes else s)
                             in Inr (s, startPos, bytes, fileSize))))"

definition memory_upload :: "string + byte list option \<Rightarrow> string + (istream \<times> int \<times> int \<times> int) option" where
  "memory_upload x =
     (case x of
        Inl e \<Rightarrow> Inl e
      | Inr None \<Rightarrow> Inr None
      | Inr (Some bs) \<Rightarrow> Inr (Some (Memory_In bs 0, 0, int (length bs), int (length bs))))"

definition upload_stream ::
  "share_env \<Rightarrow> parsed_upload \<Rightarrow> upload_request \<Rightarrow> istream option \<Rightarrow>
    (string + string \<times> (istream \<times> int \<times> int \<times> int) option) option" where
  "upload_stream sh p r is =
     (case pu_type p of
        TYPE_TREE \<Rightarrow> Some (map_sum id (Pair (ur_file r)) (memory_upload (Inr (sh_tree sh (ur_file r)))))
      | TYPE_TTH_LIST \<Rightarrow>
          Some
            (if \<not> isAdcDirectoryPath (ur_file r) then
               (case sh_bundleTTHList sh (ur_file r) of
                  Inl e \<Rightarrow> Inl e
                | Inr (bs, name) \<Rightarrow>
                    map_sum id (Pair (case name of Some n \<Rightarrow> n | None \<Rightarrow> ur_file r)) (memory_upload (Inr bs)))
             else map_sum id (Pair (ur_file r)) (memory_upload (sh_tthList sh (ur_file r) (ur_listRecursive r))))
      | TYPE_PARTIAL_LIST \<Rightarrow>
          Some (map_sum id (Pair (ur_file r)) (memory_upload (sh_partialList sh (ur_file r) (ur_listRecursive r))))
      | _ \<Rightarrow> map_option (map_sum id (\<lambda>x. (pu_sourceFile p, Some x))) (file_stream sh p r is))"

definition toUpload ::
  "share_env \<Rightarrow> nat \<Rightarrow> nat \<Rightarrow> parsed_upload \<Rightarrow> upload_request \<Rightarrow> istream option \<Rightarrow> (string + upload option) option" where
  "toUpload sh tok conn p r is =
     map_option
       (map_sum id
         (\<lambda>(path, s). map_option
            (\<lambda>(s, startPos, bytes, fileSize).
               let f = (if startPos + bytes \<noteq> fileSize then setFlag 0 FLAG_CHUNKED_UPLOAD else 0);
                   f = (if is \<noteq> None then setFlag f FLAG_RESUMED_UPLOAD else f)
               in \<lparr>up_token = tok, up_conn = conn, up_path = path, up_stream = s, up_segment = seg startPos bytes,
                   up_fileSize = fileSize, up_type = pu_type p, up_flags = f, up_delayTime = 0\<rparr>) s))
       (upload_stream sh p r is)"

section \<open>What an upload sends\<close>

text \<open>Reading with buffers of any sizes.\<close>

fun read_all :: "nat list \<Rightarrow> istream \<Rightarrow> byte list" where
  "read_all [] s = []"
| "read_all (n # ns) s = (let (bs, _, s) = is_read n s in bs @ read_all ns s)"

lemma read_all_file: "0 \<le> p \<Longrightarrow> read_all ns (File_In c p) = take (sum_list ns) (drop (nat p) c)"
proof (induction ns arbitrary: p)
  case (Cons n ns)
  have "nat (p + int (min (length c - nat p) n)) = min (length c - nat p) n + nat p" using Cons.prems by (simp add: nat_add_distrib)
  then show ?case using Cons by (auto simp: Let_def take_add min_def)
qed simp

lemma read_all_memory: "p \<le> length c \<Longrightarrow> read_all ns (Memory_In c p) = take (sum_list ns) (drop p c)"
proof (induction ns arbitrary: p)
  case (Cons n ns)
  then show ?case by (auto simp: Let_def take_add min_def add.commute)
qed simp

lemma limited_len: "0 \<le> m \<Longrightarrow> m < 2 ^ 64 \<Longrightarrow> limited_len m n = min (nat m) n"
proof -
  assume "0 \<le> m" "m < 2 ^ 64"
  then have m: "0 \<le> min m (int n)" "min m (int n) < 2 ^ 64" by auto
  then have "uint (word_of_int (min m (int n)) :: 64 word) = min m (int n)"
    unfolding uint_word_of_int by (intro mod_pos_pos_trivial) simp_all
  then have "limited_len m n = nat (min m (int n))" by (simp add: limited_len_def flip: nat_uint_eq)
  also have "\<dots> = min (nat m) n" by (simp add: min_def) arith
  finally show ?thesis .
qed

lemma read_all_limited:
  "0 \<le> p \<Longrightarrow> 0 \<le> m \<Longrightarrow> m < 2 ^ 64 \<Longrightarrow>
    read_all ns (Limited_In (File_In c p) m) = take (min (sum_list ns) (nat m)) (drop (nat p) c)"
proof (induction ns arbitrary: p m)
  case (Cons n ns)
  define k where "k = min (nat m) n"
  define l where "l = min (length c - nat p) k"
  have l: "limited_len m n = k" using limited_len [OF Cons.prems(2,3)] by (simp add: k_def)
  have IH: "read_all ns (Limited_In (File_In c (p + int l)) (m - int l)) =
      take (min (sum_list ns) (nat (m - int l))) (drop (nat (p + int l)) c)"
    by (rule Cons.IH) (use Cons.prems in \<open>auto simp: l_def k_def min_def split: if_splits\<close>)
  have np: "nat (p + int l) = l + nat p" using Cons.prems(1) by (simp add: nat_add_distrib)
  have bs: "take k (drop (nat p) c) = take l (drop (nat p) c)" "length (take l (drop (nat p) c)) = l" by (auto simp: l_def min_def)
  have "read_all (n # ns) (Limited_In (File_In c p) m) =
    take l (drop (nat p) c) @ take (min (sum_list ns) (nat (m - int l))) (drop (nat (p + int l)) c)"
  proof (cases "k = 0")
    case True
    then show ?thesis using IH by (simp add: l Let_def l_def)
  next
    case False
    then show ?thesis using IH bs by (simp add: l Let_def)
  qed
  also have "\<dots> = take (l + min (sum_list ns) (nat (m - int l))) (drop (nat p) c)" by (simp add: take_add np)
  also have "\<dots> = take (min (sum_list (n # ns)) (nat m)) (drop (nat p) c)"
  proof (cases "l = k")
    case True
    then have "l = min (nat m) n" by (simp add: k_def)
    then have "l + min S (nat (m - int l)) = min (n + S) (nat m)" for S using Cons.prems(2) by (simp add: min_def) arith
    then show ?thesis by simp
  next
    case False
    then have "l = length c - nat p" "l \<le> nat m" "l \<le> n" by (auto simp: l_def k_def min_def split: if_splits)
    then show ?thesis by simp
  qed
  finally show ?case .
qed simp

text \<open>
  C30: What an upload of a file announces and sends, for a valid request and a file of the shared size.  The
  request overflows when its end does not fit 64 bits; it is refused when its end is behind the file's; else the
  segment announced is the one asked for, and reading the stream in pieces of any sizes gives the bytes of that
  segment.  A request of unknown size (\<open>-1\<close>) is answered with the rest of the file, and from a start behind the
  end of the file with a segment of a negative size.
\<close>

theorem file_upload:
  assumes "request_validate r" and "ur_type r = ''file''" and "\<not> isFullFilelist r"
    and "share_toRealWithSize sh (ur_file r) (ur_segment r) = \<lparr>fi_path = path, fi_size = int (length c), fi_found = True, fi_noAccess = no\<rparr>"
    and "sh_disk sh path = Inr c" and "int (length c) < 2 ^ 63"
    and "a = sg_start (ur_segment r)" and "b = sg_size (ur_segment r)" and "a < 2 ^ 63" and "b < 2 ^ 63"
  shows "\<exists>p. parseFileInfo sh r = Inr p \<and> pu_type p = TYPE_FILE \<and>
    (case toUpload sh tok conn p r None of
       None \<Rightarrow> b \<noteq> - 1 \<and> 2 ^ 63 \<le> a + b
     | Some (Inl e) \<Rightarrow> b \<noteq> - 1 \<and> int (length c) < a + b \<and> a + b < 2 ^ 63
     | Some (Inr None) \<Rightarrow> False
     | Some (Inr (Some u)) \<Rightarrow>
         (b \<noteq> - 1 \<longrightarrow> a + b \<le> int (length c)) \<and> up_path u = path \<and> up_fileSize u = int (length c)
         \<and> up_segment u = seg a (if b = - 1 then int (length c) - a else b)
         \<and> (isSet (up_flags u) FLAG_CHUNKED_UPLOAD \<longleftrightarrow> b \<noteq> - 1 \<and> a + b < int (length c))
         \<and> (\<forall>ns. read_all ns (up_stream u) =
              take (if b = - 1 then sum_list ns else min (sum_list ns) (nat b)) (drop (nat a) c)))"
proof -
  define p where "p = \<lparr>pu_sourceFile = path, pu_fileSize = int (length c), pu_type = TYPE_FILE,
    pu_miniSlot = sh_freeSlotMatch sh (getFileName sep path) \<or> int (length c) \<le> convertSize_KB (SET_MINISLOT_SIZE sh)\<rparr>"
  have p: "parseFileInfo sh r = Inr p"
    using assms(2-4) by (simp add: parseFileInfo_def transfer_names_def parser_toRealWithSize_def Let_def p_def)
  have nx: "ur_file r \<noteq> USER_LIST_NAME_EXTRACTED" using assms(3) by (simp add: isFullFilelist_def)
  have ab: "0 \<le> a" "b = - 1 \<or> 0 < b" using assms(1,7,8) by (auto simp: request_validate_def)
  define bytes where "bytes = (if b = - 1 then int (length c) - a else b)"
  have sub: "sub64 (int (length c)) a = Some (int (length c) - a)" using ab assms(6,9) by (simp add: sub64_def int64_def)
  have up: "toUpload sh tok conn p r None =
    (if 2 ^ 63 \<le> a + bytes then None
     else Some (if int (length c) < a + bytes then Inl ''Bytes were requested beyond the end of the file''
       else Inr (Some \<lparr>up_token = tok, up_conn = conn, up_path = path,
              up_stream = (if a + bytes < int (length c) then Limited_In (File_In c a) bytes else File_In c a),
              up_segment = seg a bytes, up_fileSize = int (length c), up_type = TYPE_FILE,
              up_flags = (if a + bytes \<noteq> int (length c) then setFlag 0 FLAG_CHUNKED_UPLOAD else 0), up_delayTime = 0\<rparr>)))"
    using assms(5,7,8) ab nx sub
    by (auto simp: toUpload_def upload_stream_def file_stream_def p_def Let_def add64_def int64_def bytes_def)
  show ?thesis
  proof (intro exI conjI)
    show "parseFileInfo sh r = Inr p" by (rule p)
    show "pu_type p = TYPE_FILE" by (simp add: p_def)
    show "case toUpload sh tok conn p r None of
       None \<Rightarrow> b \<noteq> - 1 \<and> 2 ^ 63 \<le> a + b
     | Some (Inl e) \<Rightarrow> b \<noteq> - 1 \<and> int (length c) < a + b \<and> a + b < 2 ^ 63
     | Some (Inr None) \<Rightarrow> False
     | Some (Inr (Some u)) \<Rightarrow>
         (b \<noteq> - 1 \<longrightarrow> a + b \<le> int (length c)) \<and> up_path u = path \<and> up_fileSize u = int (length c)
         \<and> up_segment u = seg a (if b = - 1 then int (length c) - a else b)
         \<and> (isSet (up_flags u) FLAG_CHUNKED_UPLOAD \<longleftrightarrow> b \<noteq> - 1 \<and> a + b < int (length c))
         \<and> (\<forall>ns. read_all ns (up_stream u) =
              take (if b = - 1 then sum_list ns else min (sum_list ns) (nat b)) (drop (nat a) c))"
    proof (cases "2 ^ 63 \<le> a + bytes \<or> int (length c) < a + bytes")
      case True
      then show ?thesis using up ab assms(6) by (auto simp: bytes_def split: if_splits)
    next
      case False
      have r: "read_all ns (if a + bytes < int (length c) then Limited_In (File_In c a) bytes else File_In c a)
          = take (if b = - 1 then sum_list ns else min (sum_list ns) (nat b)) (drop (nat a) c)" for ns
      proof (cases "a + bytes < int (length c)")
        case True
        then have "b \<noteq> - 1" "bytes = b" "0 \<le> b" using ab by (auto simp: bytes_def split: if_splits)
        then show ?thesis using True ab assms(10) read_all_limited [of a b ns c] by simp
      next
        case e: False
        have "take (min (sum_list ns) (nat b)) (drop (nat a) c) = take (sum_list ns) (drop (nat a) c)" if "b \<noteq> - 1"
        proof -
          have "a + b = int (length c)" using that e False by (simp add: bytes_def)
          then have "nat b = length (drop (nat a) c)" using ab by auto
          then show ?thesis by (simp add: min_def)
        qed
        then show ?thesis using e ab read_all_file [of a ns c] by simp
      qed
      have chunk: "isSet (if a + bytes \<noteq> int (length c) then setFlag 0 FLAG_CHUNKED_UPLOAD else 0) FLAG_CHUNKED_UPLOAD
          \<longleftrightarrow> b \<noteq> - 1 \<and> a + b < int (length c)"
        using False by (auto simp: bytes_def) (auto simp: isSet_def FLAG_CHUNKED_UPLOAD_def)
      have "b \<noteq> - 1 \<longrightarrow> a + b \<le> int (length c)" using False by (auto simp: bytes_def)
      then show ?thesis using False r chunk unfolding up by (simp add: bytes_def)
    qed
  qed
qed

definition test_share :: share_env where
  "test_share =
     \<lparr>sh_providers = [\<lambda>tth s r. (True, ''/a'', 5, False)], sh_fileList = (\<lambda>_. Inl []), sh_tree = (\<lambda>_. None),
      sh_bundleTTHList = (\<lambda>_. Inl []), sh_tthList = (\<lambda>_ _. Inl []), sh_partialList = (\<lambda>_ _. Inl []),
      sh_disk = (\<lambda>_. Inr [1, 2, 3, 4, 5]), sh_unpack = (\<lambda>_. Inl []), sh_freeSlotMatch = (\<lambda>_. False), SET_MINISLOT_SIZE = 64\<rparr>"

definition test_request :: "int \<Rightarrow> int \<Rightarrow> upload_request" where
  "test_request a b =
     \<lparr>ur_type = ''file'', ur_file = ''TTH/A'', ur_segment = seg a b, ur_userSID = [], ur_listRecursive = False\<rparr>"

lemma test_request_ok:
  "0 \<le> a \<Longrightarrow> b = - 1 \<or> 0 < b \<Longrightarrow> request_validate (test_request a b)"
  "ur_type (test_request a b) = ''file''" "\<not> isFullFilelist (test_request a b)"
  "share_toRealWithSize test_share (ur_file (test_request a b)) (ur_segment (test_request a b))
    = \<lparr>fi_path = ''/a'', fi_size = int (length [1 :: byte, 2, 3, 4, 5]), fi_found = True, fi_noAccess = False\<rparr>"
  "sh_disk test_share ''/a'' = Inr [1, 2, 3, 4, 5]"
  "sg_start (ur_segment (test_request a b)) = a" "sg_size (ur_segment (test_request a b)) = b"
  by (auto simp: request_validate_def test_request_def isFullFilelist_def USER_LIST_NAME_BZ_def USER_LIST_NAME_EXTRACTED_def
      share_toRealWithSize_def test_share_def seg_def)

lemma upload_cases:
  "(case x of None \<Rightarrow> A | Some (Inl e) \<Rightarrow> B | Some (Inr None) \<Rightarrow> False | Some (Inr (Some u)) \<Rightarrow> P u) \<Longrightarrow>
    A \<or> B \<or> (\<exists>u. x = Some (Inr (Some u)) \<and> P u)"
  by (auto split: option.splits sum.splits)

text \<open>The second and third byte of a file, and a start behind its end.\<close>

theorem file_upload_witness:
  "(\<exists>p u. toUpload test_share 0 0 p (test_request 1 2) None = Some (Inr (Some u)) \<and> read_all [1, 1, 1] (up_stream u) = [2, 3])
   \<and> (\<exists>p u. toUpload test_share 0 0 p (test_request 7 (- 1)) None = Some (Inr (Some u)) \<and> up_segment u = seg 7 (- 2))"
proof -
  note t = test_request_ok
  have fu: "\<exists>p. parseFileInfo test_share (test_request a b) = Inr p \<and> pu_type p = TYPE_FILE \<and>
    (case toUpload test_share 0 0 p (test_request a b) None of
       None \<Rightarrow> b \<noteq> - 1 \<and> 2 ^ 63 \<le> a + b
     | Some (Inl e) \<Rightarrow> b \<noteq> - 1 \<and> int (length [1 :: byte, 2, 3, 4, 5]) < a + b \<and> a + b < 2 ^ 63
     | Some (Inr None) \<Rightarrow> False
     | Some (Inr (Some u)) \<Rightarrow>
         (b \<noteq> - 1 \<longrightarrow> a + b \<le> int (length [1 :: byte, 2, 3, 4, 5])) \<and> up_path u = ''/a'' \<and> up_fileSize u = int (length [1 :: byte, 2, 3, 4, 5])
         \<and> up_segment u = seg a (if b = - 1 then int (length [1 :: byte, 2, 3, 4, 5]) - a else b)
         \<and> (isSet (up_flags u) FLAG_CHUNKED_UPLOAD \<longleftrightarrow> b \<noteq> - 1 \<and> a + b < int (length [1 :: byte, 2, 3, 4, 5]))
         \<and> (\<forall>ns. read_all ns (up_stream u) =
              take (if b = - 1 then sum_list ns else min (sum_list ns) (nat b)) (drop (nat a) [1, 2, 3, 4, 5])))"
    if "0 \<le> a" "a < 2 ^ 63" "b = - 1 \<or> 0 < b" "b < 2 ^ 63" for a b
    by (rule file_upload [OF t(1) [OF that(1,3)] t(2-5) _ t(6,7) [symmetric] that(2,4)]) simp
  have "\<exists>p u. toUpload test_share 0 0 p (test_request 1 2) None = Some (Inr (Some u)) \<and> read_all [1, 1, 1] (up_stream u) = [2, 3]"
  proof -
    from fu [of 1 2] obtain p u where u: "toUpload test_share 0 0 p (test_request 1 2) None = Some (Inr (Some u))"
      "\<forall>ns. read_all ns (up_stream u) = take (min (sum_list ns) 2) [2, 3, 4, 5]"
      by (auto dest!: upload_cases)
    from u(2) have "read_all [1, 1, 1] (up_stream u) = [2, 3]" by (simp del: read_all.simps)
    with u(1) show ?thesis by blast
  qed
  moreover have "\<exists>p u. toUpload test_share 0 0 p (test_request 7 (- 1)) None = Some (Inr (Some u)) \<and> up_segment u = seg 7 (- 2)"
    using fu [of 7 "- 1"] by (auto dest!: upload_cases)
  ultimately show ?thesis by blast
qed

end
