(* ===== verification/Upload_Queue.thy ===== *)
theory Upload_Queue
  imports Queue_Item
begin

text \<open>
  \<^bold>\<open>transfer/upload/UploadQueueManager.cpp\<close>: the users that wait for an upload slot, with the files they asked
  for, and those that were told to connect again (\<open>notifiedUsers\<close>, an association list in place of the hash
  map).  A set of files is the list of its elements.  Who is online is the argument \<open>us\<close>; the ticks are 64-bit
  words, the number of free slots an 8-bit one.
\<close>

section \<open>State\<close>

record upload_queue_item =
  ui_token :: "32 word"
  ui_user :: hinted_user
  ui_file :: string
  ui_pos :: int
  ui_size :: int

record waiting_user =
  wu_files :: "upload_queue_item list"
  wu_user :: hinted_user
  wu_token :: string

record upload_queue =
  uq_notified :: "(user \<times> tick) list"
  uq_queue :: "waiting_user list"
  uq_nextToken :: "32 word"

definition waits :: "user \<Rightarrow> waiting_user \<Rightarrow> bool" where
  "waits u w \<longleftrightarrow> hu_user (wu_user w) = u"

section \<open>Operations\<close>

definition isNotifiedUser :: "user \<Rightarrow> upload_queue \<Rightarrow> bool" where
  "isNotifiedUser u uq \<longleftrightarrow> u \<in> fst ` set (uq_notified uq)"

definition allowUser :: "user \<Rightarrow> upload_queue \<Rightarrow> bool" where
  "allowUser u uq \<longleftrightarrow> uq_queue uq = [] \<and> uq_notified uq = [] \<or> isNotifiedUser u uq"

text \<open>The first entry of a user goes.\<close>

definition clearUserFiles :: "user \<Rightarrow> upload_queue \<Rightarrow> upload_queue" where
  "clearUserFiles u uq = uq\<lparr>uq_queue := erase_first (waits u) (uq_queue uq)\<rparr>"

definition uq_removeQueue :: "user \<Rightarrow> upload_queue \<Rightarrow> upload_queue" where
  "uq_removeQueue u uq =
     (let uq = clearUserFiles u uq
      in uq\<lparr>uq_notified := filter (\<lambda>(v, _). v \<noteq> u) (uq_notified uq)\<rparr>)"

text \<open>The position in the queue that the user is told, from 1, and the new queue.\<close>

definition find_pos :: "('a \<Rightarrow> bool) \<Rightarrow> 'a list \<Rightarrow> nat" where
  "find_pos P xs = length (takeWhile (\<lambda>x. \<not> P x) xs)"

definition set_pos :: "string \<Rightarrow> int \<Rightarrow> upload_queue_item list \<Rightarrow> upload_queue_item list" where
  "set_pos aFile aPos fs =
     (let k = find_pos (\<lambda>f. ui_file f = aFile) fs in fs[k := (fs ! k)\<lparr>ui_pos := aPos\<rparr>])"

definition addFailedUpload ::
  "hinted_user \<Rightarrow> string \<Rightarrow> string \<Rightarrow> int \<Rightarrow> int \<Rightarrow> upload_queue \<Rightarrow> nat \<times> upload_queue" where
  "addFailedUpload hu connectToken aFile aPos aSize uq =
     (let uqi = \<lparr>ui_token = uq_nextToken uq, ui_user = hu, ui_file = aFile, ui_pos = aPos, ui_size = aSize\<rparr>;
          k = find_pos (waits (hu_user hu)) (uq_queue uq)
      in if k = length (uq_queue uq) then
           (k + 1,
            uq\<lparr>uq_nextToken := uq_nextToken uq + 1,
               uq_queue := uq_queue uq @ [\<lparr>wu_files = [uqi], wu_user = hu, wu_token = connectToken\<rparr>]\<rparr>)
         else
           let w = (uq_queue uq ! k)\<lparr>wu_token := connectToken\<rparr>
           in if list_ex (\<lambda>f. ui_file f = aFile) (wu_files w)
              then (k + 1, uq\<lparr>uq_queue := (uq_queue uq)[k := w\<lparr>wu_files := set_pos aFile aPos (wu_files w)\<rparr>]\<rparr>)
              else (k + 1, uq\<lparr>uq_nextToken := uq_nextToken uq + 1,
                              uq_queue := (uq_queue uq)[k := w\<lparr>wu_files := wu_files w @ [uqi]\<rparr>]\<rparr>))"

text \<open>\<open>notifiedUsers[u] = t\<close>.\<close>

definition set_notified :: "user \<Rightarrow> tick \<Rightarrow> (user \<times> tick) list \<Rightarrow> (user \<times> tick) list" where
  "set_notified u t ns = (if u \<in> fst ` set ns then map (\<lambda>(v, s). (v, if v = u then t else s)) ns else ns @ [(u, t)])"

text \<open>The loop of \<open>notifyQueuedUsers\<close>; the first entry of its user is the front entry itself.\<close>

function notify_loop :: "users \<Rightarrow> tick \<Rightarrow> 8 word \<Rightarrow> upload_queue \<Rightarrow> waiting_user list \<times> upload_queue" where
  "notify_loop us t freeslots uq =
     (case uq_queue uq of
        [] \<Rightarrow> ([], uq)
      | w # _ \<Rightarrow>
          if freeslots = 0 then ([], uq)
          else
            let u = hu_user (wu_user w);
                uq = clearUserFiles u uq
            in if us_online us u then
                 let (ws, uq) = notify_loop us t (freeslots - 1) (uq\<lparr>uq_notified := set_notified u t (uq_notified uq)\<rparr>)
                 in (w # ws, uq)
               else notify_loop us t freeslots uq)"
  by pat_completeness auto
termination
  by (relation "measure (\<lambda>(us, t, f, uq). length (uq_queue uq))") (auto simp: clearUserFiles_def waits_def)

declare notify_loop.simps [simp del]

definition notifyQueuedUsers :: "users \<Rightarrow> tick \<Rightarrow> 8 word \<Rightarrow> upload_queue \<Rightarrow> waiting_user list \<times> upload_queue" where
  "notifyQueuedUsers us t aFreeSlots uq =
     (if uq_queue uq = [] then ([], uq)
      else if 0 < aFreeSlots
           then notify_loop us t (aFreeSlots - of_nat (length (uq_notified uq))) uq
           else ([], uq))"

definition uq_minute :: "tick \<Rightarrow> upload_queue \<Rightarrow> upload_queue" where
  "uq_minute t uq =
     (let expired = map fst (filter (\<lambda>(_, s). s + 90 * 1000 < t) (uq_notified uq));
          uq = fold clearUserFiles expired uq
      in uq\<lparr>uq_notified := filter (\<lambda>(_, s). \<not> s + 90 * 1000 < t) (uq_notified uq)\<rparr>)"

definition uq_userDisconnected :: "user \<Rightarrow> bool \<Rightarrow> upload_queue \<Rightarrow> upload_queue" where
  "uq_userDisconnected u aWentOffline uq = (if aWentOffline then clearUserFiles u uq else uq)"

text \<open>The user and token to connect to, when the user is online and waits.\<close>

definition uq_connectUser :: "users \<Rightarrow> hinted_user \<Rightarrow> upload_queue \<Rightarrow> (hinted_user \<times> string) option" where
  "uq_connectUser us hu uq =
     (if \<not> us_online us (hu_user hu) then None
      else map_option (\<lambda>w. (hu, wu_token w)) (find (waits (hu_user hu)) (uq_queue uq)))"

section \<open>The order of the queue\<close>

definition uq_users :: "upload_queue \<Rightarrow> user list" where
  "uq_users uq = map (\<lambda>w. hu_user (wu_user w)) (uq_queue uq)"

definition uq_ok :: "upload_queue \<Rightarrow> bool" where
  "uq_ok uq \<longleftrightarrow> distinct (uq_users uq) \<and> distinct (map fst (uq_notified uq)) \<and> (\<forall>w\<in>set (uq_queue uq). wu_files w \<noteq> [])"

text \<open>A user's place: the number of users before it.\<close>

definition place :: "user \<Rightarrow> upload_queue \<Rightarrow> nat option" where
  "place u uq = (if u \<in> set (uq_users uq) then Some (length (takeWhile (\<lambda>v. v \<noteq> u) (uq_users uq))) else None)"

definition online_waiting :: "users \<Rightarrow> upload_queue \<Rightarrow> waiting_user list" where
  "online_waiting us uq = filter (\<lambda>w. us_online us (hu_user (wu_user w))) (uq_queue uq)"

lemma uq_users_clear: "uq_users (clearUserFiles u uq) = remove1 u (uq_users uq)"
proof -
  have "map (\<lambda>w. hu_user (wu_user w)) (erase_first (waits u) ws) = remove1 u (map (\<lambda>w. hu_user (wu_user w)) ws)" for ws
    by (induction ws) (auto simp: waits_def)
  then show ?thesis by (simp add: uq_users_def clearUserFiles_def)
qed

lemma find_pos_place:
  "find_pos (waits u) (uq_queue uq) = (case place u uq of None \<Rightarrow> length (uq_queue uq) | Some k \<Rightarrow> k)"
proof -
  have "length (takeWhile (\<lambda>w. \<not> waits u w) ws) = length (takeWhile (\<lambda>v. v \<noteq> u) (map (\<lambda>w. hu_user (wu_user w)) ws))" for ws
    by (induction ws) (auto simp: waits_def)
  moreover have "u \<notin> set us \<Longrightarrow> length (takeWhile (\<lambda>v. v \<noteq> u) us) = length us" for us :: "user list"
    by (induction us) auto
  ultimately show ?thesis by (auto simp: find_pos_def place_def uq_users_def)
qed

lemma uq_users_update:
  "uq_users (uq\<lparr>uq_queue := (uq_queue uq)[k := w]\<rparr>) = (uq_users uq)[k := hu_user (wu_user w)]"
  by (simp add: uq_users_def map_update)

lemma takeWhile_found:
  "x \<in> set xs \<Longrightarrow> length (takeWhile (\<lambda>v. v \<noteq> x) xs) < length xs \<and> xs ! length (takeWhile (\<lambda>v. v \<noteq> x) xs) = x"
  by (induction xs) auto

lemma place_nth:
  assumes "place u uq = Some k"
  shows "k < length (uq_queue uq) \<and> hu_user (wu_user (uq_queue uq ! k)) = u"
proof -
  have "u \<in> set (uq_users uq)" and k: "k = length (takeWhile (\<lambda>v. v \<noteq> u) (uq_users uq))"
    using assms by (auto simp: place_def split: if_splits)
  from takeWhile_found [OF this(1)] show ?thesis unfolding k [symmetric] by (auto simp: uq_users_def)
qed

text \<open>The position told to a user is its place in the queue after the call; nobody else's place changes.\<close>

lemma addFailedUpload_place:
  assumes "addFailedUpload hu tok f p sz uq = (n, uq')"
  shows "place (hu_user hu) uq' = Some (n - 1)" and "0 < n"
    and "v \<in> set (uq_users uq) \<Longrightarrow> place v uq' = place v uq"
    and "uq_notified uq' = uq_notified uq"
proof -
  let ?u = "hu_user hu"
  have users: "uq_users uq' = (if ?u \<in> set (uq_users uq) then uq_users uq else uq_users uq @ [?u])
    \<and> n = (case place ?u uq of None \<Rightarrow> length (uq_queue uq) + 1 | Some k \<Rightarrow> k + 1) \<and> uq_notified uq' = uq_notified uq"
  proof (cases "place ?u uq")
    case None
    then have "find_pos (waits ?u) (uq_queue uq) = length (uq_queue uq)" "?u \<notin> set (uq_users uq)"
      by (auto simp: find_pos_place place_def split: if_splits)
    then show ?thesis using assms None by (auto simp: addFailedUpload_def Let_def uq_users_def)
  next
    case (Some k)
    note k = place_nth [OF Some]
    have p: "find_pos (waits ?u) (uq_queue uq) = k" using Some by (simp add: find_pos_place)
    have "?u \<in> set (uq_users uq)" using Some by (auto simp: place_def split: if_splits)
    moreover have "uq_users uq' = uq_users uq \<and> n = k + 1 \<and> uq_notified uq' = uq_notified uq"
      using assms k p unfolding addFailedUpload_def Let_def
      by (auto simp: uq_users_def map_update list_update_same_conv split: if_splits)
    ultimately show ?thesis using Some by simp
  qed
  have len: "length (uq_users uq) = length (uq_queue uq)" by (simp add: uq_users_def)
  have tw: "u \<notin> set us \<Longrightarrow> length (takeWhile (\<lambda>v. v \<noteq> u) (us @ [u])) = length us" for u and us :: "user list"
    by (induction us) auto
  show "place ?u uq' = Some (n - 1)"
    using users len tw [of ?u "uq_users uq"] by (auto simp: place_def)
  show "0 < n" using users by (auto split: option.splits)
  show "v \<in> set (uq_users uq) \<Longrightarrow> place v uq' = place v uq"
    using users by (auto simp: place_def takeWhile_append1)
  show "uq_notified uq' = uq_notified uq" using users by simp
qed

text \<open>The loop notifies the first online users of the queue, as many as its counter says.\<close>

lemma clear_front: "uq_queue uq = w # ws \<Longrightarrow> uq_queue (clearUserFiles (hu_user (wu_user w)) uq) = ws"
  by (simp add: clearUserFiles_def waits_def)

lemma notify_loop_users:
  "fst (notify_loop us t f uq) = take (unat f) (online_waiting us uq)"
proof (induction us t f uq rule: notify_loop.induct)
  case (1 us t f uq)
  show ?case
  proof (cases "uq_queue uq")
    case Nil
    then show ?thesis by (simp add: notify_loop.simps online_waiting_def)
  next
    case (Cons w ws)
    show ?thesis
    proof (cases "f = 0")
      case True
      then show ?thesis using Cons by (simp add: notify_loop.simps)
    next
      case False
      define u where "u = hu_user (wu_user w)"
      define uq1 where "uq1 = clearUserFiles u uq"
      have q1: "uq_queue uq1 = ws" using clear_front [OF Cons] by (simp add: uq1_def u_def)
      have f1: "Suc (unat (f - 1)) = unat f"
        using False unat_minus_one [OF False] by (simp add: unat_eq_zero [symmetric] del: unat_eq_0)
      show ?thesis
      proof (cases "us_online us u")
        case True
        define uq2 where "uq2 = uq1\<lparr>uq_notified := set_notified u t (uq_notified uq1)\<rparr>"
        have "fst (notify_loop us t (f - 1) uq2) = take (unat (f - 1)) (online_waiting us uq2)"
          using 1(1) [OF Cons False u_def uq1_def True] by (simp add: uq2_def)
        moreover have "notify_loop us t f uq = (let (l, q) = notify_loop us t (f - 1) uq2 in (w # l, q))"
          by (subst notify_loop.simps) (use Cons False True in \<open>simp add: u_def uq1_def uq2_def Let_def\<close>)
        moreover have "online_waiting us uq = w # online_waiting us uq2"
          using Cons True q1 by (simp add: online_waiting_def uq2_def u_def)
        ultimately show ?thesis using f1 by (simp add: take_Suc_Cons [symmetric] split_beta del: take_Suc_Cons)
      next
        case off: False
        have "fst (notify_loop us t f uq1) = take (unat f) (online_waiting us uq1)"
          using 1(2) [OF Cons False u_def uq1_def off] .
        moreover have "notify_loop us t f uq = notify_loop us t f uq1"
          by (subst notify_loop.simps) (use Cons False off in \<open>simp add: u_def uq1_def Let_def\<close>)
        moreover have "online_waiting us uq = online_waiting us uq1"
          using Cons off q1 by (simp add: online_waiting_def u_def)
        ultimately show ?thesis by simp
      qed
    qed
  qed
qed

lemma slots_minus:
  assumes "unat (f :: 8 word) < n" and "n \<le> 256"
  shows "unat (f - of_nat n) = 256 + unat f - n"
proof -
  have "f - of_nat n = of_nat (256 + unat f - n)"
    using assms by (simp add: of_nat_diff) 
  moreover have "256 + unat f - n < 256" using assms by simp
  ultimately show ?thesis by (simp add: unat_of_nat)
qed

text \<open>
  C28: when users wait and slots are free, the first online users of the queue are told to connect: one for
  every free slot that is not kept for a user who was told before.  When more users were told than slots are
  free (slots were taken, or lowered), the 8-bit difference wraps, and the whole queue is told, up to 255.
\<close>

theorem notified_users:
  assumes "0 < f"
  shows "(length (uq_notified uq) \<le> unat f \<longrightarrow>
      fst (notifyQueuedUsers us t f uq) = take (unat f - length (uq_notified uq)) (online_waiting us uq))
    \<and> (unat f < length (uq_notified uq) \<and> length (uq_notified uq) \<le> 256 \<longrightarrow>
      fst (notifyQueuedUsers us t f uq) = take (256 + unat f - length (uq_notified uq)) (online_waiting us uq))"
proof -
  let ?n = "length (uq_notified uq)"
  have "fst (notifyQueuedUsers us t f uq) = take (unat (f - of_nat ?n)) (online_waiting us uq)"
    using assms by (simp add: notifyQueuedUsers_def notify_loop_users) (simp add: online_waiting_def)
  moreover have "unat (f - of_nat ?n) = unat f - ?n" if "?n \<le> unat f"
  proof -
    have f: "unat f < 256" using unsigned_less [of f, where ?'a = nat] by simp
    have n: "unat (of_nat ?n :: 8 word) = ?n" using that f by (simp add: unat_of_nat)
    then have "of_nat ?n \<le> f" using that by (simp add: word_le_nat_alt)
    then show ?thesis using n by (simp add: unat_sub)
  qed
  ultimately show ?thesis using slots_minus [of f ?n] by simp
qed

definition test_waiting :: "nat \<Rightarrow> waiting_user" where
  "test_waiting u =
     \<lparr>wu_files = [\<lparr>ui_token = 0, ui_user = \<lparr>hu_user = u, hu_hint = []\<rparr>, ui_file = ''f'', ui_pos = 0, ui_size = 9\<rparr>],
      wu_user = \<lparr>hu_user = u, hu_hint = []\<rparr>, wu_token = ''t''\<rparr>"

definition test_waiting_queue :: upload_queue where
  "test_waiting_queue =
     \<lparr>uq_notified = [(7, 0), (8, 0)], uq_queue = map test_waiting [1, 2, 3], uq_nextToken = 0\<rparr>"

theorem notified_users_witness:
  "fst (notifyQueuedUsers \<lparr>us_online = (\<lambda>u. u \<noteq> 2), us_nmdc = (\<lambda>_. False)\<rparr> 0 3 test_waiting_queue) = [test_waiting 1]
   \<and> fst (notifyQueuedUsers \<lparr>us_online = (\<lambda>u. u \<noteq> 2), us_nmdc = (\<lambda>_. False)\<rparr> 0 1 test_waiting_queue)
      = [test_waiting 1, test_waiting 3]"
  using notified_users [of 3 test_waiting_queue "\<lparr>us_online = (\<lambda>u. u \<noteq> 2), us_nmdc = (\<lambda>_. False)\<rparr>" 0]
    notified_users [of 1 test_waiting_queue "\<lparr>us_online = (\<lambda>u. u \<noteq> 2), us_nmdc = (\<lambda>_. False)\<rparr>" 0]
  by (simp add: test_waiting_queue_def online_waiting_def test_waiting_def)

end
