(* ===== verification/Bandwidth.thy ===== *)
theory Bandwidth
  imports Complex_Main Queue_Types
begin

text \<open>
  \<^bold>\<open>connection/ThrottleManager.cpp\<close> and \<^bold>\<open>util/AutoLimitUtil.cpp\<close>: the tokens that bound the traffic of a
  second, and the numbers of slots and speeds derived from the speed of the line.  Settings are the record
  \<open>limit_settings\<close>; the hour is an argument.  Waiting for tokens is left out, as are the locks: the steps
  on the tokens are atomic in the code.  Speeds are \<open>double\<close>s in the code and rationals here; the logarithm
  of the C library is the argument \<open>lg\<close>.
\<close>

section \<open>Settings\<close>

datatype speed_setting =
    MAX_UPLOAD_SPEED_MAIN | MAX_DOWNLOAD_SPEED_MAIN | MAX_UPLOAD_SPEED_ALTERNATE | MAX_DOWNLOAD_SPEED_ALTERNATE

datatype setting_profile = PROFILE_NORMAL | PROFILE_RAR | PROFILE_LAN

record limit_settings =
  ls_speed :: "speed_setting \<Rightarrow> int"
  TIME_DEPENDENT_THROTTLE :: bool
  BANDWIDTH_LIMIT_START :: int
  BANDWIDTH_LIMIT_END :: int
  AUTO_DETECTION_USE_LIMITED :: bool
  UL_AUTODETECT :: bool
  DL_AUTODETECT :: bool
  MCN_AUTODETECT :: bool
  UPLOAD_SPEED :: rat
  DOWNLOAD_SPEED :: rat
  UPLOAD_SLOTS :: int
  DOWNLOAD_SLOTS :: int
  MAX_MCN_UPLOADS :: int
  MAX_MCN_DOWNLOADS :: int
  MAX_DOWNLOAD_SPEED :: int
  MIN_UPLOAD_SPEED :: int
  AUTO_SLOTS :: int
  SETTINGS_PROFILE :: setting_profile

definition MAX_LIMIT :: int where
  "MAX_LIMIT = 1024 * 1024"

definition in_alternate_hours :: "limit_settings \<Rightarrow> int \<Rightarrow> bool" where
  "in_alternate_hours s h \<longleftrightarrow>
     BANDWIDTH_LIMIT_START s < BANDWIDTH_LIMIT_END s \<and> BANDWIDTH_LIMIT_START s \<le> h \<and> h < BANDWIDTH_LIMIT_END s
     \<or> BANDWIDTH_LIMIT_END s < BANDWIDTH_LIMIT_START s \<and> (BANDWIDTH_LIMIT_START s \<le> h \<or> h < BANDWIDTH_LIMIT_END s)"

definition getCurSetting :: "limit_settings \<Rightarrow> int \<Rightarrow> speed_setting \<Rightarrow> speed_setting" where
  "getCurSetting s h setting =
     (let alt = TIME_DEPENDENT_THROTTLE s \<and> in_alternate_hours s h;
          upLimit = (if alt then MAX_UPLOAD_SPEED_ALTERNATE else MAX_UPLOAD_SPEED_MAIN);
          downLimit = (if alt then MAX_DOWNLOAD_SPEED_ALTERNATE else MAX_DOWNLOAD_SPEED_MAIN)
      in case setting of
           MAX_UPLOAD_SPEED_MAIN \<Rightarrow> upLimit
         | MAX_DOWNLOAD_SPEED_MAIN \<Rightarrow> downLimit
         | _ \<Rightarrow> setting)"

definition throttle_setSetting :: "speed_setting \<Rightarrow> int \<Rightarrow> limit_settings \<Rightarrow> limit_settings" where
  "throttle_setSetting setting v s =
     s\<lparr>ls_speed := (ls_speed s)(setting := if v < 0 \<or> MAX_LIMIT < v then 0 else v)\<rparr>"

definition getUpLimit :: "limit_settings \<Rightarrow> int \<Rightarrow> int" where
  "getUpLimit s h = ls_speed s (getCurSetting s h MAX_UPLOAD_SPEED_MAIN)"

definition getDownLimit :: "limit_settings \<Rightarrow> int \<Rightarrow> int" where
  "getDownLimit s h = ls_speed s (getCurSetting s h MAX_DOWNLOAD_SPEED_MAIN)"

section \<open>Tokens\<close>

type_synonym word_size = "64 word"

record throttle =
  downTokens :: word_size
  upTokens :: word_size

datatype throttle_io =
    Io_Unlimited int
  | Io_Limited int
  | Io_Wait

text \<open>
  \<open>sock n\<close> is what the socket answers when asked for \<open>n\<close> bytes: the number of bytes, 0 or a negative number.
  The result of a \<open>read\<close> is the socket's, or \<open>-1\<close> after waiting (\<open>Io_Wait\<close>); division by the number of
  connections follows the check that it is not 0.
\<close>

definition throttle_read ::
  "limit_settings \<Rightarrow> int \<Rightarrow> word_size \<Rightarrow> (word_size \<Rightarrow> int) \<Rightarrow> word_size \<Rightarrow> throttle \<Rightarrow> throttle_io \<times> throttle" where
  "throttle_read s h downs sock len t =
     (if getDownLimit s h = 0 \<or> downs = 0 then (Io_Unlimited (sock len), t)
      else if 0 < downTokens t then
        let slice = word_of_int (getDownLimit s h * 1024) div downs;
            readSize = sock (min slice (min len (downTokens t)))
        in (Io_Limited readSize, if 0 < readSize then t\<lparr>downTokens := downTokens t - word_of_int readSize\<rparr> else t)
      else (Io_Wait, t))"

text \<open>The tokens of a \<open>write\<close> are taken before the socket is asked; \<open>len\<close> becomes the number asked for.\<close>

definition throttle_write ::
  "limit_settings \<Rightarrow> int \<Rightarrow> word_size \<Rightarrow> (word_size \<Rightarrow> int) \<Rightarrow> word_size \<Rightarrow> throttle \<Rightarrow> throttle_io \<times> word_size \<times> throttle" where
  "throttle_write s h ups sock len t =
     (if getUpLimit s h = 0 \<or> ups = 0 then (Io_Unlimited (sock len), len, t)
      else if 0 < upTokens t then
        let slice = word_of_int (getUpLimit s h * 1024) div ups;
            len = min slice (min len (upTokens t))
        in (Io_Limited (sock len), len, t\<lparr>upTokens := upTokens t - len\<rparr>)
      else (Io_Wait, len, t))"

definition throttle_second :: "limit_settings \<Rightarrow> int \<Rightarrow> throttle \<Rightarrow> throttle" where
  "throttle_second s h t =
     (let downLimit = getDownLimit s h * 1024;
          upLimit = getUpLimit s h * 1024;
          t = (if 0 < downLimit then t\<lparr>downTokens := word_of_int downLimit\<rparr> else t)
      in if 0 < upLimit then t\<lparr>upTokens := word_of_int upLimit\<rparr> else t)"

section \<open>Slots and speeds\<close>

definition getConnectionSpeedMbps :: "limit_settings \<Rightarrow> int \<Rightarrow> bool \<Rightarrow> rat \<Rightarrow> rat" where
  "getConnectionSpeedMbps s h aIsDownload override =
     (if override \<noteq> 0 then override
      else if aIsDownload then
        let lim = (if AUTO_DETECTION_USE_LIMITED s then getDownLimit s h else 0)
        in if 0 < lim then of_int lim * 8 / 1024 else DOWNLOAD_SPEED s
      else
        let lim = (if AUTO_DETECTION_USE_LIMITED s then getUpLimit s h else 0)
        in if 0 < lim then of_int lim * 8 / 1024 else UPLOAD_SPEED s)"

text \<open>\<open>static_cast<int>\<close> of a \<open>double\<close>.\<close>

definition cast_int :: "rat \<Rightarrow> int" where
  "cast_int q = (if q < 0 then \<lceil>q\<rceil> else \<lfloor>q\<rfloor>)"

definition al_getSlots :: "(rat \<Rightarrow> rat) \<Rightarrow> limit_settings \<Rightarrow> int \<Rightarrow> bool \<Rightarrow> rat \<Rightarrow> setting_profile \<Rightarrow> int" where
  "al_getSlots lg s h aIsDownload override aProfile =
     (if override = 0 \<and> \<not> DL_AUTODETECT s \<and> aIsDownload then DOWNLOAD_SLOTS s
      else if override = 0 \<and> \<not> UL_AUTODETECT s \<and> \<not> aIsDownload then UPLOAD_SLOTS s
      else
        let speed = getConnectionSpeedMbps s h aIsDownload override;
            rar = (aProfile = PROFILE_RAR)
        in if speed \<le> 1 then (if rar then 1 else if aIsDownload then 6 else 2)
           else if speed \<le> 5 / 2 then (if rar then 2 else if aIsDownload then 15 else 3)
           else if speed \<le> 4 then (if rar then (if aIsDownload then 3 else 2) else if aIsDownload then 15 else 4)
           else if speed \<le> 6 then (if rar then 3 else if aIsDownload then 20 else 5)
           else if speed < 10 then (if rar then (if aIsDownload then 5 else 3) else if aIsDownload then 20 else 6)
           else if speed \<le> 50 then
             (if rar then (if speed \<le> 20 then 4 else 5) + (if aIsDownload then 3 else 0)
              else if aIsDownload then 30 else 8)
           else if speed < 100 then
             (if rar then cast_int (speed / 10) + (if aIsDownload then 4 else 0)
              else if aIsDownload then 40 else 12)
           else if rar then
             (if aIsDownload then \<lceil>(lg (speed + 750) - 661 / 100) * 100\<rceil> else \<lceil>(lg (speed + 70) - 44 / 10) * 10\<rceil>)
           else (if aIsDownload then cast_int (speed * (1 / 10) + 40) else cast_int (speed * (4 / 100) + 15)))"

definition al_getSlotsPerUser :: "(rat \<Rightarrow> rat) \<Rightarrow> limit_settings \<Rightarrow> int \<Rightarrow> bool \<Rightarrow> rat \<Rightarrow> int \<Rightarrow> setting_profile \<Rightarrow> int" where
  "al_getSlotsPerUser lg s h aIsDownload override aSlots aProfile =
     (if \<not> MCN_AUTODETECT s \<and> override = 0 then (if aIsDownload then MAX_MCN_DOWNLOADS s else MAX_MCN_UPLOADS s)
      else if aProfile = PROFILE_LAN then 1
      else
        let totalSlots = (if aSlots = 0 then al_getSlots lg s h aIsDownload 0 (SETTINGS_PROFILE s) else aSlots);
            speed = getConnectionSpeedMbps s h aIsDownload override;
            slots =
              (if speed = 10 then 2
               else if 10 < speed \<and> speed \<le> 25 then 3
               else if 25 < speed \<and> speed \<le> 50 then 4
               else if 50 < speed \<and> speed \<le> 100 then cast_int (speed / 10 - 1)
               else if 100 < speed then 15
               else 1)
        in if totalSlots < slots then totalSlots else slots)"

definition getSpeedLimitKbps :: "limit_settings \<Rightarrow> int \<Rightarrow> bool \<Rightarrow> rat \<Rightarrow> int" where
  "getSpeedLimitKbps s h aIsDownload override =
     (if override = 0 \<and> \<not> DL_AUTODETECT s \<and> aIsDownload then MAX_DOWNLOAD_SPEED s
      else if override = 0 \<and> \<not> UL_AUTODETECT s \<and> \<not> aIsDownload then MIN_UPLOAD_SPEED s
      else
        let speed = getConnectionSpeedMbps s h aIsDownload override
        in cast_int (if aIsDownload then speed * 105 else speed * 60))"

definition getMaxAutoOpened :: "limit_settings \<Rightarrow> int \<Rightarrow> rat \<Rightarrow> int" where
  "getMaxAutoOpened s h override =
     (if \<not> UL_AUTODETECT s \<and> override = 0 then AUTO_SLOTS s
      else
        let speed = getConnectionSpeedMbps s h False override
        in if speed < 1 then 1
           else if speed \<le> 5 then 2
           else if speed \<le> 20 then 3
           else if speed < 100 then 4
           else if speed = 100 then 6
           else 10)"

section \<open>A second's traffic\<close>

text \<open>Reads and writes between two ticks; a socket gives or takes at most what it is asked for.\<close>

datatype throttle_call =
    Throttled_Read "word_size \<Rightarrow> int" word_size word_size
  | Throttled_Write "word_size \<Rightarrow> int" word_size word_size

definition socket_ok :: "(word_size \<Rightarrow> int) \<Rightarrow> bool" where
  "socket_ok sock \<longleftrightarrow> (\<forall>n. sock n \<le> uint n)"

fun call_socket :: "throttle_call \<Rightarrow> word_size \<Rightarrow> int" where
  "call_socket (Throttled_Read sock n len) = sock"
| "call_socket (Throttled_Write sock n len) = sock"

definition io_bytes :: "throttle_io \<Rightarrow> int" where
  "io_bytes r = (case r of Io_Limited n \<Rightarrow> max n 0 | _ \<Rightarrow> 0)"

fun throttle_calls :: "limit_settings \<Rightarrow> int \<Rightarrow> throttle_call list \<Rightarrow> throttle \<Rightarrow> int \<times> int \<times> throttle" where
  "throttle_calls s h [] t = (0, 0, t)"
| "throttle_calls s h (Throttled_Read sock downs len # cs) t =
     (let (r, t) = throttle_read s h downs sock len t; (d, u, t) = throttle_calls s h cs t in (io_bytes r + d, u, t))"
| "throttle_calls s h (Throttled_Write sock ups len # cs) t =
     (let (r, _, t) = throttle_write s h ups sock len t; (d, u, t) = throttle_calls s h cs t in (d, io_bytes r + u, t))"

lemma throttle_read_tokens:
  assumes "socket_ok sock" and "throttle_read s h n sock len t = (r, t')"
  shows "uint (downTokens t') + io_bytes r \<le> uint (downTokens t)" and "upTokens t' = upTokens t"
proof -
  define q where "q = min (word_of_int (getDownLimit s h * 1024) div n) (min len (downTokens t))"
  have "sock q \<le> uint q" using assms(1) by (simp add: socket_ok_def)
  moreover have "q \<le> downTokens t" unfolding q_def by (metis min.cobounded2 order_trans)
  ultimately have q: "sock q \<le> uint (downTokens t)" by (simp add: word_le_def)
  have "uint (downTokens t - word_of_int (sock q)) + sock q = uint (downTokens t)" if "0 < sock q"
  proof -
    have u: "uint (word_of_int (sock q) :: word_size) = sock q"
      using that q uint_lt2p [of "downTokens t"] by (simp add: uint_word_of_int)
    then have "uint (downTokens t - word_of_int (sock q)) = uint (downTokens t) - sock q"
      using q by (subst uint_sub_lem [THEN iffD1]) simp_all
    then show ?thesis by simp
  qed
  then show "uint (downTokens t') + io_bytes r \<le> uint (downTokens t)" "upTokens t' = upTokens t"
    using assms(2) unfolding throttle_read_def Let_def q_def [symmetric] by (auto simp: io_bytes_def split: if_splits)
qed

lemma throttle_write_tokens:
  assumes "socket_ok sock" and "throttle_write s h n sock len t = (r, len', t')"
  shows "uint (upTokens t') + io_bytes r \<le> uint (upTokens t)" and "downTokens t' = downTokens t"
proof -
  define q where "q = min (word_of_int (getUpLimit s h * 1024) div n) (min len (upTokens t))"
  have k: "sock q \<le> uint q" using assms(1) by (simp add: socket_ok_def)
  have "q \<le> upTokens t" unfolding q_def by (metis min.cobounded2 order_trans)
  then have "uint (upTokens t - q) = uint (upTokens t) - uint q" by (simp add: uint_sub_lem [THEN iffD1] word_le_def)
  then show "uint (upTokens t') + io_bytes r \<le> uint (upTokens t)" "downTokens t' = downTokens t"
    using assms(2) k unfolding throttle_write_def Let_def q_def [symmetric] by (auto simp: io_bytes_def split: if_splits)
qed

lemma throttle_calls_tokens:
  "\<forall>c\<in>set cs. socket_ok (call_socket c) \<Longrightarrow> throttle_calls s h cs t = (d, u, t') \<Longrightarrow>
    uint (downTokens t') + d \<le> uint (downTokens t) \<and> uint (upTokens t') + u \<le> uint (upTokens t)"
proof (induction cs arbitrary: t d u t')
  case (Cons c cs)
  show ?case
  proof (cases c)
    case (Throttled_Read sock n len)
    obtain r t1 where r: "throttle_read s h n sock len t = (r, t1)" by fastforce
    obtain d1 u1 t2 where c: "throttle_calls s h cs t1 = (d1, u1, t2)" by (metis prod_cases3)
    have "socket_ok sock" using Cons.prems(1) Throttled_Read by simp
    note tok = throttle_read_tokens [OF this r]
    show ?thesis using Cons.IH [OF _ c] Cons.prems tok by (simp add: Throttled_Read r c)
  next
    case (Throttled_Write sock n len)
    obtain r l t1 where r: "throttle_write s h n sock len t = (r, l, t1)" by (metis prod_cases3)
    obtain d1 u1 t2 where c: "throttle_calls s h cs t1 = (d1, u1, t2)" by (metis prod_cases3)
    have "socket_ok sock" using Cons.prems(1) Throttled_Write by simp
    note tok = throttle_write_tokens [OF this r]
    show ?thesis using Cons.IH [OF _ c] Cons.prems tok by (simp add: Throttled_Write r c)
  qed
qed simp

lemma limit_uint:
  assumes "0 < v" and "v \<le> MAX_LIMIT"
  shows "uint (word_of_int (v * 1024) :: word_size) = v * 1024"
proof -
  have "v * 1024 < 2 ^ 64" "0 \<le> v * 1024" using assms by (simp_all add: MAX_LIMIT_def)
  then show ?thesis unfolding uint_word_of_int by (intro mod_pos_pos_trivial) simp_all
qed

text \<open>
  whatever the reads and writes of a second, in any order and from any number of connections, they move no
  more bytes than the limits of downloads and uploads allow, when both are set.
\<close>

lemma throttle_bounds:
  assumes "0 < getDownLimit s h" and "getDownLimit s h \<le> MAX_LIMIT"
    and "0 < getUpLimit s h" and "getUpLimit s h \<le> MAX_LIMIT"
    and "\<forall>c\<in>set cs. socket_ok (call_socket c)"
  shows "fst (throttle_calls s h cs (throttle_second s h t)) \<le> getDownLimit s h * 1024
    \<and> fst (snd (throttle_calls s h cs (throttle_second s h t))) \<le> getUpLimit s h * 1024"
proof -
  obtain d u t' where c: "throttle_calls s h cs (throttle_second s h t) = (d, u, t')" by (metis prod_cases3)
  have "uint (downTokens (throttle_second s h t)) = getDownLimit s h * 1024"
    "uint (upTokens (throttle_second s h t)) = getUpLimit s h * 1024"
    using assms(1-4) limit_uint by (simp_all add: throttle_second_def)
  moreover have "0 \<le> uint (downTokens t')" "0 \<le> uint (upTokens t')" by simp_all
  ultimately show ?thesis using throttle_calls_tokens [OF assms(5) c] unfolding c fst_conv snd_conv by linarith
qed

definition test_limits :: limit_settings where
  "test_limits =
     \<lparr>ls_speed = (\<lambda>_. 1), TIME_DEPENDENT_THROTTLE = False, BANDWIDTH_LIMIT_START = 1, BANDWIDTH_LIMIT_END = 1,
      AUTO_DETECTION_USE_LIMITED = False, UL_AUTODETECT = False, DL_AUTODETECT = False, MCN_AUTODETECT = False,
      UPLOAD_SPEED = 10, DOWNLOAD_SPEED = 10, UPLOAD_SLOTS = 2, DOWNLOAD_SLOTS = 50, MAX_MCN_UPLOADS = 1,
      MAX_MCN_DOWNLOADS = 1, MAX_DOWNLOAD_SPEED = 0, MIN_UPLOAD_SPEED = 0, AUTO_SLOTS = 5, SETTINGS_PROFILE = PROFILE_NORMAL\<rparr>"

lemma throttle_bounds_witness:
  "fst (throttle_calls test_limits 0 [Throttled_Read uint 2 4000, Throttled_Write uint 1 4000, Throttled_Read uint 1 4000]
     (throttle_second test_limits 0 \<lparr>downTokens = 0, upTokens = 0\<rparr>)) \<le> 1024"
  using throttle_bounds [of test_limits 0 "[Throttled_Read uint 2 4000, Throttled_Write uint 1 4000, Throttled_Read uint 1 4000]"
      "\<lparr>downTokens = 0, upTokens = 0\<rparr>"]
  by (simp add: test_limits_def getDownLimit_def getUpLimit_def MAX_LIMIT_def socket_ok_def)

end
