(* ===== verification/Upload_Manager.thy ===== *)
theory Upload_Manager
  imports Upload_File Upload_Queue Bandwidth
begin

text \<open>
  \<^bold>\<open>transfer/upload/UploadManager.cpp\<close>: connections that ask for files, the slots they get, running and delayed
  uploads, and the counters of slots.  Counters keep their width (8 and 16 bits).  Connections are numbers in a
  store; an upload belongs to its connection by number.  The hash map of multi-connection uploads is a list of
  pairs whose order stands for that of the map.  Sending, logging, listeners and the statistics of a transfer
  are left out; what a call sends to the other side is its result.
\<close>

section \<open>State\<close>

datatype slot_type = NOSLOT | FILESLOT | USERSLOT

record transfer_slot =
  ts_type :: slot_type
  ts_source :: string

definition slot_rank :: "slot_type \<Rightarrow> nat" where
  "slot_rank t = (case t of NOSLOT \<Rightarrow> 0 | FILESLOT \<Rightarrow> 1 | USERSLOT \<Rightarrow> 2)"

definition slot_toType :: "transfer_slot option \<Rightarrow> slot_type" where
  "slot_toType s = (case s of None \<Rightarrow> NOSLOT | Some s \<Rightarrow> ts_type s)"

definition SLOT_SOURCE_STANDARD :: string where "SLOT_SOURCE_STANDARD = ''standard''"
definition SLOT_SOURCE_MCN :: string where "SLOT_SOURCE_MCN = ''mcn_small''"
definition SLOT_SOURCE_MINISLOT :: string where "SLOT_SOURCE_MINISLOT = ''minislot''"

lemmas slot_sources = SLOT_SOURCE_STANDARD_def SLOT_SOURCE_MCN_def SLOT_SOURCE_MINISLOT_def

datatype conn_state = STATE_OTHER | STATE_GET | STATE_SEND | STATE_RUNNING

record uconn =
  uc_user :: hinted_user
  uc_connectToken :: string
  uc_slot :: "transfer_slot option"
  uc_mcn :: bool
  uc_miniSlots :: bool
  uc_state :: conn_state
  uc_upload :: "nat option"

record upload_manager =
  um_conns :: "nat \<Rightarrow> uconn"
  um_uploads :: "upload list"
  um_delayUploads :: "upload list"
  um_runningUsers :: "8 word"
  um_mcnConnections :: "8 word"
  um_smallFileConnections :: "8 word"
  um_extra :: "8 word"
  um_lastGrant :: tick
  um_multiUploads :: "(user \<times> 16 word) list"
  um_queue :: upload_queue
  um_nextToken :: nat

text \<open>
  Settings, the clock, the running average of upload speeds, the lookups of \<open>ClientManager\<close> (\<open>ue_profile\<close>: the
  address of the hub, unless the user is unknown) and the data of the hooks for slots.
\<close>

record upload_env =
  ue_share :: share_env
  ue_limits :: limit_settings
  ue_hour :: int
  ue_lg :: "rat \<Rightarrow> rat"
  ue_tick :: tick
  ue_average :: int
  EXTRA_SLOTS :: int
  ue_profile :: "hinted_user \<Rightarrow> string \<Rightarrow> string option"
  ue_hooks :: "uconn \<Rightarrow> parsed_upload \<Rightarrow> transfer_slot option list"
  ue_isOp :: "hinted_user \<Rightarrow> bool"

definition uc_slotType :: "uconn \<Rightarrow> slot_type" where
  "uc_slotType c = slot_toType (uc_slot c)"

definition hasSlotSource :: "uconn \<Rightarrow> string \<Rightarrow> bool" where
  "hasSlotSource c src \<longleftrightarrow> (case uc_slot c of None \<Rightarrow> False | Some s \<Rightarrow> ts_source s = src)"

definition hasSlot :: "uconn \<Rightarrow> slot_type \<Rightarrow> string \<Rightarrow> bool" where
  "hasSlot c t src \<longleftrightarrow> (case uc_slot c of None \<Rightarrow> False | Some s \<Rightarrow> ts_type s = t \<and> ts_source s = src)"

section \<open>Slots\<close>

definition um_getSlots :: "upload_env \<Rightarrow> 8 word" where
  "um_getSlots e = word_of_int (al_getSlots (ue_lg e) (ue_limits e) (ue_hour e) False 0 (SETTINGS_PROFILE (ue_limits e)))"

definition getFreeSlots :: "upload_env \<Rightarrow> upload_manager \<Rightarrow> 8 word" where
  "getFreeSlots e um = word_of_int (max (uint (um_getSlots e) - uint (um_runningUsers um)) 0)"

definition getFreeExtraSlots :: "upload_env \<Rightarrow> upload_manager \<Rightarrow> int" where
  "getFreeExtraSlots e um = max (EXTRA_SLOTS e - uint (um_extra um)) 0"

definition lowSpeedSlotsRemaining :: "upload_env \<Rightarrow> upload_manager \<Rightarrow> bool" where
  "lowSpeedSlotsRemaining e um =
     (let speedLimit = convertSize_KB (getSpeedLimitKbps (ue_limits e) (ue_hour e) False 0)
      in if speedLimit = 0 then False
         else if uint (um_getSlots e) + getMaxAutoOpened (ue_limits e) (ue_hour e) 0 \<le> uint (um_runningUsers um) then False
         else if ue_tick e < um_lastGrant um + 30 * 1000 then False
         else ue_average e < speedLimit)"

definition standardSlotsRemaining :: "upload_env \<Rightarrow> user \<Rightarrow> upload_manager \<Rightarrow> bool" where
  "standardSlotsRemaining e u um \<longleftrightarrow> 0 < getFreeSlots e um \<and> allowUser u (um_queue um) \<or> lowSpeedSlotsRemaining e um"

definition isUploadingMCN :: "user \<Rightarrow> upload_manager \<Rightarrow> bool" where
  "isUploadingMCN u um \<longleftrightarrow> u \<in> fst ` set (um_multiUploads um)"

definition getFreeMultiConn :: "upload_env \<Rightarrow> upload_manager \<Rightarrow> int" where
  "getFreeMultiConn e um =
     uint (um_getSlots e) - uint (um_runningUsers um) - uint (um_mcnConnections um) + int (length (um_multiUploads um))"

definition allowNewMultiConn :: "upload_env \<Rightarrow> user \<Rightarrow> upload_manager \<Rightarrow> bool" where
  "allowNewMultiConn e u um =
     (let noQueue = allowUser u (um_queue um);
          highest = fold (\<lambda>(v, n) h. if v = u then h else if h < n then n else h) (um_multiUploads um) 0
      in case map_of (um_multiUploads um) u of
           Some n \<Rightarrow>
             let new = uint n + 1;
                 free = 0 < getFreeMultiConn e um \<and> noQueue;
                 total = al_getSlotsPerUser (ue_lg e) (ue_limits e) (ue_hour e) False 0 0 (SETTINGS_PROFILE (ue_limits e))
             in if uint highest < new \<and> \<not> free then False
                else if 0 < total \<and> total < new then False
                else True
         | None \<Rightarrow> 0 < getFreeSlots e um \<and> noQueue)"

text \<open>The data of the hooks: the first of those with the best type.\<close>

fun max_slot :: "transfer_slot option \<Rightarrow> transfer_slot option list \<Rightarrow> transfer_slot option" where
  "max_slot m [] = m"
| "max_slot m (s # ss) = max_slot (if slot_rank (slot_toType m) < slot_rank (slot_toType s) then s else m) ss"

definition parseAutoGrant :: "upload_env \<Rightarrow> uconn \<Rightarrow> parsed_upload \<Rightarrow> transfer_slot option" where
  "parseAutoGrant e c p = (case ue_hooks e c p of [] \<Rightarrow> None | s # ss \<Rightarrow> max_slot s ss)"

definition parseSlot :: "upload_env \<Rightarrow> uconn \<Rightarrow> parsed_upload \<Rightarrow> upload_manager \<Rightarrow> transfer_slot option" where
  "parseSlot e c p um =
     (let u = hu_user (uc_user c); newSlot = parseAutoGrant e c p in
      if uc_slotType c = USERSLOT then uc_slot c
      else if \<not> parser_usesSmallSlot p \<and> isUploadingMCN u um \<and> \<not> allowNewMultiConn e u um then None
      else if uc_mcn c \<and> parser_usesSmallSlot p
              \<and> (hasSlot c FILESLOT SLOT_SOURCE_MCN \<or> um_smallFileConnections um \<le> 8)
           then Some \<lparr>ts_type = FILESLOT, ts_source = SLOT_SOURCE_MCN\<rparr>
      else if slot_toType newSlot = USERSLOT then newSlot
      else if standardSlotsRemaining e u um then Some \<lparr>ts_type = USERSLOT, ts_source = SLOT_SOURCE_STANDARD\<rparr>
      else if newSlot = None \<and> pu_miniSlot p \<and> uc_miniSlots c
              \<and> (hasSlot c FILESLOT SLOT_SOURCE_MINISLOT \<or> ue_isOp e (uc_user c) \<or> 0 < getFreeExtraSlots e um)
           then Some \<lparr>ts_type = FILESLOT, ts_source = SLOT_SOURCE_MINISLOT\<rparr>
      else newSlot)"

definition set_conn :: "nat \<Rightarrow> (uconn \<Rightarrow> uconn) \<Rightarrow> upload_manager \<Rightarrow> upload_manager" where
  "set_conn c f um = um\<lparr>um_conns := (um_conns um)(c := f (um_conns um c))\<rparr>"

definition changeMultiConnSlot :: "user \<Rightarrow> bool \<Rightarrow> upload_manager \<Rightarrow> upload_manager" where
  "changeMultiConnSlot u aRemove um =
     (case map_of (um_multiUploads um) u of
        Some n \<Rightarrow>
          if aRemove then
            let um = um\<lparr>um_mcnConnections := um_mcnConnections um - 1\<rparr>
            in if n - 1 = 0
               then um\<lparr>um_multiUploads := filter (\<lambda>(v, _). v \<noteq> u) (um_multiUploads um),
                       um_runningUsers := um_runningUsers um - 1\<rparr>
               else um\<lparr>um_multiUploads := map (\<lambda>(v, m). (v, if v = u then m - 1 else m)) (um_multiUploads um)\<rparr>
          else um\<lparr>um_multiUploads := map (\<lambda>(v, m). (v, if v = u then m + 1 else m)) (um_multiUploads um),
                  um_mcnConnections := um_mcnConnections um + 1\<rparr>
      | None \<Rightarrow>
          if aRemove then um
          else um\<lparr>um_multiUploads := um_multiUploads um @ [(u, 1)], um_runningUsers := um_runningUsers um + 1,
                  um_mcnConnections := um_mcnConnections um + 1\<rparr>)"

definition removeSlot :: "nat \<Rightarrow> upload_manager \<Rightarrow> upload_manager" where
  "removeSlot c um =
     (let co = um_conns um c in
      case uc_slotType co of
        USERSLOT \<Rightarrow>
          if uc_mcn co then changeMultiConnSlot (hu_user (uc_user co)) True um
          else um\<lparr>um_runningUsers := um_runningUsers um - 1\<rparr>
      | FILESLOT \<Rightarrow>
          if hasSlotSource co SLOT_SOURCE_MINISLOT then um\<lparr>um_extra := um_extra um - 1\<rparr>
          else if hasSlotSource co SLOT_SOURCE_MCN then um\<lparr>um_smallFileConnections := um_smallFileConnections um - 1\<rparr>
          else um
      | NOSLOT \<Rightarrow> um)"

text \<open>The connection that is disconnected when there are more connections than slots.\<close>

definition disconnectExtraMultiConn :: "upload_env \<Rightarrow> upload_manager \<Rightarrow> nat option" where
  "disconnectExtraMultiConn e um =
     (if lowSpeedSlotsRemaining e um then None
      else if 0 \<le> getFreeMultiConn e um \<or> um_multiUploads um = [] then None
      else
        let (u, n) = fold (\<lambda>(v, n) (w, m). if m < n then (v, n) else (w, m)) (tl (um_multiUploads um)) (hd (um_multiUploads um))
        in if n \<le> 1 then None
           else map_option up_conn
             (find (\<lambda>up. hu_user (uc_user (um_conns um (up_conn up))) = u \<and> uc_slotType (um_conns um (up_conn up)) = USERSLOT)
               (um_uploads um)))"

definition grant_slot :: "nat \<Rightarrow> transfer_slot \<Rightarrow> upload_manager \<Rightarrow> upload_manager" where
  "grant_slot c s um =
     (let um = set_conn c (\<lambda>co. co\<lparr>uc_slot := Some s\<rparr>) (removeSlot c um);
          co = um_conns um c
      in case ts_type s of
           USERSLOT \<Rightarrow>
             if uc_mcn co then changeMultiConnSlot (hu_user (uc_user co)) False um
             else um\<lparr>um_runningUsers := um_runningUsers um + 1\<rparr>
         | FILESLOT \<Rightarrow>
             if hasSlotSource co SLOT_SOURCE_MINISLOT then um\<lparr>um_extra := um_extra um + 1\<rparr>
             else if hasSlotSource co SLOT_SOURCE_MCN then um\<lparr>um_smallFileConnections := um_smallFileConnections um + 1\<rparr>
             else um
         | NOSLOT \<Rightarrow> um)"

text \<open>Also the connection to disconnect.\<close>

definition updateSlotCounts :: "upload_env \<Rightarrow> nat \<Rightarrow> transfer_slot \<Rightarrow> upload_manager \<Rightarrow> nat option \<times> upload_manager" where
  "updateSlotCounts e c s um =
     (if uc_slotType (um_conns um c) = ts_type s then (None, um)
      else
        let um = grant_slot c s um
        in (if ts_type s = USERSLOT then disconnectExtraMultiConn e um else None, um\<lparr>um_lastGrant := ue_tick e\<rparr>))"

section \<open>Uploads\<close>

text \<open>The destructor of an upload takes it from its connection.\<close>

definition delete_upload :: "upload \<Rightarrow> upload_manager \<Rightarrow> upload_manager" where
  "delete_upload u um = set_conn (up_conn u) (\<lambda>c. c\<lparr>uc_upload := None\<rparr>) um"

definition findUpload :: "nat \<Rightarrow> upload list \<Rightarrow> upload option" where
  "findUpload tok us = find (\<lambda>u. up_token u = tok) us"

definition findUploadUnsafe :: "nat \<Rightarrow> upload_manager \<Rightarrow> upload option" where
  "findUploadUnsafe tok um =
     (case findUpload tok (um_uploads um) of Some u \<Rightarrow> Some u | None \<Rightarrow> findUpload tok (um_delayUploads um))"

definition removeUpload :: "nat \<Rightarrow> bool \<Rightarrow> upload_manager \<Rightarrow> upload_manager" where
  "removeUpload tok aDelay um =
     (case findUpload tok (um_delayUploads um) of
        Some u \<Rightarrow>
          delete_upload u (um\<lparr>um_delayUploads := erase_first (\<lambda>v. up_token v = tok) (um_delayUploads um)\<rparr>)
      | None \<Rightarrow>
          (case findUpload tok (um_uploads um) of
             None \<Rightarrow> um
           | Some u \<Rightarrow>
               let um = um\<lparr>um_uploads := filter (\<lambda>v. up_token v \<noteq> tok) (um_uploads um)\<rparr>
               in if aDelay then um\<lparr>um_delayUploads := um_delayUploads um @ [u]\<rparr> else delete_upload u um))"

text \<open>The stream of a delayed upload of the connection, when it is resumed; the delayed upload goes.\<close>

definition resumeStream :: "nat \<Rightarrow> parsed_upload \<Rightarrow> upload_manager \<Rightarrow> istream option \<times> upload_manager" where
  "resumeStream c p um =
     (case find (\<lambda>u. up_conn u = c) (um_delayUploads um) of
        None \<Rightarrow> (None, um)
      | Some u \<Rightarrow>
          (if pu_sourceFile p = up_path u \<and> up_type u = TYPE_FILE \<and> pu_type p = TYPE_FILE
              \<and> sg_end (up_segment u) \<noteq> pu_fileSize p
           then Some (is_releaseRootStream (up_stream u)) else None,
           delete_upload u (um\<lparr>um_delayUploads := erase_first (\<lambda>u. up_conn u = c) (um_delayUploads um)\<rparr>)))"

text \<open>
  The result of a request: an upload, the replies of a refusal, or an exception that nothing catches.  The
  connection that is disconnected for the new one is the number with \<open>Prepared\<close>.
\<close>

datatype upload_reply = Send_Error string | Maxed_Out nat | Disconnect

datatype prepare_result =
    Prepared "nat option"
  | Refused "upload_reply list"
  | Uncaught string

text \<open>\<open>None\<close>: the end of the request overflows.\<close>

definition prepareFile :: "upload_env \<Rightarrow> nat \<Rightarrow> upload_request \<Rightarrow> upload_manager \<Rightarrow> (prepare_result \<times> upload_manager) option" where
  "prepareFile e c r um =
     (if \<not> request_validate r then Some (Refused [Send_Error ''Invalid request''], um)
      else
        case ue_profile e (uc_user (um_conns um c)) (ur_userSID r) of
          None \<Rightarrow> Some (Refused [Send_Error ''Unknown user''], um)
        | Some hub \<Rightarrow>
            let um = set_conn c (\<lambda>co. co\<lparr>uc_user := (uc_user co)\<lparr>hu_hint := hub\<rparr>\<rparr>) um;
                co = um_conns um c; u = hu_user (uc_user co)
            in case parseFileInfo (ue_share e) r of
                 Inl (Parser_Error err noAccess) \<Rightarrow> Some (Refused [Send_Error err], um)
               | Inl (Share_Error err) \<Rightarrow> Some (Uncaught err, um)
               | Inr p \<Rightarrow>
                   (case parseSlot e co p um of
                      None \<Rightarrow>
                        if isUploadingMCN u um then Some (Refused [Maxed_Out 0, Disconnect], um)
                        else
                          let (pos, q) = addFailedUpload (uc_user co) (uc_connectToken co) (pu_sourceFile p)
                                (sg_start (ur_segment r)) (pu_fileSize p) (um_queue um)
                          in Some (Refused [Maxed_Out pos, Disconnect], um\<lparr>um_queue := q\<rparr>)
                    | Some slot \<Rightarrow>
                        let (is, um) = resumeStream c p um
                        in case toUpload (ue_share e) (um_nextToken um) c p r is of
                             None \<Rightarrow> None
                           | Some (Inl err) \<Rightarrow> Some (Refused [Send_Error err], um)
                           | Some (Inr None) \<Rightarrow> Some (Refused [Send_Error ''File Not Available''], um)
                           | Some (Inr (Some up)) \<Rightarrow>
                               let um = set_conn c (\<lambda>co. co\<lparr>uc_upload := Some (up_token up)\<rparr>)
                                     (um\<lparr>um_nextToken := um_nextToken um + 1, um_uploads := um_uploads um @ [up]\<rparr>);
                                   (d, um) = updateSlotCounts e c slot um
                               in Some (Prepared d, um\<lparr>um_queue := uq_removeQueue u (um_queue um)\<rparr>)))"

section \<open>Events\<close>

text \<open>Requests of the two protocols; other states ignore them (\<open>Inl ()\<close>).\<close>

definition set_state :: "nat \<Rightarrow> conn_state \<Rightarrow> upload_manager \<Rightarrow> upload_manager" where
  "set_state c s um = set_conn c (\<lambda>co. co\<lparr>uc_state := s\<rparr>) um"

definition startTransfer :: "nat \<Rightarrow> upload_manager \<Rightarrow> upload_manager" where
  "startTransfer c um = set_state c STATE_RUNNING um"

definition on_Get :: "upload_env \<Rightarrow> nat \<Rightarrow> string \<Rightarrow> int \<Rightarrow> upload_manager \<Rightarrow> (unit + prepare_result \<times> upload_manager) option" where
  "on_Get e c aFile aResume um =
     (if uc_state (um_conns um c) \<noteq> STATE_GET then Some (Inl ())
      else
        map_option
          (\<lambda>(r, um). Inr (r, case r of Prepared _ \<Rightarrow> set_state c STATE_SEND um | _ \<Rightarrow> um))
          (prepareFile e c \<lparr>ur_type = transfer_names TYPE_FILE, ur_file = aFile, ur_segment = seg aResume (- 1),
             ur_userSID = [], ur_listRecursive = False\<rparr> um))"

definition on_Send :: "nat \<Rightarrow> upload_manager \<Rightarrow> upload_manager" where
  "on_Send c um = (if uc_state (um_conns um c) \<noteq> STATE_SEND then um else startTransfer c um)"

text \<open>\<open>zl\<close> and \<open>tthList\<close>: the flags \<open>ZL\<close> and \<open>TL\<close> of the command.\<close>

definition set_filtered :: "nat \<Rightarrow> upload list \<Rightarrow> upload list" where
  "set_filtered c us = map (\<lambda>u. if up_conn u = c then u\<lparr>up_flags := setFlag (up_flags u) FLAG_ZUPLOAD\<rparr> else u) us"

definition on_GET :: "upload_env \<Rightarrow> nat \<Rightarrow> upload_request \<Rightarrow> bool \<Rightarrow> bool \<Rightarrow> upload_manager \<Rightarrow>
    (unit + prepare_result \<times> upload_manager) option" where
  "on_GET e c r zl tthList um =
     (if uc_state (um_conns um c) \<noteq> STATE_GET then Some (Inl ())
      else
        map_option
          (\<lambda>(res, um). Inr (res,
             case res of
               Prepared _ \<Rightarrow> startTransfer c (if zl then um\<lparr>um_uploads := set_filtered c (um_uploads um)\<rparr> else um)
             | _ \<Rightarrow> um))
          (prepareFile e c (if tthList then r\<lparr>ur_type := transfer_names TYPE_TTH_LIST\<rparr> else r) um))"

definition on_TransmitDone :: "nat \<Rightarrow> upload_manager \<Rightarrow> upload_manager" where
  "on_TransmitDone c um =
     (case uc_upload (um_conns um c) of
        None \<Rightarrow> um
      | Some tok \<Rightarrow>
          let um = set_state c STATE_GET um;
              partialSegmentFinished =
                (case findUploadUnsafe tok um of
                   None \<Rightarrow> False
                 | Some u \<Rightarrow> isSet (up_flags u) FLAG_CHUNKED_UPLOAD \<and> sg_end (up_segment u) \<noteq> up_fileSize u)
          in removeUpload tok partialSegmentFinished um)"

definition um_removeConnection :: "nat \<Rightarrow> upload_manager \<Rightarrow> upload_manager" where
  "um_removeConnection c um = set_conn c (\<lambda>co. co\<lparr>uc_slot := None\<rparr>) (removeSlot c um)"

definition on_Failed :: "nat \<Rightarrow> upload_manager \<Rightarrow> upload_manager" where
  "on_Failed c um =
     um_removeConnection c
       (case uc_upload (um_conns um c) of None \<Rightarrow> um | Some tok \<Rightarrow> removeUpload tok False um)"

definition addConnection :: "nat \<Rightarrow> upload_manager \<Rightarrow> upload_manager" where
  "addConnection c um = set_state c STATE_GET um"

text \<open>A second: the delayed uploads that expire are handed to their connections, which remove them later.\<close>

definition checkDelaySecond :: "upload \<Rightarrow> upload \<times> bool" where
  "checkDelaySecond u =
     (if up_delayTime u = - 1 then (u, False)
      else let u = u\<lparr>up_delayTime := up_delayTime u + 1\<rparr> in (u, 10 < up_delayTime u))"

definition checkExpiredDelayUploads :: "upload_manager \<Rightarrow> nat list \<times> upload_manager" where
  "checkExpiredDelayUploads um =
     (let us = map checkDelaySecond (um_delayUploads um)
      in (map (\<lambda>(u, _). up_token u) (filter snd us),
          um\<lparr>um_delayUploads := map (\<lambda>(u, expired). if expired then u\<lparr>up_delayTime := - 1\<rparr> else u) us\<rparr>))"

definition expire_upload :: "nat \<Rightarrow> upload_manager \<Rightarrow> upload_manager" where
  "expire_upload tok um =
     (case findUploadUnsafe tok um of
        None \<Rightarrow> um
      | Some u \<Rightarrow> delete_upload u (um\<lparr>um_delayUploads := filter (\<lambda>v. up_token v \<noteq> tok) (um_delayUploads um)\<rparr>))"

definition abortUpload :: "string \<Rightarrow> upload_manager \<Rightarrow> nat list" where
  "abortUpload aFile um =
     map up_conn (filter (\<lambda>u. up_path u = aFile) (um_delayUploads um) @ filter (\<lambda>u. up_path u = aFile) (um_uploads um))"

definition um_notifyQueued :: "users \<Rightarrow> upload_env \<Rightarrow> upload_manager \<Rightarrow> waiting_user list \<times> upload_manager" where
  "um_notifyQueued us e um =
     (let (ws, q) = notifyQueuedUsers us (ue_tick e) (getFreeSlots e um) (um_queue um) in (ws, um\<lparr>um_queue := q\<rparr>))"

text \<open>The connections of users that are offline for a second minute.\<close>

definition disconnectOfflineUsers :: "users \<Rightarrow> bool \<Rightarrow> (user \<Rightarrow> bool) \<Rightarrow> bool \<Rightarrow> upload_manager \<Rightarrow> nat list \<times> upload_manager" where
  "disconnectOfflineUsers us autoKick isFavorite noFavs um =
     (if \<not> autoKick then ([], um)
      else
        let user = (\<lambda>u. hu_user (uc_user (um_conns um (up_conn u))));
            kick = (\<lambda>u. \<not> us_online us (user u) \<and> isSet (up_flags u) FLAG_PENDING_KICK)
        in (map up_conn (filter kick (um_uploads um)),
            um\<lparr>um_uploads := map (\<lambda>u.
                  if us_online us (user u) then u\<lparr>up_flags := unsetFlag (up_flags u) FLAG_PENDING_KICK\<rparr>
                  else if kick u then u
                  else if noFavs \<and> isFavorite (user u) then u
                  else u\<lparr>up_flags := setFlag (up_flags u) FLAG_PENDING_KICK\<rparr>) (um_uploads um)\<rparr>))"

end
