(* ===== verification/Upload_Slots.thy ===== *)
theory Upload_Slots
  imports Upload_Manager
begin

text \<open>
  The invariant of \<open>UploadManager\<close>: the counters of slots are the numbers of connections that hold them, every
  connection has at most one upload, and its state tells where the upload is.
\<close>

section \<open>Counting connections\<close>

definition conn_count :: "(uconn \<Rightarrow> bool) \<Rightarrow> nat set \<Rightarrow> upload_manager \<Rightarrow> nat" where
  "conn_count P C um = card {c\<in>C. P (um_conns um c)}"

definition holds_user :: "bool \<Rightarrow> uconn \<Rightarrow> bool" where
  "holds_user mcn c \<longleftrightarrow> uc_slotType c = USERSLOT \<and> uc_mcn c = mcn"

definition holds_mcn :: "user \<Rightarrow> uconn \<Rightarrow> bool" where
  "holds_mcn u c \<longleftrightarrow> holds_user True c \<and> hu_user (uc_user c) = u"

definition holds_file :: "string \<Rightarrow> uconn \<Rightarrow> bool" where
  "holds_file src c \<longleftrightarrow> uc_slotType c = FILESLOT \<and> hasSlotSource c src"

definition multi_ok :: "nat set \<Rightarrow> upload_manager \<Rightarrow> bool" where
  "multi_ok C um \<longleftrightarrow>
     distinct (map fst (um_multiUploads um))
     \<and> (\<forall>u. map_of (um_multiUploads um) u =
            (if conn_count (holds_mcn u) C um = 0 then None else Some (of_nat (conn_count (holds_mcn u) C um))))"

definition slots_inv :: "nat set \<Rightarrow> upload_manager \<Rightarrow> bool" where
  "slots_inv C um \<longleftrightarrow>
     finite C \<and> card C < 2 ^ 16
     \<and> um_runningUsers um = of_nat (conn_count (holds_user False) C um + length (um_multiUploads um))
     \<and> um_mcnConnections um = of_nat (conn_count (holds_user True) C um)
     \<and> um_extra um = of_nat (conn_count (holds_file SLOT_SOURCE_MINISLOT) C um)
     \<and> um_smallFileConnections um = of_nat (conn_count (holds_file SLOT_SOURCE_MCN) C um)
     \<and> multi_ok C um"

lemma conn_count_split:
  assumes "finite C" and "c \<in> C"
  shows "conn_count P C um = conn_count P (C - {c}) um + (if P (um_conns um c) then 1 else 0)"
proof -
  have "{x\<in>C. P (um_conns um x)} = {x\<in>C - {c}. P (um_conns um x)} \<union> (if P (um_conns um c) then {c} else {})"
    using assms(2) by auto
  then have "card {x\<in>C. P (um_conns um x)} = card {x\<in>C - {c}. P (um_conns um x)} + card (if P (um_conns um c) then {c} else {})"
    using assms(1) by (simp add: card_Un_disjoint)
  then show ?thesis by (simp add: conn_count_def)
qed

lemma conn_count_other:
  "(\<And>x. x \<in> C \<Longrightarrow> um_conns um' x = um_conns um x) \<Longrightarrow> conn_count P C um' = conn_count P C um"
  unfolding conn_count_def by (rule arg_cong [of _ _ card]) auto

lemma conn_count_le: "finite C \<Longrightarrow> conn_count P C um \<le> card C"
  by (simp add: conn_count_def card_mono)

text \<open>The invariant looks at slots, protocols and users only.\<close>

definition slot_view :: "uconn \<Rightarrow> transfer_slot option \<times> bool \<times> user" where
  "slot_view c = (uc_slot c, uc_mcn c, hu_user (uc_user c))"

lemma slots_inv_cong:
  assumes inv: "slots_inv C um" and v: "\<And>c. c \<in> C \<Longrightarrow> slot_view (um_conns um' c) = slot_view (um_conns um c)"
    and same: "um_runningUsers um' = um_runningUsers um" "um_mcnConnections um' = um_mcnConnections um"
      "um_smallFileConnections um' = um_smallFileConnections um" "um_extra um' = um_extra um"
      "um_multiUploads um' = um_multiUploads um"
  shows "slots_inv C um'"
proof -
  have hv: "holds_user m c' = holds_user m c \<and> holds_mcn u c' = holds_mcn u c \<and> holds_file s c' = holds_file s c"
    if "slot_view c' = slot_view c" for c c' m u s
    using that by (auto simp: slot_view_def holds_user_def holds_mcn_def holds_file_def uc_slotType_def hasSlotSource_def)
  have "conn_count (holds_user m) C um' = conn_count (holds_user m) C um"
    "conn_count (holds_mcn u) C um' = conn_count (holds_mcn u) C um"
    "conn_count (holds_file s) C um' = conn_count (holds_file s) C um" for m u s
    using hv [OF v] unfolding conn_count_def by (auto intro!: arg_cong [of _ _ card])
  then show ?thesis using inv by (simp add: slots_inv_def multi_ok_def same)
qed

section \<open>Slots given and taken\<close>

text \<open>What one connection adds to the counts, relative to the others.\<close>

lemma counts_of_conn:
  assumes "slots_inv C um" and "c \<in> C"
  shows "um_runningUsers um = of_nat (conn_count (holds_user False) (C - {c}) um
      + (if holds_user False (um_conns um c) then 1 else 0) + length (um_multiUploads um))"
    and "um_mcnConnections um = of_nat (conn_count (holds_user True) (C - {c}) um + (if holds_user True (um_conns um c) then 1 else 0))"
    and "um_extra um = of_nat (conn_count (holds_file SLOT_SOURCE_MINISLOT) (C - {c}) um
      + (if holds_file SLOT_SOURCE_MINISLOT (um_conns um c) then 1 else 0))"
    and "um_smallFileConnections um = of_nat (conn_count (holds_file SLOT_SOURCE_MCN) (C - {c}) um
      + (if holds_file SLOT_SOURCE_MCN (um_conns um c) then 1 else 0))"
  using assms by (simp_all add: slots_inv_def conn_count_split [of C c])

definition slots_but :: "nat \<Rightarrow> nat set \<Rightarrow> upload_manager \<Rightarrow> bool" where
  "slots_but c C um \<longleftrightarrow> slots_inv C (set_conn c (\<lambda>co. co\<lparr>uc_slot := None\<rparr>) um)"

lemma set_conn_simps [simp]:
  "um_conns (set_conn c f um) x = (if x = c then f (um_conns um c) else um_conns um x)"
  "um_runningUsers (set_conn c f um) = um_runningUsers um" "um_mcnConnections (set_conn c f um) = um_mcnConnections um"
  "um_smallFileConnections (set_conn c f um) = um_smallFileConnections um" "um_extra (set_conn c f um) = um_extra um"
  "um_multiUploads (set_conn c f um) = um_multiUploads um" "um_queue (set_conn c f um) = um_queue um"
  "um_uploads (set_conn c f um) = um_uploads um" "um_delayUploads (set_conn c f um) = um_delayUploads um"
  "um_nextToken (set_conn c f um) = um_nextToken um" "um_lastGrant (set_conn c f um) = um_lastGrant um"
  by (simp_all add: set_conn_def)

lemma no_slot [simp]:
  "\<not> holds_user m (co\<lparr>uc_slot := None\<rparr>)" "\<not> holds_mcn u (co\<lparr>uc_slot := None\<rparr>)" "\<not> holds_file s (co\<lparr>uc_slot := None\<rparr>)"
  by (simp_all add: holds_user_def holds_mcn_def holds_file_def uc_slotType_def slot_toType_def)

lemma count_others [simp]: "conn_count P (C - {c}) (set_conn c f um) = conn_count P (C - {c}) um"
  by (rule conn_count_other) auto

lemma slot_cases:
  "uc_slotType co = USERSLOT \<Longrightarrow> holds_user m co \<longleftrightarrow> uc_mcn co = m"
  "uc_slotType co = USERSLOT \<Longrightarrow> \<not> holds_file s co"
  "uc_slotType co = FILESLOT \<Longrightarrow> \<not> holds_user m co"
  "uc_slotType co = FILESLOT \<Longrightarrow> holds_file s co \<longleftrightarrow> hasSlotSource co s"
  "uc_slotType co = NOSLOT \<Longrightarrow> \<not> holds_user m co"
  "uc_slotType co = NOSLOT \<Longrightarrow> \<not> holds_file s co"
  by (simp_all add: holds_user_def holds_file_def)

lemma slots_butI:
  assumes fin: "finite C" "card C < 2 ^ 16" and c: "c \<in> C"
    and r: "um_runningUsers um = of_nat (conn_count (holds_user False) (C - {c}) um + length (um_multiUploads um))"
    and m: "um_mcnConnections um = of_nat (conn_count (holds_user True) (C - {c}) um)"
    and x: "um_extra um = of_nat (conn_count (holds_file SLOT_SOURCE_MINISLOT) (C - {c}) um)"
    and s: "um_smallFileConnections um = of_nat (conn_count (holds_file SLOT_SOURCE_MCN) (C - {c}) um)"
    and d: "distinct (map fst (um_multiUploads um))"
    and mu: "\<And>u. map_of (um_multiUploads um) u =
      (if conn_count (holds_mcn u) (C - {c}) um = 0 then None else Some (of_nat (conn_count (holds_mcn u) (C - {c}) um)))"
  shows "slots_but c C um"
  using fin r m x s d mu by (simp add: slots_but_def slots_inv_def multi_ok_def conn_count_split [OF fin(1) c])

lemma two_sources: "hasSlotSource co SLOT_SOURCE_MINISLOT \<Longrightarrow> \<not> hasSlotSource co SLOT_SOURCE_MCN"
  by (auto simp: hasSlotSource_def slot_sources split: option.splits)

lemma changeMultiConnSlot_conns [simp]: "um_conns (changeMultiConnSlot u r um) = um_conns um"
  "um_extra (changeMultiConnSlot u r um) = um_extra um" "um_smallFileConnections (changeMultiConnSlot u r um) = um_smallFileConnections um"
  "um_uploads (changeMultiConnSlot u r um) = um_uploads um" "um_delayUploads (changeMultiConnSlot u r um) = um_delayUploads um"
  "um_nextToken (changeMultiConnSlot u r um) = um_nextToken um" "um_queue (changeMultiConnSlot u r um) = um_queue um"
  by (auto simp: changeMultiConnSlot_def Let_def split: option.splits)

lemma map_of_map_key:
  "map_of (map (\<lambda>(v, m). (v, if v = u then f m else m)) xs) w = (if w = u then map_option f (map_of xs w) else map_of xs w)"
  by (induction xs) auto

lemma map_of_filter_key: "map_of (filter (\<lambda>(v, _). v \<noteq> u) xs) w = (if w = u then None else map_of xs w)"
  by (induction xs) auto

lemma length_filter_key:
  "distinct (map fst xs) \<Longrightarrow> map_of xs u \<noteq> None \<Longrightarrow> Suc (length (filter (\<lambda>(v, _). v \<noteq> u) xs)) = length xs"
proof (induction xs)
  case (Cons x xs)
  show ?case
  proof (cases "fst x = u")
    case True
    then have "filter (\<lambda>(v, _). v \<noteq> u) xs = xs" using Cons.prems(1) by (auto simp: filter_id_conv image_iff)
    then show ?thesis using True by (cases x) simp
  next
    case False
    then show ?thesis using Cons by (cases x) (auto split: if_splits)
  qed
qed simp

lemma distinct_map_key: "map fst (map (\<lambda>(v, m). (v, if v = u then f m else m)) xs) = map fst xs"
  by (induction xs) auto

lemma of_nat_16: "n < 2 ^ 16 \<Longrightarrow> (of_nat n :: 16 word) = 0 \<longleftrightarrow> n = 0"
proof -
  assume "n < 2 ^ 16"
  then have "unat (of_nat n :: 16 word) = n" by (simp add: unat_of_nat take_bit_nat_eq_self)
  then have "unat (of_nat n :: 16 word) = 0 \<longleftrightarrow> n = 0" by simp
  then show ?thesis by (simp only: unat_eq_zero)
qed

lemma removeSlot_but:
  assumes inv: "slots_inv C um" and c: "c \<in> C"
  shows "slots_but c C (removeSlot c um)"
proof -
  define co where "co = um_conns um c"
  have fin: "finite C" "card C < 2 ^ 16" using inv by (auto simp: slots_inv_def)
  note cc = counts_of_conn [OF inv c, folded co_def]
  have mo: "distinct (map fst (um_multiUploads um))"
    "\<And>u. map_of (um_multiUploads um) u =
      (if conn_count (holds_mcn u) C um = 0 then None else Some (of_nat (conn_count (holds_mcn u) C um)))"
    using inv by (auto simp: slots_inv_def multi_ok_def)
  have mc: "conn_count (holds_mcn u) C um = conn_count (holds_mcn u) (C - {c}) um + (if holds_mcn u co then 1 else 0)" for u
    unfolding co_def by (rule conn_count_split [OF fin(1) c])
  show ?thesis
  proof (cases "uc_slotType co")
    case NOSLOT
    then have "removeSlot c um = um" by (simp add: removeSlot_def Let_def co_def)
    then show ?thesis using NOSLOT cc mo mc by (intro slots_butI fin c) (auto simp: slot_cases holds_mcn_def)
  next
    case FILESLOT
    have "conn_count P (C - {c}) (removeSlot c um) = conn_count P (C - {c}) um" for P
      using FILESLOT by (intro conn_count_other) (auto simp: removeSlot_def Let_def co_def)
    moreover have "um_multiUploads (removeSlot c um) = um_multiUploads um" "um_runningUsers (removeSlot c um) = um_runningUsers um"
      "um_mcnConnections (removeSlot c um) = um_mcnConnections um"
      using FILESLOT by (auto simp: removeSlot_def Let_def co_def)
    moreover have "um_extra (removeSlot c um) = of_nat (conn_count (holds_file SLOT_SOURCE_MINISLOT) (C - {c}) um)"
      "um_smallFileConnections (removeSlot c um) = of_nat (conn_count (holds_file SLOT_SOURCE_MCN) (C - {c}) um)"
      using FILESLOT cc(3,4) two_sources [of co] by (auto simp: removeSlot_def Let_def co_def [symmetric] slot_cases)
    ultimately show ?thesis using FILESLOT cc mo mc by (intro slots_butI fin c) (auto simp: slot_cases holds_mcn_def)
  next
    case USERSLOT
    show ?thesis
    proof (cases "uc_mcn co")
      case False
      then have r: "removeSlot c um = um\<lparr>um_runningUsers := um_runningUsers um - 1\<rparr>"
        using USERSLOT by (simp add: removeSlot_def Let_def co_def)
      have "conn_count P (C - {c}) (removeSlot c um) = conn_count P (C - {c}) um" for P
        by (rule conn_count_other) (simp add: r)
      then show ?thesis using USERSLOT False cc mo mc
        by (intro slots_butI fin c) (auto simp: slot_cases holds_mcn_def r)
    next
      case True
      define u where "u = hu_user (uc_user co)"
      define n where "n = conn_count (holds_mcn u) C um"
      have r: "removeSlot c um = changeMultiConnSlot u True um"
        using USERSLOT True by (simp add: removeSlot_def Let_def co_def u_def)
      have hm: "holds_mcn v co \<longleftrightarrow> v = u" for v using USERSLOT True by (auto simp: holds_mcn_def slot_cases u_def)
      have n: "n = Suc (conn_count (holds_mcn u) (C - {c}) um)" using mc [of u] hm by (simp add: n_def)
      have nb: "n < 2 ^ 16" using conn_count_le [OF fin(1), of "holds_mcn u" um] fin(2) by (simp add: n_def)
      have mu: "map_of (um_multiUploads um) u = Some (of_nat n)" using mo(2) [of u] n by (simp add: n_def)
      have z: "(of_nat n :: 16 word) - 1 = 0 \<longleftrightarrow> conn_count (holds_mcn u) (C - {c}) um = 0"
        using n nb of_nat_16 [of "n - 1"] by simp
      define um' where "um' = removeSlot c um"
      have others: "conn_count P (C - {c}) um' = conn_count P (C - {c}) um" for P
        unfolding um'_def by (rule conn_count_other) (simp add: r)
      have run: "um_runningUsers um = of_nat (conn_count (holds_user False) (C - {c}) um + length (um_multiUploads um))"
        and mcn: "um_mcnConnections um = of_nat (conn_count (holds_user True) (C - {c}) um) + 1"
        and fl: "um_extra um = of_nat (conn_count (holds_file SLOT_SOURCE_MINISLOT) (C - {c}) um)"
          "um_smallFileConnections um = of_nat (conn_count (holds_file SLOT_SOURCE_MCN) (C - {c}) um)"
        using cc USERSLOT True by (simp_all add: slot_cases)
      have um': "um_mcnConnections um' = of_nat (conn_count (holds_user True) (C - {c}) um)"
        "um_extra um' = um_extra um" "um_smallFileConnections um' = um_smallFileConnections um"
        using mu mcn by (simp_all add: um'_def r changeMultiConnSlot_def Let_def)
      have rest: "conn_count (holds_mcn v) C um = conn_count (holds_mcn v) (C - {c}) um" if "v \<noteq> u" for v
        using mc [of v] hm that by simp
      show ?thesis
        unfolding um'_def [symmetric]
      proof (cases "conn_count (holds_mcn u) (C - {c}) um = 0")
        case last: True
        have l: "length (um_multiUploads um) = Suc (length (filter (\<lambda>(v, _). v \<noteq> u) (um_multiUploads um)))"
          using length_filter_key [OF mo(1), of u] mu by simp
        have e: "um_multiUploads um' = filter (\<lambda>(v, _). v \<noteq> u) (um_multiUploads um)" "um_runningUsers um' = um_runningUsers um - 1"
          using mu z last by (simp_all add: um'_def r changeMultiConnSlot_def Let_def)
        show "slots_but c C um'"
        proof (rule slots_butI [OF fin c]; (unfold others um' fl)?)
          show "um_runningUsers um' = of_nat (conn_count (holds_user False) (C - {c}) um + length (um_multiUploads um'))"
            using run l by (simp add: e)
          show "distinct (map fst (um_multiUploads um'))" unfolding e by (rule distinct_map_filter [OF mo(1)])
          show "map_of (um_multiUploads um') v =
              (if conn_count (holds_mcn v) (C - {c}) um = 0 then None else Some (of_nat (conn_count (holds_mcn v) (C - {c}) um)))" for v
            using mo(2) [of v] rest [of v] last by (simp add: e map_of_filter_key)
        qed simp_all
      next
        case more: False
        have e: "um_multiUploads um' = map (\<lambda>(v, m). (v, if v = u then m - 1 else m)) (um_multiUploads um)"
          "um_runningUsers um' = um_runningUsers um"
          using mu z more by (simp_all add: um'_def r changeMultiConnSlot_def Let_def)
        show "slots_but c C um'"
        proof (rule slots_butI [OF fin c]; (unfold others um' fl)?)
          show "um_runningUsers um' = of_nat (conn_count (holds_user False) (C - {c}) um + length (um_multiUploads um'))"
            using run by (simp add: e)
          show "distinct (map fst (um_multiUploads um'))" unfolding e distinct_map_key by (rule mo(1))
          show "map_of (um_multiUploads um') v =
              (if conn_count (holds_mcn v) (C - {c}) um = 0 then None else Some (of_nat (conn_count (holds_mcn v) (C - {c}) um)))" for v
            using mo(2) [of v] rest [of v] more mu n by (auto simp: e map_of_map_key)
        qed simp_all
      qed
    qed
  qed
qed

text \<open>Giving a slot to a connection that has none.\<close>

definition add_slot :: "nat \<Rightarrow> transfer_slot \<Rightarrow> upload_manager \<Rightarrow> upload_manager" where
  "add_slot c s um =
     (let um = set_conn c (\<lambda>co. co\<lparr>uc_slot := Some s\<rparr>) um;
          co = um_conns um c
      in case ts_type s of
           USERSLOT \<Rightarrow>
             if uc_mcn co then changeMultiConnSlot (hu_user (uc_user co)) False um
             else um\<lparr>um_runningUsers := um_runningUsers um + 1\<rparr>
         | FILESLOT \<Rightarrow>
             if hasSlotSource co SLOT_SOURCE_MINISLOT then um\<lparr>um_extra := um_extra um + 1\<rparr>
             else if hasSlotSource co SLOT_SOURCE_MCN then um\<lparr>um_smallFileConnections := um_smallFileConnections um + 1\<rparr>
             else um
         | NOSLOT \<Rightarrow> um)"

lemma grant_add_slot: "grant_slot c s um = add_slot c s (removeSlot c um)"
  by (simp add: grant_slot_def add_slot_def Let_def)

lemma slots_invI:
  assumes fin: "finite C" "card C < 2 ^ 16" and c: "c \<in> C" and co: "co = um_conns um c"
    and r: "um_runningUsers um = of_nat (conn_count (holds_user False) (C - {c}) um + (if holds_user False co then 1 else 0)
      + length (um_multiUploads um))"
    and m: "um_mcnConnections um = of_nat (conn_count (holds_user True) (C - {c}) um + (if holds_user True co then 1 else 0))"
    and x: "um_extra um = of_nat (conn_count (holds_file SLOT_SOURCE_MINISLOT) (C - {c}) um
      + (if holds_file SLOT_SOURCE_MINISLOT co then 1 else 0))"
    and s: "um_smallFileConnections um = of_nat (conn_count (holds_file SLOT_SOURCE_MCN) (C - {c}) um
      + (if holds_file SLOT_SOURCE_MCN co then 1 else 0))"
    and d: "distinct (map fst (um_multiUploads um))"
    and mu: "\<And>u. map_of (um_multiUploads um) u =
      (if conn_count (holds_mcn u) (C - {c}) um + (if holds_mcn u co then 1 else 0) = 0 then None
       else Some (of_nat (conn_count (holds_mcn u) (C - {c}) um + (if holds_mcn u co then 1 else 0))))"
  shows "slots_inv C um"
  using fin r m x s d mu by (simp add: slots_inv_def multi_ok_def conn_count_split [OF fin(1) c] co)

lemma add_slot_inv:
  assumes but: "slots_but c C um" and c: "c \<in> C"
  shows "slots_inv C (add_slot c s um)"
proof -
  define um0 where "um0 = set_conn c (\<lambda>co. co\<lparr>uc_slot := None\<rparr>) um"
  define um1 where "um1 = add_slot c s um"
  define co where "co = (um_conns um c)\<lparr>uc_slot := Some s\<rparr>"
  have inv: "slots_inv C um0" using but by (simp add: slots_but_def um0_def)
  have fin: "finite C" "card C < 2 ^ 16" using inv by (auto simp: slots_inv_def)
  have base: "conn_count P (C - {c}) um0 = conn_count P (C - {c}) um" for P by (simp add: um0_def)
  have conns: "um_conns um1 = (um_conns um)(c := co)"
    by (auto simp: um1_def add_slot_def Let_def co_def set_conn_def split: slot_type.split)
  have others: "conn_count P (C - {c}) um1 = conn_count P (C - {c}) um" for P
    by (rule conn_count_other) (simp add: conns)
  note cc = counts_of_conn [OF inv c, unfolded base]
  have start: "um_runningUsers um = of_nat (conn_count (holds_user False) (C - {c}) um + length (um_multiUploads um))"
    "um_mcnConnections um = of_nat (conn_count (holds_user True) (C - {c}) um)"
    "um_extra um = of_nat (conn_count (holds_file SLOT_SOURCE_MINISLOT) (C - {c}) um)"
    "um_smallFileConnections um = of_nat (conn_count (holds_file SLOT_SOURCE_MCN) (C - {c}) um)"
    using cc by (simp_all add: um0_def)
  have mo: "distinct (map fst (um_multiUploads um))"
    "\<And>u. map_of (um_multiUploads um) u =
      (if conn_count (holds_mcn u) (C - {c}) um = 0 then None else Some (of_nat (conn_count (holds_mcn u) (C - {c}) um)))"
    using inv by (auto simp: slots_inv_def multi_ok_def um0_def conn_count_split [OF fin(1) c])
  have st: "uc_slotType co = ts_type s" by (simp add: co_def uc_slotType_def slot_toType_def)
  have co1: "co = um_conns um1 c" by (simp add: conns)
  have v: "hu_user (uc_user co) = hu_user (uc_user (um_conns um c))" "uc_mcn co = uc_mcn (um_conns um c)" by (simp_all add: co_def)
  have sc: "um_conns (set_conn c (\<lambda>co. co\<lparr>uc_slot := Some s\<rparr>) um) c = co" by (simp add: co_def)
  show ?thesis
    unfolding um1_def [symmetric]
  proof (cases "ts_type s")
    case NOSLOT
    have e: "um_multiUploads um1 = um_multiUploads um" "um_runningUsers um1 = um_runningUsers um" "um_extra um1 = um_extra um"
      "um_mcnConnections um1 = um_mcnConnections um" "um_smallFileConnections um1 = um_smallFileConnections um"
      using NOSLOT by (simp_all add: um1_def add_slot_def Let_def)
    show "slots_inv C um1"
      by (rule slots_invI [OF fin c co1]; (unfold others e)?) (use NOSLOT st start mo in \<open>simp_all add: slot_cases holds_mcn_def\<close>)
  next
    case FILESLOT
    have e: "um_multiUploads um1 = um_multiUploads um" "um_runningUsers um1 = um_runningUsers um" "um_mcnConnections um1 = um_mcnConnections um"
      "um_extra um1 = um_extra um + (if hasSlotSource co SLOT_SOURCE_MINISLOT then 1 else 0)"
      "um_smallFileConnections um1 = um_smallFileConnections um + (if hasSlotSource co SLOT_SOURCE_MCN then 1 else 0)"
      using FILESLOT two_sources [of co] unfolding um1_def add_slot_def Let_def sc by simp_all
    show "slots_inv C um1"
      by (rule slots_invI [OF fin c co1]; (unfold others e)?) (use FILESLOT st start mo in \<open>simp_all add: slot_cases holds_mcn_def\<close>)
  next
    case USERSLOT
    show "slots_inv C um1"
    proof (cases "uc_mcn co")
      case False
      have e: "um_multiUploads um1 = um_multiUploads um" "um_runningUsers um1 = um_runningUsers um + 1" "um_extra um1 = um_extra um"
        "um_mcnConnections um1 = um_mcnConnections um" "um_smallFileConnections um1 = um_smallFileConnections um"
        using USERSLOT False unfolding um1_def add_slot_def Let_def sc by simp_all
      show ?thesis
        by (rule slots_invI [OF fin c co1]; (unfold others e)?) (use USERSLOT False st start mo in \<open>simp_all add: slot_cases holds_mcn_def\<close>)
    next
      case True
      define u where "u = hu_user (uc_user co)"
      have hm: "holds_mcn v co \<longleftrightarrow> v = u" for v using USERSLOT True st by (auto simp: holds_mcn_def slot_cases u_def)
      have r: "um1 = changeMultiConnSlot u False (set_conn c (\<lambda>co. co\<lparr>uc_slot := Some s\<rparr>) um)"
        using USERSLOT True unfolding um1_def add_slot_def Let_def sc u_def by simp
      show ?thesis
      proof (cases "conn_count (holds_mcn u) (C - {c}) um = 0")
        case new: True
        then have m: "map_of (um_multiUploads um) u = None" using mo(2) [of u] by simp
        then have nu: "u \<notin> fst ` set (um_multiUploads um)" by (simp add: map_of_eq_None_iff)
        have e: "um_multiUploads um1 = um_multiUploads um @ [(u, 1)]" "um_runningUsers um1 = um_runningUsers um + 1"
          "um_mcnConnections um1 = um_mcnConnections um + 1" "um_extra um1 = um_extra um"
          "um_smallFileConnections um1 = um_smallFileConnections um"
          using m by (simp_all add: r changeMultiConnSlot_def)
        show ?thesis
          by (rule slots_invI [OF fin c co1]; (unfold others e)?)
            (use USERSLOT True st start mo nu new hm in \<open>auto simp: slot_cases map_add_def split: option.splits\<close>)
      next
        case old: False
        then have m: "map_of (um_multiUploads um) u = Some (of_nat (conn_count (holds_mcn u) (C - {c}) um))" using mo(2) [of u] by simp
        then have e: "um_multiUploads um1 = map (\<lambda>(v, m). (v, if v = u then m + 1 else m)) (um_multiUploads um)"
          "um_runningUsers um1 = um_runningUsers um"
          "um_mcnConnections um1 = um_mcnConnections um + 1" "um_extra um1 = um_extra um"
          "um_smallFileConnections um1 = um_smallFileConnections um"
          by (simp_all add: r changeMultiConnSlot_def)
        show ?thesis
          by (rule slots_invI [OF fin c co1]; (unfold others e)?)
            (use USERSLOT True st start mo m old hm in \<open>auto simp: slot_cases map_of_map_key distinct_map_key add.commute simp del: map_map\<close>)
      qed
    qed
  qed
qed

lemma grant_slot_inv: "slots_inv C um \<Longrightarrow> c \<in> C \<Longrightarrow> slots_inv C (grant_slot c s um)"
  unfolding grant_add_slot by (intro add_slot_inv removeSlot_but)

lemma updateSlotCounts_inv: "slots_inv C um \<Longrightarrow> c \<in> C \<Longrightarrow> slots_inv C (snd (updateSlotCounts e c s um))"
  using grant_slot_inv [of C um c s]
  by (auto simp: updateSlotCounts_def Let_def intro: slots_inv_cong)

lemma um_removeConnection_inv:
  assumes "slots_inv C um" and "c \<in> C"
  shows "slots_inv (C - {c}) (um_removeConnection c um)"
proof -
  define um' where "um' = um_removeConnection c um"
  have inv: "slots_inv C um'" using removeSlot_but [OF assms] by (simp add: slots_but_def um'_def um_removeConnection_def)
  have fin: "finite C" "card C < 2 ^ 16" using inv by (auto simp: slots_inv_def)
  have "um_conns um' c = (um_conns (removeSlot c um) c)\<lparr>uc_slot := None\<rparr>" by (simp add: um'_def um_removeConnection_def)
  then have no: "\<not> holds_user m (um_conns um' c)" "\<not> holds_mcn u (um_conns um' c)" "\<not> holds_file s (um_conns um' c)" for m u s
    by simp_all
  have same: "conn_count (holds_user m) (C - {c}) um' = conn_count (holds_user m) C um'"
    "conn_count (holds_mcn u) (C - {c}) um' = conn_count (holds_mcn u) C um'"
    "conn_count (holds_file s) (C - {c}) um' = conn_count (holds_file s) C um'" for m u s
    using no conn_count_split [OF fin(1) assms(2)] by simp_all
  have "card (C - {c}) < 2 ^ 16" using fin card_Diff1_le [of C c] by (meson le_less_trans)
  then have "slots_inv (C - {c}) um'"
    using inv fin(1) unfolding slots_inv_def multi_ok_def same by simp
  then show ?thesis by (simp add: um'_def)
qed

lemma addConnection_inv:
  assumes inv: "slots_inv C um" and new: "c \<notin> C" and n: "card C + 1 < 2 ^ 16" and none: "uc_slot (um_conns um c) = None"
  shows "slots_inv (insert c C) (addConnection c um)"
proof -
  define um' where "um' = addConnection c um"
  have fin: "finite C" using inv by (simp add: slots_inv_def)
  have inv': "slots_inv C um'"
    by (rule slots_inv_cong [OF inv]) (use new in \<open>auto simp: um'_def addConnection_def set_state_def slot_view_def\<close>)
  have "uc_slot (um_conns um' c) = None" using none by (simp add: um'_def addConnection_def set_state_def)
  then have no: "\<not> holds_user m (um_conns um' c)" "\<not> holds_mcn u (um_conns um' c)" "\<not> holds_file s (um_conns um' c)" for m u s
    by (simp_all add: holds_user_def holds_mcn_def holds_file_def uc_slotType_def slot_toType_def)
  have same: "conn_count (holds_user m) (insert c C) um' = conn_count (holds_user m) C um'"
    "conn_count (holds_mcn u) (insert c C) um' = conn_count (holds_mcn u) C um'"
    "conn_count (holds_file s) (insert c C) um' = conn_count (holds_file s) C um'" for m u s
    using no new conn_count_split [of "insert c C" c] fin by simp_all
  have "slots_inv (insert c C) um'"
    using inv' fin new n unfolding slots_inv_def multi_ok_def same by simp
  then show ?thesis by (simp add: um'_def)
qed

section \<open>Uploads and connections\<close>

definition all_uploads :: "upload_manager \<Rightarrow> upload list" where
  "all_uploads um = um_uploads um @ um_delayUploads um"

definition uploads_ok :: "nat set \<Rightarrow> upload_manager \<Rightarrow> bool" where
  "uploads_ok C um \<longleftrightarrow>
     distinct (map up_conn (all_uploads um)) \<and> distinct (map up_token (all_uploads um))
     \<and> (\<forall>u\<in>set (all_uploads um). up_token u < um_nextToken um \<and> up_conn u \<in> C
          \<and> uc_upload (um_conns um (up_conn u)) = Some (up_token u))
     \<and> (\<forall>c\<in>C. \<forall>t. uc_upload (um_conns um c) = Some t \<longrightarrow> (\<exists>u\<in>set (all_uploads um). up_conn u = c \<and> up_token u = t))"

definition states_ok :: "nat set \<Rightarrow> upload_manager \<Rightarrow> bool" where
  "states_ok C um \<longleftrightarrow>
     (\<forall>c\<in>C. uc_state (um_conns um c) \<noteq> STATE_OTHER
        \<and> (uc_state (um_conns um c) = STATE_GET \<longleftrightarrow> c \<notin> up_conn ` set (um_uploads um)))"

definition um_inv :: "nat set \<Rightarrow> upload_manager \<Rightarrow> bool" where
  "um_inv C um \<longleftrightarrow> slots_inv C um \<and> uploads_ok C um \<and> states_ok C um"

text \<open>What of a connection the lists of uploads depend on.\<close>

definition upload_view :: "uconn \<Rightarrow> nat option \<times> conn_state" where
  "upload_view c = (uc_upload c, uc_state c)"

lemma upload_view_eq: "upload_view c = upload_view c' \<longleftrightarrow> uc_upload c = uc_upload c' \<and> uc_state c = uc_state c'"
  by (simp add: upload_view_def)

lemma uploads_ok_cong:
  assumes "uploads_ok C um" and "\<And>c. c \<in> C \<Longrightarrow> uc_upload (um_conns um' c) = uc_upload (um_conns um c)"
    and "all_uploads um' = all_uploads um" and "um_nextToken um' = um_nextToken um"
  shows "uploads_ok C um'"
  using assms by (simp add: uploads_ok_def)

lemma slot_ops_view [simp]:
  "upload_view (um_conns (removeSlot c um) x) = upload_view (um_conns um x)"
  "um_uploads (removeSlot c um) = um_uploads um" "um_delayUploads (removeSlot c um) = um_delayUploads um"
  "um_nextToken (removeSlot c um) = um_nextToken um" "um_queue (removeSlot c um) = um_queue um"
  "upload_view (um_conns (add_slot c s um) x) = upload_view (um_conns um x)"
  "um_uploads (add_slot c s um) = um_uploads um" "um_delayUploads (add_slot c s um) = um_delayUploads um"
  "um_nextToken (add_slot c s um) = um_nextToken um" "um_queue (add_slot c s um) = um_queue um"
  by (auto simp: removeSlot_def add_slot_def Let_def upload_view_def split: slot_type.split)

lemma updateSlotCounts_view [simp]:
  "upload_view (um_conns (snd (updateSlotCounts e c s um)) x) = upload_view (um_conns um x)"
  "um_uploads (snd (updateSlotCounts e c s um)) = um_uploads um"
  "um_delayUploads (snd (updateSlotCounts e c s um)) = um_delayUploads um"
  "um_nextToken (snd (updateSlotCounts e c s um)) = um_nextToken um"
  "um_queue (snd (updateSlotCounts e c s um)) = um_queue um"
  by (simp_all add: updateSlotCounts_def Let_def grant_add_slot)

lemma toUpload_ids:
  assumes "toUpload sh tok c p r is = Some (Inr (Some u))"
  shows "up_token u = tok \<and> up_conn u = c"
proof (cases "upload_stream sh p r is")
  case (Some x)
  show ?thesis
  proof (cases x)
    case (Inr y)
    obtain path s where y: "y = (path, s)" by fastforce
    then show ?thesis using assms Some Inr by (cases s) (auto simp: toUpload_def Let_def)
  qed (use assms Some in \<open>simp add: toUpload_def\<close>)
qed (use assms in \<open>simp add: toUpload_def\<close>)

text \<open>Steps on the lists of uploads.\<close>

lemma find_upload:
  assumes "uploads_ok C um" and "u \<in> set (all_uploads um)"
  shows "findUpload (up_token u) (um_delayUploads um) = (if u \<in> set (um_delayUploads um) then Some u else None)"
    and "u \<notin> set (um_delayUploads um) \<Longrightarrow> findUpload (up_token u) (um_uploads um) = Some u"
proof -
  have d: "distinct (map up_token (um_uploads um @ um_delayUploads um))" using assms(1) by (simp add: uploads_ok_def all_uploads_def)
  have find1: "find (\<lambda>v. up_token v = up_token x) xs = Some x" if "distinct (map up_token xs)" "x \<in> set xs" for x xs
    using that by (induction xs) (auto simp: image_iff)
  have no: "find (\<lambda>v. up_token v = t) xs = None" if "t \<notin> up_token ` set xs" for t xs
    using that by (induction xs) auto
  show "findUpload (up_token u) (um_delayUploads um) = (if u \<in> set (um_delayUploads um) then Some u else None)"
  proof (cases "u \<in> set (um_delayUploads um)")
    case False
    then have "u \<in> set (um_uploads um)" using assms(2) by (simp add: all_uploads_def)
    then have "up_token u \<notin> up_token ` set (um_delayUploads um)" using d by auto
    then show ?thesis using False no by (simp add: findUpload_def)
  next
    case True
    then show ?thesis using d find1 [OF _ True] by (simp add: findUpload_def)
  qed
  show "findUpload (up_token u) (um_uploads um) = Some u" if "u \<notin> set (um_delayUploads um)"
  proof -
    have "u \<in> set (um_uploads um)" using that assms(2) by (simp add: all_uploads_def)
    then show ?thesis using d find1 [of "um_uploads um" u] by (simp add: findUpload_def)
  qed
qed

lemma erase_first_filter:
  "distinct (map f xs) \<Longrightarrow> erase_first (\<lambda>x. f x = t) xs = filter (\<lambda>x. f x \<noteq> t) xs"
proof (induction xs)
  case (Cons x xs)
  then show ?case by (cases "f x = t") (auto simp: image_iff intro!: filter_True [symmetric])
qed simp

text \<open>Deleting the uploads of a connection.\<close>

lemma delete_uploads_ok:
  assumes ok: "uploads_ok C um" and "um_uploads um' = filter (\<lambda>v. up_conn v \<noteq> c) (um_uploads um)"
    and "um_delayUploads um' = filter (\<lambda>v. up_conn v \<noteq> c) (um_delayUploads um)" and "um_nextToken um' = um_nextToken um"
    and "\<And>x. x \<noteq> c \<Longrightarrow> uc_upload (um_conns um' x) = uc_upload (um_conns um x)" and "uc_upload (um_conns um' c) = None"
  shows "uploads_ok C um'"
proof -
  have all: "all_uploads um' = filter (\<lambda>v. up_conn v \<noteq> c) (all_uploads um)" using assms by (simp add: all_uploads_def)
  have up: "uc_upload (um_conns um' x) = (if x = c then None else uc_upload (um_conns um x))" for x
    using assms(5) [of x] assms(6) by auto
  have "distinct (map up_conn (all_uploads um'))" "distinct (map up_token (all_uploads um'))"
    using ok unfolding all uploads_ok_def by (auto intro: distinct_map_filter)
  moreover have "up_token u < um_nextToken um' \<and> up_conn u \<in> C \<and> uc_upload (um_conns um' (up_conn u)) = Some (up_token u)"
    if u: "u \<in> set (all_uploads um')" for u
  proof -
    have u': "u \<in> set (all_uploads um)" "up_conn u \<noteq> c" using u by (auto simp: all)
    then have "up_token u < um_nextToken um \<and> up_conn u \<in> C \<and> uc_upload (um_conns um (up_conn u)) = Some (up_token u)"
      using ok by (simp add: uploads_ok_def)
    then show ?thesis using u'(2) up [of "up_conn u"] assms(4) by simp
  qed
  moreover have "\<exists>u\<in>set (all_uploads um'). up_conn u = x \<and> up_token u = t"
    if xC: "x \<in> C" and xt: "uc_upload (um_conns um' x) = Some t" for x t
  proof -
    have x: "x \<noteq> c" using xt assms(6) by auto
    then have "uc_upload (um_conns um x) = Some t" using xt assms(5) by simp
    then obtain u where "u \<in> set (all_uploads um)" "up_conn u = x" "up_token u = t"
      using ok xC unfolding uploads_ok_def by blast
    then show ?thesis using x by (auto simp: all)
  qed
  ultimately show ?thesis unfolding uploads_ok_def by (intro conjI ballI allI impI) simp_all
qed

lemma conn_filter:
  assumes "uploads_ok C um" and "u \<in> set (all_uploads um)"
  shows "filter (\<lambda>v. up_token v \<noteq> up_token u) (um_uploads um) = filter (\<lambda>v. up_conn v \<noteq> up_conn u) (um_uploads um)"
    and "filter (\<lambda>v. up_token v \<noteq> up_token u) (um_delayUploads um) = filter (\<lambda>v. up_conn v \<noteq> up_conn u) (um_delayUploads um)"
proof -
  have "up_token v = up_token u \<longleftrightarrow> up_conn v = up_conn u" if "v \<in> set (all_uploads um)" for v
    using assms that unfolding uploads_ok_def by (metis (no_types, lifting) distinct_map inj_onD)
  then show "filter (\<lambda>v. up_token v \<noteq> up_token u) (um_uploads um) = filter (\<lambda>v. up_conn v \<noteq> up_conn u) (um_uploads um)"
    "filter (\<lambda>v. up_token v \<noteq> up_token u) (um_delayUploads um) = filter (\<lambda>v. up_conn v \<noteq> up_conn u) (um_delayUploads um)"
    by (auto intro!: filter_cong simp: all_uploads_def)
qed

lemma not_both:
  assumes "uploads_ok C um" and "u \<in> set (um_delayUploads um)"
  shows "filter (\<lambda>v. up_conn v \<noteq> up_conn u) (um_uploads um) = um_uploads um"
  using assms by (auto simp: uploads_ok_def all_uploads_def filter_id_conv)

section \<open>Removing, delaying and adding uploads\<close>

lemma removeUpload_of_conn:
  assumes ok: "uploads_ok C um" and c: "c \<in> C" and t: "uc_upload (um_conns um c) = Some tok"
  obtains u where "u \<in> set (all_uploads um)" and "up_conn u = c" and "up_token u = tok"
    and "removeUpload tok d um =
      (if d \<and> u \<notin> set (um_delayUploads um)
       then um\<lparr>um_uploads := filter (\<lambda>v. up_conn v \<noteq> c) (um_uploads um), um_delayUploads := um_delayUploads um @ [u]\<rparr>
       else delete_upload u (um\<lparr>um_uploads := filter (\<lambda>v. up_conn v \<noteq> c) (um_uploads um),
              um_delayUploads := filter (\<lambda>v. up_conn v \<noteq> c) (um_delayUploads um)\<rparr>))"
proof -
  obtain u where u: "u \<in> set (all_uploads um)" "up_conn u = c" "up_token u = tok"
    using ok c t unfolding uploads_ok_def by blast
  note f = find_upload [OF ok u(1), unfolded u(3)] and cf = conn_filter [OF ok u(1), unfolded u(2,3)]
  have d: "distinct (map up_token (um_delayUploads um))" and dc: "distinct (map up_conn (um_uploads um @ um_delayUploads um))"
    using ok by (auto simp: uploads_ok_def all_uploads_def)
  have "removeUpload tok d um =
      (if d \<and> u \<notin> set (um_delayUploads um)
       then um\<lparr>um_uploads := filter (\<lambda>v. up_conn v \<noteq> c) (um_uploads um), um_delayUploads := um_delayUploads um @ [u]\<rparr>
       else delete_upload u (um\<lparr>um_uploads := filter (\<lambda>v. up_conn v \<noteq> c) (um_uploads um),
              um_delayUploads := filter (\<lambda>v. up_conn v \<noteq> c) (um_delayUploads um)\<rparr>))"
  proof (cases "u \<in> set (um_delayUploads um)")
    case True
    have "filter (\<lambda>v. up_conn v \<noteq> c) (um_uploads um) = um_uploads um" using not_both [OF ok True] u(2) by simp
    then show ?thesis using True f(1) erase_first_filter [OF d, of tok] cf(2) by (simp add: removeUpload_def)
  next
    case False
    then have "u \<in> set (um_uploads um)" using u(1) by (simp add: all_uploads_def)
    then have "filter (\<lambda>v. up_conn v \<noteq> c) (um_delayUploads um) = um_delayUploads um"
      using dc u(2) by (auto simp: filter_id_conv)
    then show ?thesis using False f cf(1) by (simp add: removeUpload_def Let_def)
  qed
  with u show ?thesis by (rule that)
qed

lemma delete_upload_simps [simp]:
  "um_uploads (delete_upload u um) = um_uploads um" "um_delayUploads (delete_upload u um) = um_delayUploads um"
  "um_nextToken (delete_upload u um) = um_nextToken um"
  "uc_upload (um_conns (delete_upload u um) x) = (if x = up_conn u then None else uc_upload (um_conns um x))"
  "uc_state (um_conns (delete_upload u um) x) = uc_state (um_conns um x)"
  "slot_view (um_conns (delete_upload u um) x) = slot_view (um_conns um x)"
  by (simp_all add: delete_upload_def slot_view_def)

lemma delay_upload_ok:
  assumes ok: "uploads_ok C um" and u: "u \<in> set (um_uploads um)"
    and "um_uploads um' = filter (\<lambda>v. up_conn v \<noteq> up_conn u) (um_uploads um)"
    and "um_delayUploads um' = um_delayUploads um @ [u]" and "um_nextToken um' = um_nextToken um"
    and "\<And>x. uc_upload (um_conns um' x) = uc_upload (um_conns um x)"
  shows "uploads_ok C um'"
proof -
  obtain xs ys where l: "um_uploads um = xs @ u # ys" using u by (meson split_list)
  have d: "distinct (map up_conn (um_uploads um))" and d2: "distinct (map up_conn (all_uploads um))"
    "distinct (map up_token (all_uploads um))" using ok by (auto simp: uploads_ok_def all_uploads_def)
  have "filter (\<lambda>v. up_conn v \<noteq> up_conn u) (um_uploads um) = xs @ ys"
    using d unfolding l by (simp add: image_iff) (metis (mono_tags, lifting) filter_True)
  then have a: "all_uploads um' = xs @ ys @ um_delayUploads um @ [u]" "all_uploads um = xs @ u # ys @ um_delayUploads um"
    using assms(3,4) l by (simp_all add: all_uploads_def)
  then have s: "set (all_uploads um') = set (all_uploads um)" by auto
  have "distinct (map up_conn (all_uploads um'))" "distinct (map up_token (all_uploads um'))"
    using d2 unfolding a by auto
  then show ?thesis using ok assms(5,6) unfolding uploads_ok_def s by simp
qed

lemma removeUpload_ok:
  assumes ok: "uploads_ok C um" and c: "c \<in> C" and t: "uc_upload (um_conns um c) = Some tok"
  shows "uploads_ok C (removeUpload tok d um)"
    and "um_uploads (removeUpload tok d um) = filter (\<lambda>v. up_conn v \<noteq> c) (um_uploads um)"
    and "slot_view (um_conns (removeUpload tok d um) x) = slot_view (um_conns um x)"
    and "uc_state (um_conns (removeUpload tok d um) x) = uc_state (um_conns um x)"
    and "\<not> d \<Longrightarrow> uc_upload (um_conns (removeUpload tok d um) c) = None"
    and "um_nextToken (removeUpload tok d um) = um_nextToken um"
proof -
  obtain u where u: "u \<in> set (all_uploads um)" "up_conn u = c" "up_token u = tok"
    and r: "removeUpload tok d um =
      (if d \<and> u \<notin> set (um_delayUploads um)
       then um\<lparr>um_uploads := filter (\<lambda>v. up_conn v \<noteq> c) (um_uploads um), um_delayUploads := um_delayUploads um @ [u]\<rparr>
       else delete_upload u (um\<lparr>um_uploads := filter (\<lambda>v. up_conn v \<noteq> c) (um_uploads um),
              um_delayUploads := filter (\<lambda>v. up_conn v \<noteq> c) (um_delayUploads um)\<rparr>))"
    using removeUpload_of_conn [OF ok c t, where d = d] by blast
  show "uploads_ok C (removeUpload tok d um)"
  proof (cases "d \<and> u \<notin> set (um_delayUploads um)")
    case True
    then have "u \<in> set (um_uploads um)" using u(1) by (simp add: all_uploads_def)
    then show ?thesis by (rule delay_upload_ok [OF ok]) (use True r u(2) in simp_all)
  next
    case False
    show ?thesis by (rule delete_uploads_ok [OF ok, where c = c]) (use False r u(2) in auto)
  qed
  show "um_uploads (removeUpload tok d um) = filter (\<lambda>v. up_conn v \<noteq> c) (um_uploads um)"
    "slot_view (um_conns (removeUpload tok d um) x) = slot_view (um_conns um x)"
    "uc_state (um_conns (removeUpload tok d um) x) = uc_state (um_conns um x)"
    "um_nextToken (removeUpload tok d um) = um_nextToken um" by (auto simp: r)
  show "uc_upload (um_conns (removeUpload tok d um) c) = None" if "\<not> d"
    unfolding r using that u(2) by simp
qed

lemma push_upload_ok:
  assumes ok: "uploads_ok C um" and c: "c \<in> C" and none: "uc_upload (um_conns um c) = None"
    and up: "up_conn u = c" "up_token u = um_nextToken um"
    and "um_uploads um' = um_uploads um @ [u]" and "um_delayUploads um' = um_delayUploads um"
    and "um_nextToken um' = um_nextToken um + 1"
    and "\<And>x. uc_upload (um_conns um' x) = (if x = c then Some (up_token u) else uc_upload (um_conns um x))"
  shows "uploads_ok C um'"
proof -
  have s: "set (all_uploads um') = insert u (set (all_uploads um))" using assms(6,7) by (auto simp: all_uploads_def)
  have old: "up_token v < um_nextToken um \<and> up_conn v \<in> C \<and> uc_upload (um_conns um (up_conn v)) = Some (up_token v)"
    if "v \<in> set (all_uploads um)" for v using ok that by (simp add: uploads_ok_def)
  then have fresh: "up_conn v \<noteq> c \<and> up_token v < up_token u" if "v \<in> set (all_uploads um)" for v
    using that none up(2) by force
  have d: "distinct (map up_conn (all_uploads um))" "distinct (map up_token (all_uploads um))"
    using ok by (auto simp: uploads_ok_def)
  have "distinct (map up_conn (all_uploads um'))" "distinct (map up_token (all_uploads um'))"
    using d fresh assms(6,7) up(1) by (force simp: all_uploads_def)+
  moreover have "up_token v < um_nextToken um' \<and> up_conn v \<in> C \<and> uc_upload (um_conns um' (up_conn v)) = Some (up_token v)"
    if "v \<in> set (all_uploads um')" for v
  proof (cases "v = u")
    case True then show ?thesis using up c assms(8,9) by simp
  next
    case False
    then have v: "v \<in> set (all_uploads um)" using that s by simp
    show ?thesis using old [OF v] fresh [OF v] assms(8,9) by simp
  qed
  moreover have "\<exists>v\<in>set (all_uploads um'). up_conn v = x \<and> up_token v = t"
    if xC: "x \<in> C" and xt: "uc_upload (um_conns um' x) = Some t" for x t
  proof (cases "x = c")
    case True then show ?thesis using xt assms(9) up s by simp
  next
    case False
    then have "uc_upload (um_conns um x) = Some t" using xt assms(9) by simp
    then obtain v where "v \<in> set (all_uploads um)" "up_conn v = x" "up_token v = t"
      using ok xC unfolding uploads_ok_def by blast
    then show ?thesis using s by auto
  qed
  ultimately show ?thesis unfolding uploads_ok_def by (intro conjI ballI allI impI) simp_all
qed

section \<open>Requests\<close>

lemma resumeStream_cases:
  assumes ok: "uploads_ok C um" and c: "c \<in> C" and idle: "c \<notin> up_conn ` set (um_uploads um)"
    and r: "resumeStream c p um = (is, um')"
  obtains (same) "um' = um" "uc_upload (um_conns um c) = None"
  | (delayed) u where "up_conn u = c"
      "um' = delete_upload u (um\<lparr>um_delayUploads := filter (\<lambda>v. up_conn v \<noteq> c) (um_delayUploads um)\<rparr>)"
proof (cases "find (\<lambda>u. up_conn u = c) (um_delayUploads um)")
  case None
  then have "c \<notin> up_conn ` set (all_uploads um)" using idle by (auto simp: all_uploads_def find_None_iff)
  then have n: "uc_upload (um_conns um c) \<noteq> Some t" for t using ok c unfolding uploads_ok_def by blast
  have "uc_upload (um_conns um c) = None" using n [of "the (uc_upload (um_conns um c))"] by (cases "uc_upload (um_conns um c)") simp_all
  then show ?thesis using None r by (intro same) (simp_all add: resumeStream_def)
next
  case (Some u)
  have d: "distinct (map up_conn (um_delayUploads um))" using ok by (auto simp: uploads_ok_def all_uploads_def)
  from Some have "up_conn u = c" by (auto simp: find_Some_iff)
  then show ?thesis using Some r erase_first_filter [OF d, of c] by (intro delayed) (auto simp: resumeStream_def)
qed

lemma delete_upload_counts [simp]:
  "um_runningUsers (delete_upload u v) = um_runningUsers v" "um_mcnConnections (delete_upload u v) = um_mcnConnections v"
  "um_smallFileConnections (delete_upload u v) = um_smallFileConnections v" "um_extra (delete_upload u v) = um_extra v"
  "um_multiUploads (delete_upload u v) = um_multiUploads v" "um_queue (delete_upload u v) = um_queue v"
  by (simp_all add: delete_upload_def)

lemma resumeStream_ok:
  assumes ok: "uploads_ok C um" and inv: "slots_inv C um" and c: "c \<in> C" and idle: "c \<notin> up_conn ` set (um_uploads um)"
    and r: "resumeStream c p um = (is, um')"
  shows "uploads_ok C um'" and "slots_inv C um'" and "um_uploads um' = um_uploads um" and "uc_upload (um_conns um' c) = None"
    and "uc_state (um_conns um' x) = uc_state (um_conns um x)" and "um_nextToken um' = um_nextToken um"
proof -
  have all: "uploads_ok C um' \<and> slots_inv C um' \<and> um_uploads um' = um_uploads um \<and> uc_upload (um_conns um' c) = None
    \<and> uc_state (um_conns um' x) = uc_state (um_conns um x) \<and> um_nextToken um' = um_nextToken um"
  proof (cases rule: resumeStream_cases [OF ok c idle r])
    case 1
    then show ?thesis using ok inv by simp
  next
    case (2 u)
    note delayed = 2
    have f: "filter (\<lambda>v. up_conn v \<noteq> c) (um_uploads um) = um_uploads um" using idle by (auto simp: filter_id_conv)
    have "uploads_ok C um'" by (rule delete_uploads_ok [OF ok, where c = c]) (simp_all add: delayed f)
    moreover have "slots_inv C um'" by (rule slots_inv_cong [OF inv]) (simp_all add: delayed slot_view_def delete_upload_def)
    ultimately show ?thesis using delayed by simp
  qed
  then show "uploads_ok C um'" "slots_inv C um'" "um_uploads um' = um_uploads um" "uc_upload (um_conns um' c) = None"
    "uc_state (um_conns um' x) = uc_state (um_conns um x)" "um_nextToken um' = um_nextToken um" by simp_all
qed

lemma um_inv_cong:
  assumes inv: "um_inv C um" and "\<And>c. c \<in> C \<Longrightarrow> slot_view (um_conns um' c) = slot_view (um_conns um c)"
    and "\<And>c. c \<in> C \<Longrightarrow> upload_view (um_conns um' c) = upload_view (um_conns um c)"
    and "um_runningUsers um' = um_runningUsers um" "um_mcnConnections um' = um_mcnConnections um"
      "um_smallFileConnections um' = um_smallFileConnections um" "um_extra um' = um_extra um"
      "um_multiUploads um' = um_multiUploads um"
    and "um_uploads um' = um_uploads um" "um_delayUploads um' = um_delayUploads um" "um_nextToken um' = um_nextToken um"
  shows "um_inv C um'"
proof -
  have "slots_inv C um'" using inv by (rule_tac slots_inv_cong [OF _ assms(2,4-8)]) (simp_all add: um_inv_def)
  moreover have "uploads_ok C um'" using inv assms(3,9-11)
    by (rule_tac uploads_ok_cong [of C um]) (simp_all add: um_inv_def all_uploads_def upload_view_eq)
  moreover have "states_ok C um'" using inv assms(3,9) by (simp add: um_inv_def states_ok_def upload_view_eq)
  ultimately show ?thesis by (simp add: um_inv_def)
qed

text \<open>What a prepared upload leaves: the new upload is the last, and its connection still has to change its state.\<close>

definition prepared :: "nat set \<Rightarrow> nat \<Rightarrow> upload_manager \<Rightarrow> upload_manager \<Rightarrow> bool" where
  "prepared C c um um' \<longleftrightarrow>
     slots_inv C um' \<and> uploads_ok C um'
     \<and> up_conn ` set (um_uploads um') = insert c (up_conn ` set (um_uploads um))
     \<and> (\<forall>x. uc_state (um_conns um' x) = uc_state (um_conns um x))"

lemma upload_view_state: "upload_view a = upload_view b \<Longrightarrow> uc_state a = uc_state b"
  and upload_view_upload: "upload_view a = upload_view b \<Longrightarrow> uc_upload a = uc_upload b"
  by (simp_all add: upload_view_def)

lemma grant_prepared:
  assumes inv: "slots_inv C um" and ok: "uploads_ok C um" and c: "c \<in> C" and none: "uc_upload (um_conns um c) = None"
    and up: "up_conn u = c" "up_token u = um_nextToken um"
    and um': "um' = snd (updateSlotCounts e c s (set_conn c (\<lambda>co. co\<lparr>uc_upload := Some (up_token u)\<rparr>)
               (um\<lparr>um_nextToken := um_nextToken um + 1, um_uploads := um_uploads um @ [u]\<rparr>)))\<lparr>um_queue := q\<rparr>"
  shows "prepared C c um um'"
proof -
  define um1 where "um1 = set_conn c (\<lambda>co. co\<lparr>uc_upload := Some (up_token u)\<rparr>)
      (um\<lparr>um_nextToken := um_nextToken um + 1, um_uploads := um_uploads um @ [u]\<rparr>)"
  have um1: "slots_inv C um1" by (rule slots_inv_cong [OF inv]) (simp_all add: um1_def slot_view_def)
  have ok1: "uploads_ok C um1" by (rule push_upload_ok [OF ok c none up]) (simp_all add: um1_def)
  have um': "um' = snd (updateSlotCounts e c s um1)\<lparr>um_queue := q\<rparr>" using um' by (simp add: um1_def)
  have "slots_inv C um'"
    by (rule slots_inv_cong [OF updateSlotCounts_inv [OF um1 c, of e s]]) (simp_all add: um')
  moreover have "uploads_ok C um'"
    by (rule uploads_ok_cong [OF ok1])
      (simp_all add: um' all_uploads_def upload_view_upload [OF updateSlotCounts_view(1)])
  moreover have "uc_state (um_conns um' x) = uc_state (um_conns um x)" for x
    unfolding um' by (simp add: upload_view_state [OF updateSlotCounts_view(1)]) (simp add: um1_def)
  ultimately show ?thesis using up by (simp add: prepared_def um' um1_def)
qed

lemma hint_inv:
  assumes "um_inv C um"
  shows "um_inv C (set_conn c (\<lambda>co. co\<lparr>uc_user := (uc_user co)\<lparr>hu_hint := hub\<rparr>\<rparr>) um)"
  by (rule um_inv_cong [OF assms]) (simp_all add: slot_view_def upload_view_def)

lemma queue_inv: "um_inv C um \<Longrightarrow> um_inv C (um\<lparr>um_queue := q\<rparr>)"
  by (rule um_inv_cong) simp_all

lemma idle_conn: "states_ok C um \<Longrightarrow> c \<in> C \<Longrightarrow> uc_state (um_conns um c) = STATE_GET \<Longrightarrow> c \<notin> up_conn ` set (um_uploads um)"
  by (simp add: states_ok_def)

lemma resume_inv:
  assumes inv: "um_inv C um" and c: "c \<in> C" and g: "uc_state (um_conns um c) = STATE_GET" and r: "resumeStream c p um = (is, um')"
  shows "um_inv C um'"
proof -
  have i: "slots_inv C um" "uploads_ok C um" "states_ok C um" using inv by (simp_all add: um_inv_def)
  note rs = resumeStream_ok [OF i(2,1) c idle_conn [OF i(3) c g] r]
  show ?thesis using i rs by (simp add: um_inv_def states_ok_def)
qed

text \<open>A request that is granted.\<close>

lemma granted_request:
  assumes inv: "um_inv C um" and c: "c \<in> C" and g: "uc_state (um_conns um c) = STATE_GET"
    and r: "resumeStream c p um = (is, um1)" and t: "toUpload sh (um_nextToken um1) c p rq is = Some (Inr (Some up))"
    and um': "um' = snd (updateSlotCounts e c s (set_conn c (\<lambda>co. co\<lparr>uc_upload := Some (up_token up)\<rparr>)
               (um1\<lparr>um_nextToken := um_nextToken um1 + 1, um_uploads := um_uploads um1 @ [up]\<rparr>)))\<lparr>um_queue := q\<rparr>"
  shows "prepared C c um um'"
proof -
  have i: "slots_inv C um" "uploads_ok C um" "states_ok C um" using inv by (simp_all add: um_inv_def)
  note rs = resumeStream_ok [OF i(2,1) c idle_conn [OF i(3) c g] r]
  have up: "up_conn up = c" "up_token up = um_nextToken um1" using toUpload_ids [OF t] by simp_all
  have "prepared C c um1 um'" by (rule grant_prepared [OF rs(2,1) c rs(4) up um'])
  then show ?thesis using rs(3,5) by (simp add: prepared_def)
qed

lemma prepareFile_inv:
  assumes inv0: "um_inv C um0" and c: "c \<in> C" and g0: "uc_state (um_conns um0 c) = STATE_GET"
    and p: "prepareFile e c r um0 = Some (res, um')"
  shows "case res of Prepared d \<Rightarrow> prepared C c um0 um' | _ \<Rightarrow> um_inv C um'"
proof (cases "request_validate r")
  case False
  then show ?thesis using p inv0 by (auto simp: prepareFile_def)
next
  case valid: True
  show ?thesis
  proof (cases "ue_profile e (uc_user (um_conns um0 c)) (ur_userSID r)")
    case None
    then show ?thesis using p valid inv0 by (auto simp: prepareFile_def)
  next
    case (Some hub)
    define um where "um = set_conn c (\<lambda>co. co\<lparr>uc_user := (uc_user co)\<lparr>hu_hint := hub\<rparr>\<rparr>) um0"
    have inv: "um_inv C um" using hint_inv [OF inv0] by (simp add: um_def)
    have g: "uc_state (um_conns um c) = STATE_GET" using g0 by (simp add: um_def)
    have same: "um_uploads um = um_uploads um0" "uc_state (um_conns um x) = uc_state (um_conns um0 x)" for x
      by (simp_all add: um_def)
    note p' = p [unfolded prepareFile_def, simplified valid Some option.case if_False not_True_eq_False not_not Let_def, folded um_def]
    show ?thesis
    proof (cases "parseFileInfo (ue_share e) r")
      case (Inl err)
      then show ?thesis using p' inv by (cases err) auto
    next
      case (Inr pu)
      show ?thesis
      proof (cases "parseSlot e (um_conns um c) pu um")
        case None
        then show ?thesis using p' Inr inv by (auto intro: queue_inv split: if_splits prod.splits)
      next
        case (Some s)
        obtain str um1 where rs: "resumeStream c pu um = (str, um1)" by fastforce
        note p'' = p' [unfolded Inr sum.case Some option.case rs prod.case]
        have inv1: "um_inv C um1" by (rule resume_inv [OF inv c g rs])
        show ?thesis
        proof (cases "\<exists>up. toUpload (ue_share e) (um_nextToken um1) c pu r str = Some (Inr (Some up))")
          case False
          then show ?thesis using p'' inv1 by (auto split: option.splits sum.splits)
        next
          case True
          then obtain up where t: "toUpload (ue_share e) (um_nextToken um1) c pu r str = Some (Inr (Some up))" by blast
          define um2 where "um2 = set_conn c (\<lambda>co. co\<lparr>uc_upload := Some (up_token up)\<rparr>)
               (um1\<lparr>um_nextToken := um_nextToken um1 + 1, um_uploads := um_uploads um1 @ [up]\<rparr>)"
          obtain d um3 where u: "updateSlotCounts e c s um2 = (d, um3)" by fastforce
          have res: "res = Prepared d" "um' = um3\<lparr>um_queue := uq_removeQueue (hu_user (uc_user (um_conns um c))) (um_queue um3)\<rparr>"
            using p'' t u by (simp_all add: um2_def)
          have "prepared C c um um'" 
            by (rule granted_request [OF inv c g rs t, where e = e and s = s and q = "uq_removeQueue (hu_user (uc_user (um_conns um c))) (um_queue um3)"])
              (simp only: res(2) u [unfolded um2_def] snd_conv)
          then show ?thesis using same by (simp add: res(1) prepared_def)
        qed
      qed
    qed
  qed
qed

section \<open>Steps of the upload manager\<close>

text \<open>
  A state: the connections, the tokens of expired uploads handed to their connections, and the manager.  \<open>E\<close> says
  which environments (settings, share, clock, hooks) a step may see.
\<close>

type_synonym um_state = "nat set \<times> nat list \<times> upload_manager"

inductive um_step :: "(upload_env \<Rightarrow> bool) \<Rightarrow> um_state \<Rightarrow> um_state \<Rightarrow> bool" for E where
  connect: "\<lbrakk>c \<notin> C; card C + 1 < 2 ^ 16; uc_slot co = None; uc_upload co = None\<rbrakk>
     \<Longrightarrow> um_step E (C, ps, um) (insert c C, ps, addConnection c (set_conn c (\<lambda>_. co) um))"
| get_adc: "\<lbrakk>E e; c \<in> C; on_GET e c r zl tth um = Some (Inr (res, um')); \<forall>err. res \<noteq> Uncaught err\<rbrakk>
     \<Longrightarrow> um_step E (C, ps, um) (C, ps, um')"
| get_nmdc: "\<lbrakk>E e; c \<in> C; on_Get e c f n um = Some (Inr (res, um')); \<forall>err. res \<noteq> Uncaught err\<rbrakk>
     \<Longrightarrow> um_step E (C, ps, um) (C, ps, um')"
| send: "c \<in> C \<Longrightarrow> um_step E (C, ps, um) (C, ps, on_Send c um)"
| sent: "\<lbrakk>c \<in> C; uc_state (um_conns um c) = STATE_RUNNING\<rbrakk> \<Longrightarrow> um_step E (C, ps, um) (C, ps, on_TransmitDone c um)"
| failed: "c \<in> C \<Longrightarrow> um_step E (C, ps, um) (C - {c}, ps, on_Failed c um)"
| second: "checkExpiredDelayUploads um = (ts, um') \<Longrightarrow> um_step E (C, ps, um) (C, ps @ ts, um')"
| expire: "t \<in> set ps \<Longrightarrow> um_step E (C, ps, um) (C, remove1 t ps, expire_upload t um)"
| minute: "disconnectOfflineUsers us k f nf um = (cs, um') \<Longrightarrow> um_step E (C, ps, um) (C, ps, um')"
| notify: "\<lbrakk>E e; um_notifyQueued us e um = (ws, um')\<rbrakk> \<Longrightarrow> um_step E (C, ps, um) (C, ps, um')"

definition um_start :: "(nat \<Rightarrow> uconn) \<Rightarrow> upload_manager" where
  "um_start conns = \<lparr>um_conns = conns, um_uploads = [], um_delayUploads = [], um_runningUsers = 0, um_mcnConnections = 0,
     um_smallFileConnections = 0, um_extra = 0, um_lastGrant = 0, um_multiUploads = [], um_queue = \<lparr>uq_notified = [], uq_queue = [], uq_nextToken = 0\<rparr>, um_nextToken = 0\<rparr>"

definition pending_ok :: "nat list \<Rightarrow> upload_manager \<Rightarrow> bool" where
  "pending_ok ps um \<longleftrightarrow> (\<forall>t\<in>set ps. t < um_nextToken um \<and> t \<notin> up_token ` set (um_uploads um))"

definition um_grows :: "upload_manager \<Rightarrow> upload_manager \<Rightarrow> bool" where
  "um_grows um um' \<longleftrightarrow> um_nextToken um \<le> um_nextToken um'
     \<and> up_token ` set (um_uploads um') \<subseteq> up_token ` set (um_uploads um) \<union> {t. um_nextToken um \<le> t}"

lemma pending_grows: "pending_ok ps um \<Longrightarrow> um_grows um um' \<Longrightarrow> pending_ok ps um'"
  unfolding pending_ok_def um_grows_def by fastforce

lemma um_grows_same: "um_uploads um' = um_uploads um \<Longrightarrow> um_nextToken um' = um_nextToken um \<Longrightarrow> um_grows um um'"
  by (simp add: um_grows_def)

lemma resumeStream_uploads [simp]:
  "um_uploads (snd (resumeStream c p um)) = um_uploads um" "um_nextToken (snd (resumeStream c p um)) = um_nextToken um"
  by (simp_all add: resumeStream_def split: option.split)

lemma grant_upload_grows:
  assumes "um_uploads um1 = um_uploads um" and "um_nextToken um1 = um_nextToken um" and "up_token up = um_nextToken um1"
  shows "um_grows um (snd (updateSlotCounts e c s (set_conn c f
    (um1\<lparr>um_nextToken := um_nextToken um1 + 1, um_uploads := um_uploads um1 @ [up]\<rparr>)))\<lparr>um_queue := q\<rparr>)"
  using assms by (auto simp: um_grows_def)

lemma prepareFile_grows:
  assumes p: "prepareFile e c r um0 = Some (res, um')"
  shows "um_grows um0 um'"
proof -
  define um where "um hub = set_conn c (\<lambda>co. co\<lparr>uc_user := (uc_user co)\<lparr>hu_hint := hub\<rparr>\<rparr>) um0" for hub
  have same: "um_uploads (um hub) = um_uploads um0" "um_nextToken (um hub) = um_nextToken um0" for hub
    by (simp_all add: um_def)
  have rs: "um_uploads um1 = um_uploads um0 \<and> um_nextToken um1 = um_nextToken um0"
    if "resumeStream c pu (um hub) = (str, um1)" for pu hub str um1
    using that resumeStream_uploads [of c pu "um hub"] same by simp
  have gr: "um_grows um0 (um3\<lparr>um_queue := q\<rparr>)"
    if "resumeStream c pu (um hub) = (str, um1)" "toUpload (ue_share e) (um_nextToken um0) c pu r str = Some (Inr (Some up))"
      "updateSlotCounts e c s (set_conn c (\<lambda>co. co\<lparr>uc_upload := Some (up_token up)\<rparr>)
         (um1\<lparr>um_nextToken := um_nextToken um0 + 1, um_uploads := um_uploads um0 @ [up]\<rparr>)) = (d, um3)" for pu hub str um1 up s d um3 q
    using grant_upload_grows [of um1 um0 up, where e = e and c = c and s = s and q = q and f = "\<lambda>co. co\<lparr>uc_upload := Some (up_token up)\<rparr>"] rs [OF that(1)]
      toUpload_ids [OF that(2)] that(3) by (simp del: One_nat_def)
  show ?thesis
  proof (cases "\<exists>d. res = Prepared d")
    case True
    then show ?thesis using p unfolding prepareFile_def Let_def um_def [symmetric]
      by (auto intro!: gr simp: same rs simp del: One_nat_def
          split: if_splits option.splits sum.splits parse_exception.splits prod.splits)
  next
    case False
    then show ?thesis using p unfolding prepareFile_def Let_def um_def [symmetric]
      by (auto intro!: um_grows_same simp: same rs simp del: One_nat_def
          split: if_splits option.splits sum.splits parse_exception.splits prod.splits)
  qed
qed

definition um_state_ok :: "um_state \<Rightarrow> bool" where
  "um_state_ok s = (case s of (C, ps, um) \<Rightarrow> um_inv C um \<and> pending_ok ps um)"

text \<open>Flags and timers of uploads do not matter.\<close>

definition same_ids :: "(upload \<Rightarrow> upload) \<Rightarrow> bool" where
  "same_ids f \<longleftrightarrow> (\<forall>u. up_conn (f u) = up_conn u \<and> up_token (f u) = up_token u)"

lemma map_same_ids [simp]:
  assumes "same_ids f"
  shows "map up_conn (map f us) = map up_conn us" "map up_token (map f us) = map up_token us"
    "up_conn ` f ` A = up_conn ` A" "up_token ` f ` A = up_token ` A"
  using assms by (auto simp: same_ids_def image_image)

lemma map_uploads_ok:
  assumes ok: "uploads_ok C um" and f: "same_ids f" "same_ids g"
    and "um_uploads um' = map f (um_uploads um)" "um_delayUploads um' = map g (um_delayUploads um)"
    and "um_nextToken um' = um_nextToken um" "\<And>x. uc_upload (um_conns um' x) = uc_upload (um_conns um x)"
  shows "uploads_ok C um'"
proof -
  have m: "map up_conn (all_uploads um') = map up_conn (all_uploads um)" "map up_token (all_uploads um') = map up_token (all_uploads um)"
    using assms(4,5) map_same_ids [OF f(1)] map_same_ids [OF f(2)] by (simp_all add: all_uploads_def del: map_map)
  have ids: "up_conn (f u) = up_conn u" "up_token (f u) = up_token u"
    "up_conn (g u) = up_conn u" "up_token (g u) = up_token u" for u using f by (auto simp: same_ids_def)
  have s: "set (all_uploads um') = f ` set (um_uploads um) \<union> g ` set (um_delayUploads um)"
    "set (all_uploads um) = set (um_uploads um) \<union> set (um_delayUploads um)"
    using assms(4,5) by (simp_all add: all_uploads_def)
  show ?thesis using ok assms(6,7) unfolding uploads_ok_def m s by (simp add: ball_Un bex_Un ids)
qed

lemma map_um_inv:
  assumes inv: "um_inv C um" and f: "same_ids f" "same_ids g"
    and u: "um' = um\<lparr>um_uploads := map f (um_uploads um), um_delayUploads := map g (um_delayUploads um)\<rparr>"
  shows "um_inv C um'" and "um_grows um um'"
proof -
  have i: "slots_inv C um" "uploads_ok C um" "states_ok C um" using inv by (simp_all add: um_inv_def)
  have "slots_inv C um'" by (rule slots_inv_cong [OF i(1)]) (simp_all add: u)
  moreover have "uploads_ok C um'" by (rule map_uploads_ok [OF i(2) f]) (simp_all add: u)
  moreover have "states_ok C um'" using i(3) f by (simp add: u states_ok_def)
  ultimately show "um_inv C um'" by (simp add: um_inv_def)
  show "um_grows um um'" using f by (simp add: u um_grows_def)
qed

text \<open>A prepared upload whose connection leaves the state \<open>GET\<close>.\<close>

lemma prepared_state:
  assumes p: "prepared C c um um'" and inv: "um_inv C um" and c: "c \<in> C" and s: "s = STATE_SEND \<or> s = STATE_RUNNING"
  shows "um_inv C (set_state c s um')"
proof -
  have p': "slots_inv C um'" "uploads_ok C um'" "up_conn ` set (um_uploads um') = insert c (up_conn ` set (um_uploads um))"
    "uc_state (um_conns um' x) = uc_state (um_conns um x)" for x using p by (auto simp: prepared_def)
  have "slots_inv C (set_state c s um')" by (rule slots_inv_cong [OF p'(1)]) (simp_all add: set_state_def slot_view_def)
  moreover have "uploads_ok C (set_state c s um')"
    by (rule uploads_ok_cong [OF p'(2)]) (simp_all add: set_state_def all_uploads_def)
  moreover have "states_ok C (set_state c s um')"
    using inv s p'(3,4) by (auto simp: um_inv_def states_ok_def set_state_def)
  ultimately show ?thesis by (simp add: um_inv_def)
qed

lemma set_state_grows [simp]: "um_grows um (set_state c s um') \<longleftrightarrow> um_grows um um'"
  by (simp add: um_grows_def set_state_def)

lemma on_Get_inv:
  assumes inv: "um_inv C um" and c: "c \<in> C" and r: "on_Get e c f n um = Some (Inr (res, um'))"
  shows "um_inv C um' \<and> um_grows um um'"
proof -
  have g: "uc_state (um_conns um c) = STATE_GET" using r by (auto simp: on_Get_def split: if_splits)
  obtain um1 where p: "prepareFile e c \<lparr>ur_type = transfer_names TYPE_FILE, ur_file = f, ur_segment = seg n (- 1),
       ur_userSID = [], ur_listRecursive = False\<rparr> um = Some (res, um1)"
    and um': "um' = (case res of Prepared _ \<Rightarrow> set_state c STATE_SEND um1 | _ \<Rightarrow> um1)"
    using r g by (auto simp: on_Get_def)
  show ?thesis using prepareFile_inv [OF inv c g p] prepareFile_grows [OF p] um' prepared_state [OF _ inv c]
    by (cases res) simp_all
qed

lemma on_GET_inv:
  assumes inv: "um_inv C um" and c: "c \<in> C" and r: "on_GET e c rq zl tth um = Some (Inr (res, um'))"
  shows "um_inv C um' \<and> um_grows um um'"
proof -
  have g: "uc_state (um_conns um c) = STATE_GET" using r by (auto simp: on_GET_def split: if_splits)
  obtain um1 where p: "prepareFile e c (if tth then rq\<lparr>ur_type := transfer_names TYPE_TTH_LIST\<rparr> else rq) um = Some (res, um1)"
    and um': "um' = (case res of
      Prepared _ \<Rightarrow> startTransfer c (if zl then um1\<lparr>um_uploads := set_filtered c (um_uploads um1)\<rparr> else um1) | _ \<Rightarrow> um1)"
    using r g by (auto simp: on_GET_def)
  note pi = prepareFile_inv [OF inv c g p] and gr = prepareFile_grows [OF p]
  show ?thesis
  proof (cases res)
    case (Prepared d)
    define f :: "upload \<Rightarrow> upload" where "f = (\<lambda>u. if up_conn u = c then u\<lparr>up_flags := setFlag (up_flags u) FLAG_ZUPLOAD\<rparr> else u)"
    have f: "same_ids f" "same_ids id" by (simp_all add: f_def same_ids_def)
    have e: "set_state c STATE_RUNNING (um1\<lparr>um_uploads := set_filtered c (um_uploads um1)\<rparr>)
      = (set_state c STATE_RUNNING um1)\<lparr>um_uploads := map f (um_uploads (set_state c STATE_RUNNING um1)),
           um_delayUploads := map id (um_delayUploads (set_state c STATE_RUNNING um1))\<rparr>"
      by (simp add: set_state_def set_conn_def set_filtered_def f_def)
    have i: "um_inv C (set_state c STATE_RUNNING um1)" using prepared_state [OF _ inv c] pi Prepared by simp
    have g2: "um_grows um (set_state c STATE_RUNNING (um1\<lparr>um_uploads := set_filtered c (um_uploads um1)\<rparr>))"
      using gr f(1) by (simp add: um_grows_def set_filtered_def f_def [symmetric] set_state_def)
    show ?thesis using map_um_inv(1) [OF i f e] i gr g2 um' Prepared by (simp add: startTransfer_def)
  qed (use pi gr um' in simp_all)
qed

lemma on_TransmitDone_inv:
  assumes inv: "um_inv C um" and c: "c \<in> C"
  shows "um_inv C (on_TransmitDone c um) \<and> um_grows um (on_TransmitDone c um)"
proof (cases "uc_upload (um_conns um c)")
  case None
  then show ?thesis using inv by (simp add: on_TransmitDone_def um_grows_def)
next
  case (Some tok)
  define um1 where "um1 = set_state c STATE_GET um"
  have i: "slots_inv C um" "uploads_ok C um" "states_ok C um" using inv by (simp_all add: um_inv_def)
  have u1: "uploads_ok C um1" by (rule uploads_ok_cong [OF i(2)]) (simp_all add: um1_def set_state_def all_uploads_def)
  have s1: "slots_inv C um1" by (rule slots_inv_cong [OF i(1)]) (simp_all add: um1_def set_state_def slot_view_def)
  have t1: "uc_upload (um_conns um1 c) = Some tok" using Some by (simp add: um1_def set_state_def)
  obtain d where d: "on_TransmitDone c um = removeUpload tok d um1" using Some by (simp add: on_TransmitDone_def um1_def Let_def)
  note r = removeUpload_ok [OF u1 c t1, where d = d]
  have "slots_inv C (removeUpload tok d um1)"
    by (rule slots_inv_cong [OF s1 r(3)])
      (simp_all add: removeUpload_def Let_def split: option.split)
  moreover have "states_ok C (removeUpload tok d um1)"
    using i(3) by (auto simp: states_ok_def r(2,4)) (auto simp: um1_def set_state_def split: if_splits)
  moreover have "um_grows um (removeUpload tok d um1)" using r(2,6) by (auto simp: um_grows_def um1_def set_state_def)
  ultimately show ?thesis using r(1) d by (simp add: um_inv_def)
qed

lemma on_Send_inv:
  assumes inv: "um_inv C um" and c: "c \<in> C"
  shows "um_inv C (on_Send c um) \<and> um_grows um (on_Send c um)"
proof (cases "uc_state (um_conns um c) = STATE_SEND")
  case True
  have i: "slots_inv C um" "uploads_ok C um" "states_ok C um" using inv by (simp_all add: um_inv_def)
  have "slots_inv C (set_state c STATE_RUNNING um)" by (rule slots_inv_cong [OF i(1)]) (simp_all add: set_state_def slot_view_def)
  moreover have "uploads_ok C (set_state c STATE_RUNNING um)"
    by (rule uploads_ok_cong [OF i(2)]) (simp_all add: set_state_def all_uploads_def)
  moreover have "states_ok C (set_state c STATE_RUNNING um)" using i(3) c True by (auto simp: states_ok_def set_state_def)
  ultimately show ?thesis using True by (simp add: on_Send_def startTransfer_def um_inv_def um_grows_same)
qed (use inv in \<open>simp add: on_Send_def um_grows_same\<close>)

lemma upload_cleared:
  assumes inv: "um_inv C um" and c: "c \<in> C"
  defines "um1 \<equiv> (case uc_upload (um_conns um c) of None \<Rightarrow> um | Some tok \<Rightarrow> removeUpload tok False um)"
  shows "slots_inv C um1" and "uploads_ok C um1" and "um_uploads um1 = filter (\<lambda>v. up_conn v \<noteq> c) (um_uploads um)"
    and "uc_upload (um_conns um1 c) = None" and "uc_state (um_conns um1 x) = uc_state (um_conns um x)"
    and "um_nextToken um1 = um_nextToken um"
proof -
  have i: "slots_inv C um" "uploads_ok C um" "states_ok C um" using inv by (simp_all add: um_inv_def)
  have "slots_inv C um1 \<and> uploads_ok C um1 \<and> um_uploads um1 = filter (\<lambda>v. up_conn v \<noteq> c) (um_uploads um)
     \<and> uc_upload (um_conns um1 c) = None \<and> uc_state (um_conns um1 x) = uc_state (um_conns um x)
     \<and> um_nextToken um1 = um_nextToken um"
  proof (cases "uc_upload (um_conns um c)")
    case None
    then have "up_conn u \<noteq> c" if "u \<in> set (um_uploads um)" for u
      using that i(2) by (auto simp: uploads_ok_def all_uploads_def)
    then have "filter (\<lambda>v. up_conn v \<noteq> c) (um_uploads um) = um_uploads um" by (simp add: filter_id_conv)
    then show ?thesis using None i by (simp add: um1_def)
  next
    case (Some tok)
    note r = removeUpload_ok [OF i(2) c Some, where d = False]
    have "slots_inv C (removeUpload tok False um)"
      by (rule slots_inv_cong [OF i(1) r(3)]) (simp_all add: removeUpload_def Let_def split: option.split)
    then show ?thesis using Some r by (simp add: um1_def)
  qed
  then show "slots_inv C um1" "uploads_ok C um1" "um_uploads um1 = filter (\<lambda>v. up_conn v \<noteq> c) (um_uploads um)"
    "uc_upload (um_conns um1 c) = None" "uc_state (um_conns um1 x) = uc_state (um_conns um x)"
    "um_nextToken um1 = um_nextToken um" by simp_all
qed

lemma on_Failed_inv:
  assumes inv: "um_inv C um" and c: "c \<in> C"
  shows "um_inv (C - {c}) (on_Failed c um) \<and> um_grows um (on_Failed c um)"
proof -
  define um1 where "um1 = (case uc_upload (um_conns um c) of None \<Rightarrow> um | Some tok \<Rightarrow> removeUpload tok False um)"
  note u = upload_cleared [OF inv c, folded um1_def]
  have f: "on_Failed c um = um_removeConnection c um1" by (simp add: on_Failed_def um1_def)
  have v: "upload_view (um_conns (um_removeConnection c um1) x) = upload_view (um_conns um1 x)" for x
    using slot_ops_view(1) [of c um1 x] by (cases "x = c") (simp_all add: um_removeConnection_def upload_view_def)
  have l: "um_uploads (um_removeConnection c um1) = um_uploads um1" "um_delayUploads (um_removeConnection c um1) = um_delayUploads um1"
    "um_nextToken (um_removeConnection c um1) = um_nextToken um1" by (simp_all add: um_removeConnection_def)
  have ok: "uploads_ok C (um_removeConnection c um1)"
    by (rule uploads_ok_cong [OF u(2)]) (simp_all add: l all_uploads_def upload_view_upload [OF v])
  have "up_conn w \<noteq> c" if "w \<in> set (all_uploads (um_removeConnection c um1))" for w
    using ok that u(4) upload_view_upload [OF v, of c] by (auto simp: uploads_ok_def)
  then have "uploads_ok (C - {c}) (um_removeConnection c um1)" using ok unfolding uploads_ok_def by simp
  moreover have "states_ok (C - {c}) (um_removeConnection c um1)"
    using inv by (auto simp: um_inv_def states_ok_def l(1) u(3,5) upload_view_state [OF v])
  moreover have "um_grows um (on_Failed c um)" by (auto simp: um_grows_def f l u(3,6))
  ultimately show ?thesis using um_removeConnection_inv [OF u(1) c] by (simp add: um_inv_def f)
qed

lemma addConnection_um_inv:
  assumes inv: "um_inv C um" and c: "c \<notin> C" "card C + 1 < 2 ^ 16" and co: "uc_slot co = None" "uc_upload co = None"
  defines "um1 \<equiv> set_conn c (\<lambda>_. co) um"
  shows "um_inv (insert c C) (addConnection c um1) \<and> um_grows um (addConnection c um1)"
proof -
  have i: "slots_inv C um" "uploads_ok C um" "states_ok C um" using inv by (simp_all add: um_inv_def)
  have "slots_inv C um1" by (rule slots_inv_cong [OF i(1)]) (use c in \<open>auto simp: um1_def\<close>)
  then have "slots_inv (insert c C) (addConnection c um1)" by (rule addConnection_inv) (use c co in \<open>simp_all add: um1_def\<close>)
  moreover have "uploads_ok (insert c C) (addConnection c um1)"
    using i(2) c(1) co(2) unfolding uploads_ok_def um1_def addConnection_def set_state_def all_uploads_def by auto
  moreover have "states_ok (insert c C) (addConnection c um1)"
    using i(2,3) c(1) unfolding states_ok_def uploads_ok_def um1_def addConnection_def set_state_def all_uploads_def by auto
  ultimately show ?thesis by (simp add: um_inv_def um_grows_def um1_def addConnection_def set_state_def)
qed

lemma checkDelaySecond_ids [simp]: "up_conn (fst (checkDelaySecond u)) = up_conn u" "up_token (fst (checkDelaySecond u)) = up_token u"
  by (simp_all add: checkDelaySecond_def Let_def)

lemma second_inv:
  assumes inv: "um_inv C um" and p: "pending_ok ps um" and r: "checkExpiredDelayUploads um = (ts, um')"
  shows "um_inv C um' \<and> pending_ok (ps @ ts) um'"
proof -
  define g where "g u = (case checkDelaySecond u of (v, x) \<Rightarrow> if x then v\<lparr>up_delayTime := - 1\<rparr> else v)" for u
  have ids: "same_ids id" "same_ids g" by (simp_all add: same_ids_def g_def split: prod.split) (metis checkDelaySecond_ids fst_conv)+
  have um': "um' = um\<lparr>um_uploads := map id (um_uploads um), um_delayUploads := map g (um_delayUploads um)\<rparr>"
    using r by (auto simp: checkExpiredDelayUploads_def Let_def g_def comp_def)
  have ts: "set ts \<subseteq> up_token ` set (um_delayUploads um)"
  proof -
    have "ts = map (up_token \<circ> fst) (filter snd (map checkDelaySecond (um_delayUploads um)))"
      using r by (auto simp: checkExpiredDelayUploads_def Let_def case_prod_beta comp_def)
    then show ?thesis by auto
  qed
  have "t < um_nextToken um \<and> t \<notin> up_token ` set (um_uploads um)" if "t \<in> up_token ` set (um_delayUploads um)" for t
    using inv that by (auto simp: um_inv_def uploads_ok_def all_uploads_def)
  then have "pending_ok ts um" using ts unfolding pending_ok_def by blast
  then have "pending_ok (ps @ ts) um" using p by (auto simp: pending_ok_def)
  then show ?thesis using map_um_inv [OF inv ids um'] pending_grows by blast
qed

lemma expire_inv:
  assumes inv: "um_inv C um" and p: "pending_ok ps um" and t: "t \<in> set ps"
  shows "um_inv C (expire_upload t um) \<and> um_grows um (expire_upload t um)"
proof (cases "findUploadUnsafe t um")
  case None
  then show ?thesis using inv by (simp add: expire_upload_def um_grows_same)
next
  case (Some u)
  have i: "slots_inv C um" "uploads_ok C um" "states_ok C um" using inv by (simp_all add: um_inv_def)
  have nt: "t \<notin> up_token ` set (um_uploads um)" using p t by (simp add: pending_ok_def)
  then have "findUpload t (um_uploads um) = None" by (auto simp: findUpload_def find_None_iff)
  then have "findUpload t (um_delayUploads um) = Some u" using Some by (simp add: findUploadUnsafe_def)
  then have u: "u \<in> set (um_delayUploads um)" "up_token u = t" by (auto simp: findUpload_def find_Some_iff)
  then have ua: "u \<in> set (all_uploads um)" by (simp add: all_uploads_def)
  have e: "expire_upload t um = delete_upload u (um\<lparr>um_delayUploads := filter (\<lambda>v. up_conn v \<noteq> up_conn u) (um_delayUploads um)\<rparr>)"
    using Some conn_filter(2) [OF i(2) ua] u(2) by (simp add: expire_upload_def)
  have "uploads_ok C (expire_upload t um)"
    by (rule delete_uploads_ok [OF i(2), where c = "up_conn u"]) (simp_all add: e not_both [OF i(2) u(1)])
  moreover have "slots_inv C (expire_upload t um)"
    by (rule slots_inv_cong [OF i(1)]) (simp_all add: e slot_view_def delete_upload_def)
  moreover have "states_ok C (expire_upload t um)" using i(3) by (simp add: states_ok_def e)
  ultimately show ?thesis by (simp add: um_inv_def um_grows_same e)
qed

lemma minute_inv:
  assumes inv: "um_inv C um" and r: "disconnectOfflineUsers us k f nf um = (cs, um')"
  shows "um_inv C um' \<and> um_grows um um'"
proof (cases k)
  case False
  then show ?thesis using r inv by (simp add: disconnectOfflineUsers_def um_grows_same)
next
  case True
  define user where "user u = hu_user (uc_user (um_conns um (up_conn u)))" for u :: upload
  define g :: "upload \<Rightarrow> upload" where "g u = (if us_online us (user u) then u\<lparr>up_flags := unsetFlag (up_flags u) FLAG_PENDING_KICK\<rparr>
      else if \<not> us_online us (user u) \<and> isSet (up_flags u) FLAG_PENDING_KICK then u
      else if nf \<and> f (user u) then u
      else u\<lparr>up_flags := setFlag (up_flags u) FLAG_PENDING_KICK\<rparr>)" for u
  have ids: "same_ids g" "same_ids id" by (simp_all add: same_ids_def g_def)
  have "um' = um\<lparr>um_uploads := map g (um_uploads um), um_delayUploads := map id (um_delayUploads um)\<rparr>"
    using r True by (auto simp: disconnectOfflineUsers_def Let_def g_def user_def)
  then show ?thesis using map_um_inv [OF inv ids] by blast
qed

lemma notify_inv:
  assumes inv: "um_inv C um" and r: "um_notifyQueued us e um = (ws, um')"
  shows "um_inv C um' \<and> um_grows um um'"
proof -
  obtain q where "um' = um\<lparr>um_queue := q\<rparr>" using r by (auto simp: um_notifyQueued_def split: prod.splits)
  then show ?thesis using queue_inv [OF inv] by (simp add: um_grows_same)
qed

lemma um_step_ok:
  assumes "um_step E s s'" and "um_state_ok s"
  shows "um_state_ok s'"
  using assms
proof (induction rule: um_step.induct)
  case (connect c C co ps um)
  then show ?case using addConnection_um_inv [of C um c co] pending_grows by (auto simp: um_state_ok_def)
next
  case (get_adc e c C r zl tth um res um' ps)
  then show ?case using on_GET_inv pending_grows unfolding um_state_ok_def prod.case by blast
next
  case (get_nmdc e c C f n um res um' ps)
  then show ?case using on_Get_inv pending_grows unfolding um_state_ok_def prod.case by blast
next
  case (send c C ps um)
  then show ?case using on_Send_inv pending_grows unfolding um_state_ok_def prod.case by blast
next
  case (sent c C um ps)
  then show ?case using on_TransmitDone_inv pending_grows unfolding um_state_ok_def prod.case by blast
next
  case (failed c C ps um)
  then show ?case using on_Failed_inv pending_grows unfolding um_state_ok_def prod.case by blast
next
  case (second um ts um' C ps)
  then show ?case using second_inv unfolding um_state_ok_def prod.case by blast
next
  case (expire t ps C um)
  then have i: "um_inv C um" "pending_ok ps um" by (simp_all add: um_state_ok_def)
  have "pending_ok (remove1 t ps) um" using i(2) set_remove1_subset [of t ps] unfolding pending_ok_def by blast
  then show ?case using expire_inv [OF i expire(1)] pending_grows unfolding um_state_ok_def prod.case by blast
next
  case (minute us k f nf um cs um' C ps)
  then show ?case using minute_inv pending_grows unfolding um_state_ok_def prod.case by blast
next
  case (notify e us um ws um' C ps)
  then show ?case using notify_inv pending_grows unfolding um_state_ok_def prod.case by blast
qed

lemma um_start_ok: "um_state_ok ({}, [], um_start conns)"
  by (simp add: um_state_ok_def um_inv_def slots_inv_def multi_ok_def conn_count_def uploads_ok_def states_ok_def
      pending_ok_def um_start_def all_uploads_def)

lemma um_steps_ok: "(um_step E)\<^sup>*\<^sup>* s s' \<Longrightarrow> um_state_ok s \<Longrightarrow> um_state_ok s'"
  by (induction rule: rtranclp_induct) (auto intro: um_step_ok)

section \<open>How many users hold a slot\<close>

text \<open>Users with a slot: every plain connection with one, and every user with multi-connection uploads.\<close>

definition slot_users :: "nat set \<Rightarrow> upload_manager \<Rightarrow> nat" where
  "slot_users C um = conn_count (holds_user False) C um + length (um_multiUploads um)"

text \<open>The hooks give no full slots, and slots with those opened for low speed are at most \<open>B\<close>.\<close>

definition slots_within :: "nat \<Rightarrow> upload_env \<Rightarrow> bool" where
  "slots_within B e \<longleftrightarrow>
     (\<forall>co p. \<forall>s\<in>set (ue_hooks e co p). slot_toType s \<noteq> USERSLOT)
     \<and> uint (um_getSlots e) + max 0 (getMaxAutoOpened (ue_limits e) (ue_hour e) 0) \<le> int B"

lemma running_users: "slots_inv C um \<Longrightarrow> um_runningUsers um = of_nat (slot_users C um)"
  by (simp add: slots_inv_def slot_users_def)

lemma uint_running: "slots_inv C um \<Longrightarrow> slot_users C um < 256 \<Longrightarrow> uint (um_runningUsers um) = int (slot_users C um)"
  by (simp add: running_users uint_nat unat_of_nat take_bit_nat_eq_self)

lemma conn_count_mono:
  assumes "finite C" and "\<And>c. c \<in> C \<Longrightarrow> P (um_conns um c) \<Longrightarrow> P (um_conns um' c)"
  shows "conn_count P C um \<le> conn_count P C um'"
  unfolding conn_count_def by (rule card_mono) (use assms in auto)

lemma slot_users_cong:
  assumes "\<And>c. c \<in> C \<Longrightarrow> slot_view (um_conns um' c) = slot_view (um_conns um c)" and "um_multiUploads um' = um_multiUploads um"
  shows "slot_users C um' = slot_users C um"
proof -
  have "holds_user m (um_conns um' c) = holds_user m (um_conns um c)" if "c \<in> C" for m c
    using assms(1) [OF that] by (simp add: holds_user_def slot_view_def uc_slotType_def)
  then have "{c\<in>C. holds_user False (um_conns um' c)} = {c\<in>C. holds_user False (um_conns um c)}" by blast
  then show ?thesis using assms(2) by (simp add: slot_users_def conn_count_def)
qed

lemma removeSlot_users:
  assumes "finite C" and "\<And>x. um_conns um' x = (if x = c then um_conns um' c else um_conns um x)"
    and "um_multiUploads um' = um_multiUploads (removeSlot c um)" and "uc_slot (um_conns um' c) = None"
  shows "slot_users C um' \<le> slot_users C um"
proof -
  have "holds_user False (um_conns um x)" if "holds_user False (um_conns um' x)" for x
    using that assms(2) [of x] assms(4) by (auto simp: holds_user_def uc_slotType_def slot_toType_def split: if_splits)
  then have "conn_count (holds_user False) C um' \<le> conn_count (holds_user False) C um" by (intro conn_count_mono [OF assms(1)])
  moreover have "length (um_multiUploads (removeSlot c um)) \<le> length (um_multiUploads um)"
    by (simp add: removeSlot_def changeMultiConnSlot_def Let_def split: option.split slot_type.split)
  ultimately show ?thesis using assms(3) by (simp add: slot_users_def)
qed

lemma removeSlot_conns [simp]: "um_conns (removeSlot c um) = um_conns um"
  by (auto simp: removeSlot_def Let_def split: slot_type.split)

lemma add_slot_users:
  assumes fin: "finite C" and c: "c \<in> C"
  shows "slot_users C (add_slot c s um)
    \<le> slot_users C (set_conn c (\<lambda>co. co\<lparr>uc_slot := None\<rparr>) um) + (if ts_type s = USERSLOT then 1 else 0)"
proof -
  have o: "conn_count (holds_user False) (C - {c}) (add_slot c s um) = conn_count (holds_user False) (C - {c}) um"
    by (rule conn_count_other) (auto simp: add_slot_def Let_def split: slot_type.split)
  have h: "holds_user False (um_conns (add_slot c s um) c) \<longleftrightarrow> ts_type s = USERSLOT \<and> \<not> uc_mcn (um_conns um c)"
    by (auto simp: add_slot_def Let_def holds_user_def uc_slotType_def slot_toType_def split: slot_type.split)
  have m: "length (um_multiUploads (add_slot c s um))
      \<le> length (um_multiUploads um) + (if ts_type s = USERSLOT \<and> uc_mcn (um_conns um c) then 1 else 0)"
    by (auto simp: add_slot_def Let_def changeMultiConnSlot_def split: slot_type.split option.split)
  show ?thesis using o h m by (auto simp: slot_users_def conn_count_split [OF fin c] split: if_splits)
qed

lemma updateSlotCounts_users:
  assumes fin: "finite C" and c: "c \<in> C"
  shows "slot_users C (snd (updateSlotCounts e c s um))
    \<le> slot_users C um + (if ts_type s = USERSLOT \<and> uc_slotType (um_conns um c) \<noteq> USERSLOT then 1 else 0)"
proof (cases "uc_slotType (um_conns um c) = ts_type s")
  case True
  then show ?thesis by (simp add: updateSlotCounts_def)
next
  case False
  define um1 where "um1 = set_conn c (\<lambda>co. co\<lparr>uc_slot := None\<rparr>) (removeSlot c um)"
  have "slot_users C (snd (updateSlotCounts e c s um)) = slot_users C (grant_slot c s um)"
    using False by (simp add: updateSlotCounts_def Let_def slot_users_def conn_count_def)
  also have "\<dots> \<le> slot_users C um1 + (if ts_type s = USERSLOT then 1 else 0)"
    unfolding grant_add_slot um1_def by (intro add_slot_users fin c)
  also have "slot_users C um1 \<le> slot_users C um" by (rule removeSlot_users [OF fin, where c = c]) (simp_all add: um1_def)
  finally show ?thesis using False by (auto split: if_splits)
qed

text \<open>A full slot is granted only while a slot is free.\<close>

lemma max_slot_no_user:
  "(\<forall>s\<in>insert m (set ss). slot_toType s \<noteq> USERSLOT) \<Longrightarrow> slot_toType (max_slot m ss) \<noteq> USERSLOT"
  by (induction m ss rule: max_slot.induct) auto

lemma parseSlot_free:
  assumes w: "slots_within B e" and s: "parseSlot e co p um = Some s" and u: "ts_type s = USERSLOT" "uc_slotType co \<noteq> USERSLOT"
  shows "uint (um_runningUsers um) < int B"
proof -
  have "slot_toType (parseAutoGrant e co p) \<noteq> USERSLOT"
  proof (cases "ue_hooks e co p")
    case Nil
    then show ?thesis by (simp add: parseAutoGrant_def slot_toType_def)
  next
    case (Cons h hs)
    have "\<forall>s\<in>set (ue_hooks e co p). slot_toType s \<noteq> USERSLOT" using w by (simp add: slots_within_def)
    then have "\<forall>s\<in>insert h (set hs). slot_toType s \<noteq> USERSLOT" by (simp add: Cons)
    then show ?thesis using Cons max_slot_no_user by (simp add: parseAutoGrant_def)
  qed
  then have "standardSlotsRemaining e (hu_user (uc_user co)) um"
    using s u by (auto simp: parseSlot_def Let_def slot_toType_def split: if_splits)
  moreover have "uint (um_runningUsers um) < uint (um_getSlots e)" if "0 < getFreeSlots e um"
  proof (rule ccontr)
    assume "\<not> uint (um_runningUsers um) < uint (um_getSlots e)"
    then have "getFreeSlots e um = 0" by (simp add: getFreeSlots_def)
    then show False using that by simp
  qed
  ultimately show ?thesis using w
    by (auto simp: slots_within_def standardSlotsRemaining_def lowSpeedSlotsRemaining_def Let_def split: if_splits)
qed

lemma resumeStream_slots [simp]:
  "slot_view (um_conns (snd (resumeStream c p um)) x) = slot_view (um_conns um x)"
  "um_multiUploads (snd (resumeStream c p um)) = um_multiUploads um"
  "um_runningUsers (snd (resumeStream c p um)) = um_runningUsers um"
  by (simp_all add: resumeStream_def split: option.split)

lemma prepareFile_Prepared:
  assumes "prepareFile e c r um0 = Some (Prepared d, um')"
  obtains um p s str um1 up um3 q where "slot_users C um = slot_users C um0" and "um_runningUsers um = um_runningUsers um0"
    and "slot_view (um_conns um c) = slot_view (um_conns um0 c)"
    and "parseSlot e (um_conns um c) p um = Some s" and "resumeStream c p um = (str, um1)"
    and "updateSlotCounts e c s (set_conn c (\<lambda>co. co\<lparr>uc_upload := Some (up_token up)\<rparr>)
           (um1\<lparr>um_nextToken := um_nextToken um1 + 1, um_uploads := um_uploads um1 @ [up]\<rparr>)) = (d, um3)"
    and "um' = um3\<lparr>um_queue := q\<rparr>"
proof -
  define hinted where "hinted hub = set_conn c (\<lambda>co. co\<lparr>uc_user := (uc_user co)\<lparr>hu_hint := hub\<rparr>\<rparr>) um0" for hub
  have same: "slot_users C (hinted hub) = slot_users C um0" for hub
    by (rule slot_users_cong) (simp_all add: hinted_def slot_view_def)
  show ?thesis
    using assms that [OF same] unfolding prepareFile_def Let_def hinted_def [symmetric]
    by (auto simp: hinted_def slot_view_def simp del: One_nat_def
        split: if_splits option.splits sum.splits parse_exception.splits prod.splits)
qed

lemma prepareFile_refused:
  assumes p: "prepareFile e c r um0 = Some (res, um')" and n: "\<forall>d. res \<noteq> Prepared d"
  shows "slot_users C um' = slot_users C um0"
proof -
  define um where "um hub = set_conn c (\<lambda>co. co\<lparr>uc_user := (uc_user co)\<lparr>hu_hint := hub\<rparr>\<rparr>) um0" for hub
  have same: "slot_users C (um hub) = slot_users C um0" for hub
    by (rule slot_users_cong) (simp_all add: um_def slot_view_def)
  have q: "slot_users C (v\<lparr>um_queue := q\<rparr>) = slot_users C v" for v q by (rule slot_users_cong) simp_all
  have rs: "slot_users C um1 = slot_users C um0" if "resumeStream c p (um hub) = (str, um1)" for p hub str um1
  proof -
    have "slot_users C (snd (resumeStream c p (um hub))) = slot_users C (um hub)" by (rule slot_users_cong) simp_all
    then show ?thesis using that same by simp
  qed
  show ?thesis using p n unfolding prepareFile_def Let_def um_def [symmetric]
    by (auto simp: same rs q simp del: One_nat_def
        split: if_splits option.splits sum.splits parse_exception.splits prod.splits)
qed

lemma prepareFile_users:
  assumes inv: "slots_inv C um0" and c: "c \<in> C" and w: "slots_within B e" and B: "B < 256" and le: "slot_users C um0 \<le> B"
    and p: "prepareFile e c r um0 = Some (res, um')"
  shows "slot_users C um' \<le> B"
proof (cases "\<exists>d. res = Prepared d")
  case False
  then show ?thesis using prepareFile_refused [OF p] le by simp
next
  case True
  then obtain d where d: "prepareFile e c r um0 = Some (Prepared d, um')" using p by blast
  obtain um pu s str um1 up um3 q where u: "slot_users C um = slot_users C um0" "um_runningUsers um = um_runningUsers um0"
      "slot_view (um_conns um c) = slot_view (um_conns um0 c)"
    and s: "parseSlot e (um_conns um c) pu um = Some s" and r: "resumeStream c pu um = (str, um1)"
    and g: "updateSlotCounts e c s (set_conn c (\<lambda>co. co\<lparr>uc_upload := Some (up_token up)\<rparr>)
         (um1\<lparr>um_nextToken := um_nextToken um1 + 1, um_uploads := um_uploads um1 @ [up]\<rparr>)) = (d, um3)"
    and um': "um' = um3\<lparr>um_queue := q\<rparr>"
    using prepareFile_Prepared [OF d, of C] by blast
  define um2 where "um2 = set_conn c (\<lambda>co. co\<lparr>uc_upload := Some (up_token up)\<rparr>)
         (um1\<lparr>um_nextToken := um_nextToken um1 + 1, um_uploads := um_uploads um1 @ [up]\<rparr>)"
  have fin: "finite C" using inv by (simp add: slots_inv_def)
  have v: "slot_view (um_conns um2 x) = slot_view (um_conns um x)" for x
    using resumeStream_slots(1) [of c pu um x] r by (cases "x = c") (simp_all add: um2_def slot_view_def)
  have "slot_users C um2 = slot_users C um"
    by (rule slot_users_cong [OF v]) (use resumeStream_slots(2) [of c pu um] r in \<open>simp add: um2_def\<close>)
  moreover have "slot_users C um' = slot_users C um3" unfolding um' by (rule slot_users_cong) simp_all
  moreover have "uc_slotType (um_conns um2 c) = uc_slotType (um_conns um c)" using v [of c] by (simp add: slot_view_def uc_slotType_def)
  ultimately have n: "slot_users C um'
      \<le> slot_users C um0 + (if ts_type s = USERSLOT \<and> uc_slotType (um_conns um c) \<noteq> USERSLOT then 1 else 0)"
    using updateSlotCounts_users [OF fin c, of e s um2] g u(1) by (simp add: um2_def)
  show ?thesis
  proof (cases "ts_type s = USERSLOT \<and> uc_slotType (um_conns um c) \<noteq> USERSLOT")
    case True
    then have "uint (um_runningUsers um0) < int B" using parseSlot_free [OF w s] u(2) by simp
    moreover have "uint (um_runningUsers um0) = int (slot_users C um0)" using le B by (intro uint_running [OF inv]) simp
    ultimately show ?thesis using n True by simp
  next
    case False
    then show ?thesis using n le by (simp add: if_not_P)
  qed
qed

lemma removeUpload_users:
  assumes "uploads_ok C um" and "c \<in> C" and "uc_upload (um_conns um c) = Some tok"
  shows "slot_users C (removeUpload tok d um) = slot_users C um"
  by (rule slot_users_cong [OF removeUpload_ok(3) [OF assms]]) (simp_all add: removeUpload_def Let_def split: option.split)

lemma set_state_users [simp]: "slot_users C (set_state c s um) = slot_users C um"
  by (rule slot_users_cong) (simp_all add: set_state_def slot_view_def)

lemma uploads_users [simp]:
  "slot_users C (um\<lparr>um_uploads := us\<rparr>) = slot_users C um" "slot_users C (um\<lparr>um_delayUploads := us\<rparr>) = slot_users C um"
  "slot_users C (um\<lparr>um_queue := q\<rparr>) = slot_users C um" "slot_users C (delete_upload u um) = slot_users C um"
  by (rule slot_users_cong; simp)+

lemma um_step_users:
  assumes "um_step E s s'" and "um_state_ok s" and "\<And>e. E e \<Longrightarrow> slots_within B e" and "B < 256"
    and "case s of (C, ps, um) \<Rightarrow> slot_users C um \<le> B"
  shows "case s' of (C, ps, um) \<Rightarrow> slot_users C um \<le> B"
  using assms
proof (induction rule: um_step.induct)
  case (connect c C co ps um)
  then have fin: "finite C" by (simp add: um_state_ok_def um_inv_def slots_inv_def)
  define um1 where "um1 = addConnection c (set_conn c (\<lambda>_. co) um)"
  have "slot_users (insert c C) um1 = slot_users C um1"
    using fin connect(1,3) conn_count_split [of "insert c C" c "holds_user False" um1]
    by (simp add: slot_users_def um1_def addConnection_def set_state_def holds_user_def uc_slotType_def slot_toType_def)
  also have "\<dots> = slot_users C um"
    by (rule slot_users_cong) (use connect(1) in \<open>auto simp: um1_def addConnection_def set_state_def\<close>)
  finally show ?case using connect by (simp add: um1_def)
next
  case (get_adc e c C r zl tth um res um' ps)
  then obtain r' um1 where p: "prepareFile e c r' um = Some (res, um1)"
    and um': "slot_users C um' = slot_users C um1"
    by (cases res) (auto simp: on_GET_def startTransfer_def split: if_splits)
  have "slots_inv C um" using get_adc by (simp add: um_state_ok_def um_inv_def)
  then show ?case using prepareFile_users [OF _ get_adc(2) get_adc(6) [OF get_adc(1)] get_adc(7) _ p] get_adc um' by simp
next
  case (get_nmdc e c C f n um res um' ps)
  then obtain r' um1 where p: "prepareFile e c r' um = Some (res, um1)"
    and um': "slot_users C um' = slot_users C um1"
    by (cases res) (auto simp: on_Get_def split: if_splits)
  have "slots_inv C um" using get_nmdc by (simp add: um_state_ok_def um_inv_def)
  then show ?case using prepareFile_users [OF _ get_nmdc(2) get_nmdc(6) [OF get_nmdc(1)] get_nmdc(7) _ p] get_nmdc um' by simp
next
  case (send c C ps um)
  then show ?case by (simp add: on_Send_def startTransfer_def)
next
  case (sent c C um ps)
  show ?case
  proof (cases "uc_upload (um_conns um c)")
    case (Some tok)
    have "uploads_ok C (set_state c STATE_GET um)" using sent
      by (auto simp: um_state_ok_def um_inv_def set_state_def all_uploads_def intro: uploads_ok_cong)
    moreover have "uc_upload (um_conns (set_state c STATE_GET um) c) = Some tok" using Some by (simp add: set_state_def)
    ultimately have "slot_users C (removeUpload tok d (set_state c STATE_GET um)) = slot_users C um" for d
      using removeUpload_users [of C "set_state c STATE_GET um" c tok d] sent by simp
    then show ?thesis using sent Some by (simp add: on_TransmitDone_def Let_def)
  qed (use sent in \<open>simp add: on_TransmitDone_def\<close>)
next
  case (failed c C ps um)
  define um1 where "um1 = (case uc_upload (um_conns um c) of None \<Rightarrow> um | Some tok \<Rightarrow> removeUpload tok False um)"
  have i: "um_inv C um" using failed by (simp add: um_state_ok_def)
  then have fin: "finite C" by (simp add: um_inv_def slots_inv_def)
  have "slot_users C um1 = slot_users C um"
    using i removeUpload_users [OF _ failed(1)] by (auto simp: um1_def um_inv_def split: option.split)
  moreover have "slot_users C (on_Failed c um) \<le> slot_users C um1"
    by (rule removeSlot_users [OF fin, where c = c]) (simp_all add: on_Failed_def um1_def um_removeConnection_def)
  moreover have "slot_users (C - {c}) (on_Failed c um) \<le> slot_users C (on_Failed c um)"
    using fin by (simp add: slot_users_def conn_count_def card_mono Collect_mono)
  ultimately show ?case using failed by simp
next
  case (second um ts um' C ps)
  then show ?case by (auto simp: checkExpiredDelayUploads_def Let_def)
next
  case (expire t ps C um)
  then show ?case by (simp add: expire_upload_def split: option.split)
next
  case (minute us k f nf um cs um' C ps)
  then show ?case by (auto simp: disconnectOfflineUsers_def Let_def split: if_splits)
next
  case (notify e us um ws um' C ps)
  then show ?case by (auto simp: um_notifyQueued_def split: prod.splits)
qed

lemma um_steps_users:
  assumes "(um_step E)\<^sup>*\<^sup>* s s'" and "um_state_ok s" and "\<And>e. E e \<Longrightarrow> slots_within B e" and "B < 256"
    and "case s of (C, ps, um) \<Rightarrow> slot_users C um \<le> B"
  shows "case s' of (C, ps, um) \<Rightarrow> slot_users C um \<le> B"
  using assms
proof (induction rule: rtranclp_induct)
  case (step y z)
  then show ?case using um_step_users [OF step.hyps(2) um_steps_ok [OF step.hyps(1) step.prems(1)] step.prems(2,3)] by blast
qed

section \<open>The invariant\<close>

definition up_env :: upload_env where
  "up_env = \<lparr>ue_share = test_share, ue_limits = test_limits\<lparr>AUTO_SLOTS := 0, UPLOAD_SLOTS := 1\<rparr>, ue_hour = 12, ue_lg = (\<lambda>_. 0), ue_tick = 100000,
     ue_average = 0, EXTRA_SLOTS = 3, ue_profile = (\<lambda>_ _. Some ''adc://hub''), ue_hooks = (\<lambda>_ _. []), ue_isOp = (\<lambda>_. False)\<rparr>"

definition up_conns :: "nat \<Rightarrow> uconn" where
  "up_conns c = \<lparr>uc_user = \<lparr>hu_user = c, hu_hint = []\<rparr>, uc_connectToken = [], uc_slot = None, uc_mcn = False,
     uc_miniSlots = False, uc_state = STATE_OTHER, uc_upload = None\<rparr>"


definition up_connect :: "nat \<Rightarrow> upload_manager \<Rightarrow> upload_manager" where
  "up_connect c um = addConnection c (set_conn c (\<lambda>_. up_conns c) um)"

definition up_run :: "(upload_manager \<Rightarrow> bool) \<Rightarrow> bool" where
  "up_run P \<longleftrightarrow>
     (case on_GET up_env 1 (test_request 1 2) False False (up_connect 1 (um_start up_conns)) of
        Some (Inr (Prepared _, um1)) \<Rightarrow>
          (case on_GET up_env 2 (test_request 0 (- 1)) True False (up_connect 2 um1) of
             Some (Inr (Refused _, um2)) \<Rightarrow> P um2
           | _ \<Rightarrow> False)
      | _ \<Rightarrow> False)"

lemma up_run_counts: "up_run (\<lambda>um. um_runningUsers um = 1 \<and> length (um_uploads um) = 1)"
  by code_simp

lemma up_env_within: "slots_within 1 up_env"
proof -
  have "uint (um_getSlots up_env) + max 0 (getMaxAutoOpened (ue_limits up_env) (ue_hour up_env) 0) \<le> int 1" by code_simp
  then show ?thesis by (simp add: slots_within_def up_env_def)
qed

lemma case_prepared:
  "(case x of Some (Inr (Prepared d, um)) \<Rightarrow> Q um | _ \<Rightarrow> False) \<longleftrightarrow> (\<exists>d um. x = Some (Inr (Prepared d, um)) \<and> Q um)"
  by (simp split: option.split sum.split prod.split prepare_result.split) blast?

lemma case_refused:
  "(case x of Some (Inr (Refused d, um)) \<Rightarrow> Q um | _ \<Rightarrow> False) \<longleftrightarrow> (\<exists>d um. x = Some (Inr (Refused d, um)) \<and> Q um)"
  by (simp split: option.split sum.split prod.split prepare_result.split) blast?

lemma up_run_steps:
  assumes "up_run P"
  obtains um where "(um_step (\<lambda>e. e = up_env))\<^sup>*\<^sup>* ({}, [], um_start up_conns) ({1, 2}, [], um)" and "P um"
proof -
  let ?S = "um_step (\<lambda>e. e = up_env)"
  obtain d um1 rs um2 where g: "on_GET up_env 1 (test_request 1 2) False False (up_connect 1 (um_start up_conns)) = Some (Inr (Prepared d, um1))"
      "on_GET up_env 2 (test_request 0 (- 1)) True False (up_connect 2 um1) = Some (Inr (Refused rs, um2))" and P: "P um2"
    using assms unfolding up_run_def case_prepared case_refused by blast
  have "?S ({}, [], um_start up_conns) ({1}, [], up_connect 1 (um_start up_conns))"
    unfolding up_connect_def by (rule um_step.connect) (simp_all add: up_conns_def)
  moreover have "?S ({1}, [], up_connect 1 (um_start up_conns)) ({1}, [], um1)" by (rule um_step.get_adc [OF _ _ g(1)]) simp_all
  moreover have "?S ({1}, [], um1) ({1, 2}, [], up_connect 2 um1)"
    unfolding up_connect_def insert_commute [of 1 2] by (rule um_step.connect) (simp_all add: up_conns_def)
  moreover have "?S ({1, 2}, [], up_connect 2 um1) ({1, 2}, [], um2)" by (rule um_step.get_adc [OF _ _ g(2)]) simp_all
  ultimately have "?S\<^sup>*\<^sup>* ({}, [], um_start up_conns) ({1, 2}, [], um2)"
    by (meson converse_rtranclp_into_rtranclp rtranclp.rtrancl_refl)
  then show ?thesis using P by (rule that)
qed

text \<open>
  C31: In every run of the upload manager the counters of slots are the numbers of connections that hold them (users
  with plain slots and users with multi-connection slots, multi-connection slots in all and per user, small-file
  slots, mini slots); every connection has at most one upload, running or delayed, which it points to; a connection
  is in state \<open>GET\<close> exactly when it has no running upload; and the delayed uploads handed over for removal are
  never running.  Counters of 8 bits may wrap; those of the 16-bit map are exact below 65,536 connections.
\<close>

theorem upload_manager_invariant:
  assumes "(um_step E)\<^sup>*\<^sup>* ({}, [], um_start conns) (C, ps, um)"
  shows "slots_inv C um \<and> uploads_ok C um \<and> states_ok C um \<and> pending_ok ps um"
  using um_steps_ok [OF assms um_start_ok] by (simp add: um_state_ok_def um_inv_def)

theorem upload_manager_invariant_witness:
  "\<exists>um. (um_step (\<lambda>e. e = up_env))\<^sup>*\<^sup>* ({}, [], um_start up_conns) ({1, 2}, [], um)
     \<and> um_runningUsers um = 1 \<and> length (um_uploads um) = 1 \<and> slots_inv {1, 2} um \<and> uploads_ok {1, 2} um"
proof -
  obtain um where r: "(um_step (\<lambda>e. e = up_env))\<^sup>*\<^sup>* ({}, [], um_start up_conns) ({1, 2}, [], um)"
    and c: "um_runningUsers um = 1 \<and> length (um_uploads um) = 1"
    using up_run_steps [OF up_run_counts] by blast
  show ?thesis using r c upload_manager_invariant [OF r] by blast
qed



end
