(* ===== verification/Buffered_Socket.thy ===== *)
theory Buffered_Socket
  imports Upload_File
begin

text \<open>
  \<^bold>\<open>connection/socket/BufferedSocket.cpp\<close>: how the bytes of a connection become lines and data, and how a file is
  sent.  A listener is a function from an event and its own state to the calls it makes on the socket and its new
  state.  The decompression of \<open>UnZFilter\<close> is a parameter.  Reads and writes of the operating system are arguments:
  the bytes that arrive, and how much of each write is taken.  Loops that may run forever are
  \<open>partial_function (option)\<close>; \<open>Inl\<close> is an exception.
\<close>

section \<open>Reading\<close>

datatype sock_mode = MODE_LINE | MODE_ZPIPE | MODE_DATA

datatype sock_event = Ev_Line string | Ev_Data "byte list" | Ev_ModeChange

datatype sock_call = Call_setDataMode int | Call_setMode sock_mode nat

datatype sock_error = CONNECTION_CLOSED | COMMAND_TOO_LONG | FILTER_ERROR string

type_synonym 'c listener = "sock_event \<Rightarrow> 'c \<Rightarrow> sock_call list \<times> 'c"

record 'f bsock =
  bs_mode :: sock_mode
  bs_filterIn :: "'f option"
  bs_dataBytes :: int
  bs_rollback :: nat
  bs_line :: string
  bs_separator :: char

text \<open>
  A filter: a new one, and one run over input with room for so many bytes, which says whether more follows, how
  much it has used, and what it has made.
\<close>

record 'f unz =
  uz_new :: 'f
  uz_run :: "'f \<Rightarrow> byte list \<Rightarrow> nat \<Rightarrow> string + bool \<times> nat \<times> byte list \<times> 'f"

definition setDataMode :: "int \<Rightarrow> 'f bsock \<Rightarrow> 'f bsock" where
  "setDataMode aBytes s = s\<lparr>bs_mode := MODE_DATA, bs_dataBytes := aBytes\<rparr>"

definition setMode :: "'f unz \<Rightarrow> sock_mode \<Rightarrow> nat \<Rightarrow> 'f bsock \<Rightarrow> 'f bsock" where
  "setMode uz aMode aRollback s =
     (if bs_mode s = aMode then s
      else
        let s = (if bs_mode s = MODE_ZPIPE then s\<lparr>bs_filterIn := None\<rparr> else s);
            s = (case aMode of
                   MODE_LINE \<Rightarrow> s\<lparr>bs_rollback := aRollback\<rparr>
                 | MODE_ZPIPE \<Rightarrow> s\<lparr>bs_filterIn := Some (uz_new uz)\<rparr>
                 | MODE_DATA \<Rightarrow> s)
        in s\<lparr>bs_mode := aMode\<rparr>)"

fun do_call :: "'f unz \<Rightarrow> sock_call \<Rightarrow> 'f bsock \<Rightarrow> 'f bsock" where
  "do_call uz (Call_setDataMode n) s = setDataMode n s"
| "do_call uz (Call_setMode m r) s = setMode uz m r s"

definition sock_fire :: "'f unz \<Rightarrow> 'c listener \<Rightarrow> sock_event \<Rightarrow> 'f bsock \<times> 'c \<Rightarrow> 'f bsock \<times> 'c" where
  "sock_fire uz L ev sc =
     (case sc of (s, c) \<Rightarrow> (case L ev c of (calls, c) \<Rightarrow> (fold (do_call uz) calls s, c)))"

text \<open>The part before the first separator and the part after it.\<close>

definition split_line :: "char \<Rightarrow> string \<Rightarrow> (string \<times> string) option" where
  "split_line sepc l =
     (let p = takeWhile (\<lambda>x. x \<noteq> sepc) l
      in if length p = length l then None else Some (p, drop (length p + 1) l))"

text \<open>The loops over lines: outside of compressed mode a change of the mode ends it, and the rest is given back.\<close>

lemma split_line_shorter: "split_line sepc l = Some (p, l') \<Longrightarrow> length l' < length l"
  using length_takeWhile_le [of "\<lambda>x. x \<noteq> sepc" l] by (auto simp: split_line_def Let_def split: if_splits)

function line_loop :: "'f unz \<Rightarrow> 'c listener \<Rightarrow> string \<Rightarrow> nat \<Rightarrow> 'f bsock \<times> 'c \<Rightarrow> string \<times> nat \<times> 'f bsock \<times> 'c" where
  "line_loop uz L l left sc =
     (case split_line (bs_separator (fst sc)) l of
        None \<Rightarrow> (l, 0, sc)
      | Some (p, l) \<Rightarrow>
          let sc = (if 0 < length p then sock_fire uz L (Ev_Line p) sc else sc);
              left = (if length l < left then length l else left)
          in if bs_mode (fst sc) \<noteq> MODE_LINE then ([], left, sc)
             else line_loop uz L l left sc)"
  by pat_completeness auto
termination
  by (relation "measure (\<lambda>(_, _, l, _). length l)") (auto dest: split_line_shorter)

function zlines_loop :: "'f unz \<Rightarrow> 'c listener \<Rightarrow> string \<Rightarrow> 'f bsock \<times> 'c \<Rightarrow> string \<times> 'f bsock \<times> 'c" where
  "zlines_loop uz L l sc =
     (case split_line (bs_separator (fst sc)) l of
        None \<Rightarrow> (l, sc)
      | Some (p, l) \<Rightarrow> zlines_loop uz L l (if 0 < length p then sock_fire uz L (Ev_Line p) sc else sc))"
  by pat_completeness auto
termination
  by (relation "measure (\<lambda>(_, _, l, _). length l)") (auto dest: split_line_shorter)

declare line_loop.simps [simp del] zlines_loop.simps [simp del]

text \<open>Decompression of what is left of the buffer, appended to a line; the rest when the stream ends before it.\<close>

partial_function (option) zpipe_fill ::
    "'f unz \<Rightarrow> string \<Rightarrow> byte list \<Rightarrow> 'f bsock \<Rightarrow> (sock_error + string \<times> byte list \<times> 'f bsock) option" where
  "zpipe_fill uz l rest s =
     (if rest = [] then Some (Inr (l, [], s))
      else
        case bs_filterIn s of
          None \<Rightarrow> None
        | Some f \<Rightarrow>
            (case uz_run uz f rest 1024 of
               Inl e \<Rightarrow> Some (Inl (FILTER_ERROR e))
             | Inr (ret, used, out, f) \<Rightarrow>
                 (let l = l @ bytes_str out; rest = drop used rest; s = s\<lparr>bs_filterIn := Some f\<rparr>
                  in if \<not> ret then Some (Inr (l, rest, setMode uz MODE_LINE (bs_rollback s) s))
                     else zpipe_fill uz l rest s)))"

text \<open>
  Data.  A negative number of bytes other than \<open>- 1\<close> and a rollback of more than was given would read outside
  of the buffer (\<open>None\<close>).
\<close>

partial_function (option) data_loop ::
    "'f unz \<Rightarrow> 'c listener \<Rightarrow> byte list \<Rightarrow> 'f bsock \<times> 'c \<Rightarrow> (byte list \<times> 'f bsock \<times> 'c) option" where
  "data_loop uz L rest sc =
     (if rest = [] then Some ([], sc)
      else if bs_dataBytes (fst sc) = - 1 then
        (case sock_fire uz L (Ev_Data rest) sc of
           (s, c) \<Rightarrow>
             if length rest < bs_rollback s then None
             else data_loop uz L (drop (length rest - bs_rollback s) rest) (s\<lparr>bs_rollback := 0\<rparr>, c))
      else if bs_dataBytes (fst sc) < 0 then None
      else
        let high = nat (min (bs_dataBytes (fst sc)) (int (length rest))) in
        case sock_fire uz L (Ev_Data (take high rest)) sc of
          (s, c) \<Rightarrow>
            let rest = drop high rest; s = s\<lparr>bs_dataBytes := bs_dataBytes s - int high\<rparr>
            in if bs_dataBytes s = 0 then Some (rest, sock_fire uz L Ev_ModeChange (s\<lparr>bs_mode := MODE_LINE\<rparr>, c))
               else data_loop uz L rest (s, c))"

definition detect_separator :: "byte list \<Rightarrow> 'f bsock \<Rightarrow> 'f bsock" where
  "detect_separator inbuf s =
     (if bs_separator s = CHR 0x00
      then s\<lparr>bs_separator := (if inbuf ! 0 = byte_of_char CHR ''$'' then CHR ''|'' else CHR 0x0A)\<rparr> else s)"

text \<open>The loop over the bytes of one read; \<open>inbuf\<close> is all of them and \<open>rest\<close> what is left.\<close>

partial_function (option) read_loop ::
    "'f unz \<Rightarrow> 'c listener \<Rightarrow> byte list \<Rightarrow> byte list \<Rightarrow> 'f bsock \<times> 'c \<Rightarrow> (sock_error + 'f bsock \<times> 'c) option" where
  "read_loop uz L inbuf rest sc =
     (if rest = [] then Some (Inr sc)
      else case bs_mode (fst sc) of
        MODE_ZPIPE \<Rightarrow>
          (case zpipe_fill uz (bs_line (fst sc)) rest (fst sc) of
             None \<Rightarrow> None
           | Some (Inl e) \<Rightarrow> Some (Inl e)
           | Some (Inr (l, rest, s)) \<Rightarrow>
               (case zlines_loop uz L l (s, snd sc) of
                  (l, s, c) \<Rightarrow> read_loop uz L inbuf rest (s\<lparr>bs_line := l\<rparr>, c)))
      | MODE_LINE \<Rightarrow>
          (let s = detect_separator inbuf (fst sc) in
           case line_loop uz L (bs_line s @ bytes_str rest) (length rest) (s, snd sc) of
             (l, left, s, c) \<Rightarrow> read_loop uz L inbuf (drop (length rest - left) rest) (s\<lparr>bs_line := l\<rparr>, c))
      | MODE_DATA \<Rightarrow>
          (case data_loop uz L rest sc of
             None \<Rightarrow> None
           | Some (rest, sc) \<Rightarrow> read_loop uz L inbuf rest sc))"

text \<open>What a read of the socket gives: no data yet, the end, or bytes.\<close>

datatype sock_read = Would_Block | Closed | Got "byte list"

definition threadRead ::
    "'f unz \<Rightarrow> nat \<Rightarrow> 'c listener \<Rightarrow> sock_read \<Rightarrow> 'f bsock \<times> 'c \<Rightarrow> (sock_error + 'f bsock \<times> 'c) option" where
  "threadRead uz maxLen L r sc =
     (case r of
        Would_Block \<Rightarrow> Some (Inr sc)
      | Closed \<Rightarrow> Some (Inl CONNECTION_CLOSED)
      | Got inbuf \<Rightarrow>
          (case read_loop uz L inbuf inbuf sc of
             None \<Rightarrow> None
           | Some (Inl e) \<Rightarrow> Some (Inl e)
           | Some (Inr (s, c)) \<Rightarrow>
               if bs_mode s = MODE_LINE \<and> maxLen < length (bs_line s) then Some (Inl COMMAND_TOO_LONG)
               else Some (Inr (s, c))))"

section \<open>One byte at a time\<close>

text \<open>What a connection means: a line ends at its separator, data is counted or open-ended.\<close>

definition feed :: "'f unz \<Rightarrow> 'c listener \<Rightarrow> 'f bsock \<times> 'c \<Rightarrow> byte \<Rightarrow> 'f bsock \<times> 'c" where
  "feed uz L sc b =
     (case sc of (s, c) \<Rightarrow>
        if bs_mode s = MODE_LINE then
          if char_of_byte b = bs_separator s
          then (case (if bs_line s \<noteq> [] then sock_fire uz L (Ev_Line (bs_line s)) (s, c) else (s, c)) of
                  (s, c) \<Rightarrow> (s\<lparr>bs_line := []\<rparr>, c))
          else (s\<lparr>bs_line := bs_line s @ [char_of_byte b]\<rparr>, c)
        else
          (case sock_fire uz L (Ev_Data [b]) (s, c) of
             (s, c) \<Rightarrow>
               if bs_dataBytes s = - 1 then (s, c)
               else
                 let s = s\<lparr>bs_dataBytes := bs_dataBytes s - 1\<rparr>
                 in if bs_dataBytes s = 0 then sock_fire uz L Ev_ModeChange (s\<lparr>bs_mode := MODE_LINE\<rparr>, c) else (s, c)))"

definition feeds :: "'f unz \<Rightarrow> 'c listener \<Rightarrow> byte list \<Rightarrow> 'f bsock \<times> 'c \<Rightarrow> 'f bsock \<times> 'c" where
  "feeds uz L bs sc = foldl (feed uz L) sc bs"

lemma feeds_simps [simp]: "feeds uz L [] sc = sc" "feeds uz L (b # bs) sc = feeds uz L bs (feed uz L sc b)"
  "feeds uz L (xs @ ys) sc = feeds uz L ys (feeds uz L xs sc)"
  by (simp_all add: feeds_def)

text \<open>
  A listener that switches to a positive or open number of data bytes after lines only, and to which it does not
  matter how data is divided.
\<close>

definition data_calls :: "sock_call list \<Rightarrow> bool" where
  "data_calls cs \<longleftrightarrow> cs = [] \<or> (\<exists>n. cs = [Call_setDataMode n] \<and> (n = - 1 \<or> 0 < n))"

definition plain_listener :: "'c listener \<Rightarrow> bool" where
  "plain_listener L \<longleftrightarrow>
     (\<forall>l c. l \<noteq> [] \<longrightarrow> data_calls (fst (L (Ev_Line l) c))) \<and> (\<forall>c. data_calls (fst (L Ev_ModeChange c)))
     \<and> (\<forall>bs c. fst (L (Ev_Data bs) c) = [])
     \<and> (\<forall>a b c. a \<noteq> [] \<longrightarrow> b \<noteq> [] \<longrightarrow> snd (L (Ev_Data (a @ b)) c) = snd (L (Ev_Data b) (snd (L (Ev_Data a) c))))"

definition sock_ok :: "'f bsock \<Rightarrow> bool" where
  "sock_ok s \<longleftrightarrow>
     bs_rollback s = 0 \<and> bs_separator s \<noteq> CHR 0x00 \<and> bs_separator s \<notin> set (bs_line s)
     \<and> (bs_mode s = MODE_LINE \<or> bs_mode s = MODE_DATA \<and> bs_line s = [] \<and> (bs_dataBytes s = - 1 \<or> 0 < bs_dataBytes s))"

lemma sock_fire_data:
  "plain_listener L \<Longrightarrow> sock_fire uz L (Ev_Data bs) (s, c) = (s, snd (L (Ev_Data bs) c))"
  by (auto simp: sock_fire_def plain_listener_def split: prod.split) (metis fst_conv fold_simps(1) id_apply)

lemma fire_other_ok:
  assumes "plain_listener L" and "ev = Ev_ModeChange \<or> (\<exists>l. l \<noteq> [] \<and> ev = Ev_Line l)" and "sock_ok (s\<lparr>bs_line := []\<rparr>)" and "bs_mode s = MODE_LINE"
    and "sock_fire uz L ev (s, c) = (s', c')"
  shows "sock_ok (s'\<lparr>bs_line := []\<rparr>)" and "bs_separator s' = bs_separator s" and "bs_mode s' \<noteq> MODE_ZPIPE"
    and "bs_line s' = bs_line s" and "sock_fire uz L ev (s\<lparr>bs_line := l\<rparr>, c) = (s'\<lparr>bs_line := l\<rparr>, c')"
proof -
  obtain calls d where L: "L ev c = (calls, d)" by fastforce
  have "data_calls calls" using assms(1,2) L unfolding plain_listener_def by (metis fst_conv)
  then consider "calls = []" | n where "calls = [Call_setDataMode n]" "n = - 1 \<or> 0 < n" unfolding data_calls_def by blast
  then have "sock_ok (s'\<lparr>bs_line := []\<rparr>) \<and> bs_separator s' = bs_separator s \<and> bs_mode s' \<noteq> MODE_ZPIPE
      \<and> bs_line s' = bs_line s \<and> sock_fire uz L ev (s\<lparr>bs_line := l\<rparr>, c) = (s'\<lparr>bs_line := l\<rparr>, c')"
  proof cases
    case 1
    then show ?thesis using L assms(3-5) by (simp add: sock_fire_def)
  next
    case (2 n)
    have "s' = setDataMode n s" "c' = d" using 2 L assms(5) by (simp_all add: sock_fire_def)
    then show ?thesis using 2 L assms(3,4) by (auto simp: sock_fire_def setDataMode_def sock_ok_def)
  qed
  then show "sock_ok (s'\<lparr>bs_line := []\<rparr>)" "bs_separator s' = bs_separator s" "bs_mode s' \<noteq> MODE_ZPIPE"
    "bs_line s' = bs_line s" "sock_fire uz L ev (s\<lparr>bs_line := l\<rparr>, c) = (s'\<lparr>bs_line := l\<rparr>, c')" by simp_all
qed

text \<open>Feeding a line without its separator, and data.\<close>

lemma feeds_no_separator:
  "bs_mode s = MODE_LINE \<Longrightarrow> bs_separator s \<notin> set (bytes_str a)
    \<Longrightarrow> feeds uz L a (s, c) = (s\<lparr>bs_line := bs_line s @ bytes_str a\<rparr>, c)"
  by (induction a arbitrary: s) (auto simp: bytes_str_def feed_def)

lemma feeds_open_data:
  assumes L: "plain_listener L" and "bs_mode s = MODE_DATA" and "bs_dataBytes s = - 1"
  shows "a \<noteq> [] \<Longrightarrow> feeds uz L a (s, c) = (s, snd (L (Ev_Data a) c))"
proof (induction a arbitrary: c rule: list.induct)
  case (Cons b a)
  have b: "feed uz L (s, c) b = (s, snd (L (Ev_Data [b]) c))" for c
    using assms by (simp add: feed_def sock_fire_data [OF L])
  show ?case
  proof (cases "a = []")
    case False
    then have "snd (L (Ev_Data ([b] @ a)) c) = snd (L (Ev_Data a) (snd (L (Ev_Data [b]) c)))"
      using L unfolding plain_listener_def by blast
    then show ?thesis using Cons.IH [OF False, of "snd (L (Ev_Data [b]) c)"] b by simp
  qed (simp add: b)
qed simp

lemma feeds_counted_data:
  assumes L: "plain_listener L" and "bs_mode s = MODE_DATA"
  shows "a \<noteq> [] \<Longrightarrow> int (length a) \<le> bs_dataBytes s \<Longrightarrow> feeds uz L a (s, c) =
    (if int (length a) = bs_dataBytes s
     then sock_fire uz L Ev_ModeChange (s\<lparr>bs_dataBytes := 0, bs_mode := MODE_LINE\<rparr>, snd (L (Ev_Data a) c))
     else (s\<lparr>bs_dataBytes := bs_dataBytes s - int (length a)\<rparr>, snd (L (Ev_Data a) c)))"
  using assms(2)
proof (induction a arbitrary: s c rule: list.induct)
  case (Cons b a)
  show ?case
  proof (cases "a = []")
    case True
    then show ?thesis using Cons.prems by (auto simp: feed_def sock_fire_data [OF L])
  next
    case False
    then have "snd (L (Ev_Data ([b] @ a)) c) = snd (L (Ev_Data a) (snd (L (Ev_Data [b]) c)))"
      using L unfolding plain_listener_def by blast
    moreover have "feed uz L (s, c) b = (s\<lparr>bs_dataBytes := bs_dataBytes s - 1\<rparr>, snd (L (Ev_Data [b]) c))"
      using Cons.prems False by (cases a) (auto simp: feed_def sock_fire_data [OF L])
    ultimately show ?thesis
      using Cons.IH [OF False, of "s\<lparr>bs_dataBytes := bs_dataBytes s - 1\<rparr>" "snd (L (Ev_Data [b]) c)"] Cons.prems by auto
  qed
qed simp

section \<open>A read is its bytes\<close>

lemma split_none: "sepc \<notin> set l \<Longrightarrow> split_line sepc l = None"
proof -
  assume "sepc \<notin> set l"
  then have t: "takeWhile (\<lambda>x. x \<noteq> sepc) l = l" by (simp add: takeWhile_eq_all_conv) blast
  show ?thesis unfolding split_line_def Let_def t by simp
qed

lemma split_some: "sepc \<notin> set p \<Longrightarrow> split_line sepc (p @ sepc # l) = Some (p, l)"
proof -
  assume "sepc \<notin> set p"
  then have "takeWhile (\<lambda>x. x \<noteq> sepc) (p @ sepc # l) = p" by (subst takeWhile_append2) auto
  then show ?thesis by (simp add: split_line_def)
qed

lemma bytes_str_simps [simp]: "bytes_str [] = []" "bytes_str (b # bs) = char_of_byte b # bytes_str bs"
  "bytes_str (xs @ ys) = bytes_str xs @ bytes_str ys" "length (bytes_str bs) = length bs" "bytes_str bs = [] \<longleftrightarrow> bs = []"
  by (simp_all add: bytes_str_def)

lemma line_loop_feeds:
  assumes L: "plain_listener L" and "sock_ok (s\<lparr>bs_line := pre\<rparr>)" and "bs_mode s = MODE_LINE"
    and "line_loop uz L (pre @ bytes_str rest) (length rest) (s, c) = (l, left, s', c')"
  shows "left \<le> length rest \<and> sock_ok (s'\<lparr>bs_line := l\<rparr>)
    \<and> feeds uz L rest (s\<lparr>bs_line := pre\<rparr>, c) = feeds uz L (drop (length rest - left) rest) (s'\<lparr>bs_line := l\<rparr>, c')
    \<and> (left = 0 \<or> left < length rest \<and> bs_mode s' = MODE_DATA)"
  using assms
proof (induction "length rest" arbitrary: rest pre s c rule: less_induct)
  case less
  define sepc where "sepc = bs_separator s"
  have pre: "sepc \<notin> set pre" using less.prems(2) by (simp add: sock_ok_def sepc_def)
  show ?case
  proof (cases "sepc \<in> set (bytes_str rest)")
    case False
    then have "line_loop uz L (pre @ bytes_str rest) (length rest) (s, c) = (pre @ bytes_str rest, 0, s, c)"
      using pre by (subst line_loop.simps) (simp add: split_none sepc_def)
    then have r: "l = pre @ bytes_str rest" "left = 0" "s' = s" "c' = c" using less.prems(4) by simp_all
    have "feeds uz L rest (s\<lparr>bs_line := pre\<rparr>, c) = (s\<lparr>bs_line := l\<rparr>, c)"
      using feeds_no_separator [of "s\<lparr>bs_line := pre\<rparr>" rest uz L c] False less.prems(3) by (simp add: sepc_def r)
    moreover have "sock_ok (s\<lparr>bs_line := l\<rparr>)" using less.prems(2,3) False by (simp add: sock_ok_def sepc_def r)
    ultimately show ?thesis using r by simp
  next
    case True
    then obtain u v where uv: "bytes_str rest = u @ sepc # v" "sepc \<notin> set u" by (meson split_list_first)
    then obtain a b rest2 where rest: "rest = a @ b # rest2" and abv: "bytes_str a = u" "char_of_byte b = sepc" "bytes_str rest2 = v"
      unfolding bytes_str_def by (auto simp: map_eq_append_conv map_eq_Cons_conv)
    define p where "p = pre @ u"
    have sp: "split_line (bs_separator s) (pre @ bytes_str rest) = Some (p, v)"
      using split_some [of sepc p v] pre uv by (simp add: p_def sepc_def)
    obtain s1 c1 where f: "(if 0 < length p then sock_fire uz L (Ev_Line p) (s, c) else (s, c)) = (s1, c1)" by fastforce
    have ok0: "sock_ok (s\<lparr>bs_line := []\<rparr>)" using less.prems(2,3) by (simp add: sock_ok_def)
    have one: "feeds uz L (a @ [b]) (s\<lparr>bs_line := pre\<rparr>, c) = (s1\<lparr>bs_line := []\<rparr>, c1)
        \<and> sock_ok (s1\<lparr>bs_line := []\<rparr>) \<and> bs_separator s1 = sepc \<and> bs_mode s1 \<noteq> MODE_ZPIPE"
    proof -
      have fa: "feeds uz L a (s\<lparr>bs_line := pre\<rparr>, c) = (s\<lparr>bs_line := p\<rparr>, c)"
        using feeds_no_separator [of "s\<lparr>bs_line := pre\<rparr>" a uz L c] less.prems(3) uv(2) abv(1) by (simp add: p_def sepc_def)
      show ?thesis
      proof (cases "p = []")
        case True
        then show ?thesis using f fa ok0 less.prems(3) abv(2) by (auto simp: feed_def sepc_def)
      next
        case False
        then have fi: "sock_fire uz L (Ev_Line p) (s, c) = (s1, c1)" using f by simp
        note fo = fire_other_ok [OF L _ ok0 less.prems(3) fi, simplified]
        show ?thesis using fa fo False less.prems(3) abv(2) by (simp add: feed_def sepc_def)
      qed
    qed
    have len: "length v = length rest2" using abv(3) by (metis length_map bytes_str_def)
    show ?thesis
    proof (cases "bs_mode s1 = MODE_LINE")
      case False
      then have "line_loop uz L (pre @ bytes_str rest) (length rest) (s, c) = ([], length rest2, s1, c1)"
        using sp f len rest by (subst line_loop.simps) (simp add: Let_def)
      then have r: "l = []" "left = length rest2" "s' = s1" "c' = c1" using less.prems(4) by simp_all
      have "feeds uz L rest (s\<lparr>bs_line := pre\<rparr>, c) = feeds uz L rest2 (s1\<lparr>bs_line := []\<rparr>, c1)"
        using one unfolding rest by simp
      moreover have "bs_mode s1 = MODE_DATA" using one False by (cases "bs_mode s1") simp_all
      ultimately show ?thesis using one r rest by simp
    next
      case True
      then have st: "line_loop uz L (pre @ bytes_str rest) (length rest) (s, c) = line_loop uz L ([] @ bytes_str rest2) (length rest2) (s1, c1)"
        using sp f len abv(3) rest by (subst line_loop.simps) (simp add: Let_def)
      have ih: "left \<le> length rest2 \<and> sock_ok (s'\<lparr>bs_line := l\<rparr>)
          \<and> feeds uz L rest2 (s1\<lparr>bs_line := []\<rparr>, c1) = feeds uz L (drop (length rest2 - left) rest2) (s'\<lparr>bs_line := l\<rparr>, c')
          \<and> (left = 0 \<or> left < length rest2 \<and> bs_mode s' = MODE_DATA)"
        by (rule less.hyps [OF _ L _ True]) (use one st less.prems(4) rest in simp_all)
      have "length rest - left = length (a @ [b]) + (length rest2 - left)" using conjunct1 [OF ih] by (simp add: rest)
      then have "drop (length rest - left) rest = drop (length (a @ [b]) + (length rest2 - left)) ((a @ [b]) @ rest2)" using rest by simp
      also have "\<dots> = drop (length rest2 - left) rest2" by (simp only: drop_append) simp
      finally have "drop (length rest - left) rest = drop (length rest2 - left) rest2" .
      moreover have "feeds uz L rest (s\<lparr>bs_line := pre\<rparr>, c) = feeds uz L rest2 (s1\<lparr>bs_line := []\<rparr>, c1)"
        using one unfolding rest by simp
      ultimately show ?thesis using ih rest by auto
    qed
  qed
qed

lemma data_loop_feeds:
  assumes L: "plain_listener L" and ok: "sock_ok s" and m: "bs_mode s = MODE_DATA" and ne: "rest \<noteq> []"
  shows "\<exists>rest' s' c'. data_loop uz L rest (s, c) = Some (rest', s', c') \<and> length rest' < length rest \<and> sock_ok s'
    \<and> feeds uz L rest (s, c) = feeds uz L rest' (s', c')"
proof -
  have r0: "bs_rollback s = 0" using ok by (simp add: sock_ok_def)
  consider "bs_dataBytes s = - 1" | "0 < bs_dataBytes s" using ok m by (auto simp: sock_ok_def)
  then show ?thesis
  proof cases
    case 1
    have z: "s\<lparr>bs_rollback := 0\<rparr> = s" using r0 by simp
    have "data_loop uz L rest (s, c) = Some ([], s, snd (L (Ev_Data rest) c))"
      using 1 ne r0 z by (subst data_loop.simps) (simp add: sock_fire_data [OF L] data_loop.simps)
    then show ?thesis using feeds_open_data [OF L m 1 ne, of uz c] ok ne by simp
  next
    case 2
    show ?thesis
    proof (cases "int (length rest) < bs_dataBytes s")
      case True
      define s1 where "s1 = s\<lparr>bs_dataBytes := bs_dataBytes s - int (length rest)\<rparr>"
      have "data_loop uz L rest (s, c) = Some ([], s1, snd (L (Ev_Data rest) c))"
        using 2 True ne by (subst data_loop.simps) (simp add: sock_fire_data [OF L] data_loop.simps s1_def Let_def min_def)
      moreover have "sock_ok s1" using ok m True by (simp add: sock_ok_def s1_def)
      ultimately show ?thesis using feeds_counted_data [OF L m ne, of uz c] True ne by (simp add: s1_def)
    next
      case False
      define n where "n = nat (bs_dataBytes s)"
      define s1 where "s1 = s\<lparr>bs_dataBytes := 0, bs_mode := MODE_LINE\<rparr>"
      define c1 where "c1 = snd (L (Ev_Data (take n rest)) c)"
      have n: "0 < n" "n \<le> length rest" "int n = bs_dataBytes s" using 2 False by (auto simp: n_def)
      obtain s2 c2 where f: "sock_fire uz L Ev_ModeChange (s1, c1) = (s2, c2)" by fastforce
      have hi: "nat (min (bs_dataBytes s) (int (length rest))) = n" using n by (simp add: min_def)
      have d: "data_loop uz L rest (s, c) = Some (drop n rest, s2, c2)"
        using 2 ne n f hi by (subst data_loop.simps) (simp add: sock_fire_data [OF L] Let_def s1_def c1_def)
      have ok1: "sock_ok (s1\<lparr>bs_line := []\<rparr>)" "bs_line s1 = []" "bs_mode s1 = MODE_LINE" using ok m by (auto simp: sock_ok_def s1_def)
      note fo = fire_other_ok [OF L _ ok1(1,3) f, simplified]
      have "bs_line s2 = []" using fo(4) ok1(2) by simp
      then have "s2\<lparr>bs_line := []\<rparr> = s2" by simp
      then have "sock_ok s2" using fo(1) by simp
      moreover have "feeds uz L (take n rest @ drop n rest) (s, c) = feeds uz L (drop n rest) (s2, c2)"
        using feeds_counted_data [OF L m, of "take n rest" uz c] n f ne by (auto simp: s1_def c1_def simp del: append_take_drop_id)
      ultimately show ?thesis using d n ne by simp
    qed
  qed
qed

lemma read_loop_feeds:
  assumes L: "plain_listener L" and ok: "sock_ok s"
  shows "read_loop uz L inbuf rest (s, c) = Some (Inr (feeds uz L rest (s, c))) \<and> sock_ok (fst (feeds uz L rest (s, c)))"
  using ok
proof (induction "length rest" arbitrary: rest s c rule: less_induct)
  case less
  show ?case
  proof (cases "rest = []")
    case True
    then show ?thesis using less.prems by (simp add: read_loop.simps)
  next
    case False
    consider "bs_mode s = MODE_LINE" | "bs_mode s = MODE_DATA" using less.prems by (auto simp: sock_ok_def)
    then show ?thesis
    proof cases
      case 1
      have d: "detect_separator inbuf s = s" using less.prems by (simp add: detect_separator_def sock_ok_def)
      obtain l left s' c' where ll: "line_loop uz L (bs_line s @ bytes_str rest) (length rest) (s, c) = (l, left, s', c')"
        by (metis prod_cases4)
      note lf = line_loop_feeds [OF L _ 1 ll, simplified, OF less.prems]
      have st: "read_loop uz L inbuf rest (s, c) = read_loop uz L inbuf (drop (length rest - left) rest) (s'\<lparr>bs_line := l\<rparr>, c')"
        using False 1 ll by (subst read_loop.simps) (simp add: d Let_def)
      have "length (drop (length rest - left) rest) < length rest" using lf False by auto
      from less.hyps [OF this, of "s'\<lparr>bs_line := l\<rparr>" c'] show ?thesis using st lf by simp
    next
      case 2
      obtain rest' s' c' where dl: "data_loop uz L rest (s, c) = Some (rest', s', c')" "length rest' < length rest" "sock_ok s'"
        "feeds uz L rest (s, c) = feeds uz L rest' (s', c')" using data_loop_feeds [OF L less.prems 2 False, of uz c] by blast
      have "read_loop uz L inbuf rest (s, c) = read_loop uz L inbuf rest' (s', c')"
        using False 2 dl(1) by (subst read_loop.simps) simp
      then show ?thesis using less.hyps [OF dl(2,3), of c'] dl(4) by simp
    qed
  qed
qed

section \<open>Any division of a connection into reads\<close>

fun thread_reads ::
    "'f unz \<Rightarrow> nat \<Rightarrow> 'c listener \<Rightarrow> byte list list \<Rightarrow> 'f bsock \<times> 'c \<Rightarrow> (sock_error + 'f bsock \<times> 'c) option" where
  "thread_reads uz maxLen L [] sc = Some (Inr sc)"
| "thread_reads uz maxLen L (bs # css) sc =
     (case threadRead uz maxLen L (Got bs) sc of
        None \<Rightarrow> None
      | Some (Inl e) \<Rightarrow> Some (Inl e)
      | Some (Inr sc) \<Rightarrow> thread_reads uz maxLen L css sc)"

definition line_too_long :: "nat \<Rightarrow> 'f bsock \<times> 'c \<Rightarrow> bool" where
  "line_too_long maxLen sc \<longleftrightarrow> bs_mode (fst sc) = MODE_LINE \<and> maxLen < length (bs_line (fst sc))"

lemma threadRead_feeds:
  assumes "plain_listener L" and "sock_ok (fst sc)"
  shows "threadRead uz maxLen L (Got bs) sc =
    (if line_too_long maxLen (feeds uz L bs sc) then Some (Inl COMMAND_TOO_LONG) else Some (Inr (feeds uz L bs sc)))"
    and "sock_ok (fst (feeds uz L bs sc))"
  using read_loop_feeds [OF assms, of uz bs bs "snd sc"]
  by (auto simp: threadRead_def line_too_long_def split: prod.split)

lemma thread_reads_feeds:
  assumes L: "plain_listener L" and "sock_ok (fst sc)"
  shows "thread_reads uz maxLen L css sc =
    (if \<exists>k\<in>{1..length css}. line_too_long maxLen (feeds uz L (concat (take k css)) sc) then Some (Inl COMMAND_TOO_LONG)
     else Some (Inr (feeds uz L (concat css) sc)))"
  using assms(2)
proof (induction css arbitrary: sc)
  case (Cons bs css)
  define sc1 where "sc1 = feeds uz L bs sc"
  note t = threadRead_feeds(1) [OF L Cons.prems, of uz maxLen bs, folded sc1_def]
    threadRead_feeds(2) [OF L Cons.prems, of uz bs, folded sc1_def]
  have ex: "(\<exists>k\<in>{1..length (bs # css)}. line_too_long maxLen (feeds uz L (concat (take k (bs # css))) sc))
    \<longleftrightarrow> line_too_long maxLen sc1 \<or> (\<exists>k\<in>{1..length css}. line_too_long maxLen (feeds uz L (concat (take k css)) sc1))"
    (is "?l \<longleftrightarrow> ?r")
  proof
    assume ?l
    then obtain k where k: "1 \<le> k" "k \<le> Suc (length css)" "line_too_long maxLen (feeds uz L (concat (take k (bs # css))) sc)" by auto
    then obtain j where "k = Suc j" by (cases k) auto
    then show ?r using k by (cases "j = 0") (auto simp: sc1_def intro!: bexI [of _ j])
  next
    assume ?r
    then show ?l
    proof
      assume "line_too_long maxLen sc1"
      then show ?l by (intro bexI [of _ 1]) (simp_all add: sc1_def)
    next
      assume "\<exists>k\<in>{1..length css}. line_too_long maxLen (feeds uz L (concat (take k css)) sc1)"
      then obtain k where "k \<in> {1..length css}" "line_too_long maxLen (feeds uz L (concat (take k css)) sc1)" by blast
      then show ?l by (intro bexI [of _ "Suc k"]) (simp_all add: sc1_def)
    qed
  qed
  show ?case
    unfolding ex using Cons.IH [OF t(2)] t(1) by (cases "line_too_long maxLen sc1") (simp_all add: sc1_def)
qed simp

lemma detect_sep: "detect_separator bs (detect_separator bs s) = detect_separator bs s"
  by (simp add: detect_separator_def)

text \<open>
  C33: However the bytes of a connection are divided into reads, a listener that is not sensitive to the division of
  data sees what the bytes say one at a time (lines at their separator, then the number of data bytes that it asked
  for), and the socket ends in the same state; only a line that is longer than the limit at the end of some read
  stops it.  The separator of an undecided socket follows from the first byte.
\<close>

theorem reads_in_any_division:
  assumes "plain_listener L" and "bs_mode s = MODE_LINE" and "bs_line s = []" and "bs_rollback s = 0"
    and "css \<noteq> []" and "[] \<notin> set css"
    and seen: "seen = (\<lambda>k. feeds uz L (concat (take k css)) (detect_separator (concat css) s, c))"
  shows "thread_reads uz maxLen L css (s, c) =
    (if \<exists>k\<in>{1..length css}. line_too_long maxLen (seen k) then Some (Inl COMMAND_TOO_LONG)
     else Some (Inr (seen (length css))))"
proof -
  obtain bs css' where css: "css = bs # css'" "bs \<noteq> []" using assms(5,6) by (cases css) auto
  define s0 where "s0 = detect_separator (concat css) s"
  have d: "detect_separator bs s = s0" "detect_separator bs s0 = s0" using css by (auto simp: s0_def detect_separator_def nth_append)
  have m: "bs_mode s0 = MODE_LINE" "bs_line s0 = bs_line s" using assms(2) by (simp_all add: s0_def detect_separator_def)
  have "read_loop uz L bs bs (s, c) = read_loop uz L bs bs (s0, c)"
    using css(2) assms(2) m d by (subst (1 2) read_loop.simps) (simp add: Let_def)
  then have "thread_reads uz maxLen L css (s, c) = thread_reads uz maxLen L css (s0, c)"
    by (simp add: css(1) threadRead_def)
  moreover have "sock_ok (fst (s0, c))" using assms(2-4) by (simp add: s0_def detect_separator_def sock_ok_def)
  ultimately show ?thesis
    using thread_reads_feeds [OF assms(1), of "(s0, c)" uz maxLen css] by (simp add: seen s0_def)
qed

text \<open>A listener that takes as many bytes after a line as the line is long.\<close>

definition test_listener :: "(string list \<times> byte list) listener" where
  "test_listener ev c =
     (case ev of
        Ev_Line l \<Rightarrow> ([Call_setDataMode (int (length l))], fst c @ [l], snd c)
      | Ev_Data bs \<Rightarrow> ([], fst c, snd c @ bs)
      | Ev_ModeChange \<Rightarrow> ([], c))"

definition test_socket :: "unit bsock" where
  "test_socket = \<lparr>bs_mode = MODE_LINE, bs_filterIn = None, bs_dataBytes = 0, bs_rollback = 0, bs_line = [], bs_separator = CHR 0x00\<rparr>"

lemma test_listener_plain: "plain_listener test_listener"
  by (auto simp: plain_listener_def test_listener_def data_calls_def)

definition test_unz :: "unit unz" where
  "test_unz = \<lparr>uz_new = (), uz_run = \<lambda>_ _ _. Inl []\<rparr>"

definition test_reads :: "byte list list" where
  "test_reads = [[97, 98, 10, 1], [2], [99], [10, 3, 100]]"


lemma test_chars: "char_of_byte 97 = CHR ''a''" "char_of_byte 98 = CHR ''b''" "char_of_byte 99 = CHR ''c''" "char_of_byte 100 = CHR ''d''"
  "char_of_byte 10 = CHR 0x0A" "byte_of_char CHR ''$'' = 36"
  by code_simp+

lemma test_separator: "detect_separator (concat test_reads) test_socket = test_socket\<lparr>bs_separator := CHR 0x0A\<rparr>"
  by (simp add: detect_separator_def test_reads_def test_socket_def test_chars)

lemma test_fire: "sock_fire uz test_listener (Ev_Line l) (s, c) = (setDataMode (int (length l)) s, fst c @ [l], snd c)"
  "sock_fire uz test_listener (Ev_Data b) (s, c) = (s, fst c, snd c @ b)" "sock_fire uz test_listener Ev_ModeChange (s, c) = (s, c)"
  by (simp_all add: sock_fire_def test_listener_def)

lemma test_reads_end: "feeds test_unz test_listener (concat (take (length test_reads) test_reads)) (test_socket\<lparr>bs_separator := CHR 0x0A\<rparr>, [], [])
   = (test_socket\<lparr>bs_separator := CHR 0x0A, bs_line := ''d''\<rparr>, [''ab'', ''c''], [1, 2, 3])"
  by (simp add: test_reads_def feed_def test_socket_def test_chars test_fire setDataMode_def)

lemma test_reads_short: "\<not> (\<exists>k\<in>{1..length test_reads}. line_too_long 10
       (feeds test_unz test_listener (concat (take k test_reads)) (test_socket\<lparr>bs_separator := CHR 0x0A\<rparr>, [], [])))"
proof -
  have "{1..length test_reads} = {1, 2, 3, 4}" by (auto simp: test_reads_def)
  then show ?thesis by (simp add: test_reads_def feed_def test_socket_def test_chars test_fire setDataMode_def line_too_long_def numeral_eq_Suc)
qed

theorem reads_in_any_division_witness:
  "thread_reads test_unz 10 test_listener test_reads (test_socket, [], [])
   = Some (Inr (test_socket\<lparr>bs_separator := CHR 0x0A, bs_line := ''d''\<rparr>, [''ab'', ''c''], [1, 2, 3]))"
proof -
  have "bs_mode test_socket = MODE_LINE" "bs_line test_socket = []" "bs_rollback test_socket = 0" "test_reads \<noteq> []" "[] \<notin> set test_reads"
    by (simp_all add: test_socket_def test_reads_def)
  from reads_in_any_division [OF test_listener_plain this refl, of test_unz 10 "([], [])"] show ?thesis
    unfolding test_separator by (simp only: test_reads_short if_False test_reads_end)
qed

section \<open>Sending\<close>

text \<open>
  \<open>threadSendFile\<close>.  Each turn of the inner loop is one attempt to write, given by what the limiter lets through
  and what the socket takes (\<open>None\<close>: it would block); when the list of attempts ends, the connection is closed.
  Without the limiter the code calls \<open>sock->read\<close>: the attempt is then the number of bytes that arrived.
\<close>

record write_attempt =
  sa_limit :: nat
  sa_result :: "nat option"

record send_file =
  sn_stream :: istream
  sn_readBuf :: "byte list"
  sn_readDone :: bool
  sn_rest :: "byte list"
  sn_writeSize :: nat
  sn_blocked :: bool
  sn_sent :: "byte list"

datatype send_result = Transmit_Done "byte list" | Interrupted "byte list"

definition read_ahead :: "nat \<Rightarrow> send_file \<Rightarrow> send_file" where
  "read_ahead n s =
     (case is_read n (sn_stream s) of
        (bs, _, is) \<Rightarrow>
          if bs = [] then s\<lparr>sn_stream := is, sn_readDone := True\<rparr>
          else s\<lparr>sn_stream := is, sn_readBuf := sn_readBuf s @ bs\<rparr>)"

text \<open>Fills the read buffer and swaps the buffers; \<open>None\<close> when everything is sent.\<close>

definition refill :: "nat \<Rightarrow> send_file \<Rightarrow> send_file option" where
  "refill bufSize s =
     (let s = (if \<not> sn_readDone s \<and> length (sn_readBuf s) < bufSize then read_ahead (bufSize - length (sn_readBuf s)) s else s)
      in if sn_readDone s \<and> sn_readBuf s = [] then None
         else Some (s\<lparr>sn_rest := sn_readBuf s, sn_readBuf := [], sn_writeSize := 0, sn_blocked := False\<rparr>))"

definition send_attempt :: "bool \<Rightarrow> nat \<Rightarrow> nat \<Rightarrow> write_attempt \<Rightarrow> send_file \<Rightarrow> send_file" where
  "send_attempt useLimiter sockSize bufSize a s =
     (let reading = \<not> sn_blocked s \<and> \<not> useLimiter;
          writeSize = (if sn_blocked s then sn_writeSize s
                       else let n = min (sockSize div 2) (length (sn_rest s)) in if useLimiter then min n (sa_limit a) else n);
          s = s\<lparr>sn_writeSize := writeSize\<rparr>
      in case sa_result a of
           Some k \<Rightarrow>
             if reading then s\<lparr>sn_rest := drop k (sn_rest s), sn_blocked := False\<rparr>
             else let written = min k writeSize
                  in s\<lparr>sn_rest := drop written (sn_rest s), sn_sent := sn_sent s @ take written (sn_rest s), sn_blocked := False\<rparr>
         | None \<Rightarrow>
             let s = s\<lparr>sn_blocked := True\<rparr>
             in if \<not> sn_readDone s \<and> length (sn_readBuf s) < bufSize
                then read_ahead (min (bufSize - length (sn_readBuf s)) (bufSize div 2)) s else s)"

fun send_loop :: "bool \<Rightarrow> nat \<Rightarrow> nat \<Rightarrow> write_attempt list \<Rightarrow> send_file \<Rightarrow> send_result" where
  "send_loop useLimiter sockSize bufSize as s =
     (case (if sn_rest s = [] then refill bufSize s else Some s) of
        None \<Rightarrow> Transmit_Done (sn_sent s)
      | Some s \<Rightarrow>
          (case as of
             [] \<Rightarrow> Interrupted (sn_sent s)
           | a # as \<Rightarrow> send_loop useLimiter sockSize bufSize as (send_attempt useLimiter sockSize bufSize a s)))"

declare send_loop.simps [simp del]

definition threadSendFile :: "bool \<Rightarrow> nat \<Rightarrow> write_attempt list \<Rightarrow> istream \<Rightarrow> send_result" where
  "threadSendFile useLimiter sockSize as file =
     send_loop useLimiter sockSize (max sockSize (64 * 1024)) as
       \<lparr>sn_stream = file, sn_readBuf = [], sn_readDone = False, sn_rest = [], sn_writeSize = 0, sn_blocked = False, sn_sent = []\<rparr>"

text \<open>The bytes a stream still gives.\<close>

definition is_content :: "istream \<Rightarrow> byte list \<Rightarrow> bool" where
  "is_content s c \<longleftrightarrow> (\<forall>ns. read_all ns s = take (sum_list ns) c)"

lemma is_content_read:
  assumes "is_content s c" and "is_read n s = (bs, m, s')"
  shows "bs = take n c" and "is_content s' (drop n c)"
proof -
  have r: "read_all (n # ns) s = bs @ read_all ns s'" for ns using assms(2) by simp
  have "read_all [n] s = take n c" using assms(1) unfolding is_content_def by (metis sum_list.Cons sum_list.Nil add_0_right)
  then show bs: "bs = take n c" using r [of "[]"] by simp
  have "bs @ read_all ns s' = take n c @ take (sum_list ns) (drop n c)" for ns
    using assms(1) r [of ns] unfolding is_content_def by (metis sum_list.Cons take_add)
  then show "is_content s' (drop n c)" using bs by (simp add: is_content_def)
qed

definition send_inv :: "byte list \<Rightarrow> nat \<Rightarrow> send_file \<Rightarrow> bool" where
  "send_inv c bufSize s \<longleftrightarrow>
     (\<exists>r. is_content (sn_stream s) r \<and> c = sn_sent s @ sn_rest s @ sn_readBuf s @ r \<and> (sn_readDone s \<longrightarrow> r = []))
     \<and> length (sn_readBuf s) \<le> bufSize"

lemma read_ahead_inv:
  assumes inv: "send_inv c bufSize s" and n: "0 < n" "n \<le> bufSize - length (sn_readBuf s)"
  shows "send_inv c bufSize (read_ahead n s)" and "sn_rest (read_ahead n s) = sn_rest s" and "sn_sent (read_ahead n s) = sn_sent s"
    and "sn_readDone (read_ahead n s) \<or> sn_readBuf (read_ahead n s) \<noteq> []"
    and "sn_blocked (read_ahead n s) = sn_blocked s" and "sn_writeSize (read_ahead n s) = sn_writeSize s"
proof -
  obtain bs m str where r: "is_read n (sn_stream s) = (bs, m, str)" by (cases "is_read n (sn_stream s)") auto
  obtain rest where i: "is_content (sn_stream s) rest" "c = sn_sent s @ sn_rest s @ sn_readBuf s @ rest" "sn_readDone s \<longrightarrow> rest = []"
    "length (sn_readBuf s) \<le> bufSize" using inv by (auto simp: send_inv_def)
  note rd = is_content_read [OF i(1) r]
  show "send_inv c bufSize (read_ahead n s)"
  proof (cases "bs = []")
    case True
    then have "rest = []" using rd(1) n(1) by simp
    then show ?thesis using True r rd i by (auto simp: read_ahead_def send_inv_def)
  next
    case False
    have "length bs \<le> n" using rd(1) by simp
    then have "length (sn_readBuf s @ bs) \<le> bufSize" using n i(4) by simp
    moreover have "sn_readDone s \<longrightarrow> drop n rest = []" "rest = bs @ drop n rest" using i(3) rd(1) by auto
    ultimately show ?thesis using False r rd(2) i(2) unfolding read_ahead_def send_inv_def
      by (auto intro!: exI [of _ "drop n rest"])
  qed
  show "sn_rest (read_ahead n s) = sn_rest s" "sn_sent (read_ahead n s) = sn_sent s"
    "sn_readDone (read_ahead n s) \<or> sn_readBuf (read_ahead n s) \<noteq> []"
    "sn_blocked (read_ahead n s) = sn_blocked s" "sn_writeSize (read_ahead n s) = sn_writeSize s"
    using r by (auto simp: read_ahead_def)
qed

lemma refill_inv:
  assumes inv: "send_inv c bufSize s" and e: "sn_rest s = []"
  shows "refill bufSize s = None \<Longrightarrow> sn_sent s = c"
    and "refill bufSize s = Some s' \<Longrightarrow> send_inv c bufSize s' \<and> sn_sent s' = sn_sent s \<and> \<not> sn_blocked s'
      \<and> (0 < bufSize \<longrightarrow> sn_rest s' \<noteq> [])"
proof -
  define s1 where "s1 = (if \<not> sn_readDone s \<and> length (sn_readBuf s) < bufSize then read_ahead (bufSize - length (sn_readBuf s)) s else s)"
  have s1: "send_inv c bufSize s1" "sn_rest s1 = []" "sn_sent s1 = sn_sent s"
    using inv e read_ahead_inv(1-3) [OF inv, of "bufSize - length (sn_readBuf s)"] by (auto simp: s1_def)
  have ne: "sn_readDone s1 \<or> sn_readBuf s1 \<noteq> [] \<or> bufSize = 0"
    using inv read_ahead_inv(4) [OF inv, of "bufSize - length (sn_readBuf s)"] by (auto simp: s1_def send_inv_def)
  have r: "refill bufSize s = (if sn_readDone s1 \<and> sn_readBuf s1 = [] then None
         else Some (s1\<lparr>sn_rest := sn_readBuf s1, sn_readBuf := [], sn_writeSize := 0, sn_blocked := False\<rparr>))"
    by (simp add: refill_def s1_def Let_def)
  show "sn_sent s = c" if "refill bufSize s = None" using that r s1 by (auto simp: send_inv_def split: if_splits)
  show "send_inv c bufSize s' \<and> sn_sent s' = sn_sent s \<and> \<not> sn_blocked s' \<and> (0 < bufSize \<longrightarrow> sn_rest s' \<noteq> [])"
    if "refill bufSize s = Some s'"
    using that r s1 ne by (auto simp: send_inv_def split: if_splits)
qed

lemma send_attempt_inv:
  assumes inv: "send_inv c bufSize s" and b: "2 \<le> bufSize"
  shows "send_inv c bufSize (send_attempt True sockSize bufSize a s)"
    and "2 \<le> sockSize \<Longrightarrow> sn_rest s \<noteq> [] \<Longrightarrow> 0 < sa_limit a \<Longrightarrow> sa_result a = Some k \<Longrightarrow> 0 < k \<Longrightarrow> \<not> sn_blocked s
      \<Longrightarrow> length (sn_sent s) < length (sn_sent (send_attempt True sockSize bufSize a s)) \<and> \<not> sn_blocked (send_attempt True sockSize bufSize a s)"
proof -
  define w where "w = (if sn_blocked s then sn_writeSize s else min (min (sockSize div 2) (length (sn_rest s))) (sa_limit a))"
  show "send_inv c bufSize (send_attempt True sockSize bufSize a s)"
  proof (cases "sa_result a")
    case (Some k)
    then have e: "send_attempt True sockSize bufSize a s = s\<lparr>sn_writeSize := w, sn_rest := drop (min k w) (sn_rest s),
        sn_sent := sn_sent s @ take (min k w) (sn_rest s), sn_blocked := False\<rparr>"
      by (simp add: send_attempt_def w_def Let_def)
    have "take (min k w) (sn_rest s) @ drop (min k w) (sn_rest s) = sn_rest s" by (rule append_take_drop_id)
    then show ?thesis using inv unfolding e send_inv_def by (auto simp del: append_take_drop_id)
  next
    case None
    define s1 where "s1 = s\<lparr>sn_writeSize := w, sn_blocked := True\<rparr>"
    have i1: "send_inv c bufSize s1" using inv by (simp add: s1_def send_inv_def)
    have e: "send_attempt True sockSize bufSize a s = (if \<not> sn_readDone s1 \<and> length (sn_readBuf s1) < bufSize
        then read_ahead (min (bufSize - length (sn_readBuf s1)) (bufSize div 2)) s1 else s1)"
      using None by (simp add: send_attempt_def w_def Let_def s1_def)
    show ?thesis using i1 b read_ahead_inv(1) [OF i1] by (simp add: e)
  qed
  show "length (sn_sent s) < length (sn_sent (send_attempt True sockSize bufSize a s)) \<and> \<not> sn_blocked (send_attempt True sockSize bufSize a s)"
    if "2 \<le> sockSize" "sn_rest s \<noteq> []" "0 < sa_limit a" "sa_result a = Some k" "0 < k" "\<not> sn_blocked s"
    using that by (simp add: send_attempt_def Let_def min_def)
qed

lemma send_loop_sent:
  assumes "send_inv c bufSize s" and "2 \<le> bufSize"
  shows "case send_loop True sockSize bufSize as s of Transmit_Done out \<Rightarrow> out = c | Interrupted out \<Rightarrow> \<exists>rest. c = out @ rest"
  using assms(1)
proof (induction as arbitrary: s)
  case Nil
  then show ?case using refill_inv [OF Nil]
    by (subst send_loop.simps) (auto simp: send_inv_def split: option.split)
next
  case (Cons a as)
  show ?case
  proof (cases "if sn_rest s = [] then refill bufSize s else Some s")
    case None
    then show ?thesis using refill_inv(1) [OF Cons.prems] by (subst send_loop.simps) (simp split: if_splits)
  next
    case (Some s1)
    have "send_inv c bufSize s1" using Some refill_inv(2) [OF Cons.prems] Cons.prems by (auto split: if_splits)
    then have "send_inv c bufSize (send_attempt True sockSize bufSize a s1)" by (rule send_attempt_inv(1)) (rule assms(2))
    from Cons.IH [OF this] show ?thesis using Some by (subst send_loop.simps) simp
  qed
qed

lemma send_loop_done:
  assumes "send_inv c bufSize s" and "2 \<le> bufSize" and "2 \<le> sockSize"
    and "\<forall>a\<in>set as. 0 < sa_limit a \<and> (\<exists>k>0. sa_result a = Some k)" and "length c \<le> length as + length (sn_sent s)" and "\<not> sn_blocked s"
  shows "send_loop True sockSize bufSize as s = Transmit_Done c"
  using assms(1,4-)
proof (induction as arbitrary: s)
  case Nil
  then have e: "sn_rest s = []" "length (sn_sent s) = length c" by (auto simp: send_inv_def)
  have "refill bufSize s = None"
  proof (cases "refill bufSize s")
    case (Some s')
    then have "send_inv c bufSize s'" "sn_sent s' = sn_sent s" "sn_rest s' \<noteq> []" using refill_inv(2) [OF Nil(1) e(1)] assms(2) by auto
    then show ?thesis using e(2) by (auto simp: send_inv_def)
  qed simp
  then show ?case using e refill_inv(1) [OF Nil(1) e(1)] by (subst send_loop.simps) simp
next
  case (Cons a as)
  show ?case
  proof (cases "if sn_rest s = [] then refill bufSize s else Some s")
    case None
    then show ?thesis using refill_inv(1) [OF Cons.prems(1)] by (subst send_loop.simps) (simp split: if_splits)
  next
    case (Some s1)
    have s1: "send_inv c bufSize s1" "sn_sent s1 = sn_sent s" "\<not> sn_blocked s1" "sn_rest s1 \<noteq> []"
      using Some refill_inv(2) [OF Cons.prems(1)] Cons.prems assms(2) by (auto split: if_splits)
    obtain k where k: "0 < k" "sa_result a = Some k" "0 < sa_limit a" using Cons.prems(2) by auto
    note p = send_attempt_inv(2) [OF s1(1) assms(2,3) s1(4) k(3,2,1) s1(3)]
    have "send_loop True sockSize bufSize as (send_attempt True sockSize bufSize a s1) = Transmit_Done c"
      by (rule Cons.IH [OF send_attempt_inv(1) [OF s1(1) assms(2)]]) (use Cons.prems p s1(2) in auto)
    then show ?thesis using Some by (subst send_loop.simps) simp
  qed
qed

lemma send_start:
  "is_content file c \<Longrightarrow> send_inv c bufSize \<lparr>sn_stream = file, sn_readBuf = [], sn_readDone = False, sn_rest = [], sn_writeSize = 0,
     sn_blocked = False, sn_sent = []\<rparr>"
  by (simp add: send_inv_def)

lemma unlimited_send:
  assumes c: "is_content file c" and n: "length c \<le> 65536"
  shows "threadSendFile False sockSize [\<lparr>sa_limit = 0, sa_result = Some (length c)\<rparr>] file = Transmit_Done []"
proof -
  define B where "B = max sockSize (64 * 1024)"
  define s0 where "s0 = \<lparr>sn_stream = file, sn_readBuf = [], sn_readDone = False, sn_rest = [], sn_writeSize = 0,
     sn_blocked = False, sn_sent = []\<rparr>"
  have B: "length c \<le> B" "0 < B" using n by (simp_all add: B_def)
  obtain bs m str where r: "is_read B file = (bs, m, str)" by (cases "is_read B file") auto
  have bs: "bs = c" "is_content str []" using is_content_read [OF c r] B(1) by simp_all
  obtain bs2 m2 str2 where r2: "is_read B str = (bs2, m2, str2)" by (cases "is_read B str") auto
  have bs2: "bs2 = []" using is_content_read(1) [OF bs(2) r2] by simp
  have "send_loop False sockSize B [\<lparr>sa_limit = 0, sa_result = Some (length c)\<rparr>] s0 = Transmit_Done []"
  proof (cases "c = []")
    case True
    have rf: "refill B s0 = None" using True bs(1) r B(2) by (simp add: refill_def s0_def read_ahead_def)
    show ?thesis by (subst send_loop.simps) (simp add: rf, simp add: s0_def)
  next
    case False
    define s1 where "s1 = s0\<lparr>sn_stream := str, sn_rest := c\<rparr>"
    have rf: "refill B s0 = Some s1" using False bs(1) r B(2) by (simp add: refill_def s0_def s1_def read_ahead_def)
    define s2 where "s2 = send_attempt False sockSize B \<lparr>sa_limit = 0, sa_result = Some (length c)\<rparr> s1"
    have s2: "sn_rest s2 = []" "sn_readBuf s2 = []" "\<not> sn_readDone s2" "sn_stream s2 = str" "sn_sent s2 = []"
      by (simp_all add: s2_def s1_def s0_def send_attempt_def Let_def)
    have rf2: "refill B s2 = None" using s2 r2 bs2 B(2) by (simp add: refill_def read_ahead_def)
    have "send_loop False sockSize B [] s2 = Transmit_Done []" by (subst send_loop.simps) (simp add: s2 rf2)
    then show ?thesis by (subst send_loop.simps) (simp add: s0_def [symmetric] rf s2_def, simp add: s0_def)
  qed
  then show ?thesis by (simp add: threadSendFile_def B_def s0_def)
qed

text \<open>
  C34: Sending a file over a connection with the limiter: whatever the socket takes of each write, what is sent is
  the file when the transfer is reported complete and a beginning of it when the connection ends before; and it does
  complete when every attempt takes something.  Without the limiter (favorite users) the code reads from the socket
  where it means to write: a message from the other side that is as long as the file completes the transfer with
  nothing sent.
\<close>

theorem sent_file:
  assumes "is_content file c"
  shows "(case threadSendFile True sockSize as file of Transmit_Done out \<Rightarrow> out = c | Interrupted out \<Rightarrow> \<exists>rest. c = out @ rest)
    \<and> (2 \<le> sockSize \<longrightarrow> length c \<le> length as \<longrightarrow> (\<forall>a\<in>set as. 0 < sa_limit a \<and> (\<exists>k>0. sa_result a = Some k))
        \<longrightarrow> threadSendFile True sockSize as file = Transmit_Done c)
    \<and> (length c \<le> 65536 \<longrightarrow>
        threadSendFile False sockSize [\<lparr>sa_limit = 0, sa_result = Some (length c)\<rparr>] file = Transmit_Done [])"
proof -
  let ?s = "\<lparr>sn_stream = file, sn_readBuf = [], sn_readDone = False, sn_rest = [], sn_writeSize = 0, sn_blocked = False, sn_sent = []\<rparr>"
  have b: "2 \<le> max sockSize (64 * 1024)" by simp
  note i = send_start [OF assms]
  have "case threadSendFile True sockSize as file of Transmit_Done out \<Rightarrow> out = c | Interrupted out \<Rightarrow> \<exists>rest. c = out @ rest"
    unfolding threadSendFile_def by (rule send_loop_sent [OF i b])
  moreover have "threadSendFile True sockSize as file = Transmit_Done c"
    if "2 \<le> sockSize" "length c \<le> length as" "\<forall>a\<in>set as. 0 < sa_limit a \<and> (\<exists>k>0. sa_result a = Some k)"
    unfolding threadSendFile_def by (rule send_loop_done [OF i b that(1,3)]) (use that(2) in simp_all)
  ultimately show ?thesis using unlimited_send [OF assms] by blast
qed

lemma memory_content: "is_content (Memory_In c 0) c"
  by (simp add: is_content_def read_all_memory)

theorem sent_file_witness:
  "threadSendFile True 4 [\<lparr>sa_limit = 9, sa_result = Some 2\<rparr>, \<lparr>sa_limit = 1, sa_result = Some 5\<rparr>, \<lparr>sa_limit = 9, sa_result = Some 1\<rparr>] (Memory_In [1, 2, 3] 0)
     = Transmit_Done [1, 2, 3]
   \<and> threadSendFile False 4 [\<lparr>sa_limit = 0, sa_result = Some 3\<rparr>] (Memory_In [1, 2, 3] 0) = Transmit_Done []"
  using sent_file [OF memory_content [of "[1, 2, 3]"], of 4
      "[\<lparr>sa_limit = 9, sa_result = Some 2\<rparr>, \<lparr>sa_limit = 1, sa_result = Some 5\<rparr>, \<lparr>sa_limit = 9, sa_result = Some 1\<rparr>]"]
  by (simp add: numeral_3_eq_3)

end
