(* ===== verification/String_Search.thy ===== *)
theory String_Search
  imports Paths "HOL-Library.Sublist"
begin

text \<open>
  \<^bold>\<open>util/text/StringSearch.cpp\<close>: the search for patterns in names (quick search, a variant of Boyer-Moore), and
  the lists of patterns of a query.  A position is a natural number and \<open>npos\<close> is \<open>None\<close>.  As an outer result
  \<open>None\<close> means that the code reads outside of the text or does not return.
\<close>

section \<open>Patterns\<close>

record pattern =
  pt_delta1 :: "16 word list"
  pt_str :: string
  pt_plen :: nat

definition initDelta1 :: "string \<Rightarrow> 16 word list" where
  "initDelta1 pat =
     (let x = word_of_nat (length pat + 1) :: 16 word; delta1 = replicate 256 x; x = x - 1
      in fold (\<lambda>i delta1. delta1[of_char (pat ! i) := x - word_of_nat i]) [0..<unat x] delta1)"

definition pattern_new :: "(wchar \<Rightarrow> wchar) \<Rightarrow> string \<Rightarrow> pattern" where
  "pattern_new lower aPattern =
     (let p = text_toLower lower aPattern in \<lparr>pt_delta1 = initDelta1 p, pt_str = p, pt_plen = length aPattern\<rparr>)"

text \<open>Comparison up to the zero that ends the pattern; the text ends with a zero as well.\<close>

fun match_here :: "string \<Rightarrow> string \<Rightarrow> bool" where
  "match_here [] tx = True"
| "match_here (c # px) tx = (c = CHR 0x00 \<or> (case tx of [] \<Rightarrow> False | d # tx \<Rightarrow> c = d \<and> match_here px tx))"

definition c_char :: "string \<Rightarrow> nat \<Rightarrow> char" where
  "c_char s i = (if i < length s then s ! i else CHR 0x00)"

partial_function (option) quick_loop :: "pattern \<Rightarrow> string \<Rightarrow> nat \<Rightarrow> nat option option" where
  "quick_loop p aText tx =
     (if tx + pt_plen p < length aText + 1 then
        (if match_here (pt_str p) (drop tx aText) then Some (Some tx)
         else quick_loop p aText (tx + unat (pt_delta1 p ! of_char (c_char aText (tx + pt_plen p)))))
      else Some None)"

definition pt_matchLower :: "pattern \<Rightarrow> string \<Rightarrow> nat \<Rightarrow> nat option option" where
  "pt_matchLower p aText aStartPos =
     (if length aText < aStartPos then None
      else if length aText - aStartPos < pt_plen p then Some None
      else quick_loop p aText aStartPos)"

section \<open>Lists of patterns\<close>

definition addString :: "(wchar \<Rightarrow> wchar) \<Rightarrow> string \<Rightarrow> pattern list \<Rightarrow> pattern list" where
  "addString lower aStr patterns =
     (if aStr \<noteq> [] then patterns @ [pattern_new lower (text_toLower lower aStr)] else patterns)"

fun all_match :: "pattern list \<Rightarrow> string \<Rightarrow> bool option" where
  "all_match [] aText = Some True"
| "all_match (p # ps) aText =
     (case pt_matchLower p aText 0 of
        None \<Rightarrow> None
      | Some None \<Rightarrow> Some False
      | Some (Some _) \<Rightarrow> all_match ps aText)"

definition match_all :: "(wchar \<Rightarrow> wchar) \<Rightarrow> pattern list \<Rightarrow> string \<Rightarrow> bool option" where
  "match_all lower patterns aText = all_match patterns (text_toLower lower aText)"

fun match_any_lower :: "pattern list \<Rightarrow> string \<Rightarrow> bool option" where
  "match_any_lower [] aText = Some False"
| "match_any_lower (p # ps) aText =
     (case pt_matchLower p aText 0 of
        None \<Rightarrow> None
      | Some None \<Rightarrow> match_any_lower ps aText
      | Some (Some _) \<Rightarrow> Some True)"

definition match_any :: "(wchar \<Rightarrow> wchar) \<Rightarrow> pattern list \<Rightarrow> string \<Rightarrow> bool option" where
  "match_any lower patterns aText = match_any_lower patterns (text_toLower lower aText)"

text \<open>The loop over the matches of one pattern; \<open>prev\<close> is the position of the pattern before it.\<close>

partial_function (option) pos_loop :: "pattern \<Rightarrow> string \<Rightarrow> nat option \<Rightarrow> nat option \<Rightarrow> nat option option" where
  "pos_loop p aText prev lastPos =
     (case pt_matchLower p aText (case lastPos of None \<Rightarrow> 0 | Some a \<Rightarrow> Suc a) of
        None \<Rightarrow> None
      | Some None \<Rightarrow> Some lastPos
      | Some (Some curPos) \<Rightarrow>
          (case prev of
             None \<Rightarrow> Some (Some curPos)
           | Some q \<Rightarrow> if curPos < q then pos_loop p aText prev (Some curPos) else Some (Some curPos)))"

text \<open>The loop over the patterns; \<open>results\<close> is \<open>None\<close> when no positions are asked for.\<close>

fun positions_loop ::
    "pattern list \<Rightarrow> string \<Rightarrow> bool \<Rightarrow> nat option list option \<Rightarrow> nat \<Rightarrow> nat \<Rightarrow> (nat \<times> nat option list option) option" where
  "positions_loop [] aText aResumeOnNoMatch results matches listPos = Some (matches, results)"
| "positions_loop (p # ps) aText aResumeOnNoMatch results matches listPos =
     (let prev = (case results of None \<Rightarrow> None | Some rs \<Rightarrow> if 0 < listPos then rs ! (listPos - 1) else None)
      in case pos_loop p aText prev None of
           None \<Rightarrow> None
         | Some (Some a) \<Rightarrow>
             positions_loop ps aText aResumeOnNoMatch (map_option (\<lambda>rs. rs[listPos := Some a]) results) (matches + 1) (listPos + 1)
         | Some None \<Rightarrow>
             if \<not> aResumeOnNoMatch
             then Some (0, map_option (\<lambda>rs. replicate listPos None @ drop listPos rs) results)
             else positions_loop ps aText aResumeOnNoMatch results matches (listPos + 1))"

definition ss_matchLower :: "pattern list \<Rightarrow> string \<Rightarrow> bool \<Rightarrow> nat option list option \<Rightarrow> (nat \<times> nat option list option) option" where
  "ss_matchLower patterns aText aResumeOnNoMatch results = positions_loop patterns aText aResumeOnNoMatch results 0 0"

definition ss_toString :: "pattern list \<Rightarrow> string" where
  "ss_toString patterns = foldl (\<lambda>s p. (if s \<noteq> [] then s @ '' '' else s) @ pt_str p) [] patterns"

definition ss_toStringList :: "pattern list \<Rightarrow> string list" where
  "ss_toStringList patterns = map pt_str patterns"

section \<open>Quick search\<close>

lemma match_here_prefix: "CHR 0x00 \<notin> set px \<Longrightarrow> match_here px tx \<longleftrightarrow> take (length px) tx = px"
  by (induction px tx rule: match_here.induct) (auto split: list.splits)

lemma of_char_256 [simp]: "(of_char c :: nat) < 256"
  using nat_of_char_less_256 [of c] by simp

text \<open>The table over the first \<open>k\<close> characters: the distance of the last occurrence from the end.\<close>

lemma delta1_fold:
  assumes "k \<le> n" and "n < 65536" and "length d = 256"
    and d: "d' = fold (\<lambda>i d. d[of_char (pat ! i) := word_of_nat n - word_of_nat i]) [0..<k] (d :: 16 word list)"
  shows "length d' = 256
    \<and> (\<forall>j<256. (d' ! j = d ! j \<and> (\<forall>i<k. of_char (pat ! i) \<noteq> j))
        \<or> (\<exists>i<k. of_char (pat ! i) = j \<and> unat (d' ! j) = n - i \<and> (\<forall>m<k. of_char (pat ! m) = j \<longrightarrow> m \<le> i)))"
  using assms(1) unfolding d
proof (induction k)
  case 0
  then show ?case using assms(3) by simp
next
  case (Suc k)
  let ?e = "fold (\<lambda>i d. d[of_char (pat ! i) := word_of_nat n - word_of_nat i]) [0..<k] d"
  have ih: "length ?e = 256" "\<And>j. j < 256 \<Longrightarrow> (?e ! j = d ! j \<and> (\<forall>i<k. of_char (pat ! i) \<noteq> j))
        \<or> (\<exists>i<k. of_char (pat ! i) = j \<and> unat (?e ! j) = n - i \<and> (\<forall>m<k. of_char (pat ! m) = j \<longrightarrow> m \<le> i))"
    using Suc by auto
  have "unat (word_of_nat n - word_of_nat k :: 16 word) = n - k"
    using Suc.prems assms(2) by (subst unat_sub) (simp_all add: word_le_nat_alt unsigned_of_nat take_bit_nat_eq_self)
  then show ?case using ih by (auto simp: nth_list_update less_Suc_eq)
qed

text \<open>A pattern as \<open>addString\<close> makes it.\<close>

definition good_pattern :: "pattern \<Rightarrow> bool" where
  "good_pattern p \<longleftrightarrow> pt_str p \<noteq> [] \<and> CHR 0x00 \<notin> set (pt_str p) \<and> length (pt_str p) < 65535
     \<and> pt_plen p = length (pt_str p) \<and> pt_delta1 p = initDelta1 (pt_str p)"

lemma good_pattern_new:
  assumes "text_toLower lower s = s" and "s \<noteq> []" and "CHR 0x00 \<notin> set s" and "length s < 65535"
  shows "good_pattern (pattern_new lower s) \<and> pt_str (pattern_new lower s) = s"
  using assms by (simp add: good_pattern_def pattern_new_def)

lemma shift_bounds:
  assumes "good_pattern p"
  defines "D \<equiv> \<lambda>c. unat (pt_delta1 p ! of_char c)" and "n \<equiv> length (pt_str p)"
  shows "1 \<le> D c" and "D c \<le> n + 1" and "i < n \<Longrightarrow> pt_str p ! i = c \<Longrightarrow> D c \<le> n - i"
proof -
  have n: "n < 65535" "n < 65536" using assms(1) by (simp_all add: good_pattern_def n_def)
  have x: "word_of_nat (n + 1) - 1 = (word_of_nat n :: 16 word)" "unat (word_of_nat n :: 16 word) = n"
    using n by (simp_all add: unsigned_of_nat take_bit_nat_eq_self)
  have d: "pt_delta1 p = fold (\<lambda>i d. d[of_char (pt_str p ! i) := word_of_nat n - word_of_nat i]) [0..<n] (replicate 256 (word_of_nat (n + 1) :: 16 word))"
    using assms(1) x by (simp add: good_pattern_def initDelta1_def Let_def n_def)
  have u: "unat (word_of_nat (n + 1) :: 16 word) = n + 1"
    using n by (simp only: unsigned_of_nat) (simp add: take_bit_nat_eq_self)
  note l = conjunct2 [OF delta1_fold [OF order.refl n(2) length_replicate d], rule_format, of "of_char c"]
  show "1 \<le> D c" "D c \<le> n + 1" using l u by (auto simp: D_def simp del: of_nat_add of_nat_Suc of_nat_1)
  show "D c \<le> n - i" if "i < n" "pt_str p ! i = c" using l that by (auto simp: D_def intro: diff_le_mono2)
qed

lemma take_drop_nth: "take n (drop k s) = p \<Longrightarrow> n = length p \<Longrightarrow> j < n \<Longrightarrow> k + j < length s \<and> s ! (k + j) = p ! j"
  by (metis add.commute length_drop length_take less_diff_conv min.strict_boundedE nth_drop nth_take add_leE leI not_less_eq_eq less_imp_le_nat)

lemma upt_split: "i \<le> j \<Longrightarrow> j \<le> k \<Longrightarrow> [i..<k] = [i..<j] @ [j..<k]"
  using upt_add_eq_append [of i j "k - j"] by simp

lemma find_appended: "find P (xs @ ys) = (case find P xs of None \<Rightarrow> find P ys | Some x \<Rightarrow> Some x)"
  by (induction xs) auto

lemma str_find_short:
  assumes "length s < i + length pat"
  shows "str_find pat s i = None"
proof -
  have "take (length pat) (drop k s) \<noteq> pat" if "i \<le> k" "k < length s" for k
    using assms that by (intro notI) (drule arg_cong [of _ _ length], simp)
  then show ?thesis by (simp add: str_find_def find_None_iff)
qed

lemma quick_loop_find:
  assumes g: "good_pattern p" and "tx \<le> length aText"
  shows "quick_loop p aText tx = Some (str_find (pt_str p) aText tx)"
  using assms(2)
proof (induction "length aText - tx" arbitrary: tx rule: less_induct)
  case (less tx)
  define n where "n = length (pt_str p)"
  define c where "c = c_char aText (tx + n)"
  define D where "D = unat (pt_delta1 p ! of_char c)"
  have n: "pt_plen p = n" "0 < n" "CHR 0x00 \<notin> set (pt_str p)" using g by (auto simp: good_pattern_def n_def)
  have D: "1 \<le> D" "D \<le> n + 1" "\<And>i. i < n \<Longrightarrow> pt_str p ! i = c \<Longrightarrow> D \<le> n - i"
    using shift_bounds [OF g, where c = c] by (auto simp: D_def n_def)
  show ?case
  proof (cases "tx + n < length aText + 1")
    case False
    then have "str_find (pt_str p) aText tx = None"
      using n by (intro str_find_short) (auto simp: n_def)
    then show ?thesis using False n(1) by (subst quick_loop.simps) simp
  next
    case True
    have here: "match_here (pt_str p) (drop tx aText) \<longleftrightarrow> take n (drop tx aText) = pt_str p"
      using match_here_prefix [OF n(3)] by (simp add: n_def)
    show ?thesis
    proof (cases "take n (drop tx aText) = pt_str p")
      case match: True
      have "[tx..<length aText] = tx # [Suc tx..<length aText]" using True n(2) by (simp add: upt_conv_Cons)
      then show ?thesis using match True n(1) here by (subst quick_loop.simps) (simp add: str_find_def n_def)
    next
      case no: False
      have skip: "take n (drop k aText) \<noteq> pt_str p" if "tx < k" "k < tx + D" "k < length aText" for k
      proof
        assume m: "take n (drop k aText) = pt_str p"
        let ?j = "n - (k - tx)"
        have "n + tx - k < n" "k + ?j = tx + n" using that D(2) n(2) by auto
        moreover from this have "k + ?j < length aText \<and> aText ! (k + ?j) = pt_str p ! ?j"
          using take_drop_nth [OF m n_def, of ?j] that n(2) by auto
        ultimately have "D \<le> n - ?j" using D(3) [of ?j] that n(2) by (auto simp: c_def c_char_def)
        then show False using that D(2) by auto
      qed
      have eq: "quick_loop p aText tx = quick_loop p aText (tx + D)"
        using True no here n(1) by (subst quick_loop.simps) (simp add: D_def c_def)
      have find: "str_find (pt_str p) aText tx = str_find (pt_str p) aText (tx + D)"
      proof -
        have "find (\<lambda>k. take n (drop k aText) = pt_str p) [tx..<length aText]
            = find (\<lambda>k. take n (drop k aText) = pt_str p) ([tx..<min (tx + D) (length aText)] @ [min (tx + D) (length aText)..<length aText])"
          using True n(2) by (subst upt_split [symmetric]) auto
        also have "\<dots> = find (\<lambda>k. take n (drop k aText) = pt_str p) [min (tx + D) (length aText)..<length aText]"
        proof -
          have "find (\<lambda>k. take n (drop k aText) = pt_str p) [tx..<min (tx + D) (length aText)] = None"
            using skip no by (auto simp: find_None_iff) (metis le_neq_implies_less)
          then show ?thesis by (simp add: find_appended)
        qed
        finally show ?thesis by (auto simp: str_find_def n_def min_def)
      qed
      show ?thesis
      proof (cases "tx + D \<le> length aText")
        case le: True
        then show ?thesis using less.hyps [of "tx + D"] D(1) eq find by simp
      next
        case False
        then show ?thesis using eq find n by (subst (asm) (2) quick_loop.simps) (simp add: str_find_def)
      qed
    qed
  qed
qed

lemma quick_find:
  assumes "good_pattern p" and "s \<le> length aText"
  shows "pt_matchLower p aText s = Some (str_find (pt_str p) aText s)"
proof (cases "length aText - s < pt_plen p")
  case True
  moreover from this have "str_find (pt_str p) aText s = None"
    using assms by (intro str_find_short) (auto simp: good_pattern_def)
  ultimately show ?thesis using assms(2) by (simp add: pt_matchLower_def)
next
  case False
  then show ?thesis using assms quick_loop_find [OF assms] by (simp add: pt_matchLower_def)
qed

section \<open>Positions\<close>

text \<open>The places where a pattern occurs, and the one that is chosen after the position of the pattern before it.\<close>

definition occurrences :: "string \<Rightarrow> string \<Rightarrow> nat list" where
  "occurrences pat s = filter (\<lambda>k. take (length pat) (drop k s) = pat) [0..<length s]"

definition pick_pos :: "nat option \<Rightarrow> nat list \<Rightarrow> nat option" where
  "pick_pos prev occs =
     (case find (\<lambda>k. case prev of None \<Rightarrow> True | Some q \<Rightarrow> q \<le> k) occs of
        Some k \<Rightarrow> Some k
      | None \<Rightarrow> if occs = [] then None else Some (last occs))"

fun chosen :: "string \<Rightarrow> nat option \<Rightarrow> pattern list \<Rightarrow> nat option list" where
  "chosen s prev [] = []"
| "chosen s prev (p # ps) = (let a = pick_pos prev (occurrences (pt_str p) s) in a # chosen s a ps)"

lemma length_chosen [simp]: "length (chosen s prev ps) = length ps"
  by (induction ps arbitrary: prev) (simp_all add: Let_def)

lemma occurrences_sublist: "pat \<noteq> [] \<Longrightarrow> occurrences pat s = [] \<longleftrightarrow> \<not> sublist pat s"
proof -
  assume pat: "pat \<noteq> []"
  have "take (length pat) (drop k s) = pat \<Longrightarrow> sublist pat s" for k
    by (metis append_take_drop_id sublist_appendI)
  moreover have "\<exists>k<length s. take (length pat) (drop k s) = pat" if sub: "sublist pat s"
  proof -
    obtain u v where s: "s = u @ pat @ v" using sub by (auto simp: sublist_def)
    then have "length u < length s \<and> take (length pat) (drop (length u) s) = pat" using pat by simp
    then show ?thesis by blast
  qed
  ultimately show ?thesis by (auto simp: occurrences_def filter_empty_conv)
qed

lemma pick_None_iff [simp]: "pick_pos prev occs = None \<longleftrightarrow> occs = []"
  by (auto simp: pick_pos_def split: option.splits)

lemma str_find_occurrences:
  "str_find pat s i = (case filter (\<lambda>k. i \<le> k) (occurrences pat s) of [] \<Rightarrow> None | k # _ \<Rightarrow> Some k)"
proof -
  have f: "find P xs = (case filter P xs of [] \<Rightarrow> None | x # _ \<Rightarrow> Some x)" for P and xs :: "nat list"
    by (induction xs) auto
  have "filter (\<lambda>k. i \<le> k) (occurrences pat s) = filter (\<lambda>k. take (length pat) (drop k s) = pat) [i..<length s]"
  proof (cases "i \<le> length s")
    case True
    then have r: "[0..<length s] = [0..<i] @ [i..<length s]" by (intro upt_split) auto
    have "filter (\<lambda>k. i \<le> k) (filter P [i..<length s]) = filter P [i..<length s]" "filter (\<lambda>k. i \<le> k) (filter P [0..<i]) = []" for P
      by (auto simp: filter_empty_conv intro!: filter_cong)
    then show ?thesis by (simp add: occurrences_def r)
  next
    case False
    then show ?thesis by (auto simp: occurrences_def filter_empty_conv)
  qed
  then show ?thesis by (simp add: str_find_def f)
qed

lemma sorted_occurrences: "sorted_wrt (<) (occurrences pat s)"
  by (simp add: occurrences_def sorted_wrt_filter)

text \<open>The loop over the matches of a pattern takes the rest of its occurrences one by one.\<close>

lemma pos_loop_occurrences:
  assumes "good_pattern p" and "occurrences (pt_str p) aText = pre @ occs" and "pre = [] \<or> prev \<noteq> None"
  shows "pos_loop p aText prev (if pre = [] then None else Some (last pre)) =
    Some (if occs = [] \<and> pre \<noteq> [] then Some (last pre) else pick_pos prev occs)"
  using assms(2,3)
proof (induction occs arbitrary: pre)
  case Nil
  let ?from = "case (if pre = [] then None else Some (last pre)) of None \<Rightarrow> 0 | Some a \<Rightarrow> Suc a"
  have le: "\<And>k. k \<in> set pre \<Longrightarrow> k < length aText" "\<And>k. k \<in> set pre \<Longrightarrow> k \<le> last pre"
  proof -
    fix k assume k: "k \<in> set pre"
    then have "k \<in> set (occurrences (pt_str p) aText)" using Nil by simp
    then show "k < length aText" by (simp add: occurrences_def)
    have "sorted_wrt (<) pre" using sorted_occurrences [of "pt_str p" aText] Nil by simp
    then show "k \<le> last pre" using k by (cases pre rule: rev_cases) (auto simp: sorted_wrt_append intro: less_imp_le)
  qed
  have "?from \<le> length aText" using le last_in_set [of pre] by (auto simp: Suc_le_eq)
  moreover have "filter (\<lambda>k. ?from \<le> k) pre = []" using le(2) by (auto simp: filter_empty_conv not_less_eq_eq)
  ultimately have "pt_matchLower p aText ?from = Some None"
    using quick_find [OF assms(1), of ?from aText] Nil by (simp add: str_find_occurrences)
  then show ?case by (subst pos_loop.simps) (simp add: pick_pos_def)
next
  case (Cons k occs)
  let ?from = "case (if pre = [] then None else Some (last pre)) of None \<Rightarrow> 0 | Some a \<Rightarrow> Suc a"
  have so: "sorted_wrt (<) (pre @ k # occs)" using sorted_occurrences [of "pt_str p" aText] Cons.prems(1) by simp
  have "set (pre @ k # occs) \<subseteq> {0..<length aText}" using Cons.prems(1) [symmetric] by (auto simp: occurrences_def)
  then have "?from \<le> length aText" using last_in_set [of pre] by (auto simp: Suc_le_eq subset_iff)
  moreover have "filter (\<lambda>k. ?from \<le> k) (pre @ k # occs) = k # occs"
  proof -
    have "filter (\<lambda>j. ?from \<le> j) pre = []"
    proof (cases "pre = []")
      case False
      then have "j \<le> last pre" if "j \<in> set pre" for j
        using so that by (cases pre rule: rev_cases) (auto simp: sorted_wrt_append intro: less_imp_le)
      then show ?thesis using False by (auto simp: filter_empty_conv not_less_eq_eq)
    qed simp
    moreover have "filter (\<lambda>j. ?from \<le> j) (k # occs) = k # occs"
      using so last_in_set [of pre] by (intro filter_True) (auto simp: sorted_wrt_append Suc_le_eq)
    ultimately show ?thesis by simp
  qed
  ultimately have here: "pt_matchLower p aText ?from = Some (Some k)"
    using quick_find [OF assms(1), of ?from aText] Cons.prems(1) by (simp add: str_find_occurrences)
  show ?case
  proof (cases "case prev of None \<Rightarrow> True | Some q \<Rightarrow> q \<le> k")
    case True
    then show ?thesis using here by (subst pos_loop.simps) (auto simp: pick_pos_def split: option.splits)
  next
    case False
    then obtain q where q: "prev = Some q" "k < q" by (auto split: option.splits)
    have "pos_loop p aText prev (Some (last (pre @ [k]))) =
        Some (if occs = [] \<and> pre @ [k] \<noteq> [] then Some (last (pre @ [k])) else pick_pos prev occs)"
      using Cons.IH [of "pre @ [k]"] Cons.prems q(1) by simp
    then show ?thesis using here q by (subst pos_loop.simps) (auto simp: pick_pos_def split: option.splits)
  qed
qed

lemma pos_loop_pick: "good_pattern p \<Longrightarrow> pos_loop p aText prev None = Some (pick_pos prev (occurrences (pt_str p) aText))"
  using pos_loop_occurrences [of p aText "[]" "occurrences (pt_str p) aText" prev] by simp

lemma positions_loop_chosen:
  assumes "\<forall>p\<in>set ps. good_pattern p" and "results = Some (pre @ replicate (length ps) None)"
  shows "positions_loop ps aText resume results matches (length pre) =
    (let prev = (if pre = [] then None else last pre); cs = chosen aText prev ps
     in if resume \<or> None \<notin> set cs then Some (matches + length (filter (\<lambda>a. a \<noteq> None) cs), Some (pre @ cs))
        else Some (0, Some (replicate (length pre + length ps) None)))"
  using assms
proof (induction ps arbitrary: pre results matches)
  case Nil
  then show ?case by (simp add: Let_def)
next
  case (Cons p ps)
  let ?prev = "if pre = [] then None else last pre"
  define a where "a = pick_pos ?prev (occurrences (pt_str p) aText)"
  have prev: "(case results of None \<Rightarrow> None | Some rs \<Rightarrow> if 0 < length pre then rs ! (length pre - 1) else None) = ?prev"
    using Cons.prems(2) by (simp add: nth_append last_conv_nth)
  have loop: "pos_loop p aText ?prev None = Some a" using pos_loop_pick Cons.prems(1) by (simp add: a_def)
  have upd: "map_option (\<lambda>rs. rs[length pre := a]) results = Some ((pre @ [a]) @ replicate (length ps) None)"
    "results = Some ((pre @ [None]) @ replicate (length ps) None)"
    using Cons.prems(2) by simp_all
  have rep: "replicate (length pre) None @ drop (length pre) (pre @ replicate (length (p # ps)) None) = replicate (length pre + length (p # ps)) (None :: nat option)"
    by (simp add: replicate_add [symmetric] del: replicate.simps)
  have IH: "\<And>res m. res = Some ((pre @ [a]) @ replicate (length ps) None) \<Longrightarrow> positions_loop ps aText resume res m (Suc (length pre)) =
    (let cs = chosen aText a ps
     in if resume \<or> None \<notin> set cs then Some (m + length (filter (\<lambda>a. a \<noteq> None) cs), Some ((pre @ [a]) @ cs))
        else Some (0, Some (replicate (Suc (length pre) + length ps) None)))"
    using Cons.IH [of _ "pre @ [a]"] Cons.prems(1) by (auto simp: Let_def)
  show ?case
  proof (cases a)
    case None
    show ?thesis
      unfolding positions_loop.simps prev Let_def chosen.simps a_def [symmetric] loop
      using Cons.prems(2) rep IH [of results matches] upd(2) unfolding None by (cases resume) (simp_all add: Let_def del: not_None_eq)
  next
    case (Some k)
    show ?thesis
      unfolding positions_loop.simps prev Let_def chosen.simps a_def [symmetric] loop
      using IH [OF upd(1)] by (simp add: Some Let_def)
  qed
qed

lemma matchLower_chosen:
  assumes "\<forall>p\<in>set ps. good_pattern p"
  shows "ss_matchLower ps aText resume (Some (replicate (length ps) None)) =
    (let cs = chosen aText None ps
     in if resume \<or> None \<notin> set cs then Some (length (filter (\<lambda>a. a \<noteq> None) cs), Some cs)
        else Some (0, Some (replicate (length ps) None)))"
  using positions_loop_chosen [OF assms, of _ "[]" aText resume 0] by (simp add: ss_matchLower_def Let_def)

lemma chosen_None: "i < length ps \<Longrightarrow> good_pattern (ps ! i) \<Longrightarrow> chosen s prev ps ! i = None \<longleftrightarrow> \<not> sublist (pt_str (ps ! i)) s"
proof (induction ps arbitrary: i prev)
  case (Cons p ps)
  then show ?case by (cases i) (simp_all add: Let_def occurrences_sublist good_pattern_def)
qed simp

lemma find_sublist: "good_pattern p \<Longrightarrow> str_find (pt_str p) s 0 = None \<longleftrightarrow> \<not> sublist (pt_str p) s"
  using occurrences_sublist [of "pt_str p" s]
  by (auto simp: str_find_occurrences good_pattern_def split: list.splits)

lemma match_sublist:
  assumes "good_pattern p"
  obtains "pt_matchLower p s 0 = Some None" and "\<not> sublist (pt_str p) s"
  | k where "pt_matchLower p s 0 = Some (Some k)" and "sublist (pt_str p) s"
  using quick_find [OF assms, of 0 s] find_sublist [OF assms, of s] by (cases "str_find (pt_str p) s 0") auto

lemma all_match_sublists: "\<forall>p\<in>set ps. good_pattern p \<Longrightarrow> all_match ps s = Some (\<forall>p\<in>set ps. sublist (pt_str p) s)"
proof (induction ps)
  case (Cons p ps)
  then have "good_pattern p" by simp
  then show ?case by (rule match_sublist [of p s]) (use Cons in auto)
qed simp

lemma match_any_sublists: "\<forall>p\<in>set ps. good_pattern p \<Longrightarrow> match_any_lower ps s = Some (\<exists>p\<in>set ps. sublist (pt_str p) s)"
proof (induction ps)
  case (Cons p ps)
  then have "good_pattern p" by simp
  then show ?case by (rule match_sublist [of p s]) (use Cons in auto)
qed simp

section \<open>Properties\<close>

definition stuck :: "pattern \<Rightarrow> string \<Rightarrow> nat \<Rightarrow> bool" where
  "stuck p s tx \<longleftrightarrow> tx + pt_plen p < length s + 1 \<and> \<not> match_here (pt_str p) (drop tx s)
     \<and> unat (pt_delta1 p ! of_char (c_char s (tx + pt_plen p))) = 0"

lemma quick_loop_stuck: "quick_loop p s tx = Some y \<Longrightarrow> \<not> stuck p s tx"
proof (erule quick_loop.raw_induct [of "\<lambda>p s tx y. \<not> stuck p s tx", rotated])
  fix loop p s tx y
  assume IH: "\<And>p s tx y. loop p s tx = Some y \<Longrightarrow> \<not> stuck p s tx"
    and run: "(if tx + pt_plen p < length s + 1 then
       (if match_here (pt_str p) (drop tx s) then Some (Some tx)
        else loop p s (tx + unat (pt_delta1 p ! of_char (c_char s (tx + pt_plen p)))))
     else Some None) = Some y"
  show "\<not> stuck p s tx"
  proof
    assume st: "stuck p s tx"
    then have "loop p s tx = Some y" using run by (simp add: stuck_def)
    then show False using IH st by blast
  qed
qed

text \<open>
  A pattern of exactly 65535 characters makes the 16-bit shift of every other character zero: the search does not
  return when such a character follows a first mismatch.
\<close>

lemma endless_search:
  assumes "length (pt_str p) = 65535" and "pt_plen p = 65535" and "pt_delta1 p = initDelta1 (pt_str p)"
    and "CHR 0x00 \<notin> set (pt_str p)" and "65535 < length s" and "s ! 65535 \<notin> set (pt_str p)" and "take 65535 s \<noteq> pt_str p"
  shows "pt_matchLower p s 0 = None"
proof -
  let ?D = "pt_delta1 p ! of_char (s ! 65535)"
  have w: "word_of_nat (65535 + 1) = (0 :: 16 word)" "(0 :: 16 word) - 1 = word_of_nat 65535" "unat (word_of_nat 65535 :: 16 word) = 65535"
    by simp_all
  have d: "pt_delta1 p = fold (\<lambda>i d. d[of_char (pt_str p ! i) := word_of_nat 65535 - word_of_nat i]) [0..<65535] (replicate 256 (0 :: 16 word))"
    unfolding assms(3) initDelta1_def assms(1) Let_def w(1) w(2) w(3) by (rule refl)
  have "?D = 0"
    using conjunct2 [OF delta1_fold [OF order.refl _ length_replicate d], rule_format, of "of_char (s ! 65535)"] assms(1,6)
    by (auto simp: in_set_conv_nth)
  then have "unat ?D = 0" by simp
  moreover have "\<not> match_here (pt_str p) s" using match_here_prefix [OF assms(4)] assms(1,7) by simp
  ultimately have "quick_loop p s 0 = Some y \<Longrightarrow> False" for y
    using assms(1,2,5) quick_loop_stuck [of p s 0 y] by (simp add: c_char_def stuck_def)
  then show ?thesis using assms(1,2,5) by (cases "quick_loop p s 0") (auto simp: pt_matchLower_def)
qed

lemma addString_good:
  assumes "aStr \<noteq> []" and "t = text_toLower lower aStr" and "text_toLower lower t = t" and "t \<noteq> []" and "CHR 0x00 \<notin> set t"
    and "length t < 65535"
  shows "addString lower aStr ps = ps @ [pattern_new lower t]" and "good_pattern (pattern_new lower t)" and "pt_str (pattern_new lower t) = t"
  using assms good_pattern_new [of lower t] by (simp_all add: addString_def)

text \<open>
  C36: Quick search finds the first occurrence of a pattern from any start, for every pattern as \<open>addString\<close> makes it
  (not empty, without a zero, shorter than 65535 characters), and always returns.  A list of patterns matches when
  all, or any, of them occur in the text.  With positions, every pattern gets the first occurrence that is not before
  the position of the pattern in front of it, or its last occurrence when there is none; when one does not occur, the
  positions are kept or reset as the caller asks.
\<close>

theorem pattern_search:
  assumes "\<forall>p\<in>set ps. good_pattern p"
  shows "(\<forall>p\<in>set ps. \<forall>i\<le>length s. pt_matchLower p s i = Some (str_find (pt_str p) s i))
    \<and> match_all lower ps s = Some (\<forall>p\<in>set ps. sublist (pt_str p) (text_toLower lower s))
    \<and> match_any lower ps s = Some (\<exists>p\<in>set ps. sublist (pt_str p) (text_toLower lower s))
    \<and> (let cs = chosen s None ps
       in (\<forall>i<length ps. cs ! i = None \<longleftrightarrow> \<not> sublist (pt_str (ps ! i)) s)
        \<and> (\<forall>resume. ss_matchLower ps s resume (Some (replicate (length ps) None)) =
            (if resume \<or> None \<notin> set cs then Some (length (filter (\<lambda>a. a \<noteq> None) cs), Some cs)
             else Some (0, Some (replicate (length ps) None)))))"
  using assms quick_find all_match_sublists match_any_sublists matchLower_chosen [OF assms, of s] chosen_None [of _ ps s None]
  unfolding match_all_def match_any_def Let_def by (simp del: not_None_eq)

definition test_pattern :: "string \<Rightarrow> pattern" where
  "test_pattern s = \<lparr>pt_delta1 = initDelta1 s, pt_str = s, pt_plen = length s\<rparr>"

theorem pattern_search_witness:
  "pt_matchLower (test_pattern ''ab'') ''xabab'' 2 = Some (Some 3)
   \<and> ss_matchLower [test_pattern ''b'', test_pattern ''a''] ''abab'' False (Some [None, None]) = Some (2, Some [Some 1, Some 2])"
proof -
  have g: "\<forall>p\<in>set [test_pattern ''ab'']. good_pattern p" "\<forall>p\<in>set [test_pattern ''b'', test_pattern ''a'']. good_pattern p"
    by (simp_all add: test_pattern_def good_pattern_def)
  have "\<forall>p\<in>set [test_pattern ''ab'']. \<forall>i\<le>length ''xabab''. pt_matchLower p ''xabab'' i = Some (str_find (pt_str p) ''xabab'' i)"
    using pattern_search [OF g(1), of "''xabab''" "\<lambda>c. c"] by (rule conjunct1)
  then have one: "pt_matchLower (test_pattern ''ab'') ''xabab'' 2 = Some (str_find ''ab'' ''xabab'' 2)"
    by (simp add: test_pattern_def)
  have cs: "chosen ''abab'' None [test_pattern ''b'', test_pattern ''a''] = [Some 1, Some 2]"
    by (simp add: test_pattern_def occurrences_def pick_pos_def upt_rec eval_nat_numeral)
  have "ss_matchLower [test_pattern ''b'', test_pattern ''a''] ''abab'' False (Some [None, None]) = Some (2, Some [Some 1, Some 2])"
    using matchLower_chosen [OF g(2), of "''abab''" False] unfolding cs by (simp add: Let_def)
  then show ?thesis using one by (simp add: str_find_def upt_rec)
qed

end
