(* ===== verification/Bloom.thy ===== *)
theory Bloom
  imports String_Search
begin

text \<open>
  \<^bold>\<open>core/classes/BloomFilter.h\<close>, the filter over the names of the share, and \<^bold>\<open>hash/value/HashBloom.cpp\<close>, the
  filter over its hashes that a hub asks for.  Tables are lists of bits and are not empty; \<open>char\<close> is signed.
\<close>

section \<open>Filters over names\<close>

definition bloom_step :: "char \<Rightarrow> 64 word \<Rightarrow> 64 word" where
  "bloom_step c h = h XOR (ucast (scast (byte_of_char c) + (0x9e3779b9 :: 32 word)) + push_bit 6 h + drop_bit 2 h)"

definition bloom_getPos :: "bool list \<Rightarrow> string \<Rightarrow> nat \<Rightarrow> nat \<Rightarrow> nat" where
  "bloom_getPos table s i l = unat (fold bloom_step (take l (drop i s)) 0) mod length table"

definition bf_add :: "nat \<Rightarrow> string \<Rightarrow> bool list \<Rightarrow> bool list" where
  "bf_add N s table =
     (if N \<le> length s then fold (\<lambda>i table. table[bloom_getPos table s i N := True]) [0..<length s - N + 1] table
      else table)"

definition bf_match :: "nat \<Rightarrow> bool list \<Rightarrow> string \<Rightarrow> bool" where
  "bf_match N table s \<longleftrightarrow> (N \<le> length s \<longrightarrow> list_all (\<lambda>i. table ! bloom_getPos table s i N) [0..<length s - N + 1])"

definition bf_clear :: "bool list \<Rightarrow> bool list" where
  "bf_clear table = replicate (length table) False"

text \<open>\<open>None\<close>: the other table is shorter.\<close>

definition bf_merge :: "bool list \<Rightarrow> bool list \<Rightarrow> bool list option" where
  "bf_merge table other =
     (if length other < length table then None
      else Some (fold (\<lambda>i t. if other ! i then t[i := True] else t) [0..<length table] table))"

text \<open>
  What a search needs of a filter over names: what is added passes, with every part of it, and stays.
\<close>

locale name_filter =
  fixes add :: "string \<Rightarrow> 'f \<Rightarrow> 'f" and pass :: "'f \<Rightarrow> string \<Rightarrow> bool" and valid :: "'f \<Rightarrow> bool"
  assumes valid_add: "valid f \<Longrightarrow> valid (add s f)"
    and pass_added: "valid f \<Longrightarrow> sublist p s \<Longrightarrow> pass (add s f) p"
    and pass_kept: "valid f \<Longrightarrow> pass f p \<Longrightarrow> pass (add s f) p"
begin

lemma valid_fold: "valid f \<Longrightarrow> valid (fold add names f)"
  by (induction names arbitrary: f) (simp_all add: valid_add)

lemma pass_fold_kept: "valid f \<Longrightarrow> pass f p \<Longrightarrow> pass (fold add names f) p"
  by (induction names arbitrary: f) (simp_all add: valid_add pass_kept)

lemma pass_names:
  assumes "valid f" and "s \<in> set names" and "sublist p s"
  shows "pass (fold add names f) p"
  using assms
proof (induction names arbitrary: f)
  case (Cons n names)
  then show ?case by (auto simp: valid_add intro: pass_fold_kept pass_added)
qed simp

end

lemma bloom_getPos_length: "length t = length u \<Longrightarrow> bloom_getPos t s i l = bloom_getPos u s i l"
  by (simp add: bloom_getPos_def)

text \<open>The cells of a table after the cells at some positions are set.\<close>

definition with_bits :: "nat set \<Rightarrow> bool list \<Rightarrow> bool list" where
  "with_bits P table = map (\<lambda>j. table ! j \<or> j \<in> P) [0..<length table]"

lemma length_with_bits [simp]: "length (with_bits P t) = length t"
  by (simp add: with_bits_def)

lemma with_bits_nth [simp]: "j < length t \<Longrightarrow> with_bits P t ! j \<longleftrightarrow> t ! j \<or> j \<in> P"
  by (simp add: with_bits_def)

lemma with_bits_update: "(with_bits P t)[i := True] = with_bits (insert i P) t"
proof (rule nth_equalityI)
  fix j assume "j < length ((with_bits P t)[i := True])"
  then show "(with_bits P t)[i := True] ! j = with_bits (insert i P) t ! j" by (cases "i = j") simp_all
qed simp

lemma with_bits_empty: "with_bits {} t = t"
  by (rule nth_equalityI) auto

lemma set_bits:
  assumes "\<And>t i. length t = length table \<Longrightarrow> f t i = f table i"
  shows "fold (\<lambda>i t. t[f t i := True]) is table = with_bits (f table ` set is) table"
proof (induction "is" rule: rev_induct)
  case Nil
  then show ?case by (simp add: with_bits_empty)
next
  case (snoc i "is")
  then show ?case using assms [of "with_bits (f table ` set is) table" i] by (simp add: with_bits_update)
qed

lemma bf_add_bits:
  assumes "N \<le> length s"
  shows "bf_add N s t = with_bits ((\<lambda>i. bloom_getPos t s i N) ` {0..<length s - N + 1}) t"
proof -
  have "fold (\<lambda>i table. table[bloom_getPos table s i N := True]) [0..<length s - N + 1] t
      = with_bits ((\<lambda>i. bloom_getPos t s i N) ` set [0..<length s - N + 1]) t"
    by (rule set_bits [of t "\<lambda>t i. bloom_getPos t s i N"]) (rule bloom_getPos_length)
  then show ?thesis unfolding bf_add_def if_P [OF assms] set_upt .
qed

lemma length_bf_add [simp]: "length (bf_add N s t) = length t"
proof (cases "N \<le> length s")
  case True
  then show ?thesis by (simp add: bf_add_bits)
next
  case False
  then show ?thesis by (simp add: bf_add_def)
qed

lemma bloom_getPos_less: "t \<noteq> [] \<Longrightarrow> bloom_getPos t s i l < length t"
  by (simp add: bloom_getPos_def)

lemma bf_match_pos: "bf_match N t p \<longleftrightarrow> (N \<le> length p \<longrightarrow> (\<forall>i<length p - N + 1. t ! bloom_getPos t p i N))"
  by (auto simp: bf_match_def list_all_iff simp del: upt_Suc)

lemma bf_pos_add [simp]: "bloom_getPos (bf_add N s t) p i l = bloom_getPos t p i l"
  by (rule bloom_getPos_length) simp

lemma bf_match_kept:
  assumes "t \<noteq> []" and "bf_match N t p"
  shows "bf_match N (bf_add N s t) p"
proof (cases "N \<le> length s")
  case True
  then have "bf_add N s t ! j" if "t ! j" "j < length t" for j using that by (simp add: bf_add_bits)
  then show ?thesis using assms(2) bloom_getPos_less [OF assms(1)] unfolding bf_match_pos bf_pos_add by blast
next
  case False
  then show ?thesis using assms(2) by (simp add: bf_add_def)
qed

lemma bf_match_added:
  assumes t: "t \<noteq> []" and "sublist p s"
  shows "bf_match N (bf_add N s t) p"
proof -
  obtain u v where s: "s = u @ p @ v" using assms(2) by (auto simp: sublist_def)
  have "bf_add N s t ! bloom_getPos t p i N" if i: "i < length p - N + 1" "N \<le> length p" for i
  proof -
    have "bloom_getPos t p i N = bloom_getPos t s (length u + i) N"
      using i by (simp add: bloom_getPos_def s)
    moreover have "length u + i \<in> {0..<length s - N + 1}" using i by (simp add: s)
    ultimately have "bloom_getPos t p i N \<in> (\<lambda>i. bloom_getPos t s i N) ` {0..<length s - N + 1}" by blast
    moreover have "N \<le> length s" using i by (simp add: s)
    ultimately show ?thesis using bloom_getPos_less [OF t] by (simp add: bf_add_bits)
  qed
  then show ?thesis unfolding bf_match_pos bf_pos_add by simp
qed

interpretation share_bloom: name_filter "bf_add 5" "bf_match 5" "\<lambda>t. t \<noteq> []"
proof
  show "t \<noteq> [] \<Longrightarrow> bf_add 5 s t \<noteq> []" for s t by (metis length_bf_add length_0_conv)
qed (simp_all add: bf_match_kept bf_match_added)

lemma bf_merge_match:
  assumes "bf_merge t u = Some v" and "length u = length t"
  shows "length v = length t" and "t \<noteq> [] \<Longrightarrow> bf_match N t p \<or> bf_match N u p \<Longrightarrow> bf_match N v p"
proof -
  have "fold (\<lambda>i t. if u ! i then t[i := True] else t) is t = with_bits (set (filter (\<lambda>i. u ! i) is)) t" for "is"
    by (induction "is" rule: rev_induct) (auto simp: with_bits_empty with_bits_update)
  then have v: "v = with_bits (set (filter (\<lambda>i. u ! i) [0..<length t])) t"
    using assms by (simp add: bf_merge_def split: if_splits)
  then show l: "length v = length t" by simp
  show "bf_match N v p" if "t \<noteq> []" "bf_match N t p \<or> bf_match N u p"
  proof -
    note p = bloom_getPos_length [OF l, of p _ N] bloom_getPos_length [OF assms(2), of p _ N] bloom_getPos_less [OF that(1), of p _ N]
    have "v ! bloom_getPos t p i N \<longleftrightarrow> t ! bloom_getPos t p i N \<or> u ! bloom_getPos t p i N" for i
      using p by (simp add: v)
    then show ?thesis using that(2) p by (auto simp: bf_match_pos)
  qed
qed

section \<open>Filters over hashes\<close>

record hash_bloom =
  hb_bloom :: "bool list"
  hb_k :: nat
  hb_h :: nat

definition hb_reset :: "nat \<Rightarrow> nat \<Rightarrow> nat \<Rightarrow> hash_bloom \<Rightarrow> hash_bloom" where
  "hb_reset k m h b =
     b\<lparr>hb_bloom := take m (hb_bloom b) @ replicate (m - length (hb_bloom b)) False, hb_k := k, hb_h := h\<rparr>"

definition hb_push_back :: "bool \<Rightarrow> hash_bloom \<Rightarrow> hash_bloom" where
  "hb_push_back v b = b\<lparr>hb_bloom := hb_bloom b @ [v]\<rparr>"

text \<open>The bits of a hash from a place on, as a number; the hub asks for at most 64 of them.\<close>

definition hash_bits :: "byte list \<Rightarrow> nat \<Rightarrow> nat \<Rightarrow> 64 word" where
  "hash_bits tth start h =
     fold (\<lambda>i x. if bit (tth ! ((start + i) div 8)) ((start + i) mod 8) then x OR push_bit i 1 else x) [0..<h] 0"

definition hb_pos :: "byte list \<Rightarrow> nat \<Rightarrow> hash_bloom \<Rightarrow> nat" where
  "hb_pos tth n b =
     (if 192 < (n + 1) * hb_h b then 0 else unat (hash_bits tth (n * hb_h b) (hb_h b)) mod length (hb_bloom b))"

definition hb_add :: "byte list \<Rightarrow> hash_bloom \<Rightarrow> hash_bloom" where
  "hb_add tth b = fold (\<lambda>i b. b\<lparr>hb_bloom := (hb_bloom b)[hb_pos tth i b := True]\<rparr>) [0..<hb_k b] b"

definition hb_match :: "hash_bloom \<Rightarrow> byte list \<Rightarrow> bool" where
  "hb_match b tth \<longleftrightarrow> hb_bloom b \<noteq> [] \<and> list_all (\<lambda>i. hb_bloom b ! hb_pos tth i b) [0..<hb_k b]"

text \<open>Eight bits to a byte, the first one lowest; \<open>None\<close> when the number of bits does not fill the last byte.\<close>

definition hb_copy_to :: "hash_bloom \<Rightarrow> byte list \<Rightarrow> byte list option" where
  "hb_copy_to b v =
     (let n = length (hb_bloom b); v = take (n div 8) v @ replicate (n div 8 - length v) 0
      in if n mod 8 \<noteq> 0 then None
         else Some (fold (\<lambda>i v. v[i div 8 := v ! (i div 8) OR push_bit (i mod 8) (if hb_bloom b ! i then 1 else 0)]) [0..<n] v))"

text \<open>\<open>ShareManager::getBloom\<close> over the hashes of a profile.\<close>

definition sm_getBloom :: "byte list list \<Rightarrow> nat \<Rightarrow> nat \<Rightarrow> nat \<Rightarrow> byte list \<Rightarrow> byte list option" where
  "sm_getBloom tths k m h v =
     hb_copy_to (fold hb_add tths (hb_reset k m h \<lparr>hb_bloom = [], hb_k = 0, hb_h = 0\<rparr>)) v"

lemma hb_pos_update [simp]: "length t = length (hb_bloom b) \<Longrightarrow> hb_pos tth n (b\<lparr>hb_bloom := t\<rparr>) = hb_pos tth n b"
  by (simp add: hb_pos_def)

lemma hb_add_bits: "hb_add tth b = b\<lparr>hb_bloom := with_bits ((\<lambda>i. hb_pos tth i b) ` {0..<hb_k b}) (hb_bloom b)\<rparr>"
proof -
  have "fold (\<lambda>i b. b\<lparr>hb_bloom := (hb_bloom b)[hb_pos tth i b := True]\<rparr>) is b
      = b\<lparr>hb_bloom := with_bits ((\<lambda>i. hb_pos tth i b) ` set is) (hb_bloom b)\<rparr>" for "is"
    by (induction "is" rule: rev_induct) (simp_all add: with_bits_empty with_bits_update)
  then show ?thesis by (simp add: hb_add_def)
qed

lemma hb_add_keeps [simp]: "length (hb_bloom (hb_add tth b)) = length (hb_bloom b)" "hb_k (hb_add tth b) = hb_k b" "hb_h (hb_add tth b) = hb_h b"
  by (simp_all add: hb_add_bits)

lemma hb_pos_less: "hb_bloom b \<noteq> [] \<Longrightarrow> hb_pos tth i b < length (hb_bloom b)"
  by (simp add: hb_pos_def)

lemma hb_match_pos: "hb_match b tth \<longleftrightarrow> hb_bloom b \<noteq> [] \<and> (\<forall>i<hb_k b. hb_bloom b ! hb_pos tth i b)"
  by (auto simp: hb_match_def list_all_iff)

lemma hb_match_add:
  assumes "hb_bloom b \<noteq> []" and "x = tth \<or> hb_match b x"
  shows "hb_match (hb_add tth b) x"
proof -
  have "with_bits P (hb_bloom b) \<noteq> []" for P using assms(1) by (metis length_0_conv length_with_bits)
  then show ?thesis using assms hb_pos_less [OF assms(1)] by (auto simp: hb_match_pos hb_add_bits)
qed

lemma hb_match_fold:
  assumes "hb_bloom b \<noteq> []" and "x \<in> set tths \<or> hb_match b x"
  shows "hb_match (fold hb_add tths b) x"
  using assms
proof (induction tths arbitrary: b)
  case (Cons t tths)
  have "hb_bloom (hb_add t b) \<noteq> []" using Cons.prems(1) by (metis hb_add_keeps(1) length_0_conv)
  then show ?case using Cons hb_match_add [of b x t] by auto
qed simp

lemma hb_fold_keeps [simp]:
  "length (hb_bloom (fold hb_add tths b)) = length (hb_bloom b)" "hb_k (fold hb_add tths b) = hb_k b" "hb_h (fold hb_add tths b) = hb_h b"
  by (induction tths arbitrary: b) simp_all

text \<open>The filter that the other side builds of the bytes.\<close>

definition received_bloom :: "nat \<Rightarrow> nat \<Rightarrow> byte list \<Rightarrow> hash_bloom" where
  "received_bloom k h v =
     fold hb_push_back (map (\<lambda>i. bit (v ! (i div 8)) (i mod 8)) [0..<8 * length v]) \<lparr>hb_bloom = [], hb_k = k, hb_h = h\<rparr>"

lemma received_bloom_eq:
  "received_bloom k h v = \<lparr>hb_bloom = map (\<lambda>i. bit (v ! (i div 8)) (i mod 8)) [0..<8 * length v], hb_k = k, hb_h = h\<rparr>"
proof -
  have "fold hb_push_back bs b = b\<lparr>hb_bloom := hb_bloom b @ bs\<rparr>" for bs b
    by (induction bs arbitrary: b) (simp_all add: hb_push_back_def)
  then show ?thesis by (simp add: received_bloom_def)
qed

lemma copy_bits:
  assumes "n = 8 * c" and "j < n" and "k \<le> n"
    and "w = fold (\<lambda>i v. v[i div 8 := v ! (i div 8) OR push_bit (i mod 8) (if bs ! i then 1 else 0)]) [0..<k] (replicate c (0 :: byte))"
  shows "length w = c \<and> (bit (w ! (j div 8)) (j mod 8) \<longleftrightarrow> j < k \<and> bs ! j)"
  using assms(3) unfolding assms(4)
proof (induction k)
  case 0
  then show ?case using assms(1,2) by simp
next
  case (Suc k)
  let ?w = "fold (\<lambda>i v. v[i div 8 := v ! (i div 8) OR push_bit (i mod 8) (if bs ! i then 1 else 0)]) [0..<k] (replicate c (0 :: byte))"
  have ih: "length ?w = c" "bit (?w ! (j div 8)) (j mod 8) \<longleftrightarrow> j < k \<and> bs ! j" using Suc by auto
  have j: "j = k \<longleftrightarrow> j div 8 = k div 8 \<and> j mod 8 = k mod 8" by (metis div_mult_mod_eq)
  have len: "k div 8 < c" "j div 8 < c" using assms(1,2) Suc.prems by (simp_all add: less_mult_imp_div_less)
  have one: "bit (push_bit (k mod 8) (if bs ! k then 1 else 0) :: byte) (j mod 8) \<longleftrightarrow> bs ! k \<and> j mod 8 = k mod 8"
    by (auto simp: bit_simps)
  show ?case
  proof (cases "j div 8 = k div 8")
    case True
    then show ?thesis using ih len one j by (auto simp: bit_simps less_Suc_eq)
  next
    case False
    then have "j \<noteq> k" by blast
    then show ?thesis using False ih len by (simp add: less_Suc_eq)
  qed
qed

lemma hb_copy_received:
  assumes "length (hb_bloom b) mod 8 = 0"
  obtains v where "hb_copy_to b [] = Some v" and "length v = length (hb_bloom b) div 8"
    and "received_bloom (hb_k b) (hb_h b) v = b"
proof -
  let ?n = "length (hb_bloom b)"
  have n: "?n = 8 * (?n div 8)" using assms by auto
  define v where "v = fold (\<lambda>i v. v[i div 8 := v ! (i div 8) OR push_bit (i mod 8) (if hb_bloom b ! i then 1 else 0)]) [0..<?n] (replicate (?n div 8) (0 :: byte))"
  have bits: "length v = ?n div 8 \<and> (bit (v ! (j div 8)) (j mod 8) \<longleftrightarrow> hb_bloom b ! j)" if "j < ?n" for j
    using copy_bits [OF n that order.refl v_def] that by simp
  have len: "length v = ?n div 8"
  proof (cases ?n)
    case (Suc _)
    then show ?thesis using bits [of 0] by simp
  qed (simp add: v_def)
  have "hb_bloom (received_bloom (hb_k b) (hb_h b) v) = hb_bloom b"
    using bits len n by (intro nth_equalityI) (auto simp: received_bloom_eq)
  then have "received_bloom (hb_k b) (hb_h b) v = b" by (simp add: received_bloom_eq)
  moreover have "hb_copy_to b [] = Some v" using assms by (simp add: hb_copy_to_def v_def Let_def)
  ultimately show ?thesis using that len by blast
qed

text \<open>
  C37: Bloom filters have no false negatives.  Whatever names are added to the filter of the share, every part of one
  of them passes.  The filter over the hashes of a share, copied to bytes for a hub and read back by it, has the size
  that was asked for and matches every hash of the share.
\<close>

theorem no_false_negatives:
  assumes "t \<noteq> []" and "0 < m" and "m mod 8 = 0"
  shows "(\<forall>s\<in>set names. \<forall>p. sublist p s \<longrightarrow> bf_match 5 (fold (bf_add 5) names t) p)
    \<and> (\<exists>v. sm_getBloom tths k m h [] = Some v \<and> length v = m div 8 \<and> (\<forall>tth\<in>set tths. hb_match (received_bloom k h v) tth))"
proof -
  define b where "b = fold hb_add tths (hb_reset k m h \<lparr>hb_bloom = [], hb_k = 0, hb_h = 0\<rparr>)"
  have b: "length (hb_bloom b) = m" "hb_k b = k" "hb_h b = h" by (simp_all add: b_def hb_reset_def)
  obtain v where v: "hb_copy_to b [] = Some v" "length v = m div 8" "received_bloom k h v = b"
    using hb_copy_received [of b] b assms(3) by metis
  have "hb_match b tth" if "tth \<in> set tths" for tth
    unfolding b_def using that assms(2) by (intro hb_match_fold) (auto simp: hb_reset_def)
  then show ?thesis using v share_bloom.pass_names [OF assms(1)] by (auto simp: sm_getBloom_def b_def [symmetric])
qed

theorem no_false_negatives_witness:
  "bf_match 5 (fold (bf_add 5) [''some name'', ''other''] (replicate 64 False)) ''me nam''
   \<and> (\<exists>v. sm_getBloom [replicate 24 1, replicate 24 7] 2 64 32 [] = Some v \<and> length v = 8 \<and> hb_match (received_bloom 2 32 v) (replicate 24 7))"
proof -
  have s: "sublist ''me nam'' ''some name''" unfolding sublist_def by (rule exI [of _ "''so''"], rule exI [of _ "''e''"]) simp
  show ?thesis
    using no_false_negatives [of "replicate 64 False" 64 "[''some name'', ''other'']" "[replicate 24 1, replicate 24 7]" 2 32] s
    by auto
qed

end
