(* ===== verification/Transfer_Commands.thy ===== *)
theory Transfer_Commands
  imports Adc Upload_File
begin

text \<open>
  The commands of a transfer: the request that \<open>Download::getCommand\<close> writes, how \<open>UploadManager\<close> reads it
  (\<open>on(AdcCommand::GET)\<close>) and answers it, and how \<open>DownloadManager\<close> takes the answer (\<open>on(AdcCommand::SND)\<close>,
  \<open>startData\<close>).  \<open>Util::toString\<close> and \<open>Util::toInt64\<close> (\<open>strtoll\<close>) turn numbers into text and back.
\<close>

section \<open>Numbers\<close>

definition int_text :: "int \<Rightarrow> string" where
  "int_text i = (if i < 0 then CHR ''-'' # nat_text (nat (- i)) else nat_text (nat i))"

definition is_digit :: "char \<Rightarrow> bool" where
  "is_digit c \<longleftrightarrow> (48 :: nat) \<le> of_char c \<and> of_char c \<le> (57 :: nat)"

definition is_space :: "char \<Rightarrow> bool" where
  "is_space c \<longleftrightarrow> c = CHR '' '' \<or> (9 :: nat) \<le> of_char c \<and> of_char c \<le> (13 :: nat)"

definition digits_value :: "string \<Rightarrow> int" where
  "digits_value ds = foldl (\<lambda>n d. n * 10 + (of_char d - 48)) 0 ds"

definition toInt64 :: "string \<Rightarrow> int" where
  "toInt64 aString =
     (let s = dropWhile is_space aString;
          neg = (s \<noteq> [] \<and> hd s = CHR ''-'');
          s = (if s \<noteq> [] \<and> (hd s = CHR ''-'' \<or> hd s = CHR ''+'') then tl s else s);
          n = digits_value (takeWhile is_digit s)
      in max (- (2 ^ 63)) (min (2 ^ 63 - 1) (if neg then - n else n)))"

section \<open>Requests\<close>

definition FLAG_XML_BZ_LIST :: flags where "FLAG_XML_BZ_LIST = 0x10"
definition FLAG_RECURSIVE_DOWNLOAD :: flags where "FLAG_RECURSIVE_DOWNLOAD = 0x200"
definition FLAG_QUEUE_DOWNLOAD :: flags where "FLAG_QUEUE_DOWNLOAD = 0x400"
definition FLAG_TTHLIST_DOWNLOAD :: flags where "FLAG_TTHLIST_DOWNLOAD = 0x800"

record download_job =
  dl_type :: transfer_type
  dl_tth :: "byte list"
  dl_listPath :: string
  dl_segment :: segment
  dl_flags :: flags

definition getCommand :: "bool \<Rightarrow> bool \<Rightarrow> string \<Rightarrow> download_job \<Rightarrow> adc_command" where
  "getCommand zlib compressTransfers mySID d =
     (let cmd = addParam (transfer_names (dl_type d)) (adc_new (toCommand ''GET'') 0 (CHR ''C''));
          cmd = addParam
            (if dl_type d = TYPE_PARTIAL_LIST \<or> dl_type d = TYPE_TTH_LIST then dl_listPath d
             else if dl_type d = TYPE_FULL_LIST then
               (if isSet (dl_flags d) FLAG_XML_BZ_LIST then USER_LIST_NAME_BZ else USER_LIST_NAME_EXTRACTED)
             else ''TTH/'' @ HashValue_toBase32 (dl_tth d)) cmd;
          cmd = addParam (int_text (sg_start (dl_segment d))) cmd;
          cmd = addParam (int_text (sg_size (dl_segment d))) cmd;
          cmd = (if mySID \<noteq> [] then addParam_named ''ID'' mySID cmd else cmd);
          cmd = (if zlib \<and> compressTransfers then addParam ''ZL1'' cmd else cmd);
          cmd = (if isSet (dl_flags d) FLAG_RECURSIVE_DOWNLOAD \<and> dl_type d = TYPE_PARTIAL_LIST then addParam ''RE1'' cmd else cmd)
      in if isSet (dl_flags d) FLAG_QUEUE_DOWNLOAD \<and> dl_type d = TYPE_PARTIAL_LIST then addParam ''TL1'' cmd else cmd)"

text \<open>What the other side reads; the first of the two marks asks for compression, the second for a list of hashes.\<close>

definition get_request :: "adc_command \<Rightarrow> upload_request \<times> bool \<times> bool" where
  "get_request c =
     (let tthList = hasFlag c ''TL'' 4
      in (\<lparr>ur_type = (if tthList then transfer_names TYPE_TTH_LIST else getParam c 0), ur_file = getParam c 1,
           ur_segment = seg (toInt64 (getParam c 2)) (toInt64 (getParam c 3)),
           ur_userSID = (case getParam_named c ''ID'' 0 of None \<Rightarrow> [] | Some sid \<Rightarrow> sid),
           ur_listRecursive = hasFlag c ''RE'' 4\<rparr>,
          hasFlag c ''ZL'' 4, tthList))"

definition snd_command :: "adc_command \<Rightarrow> segment \<Rightarrow> adc_command" where
  "snd_command c sg =
     (let ty = getParam c 0;
          cmd = addParam (int_text (sg_size sg)) (addParam (int_text (sg_start sg))
            (addParam (getParam c 1) (addParam ty (adc_new (toCommand ''SND'') 0 (CHR ''C'')))));
          cmd = (if hasFlag c ''ZL'' 4 then addParam ''ZL1'' cmd else cmd)
      in if hasFlag c ''TL'' 4 \<and> ty = transfer_names TYPE_PARTIAL_LIST then addParam ''TL1'' cmd else cmd)"

section \<open>Answers\<close>

text \<open>\<open>Snd_Start\<close> opens the download for so many bytes, compressed or not; the other results end the connection.\<close>

datatype snd_result = Snd_Ignored | Snd_Disconnect | Snd_Invalid_Size | Snd_Start download_job int bool

definition startData :: "download_job \<Rightarrow> int \<Rightarrow> int \<Rightarrow> bool \<Rightarrow> snd_result" where
  "startData d start bytes z =
     (if sg_size (dl_segment d) = - 1 then
        if 0 \<le> bytes then Snd_Start (d\<lparr>dl_segment := (dl_segment d)\<lparr>sg_size := bytes\<rparr>\<rparr>) bytes z else Snd_Invalid_Size
      else if sg_size (dl_segment d) \<noteq> bytes \<or> sg_start (dl_segment d) \<noteq> start then Snd_Invalid_Size
      else Snd_Start d bytes z)"

definition on_SND :: "bool \<Rightarrow> download_job option \<Rightarrow> adc_command \<Rightarrow> snd_result" where
  "on_SND stateSnd dl cmd =
     (if \<not> stateSnd then Snd_Ignored
      else case dl of
        None \<Rightarrow> Snd_Disconnect
      | Some d \<Rightarrow>
          let d = (if hasFlag cmd ''TL'' 4 then d\<lparr>dl_flags := setFlag (dl_flags d) FLAG_TTHLIST_DOWNLOAD\<rparr> else d)
          in if getParam cmd 0 \<noteq> transfer_names (dl_type d) then Snd_Disconnect
             else startData d (toInt64 (getParam cmd 2)) (toInt64 (getParam cmd 3)) (hasFlag cmd ''ZL'' 4))"

section \<open>Numbers are read back\<close>

lemma digit_char: "n < 10 \<Longrightarrow> (of_char (char_of (48 + n) :: char) :: nat) = 48 + n"
  by simp

lemma nat_text_digits: "\<forall>c\<in>set (nat_text n). is_digit c" and nat_text_nonempty: "nat_text n \<noteq> []"
proof -
  have "\<forall>c\<in>set (nat_text n). is_digit c"
  proof (induction n rule: nat_text.induct)
    case (1 n)
    then show ?case by (subst nat_text.simps) (auto simp: is_digit_def)
  qed
  then show "\<forall>c\<in>set (nat_text n). is_digit c" .
  show "nat_text n \<noteq> []" by (subst nat_text.simps) simp
qed

lemma digits_value_text: "digits_value (nat_text n) = int n"
proof (induction n rule: nat_text.induct)
  case (1 n)
  show ?case
  proof (cases "n < 10")
    case True
    then have "(of_char (char_of (48 + n) :: char) :: int) = int (48 + n)"
      using digit_char [OF True] by (metis of_nat_of_char)
    then show ?thesis using True by (subst nat_text.simps) (simp add: digits_value_def)
  next
    case False
    have "(of_char (char_of (48 + n mod 10) :: char) :: int) = int (48 + n mod 10)"
      using digit_char [of "n mod 10"] by (metis of_nat_of_char mod_less_divisor zero_less_numeral)
    then have "digits_value (nat_text n) = int (n div 10) * 10 + int (n mod 10)"
      using 1 False by (subst nat_text.simps) (simp add: digits_value_def)
    also have "\<dots> = int n" using div_mult_mod_eq [of n 10] by (metis of_nat_add of_nat_mult of_nat_numeral)
    finally show ?thesis .
  qed
qed

lemma digit_not: "is_digit c \<Longrightarrow> \<not> is_space c \<and> c \<noteq> CHR ''-'' \<and> c \<noteq> CHR ''+'' \<and> c \<noteq> CHR '' '' \<and> c \<noteq> CHR 0x5C"
  by (auto simp: is_digit_def is_space_def)

lemma toInt64_text: "- (2 ^ 63) \<le> i \<Longrightarrow> i < 2 ^ 63 \<Longrightarrow> toInt64 (int_text i) = i"
proof -
  assume i: "- (2 ^ 63) \<le> i" "i < 2 ^ 63"
  have "takeWhile is_digit (nat_text n) = nat_text n" for n using nat_text_digits by (simp add: takeWhile_eq_all_conv)
  then have d: "digits_value (takeWhile is_digit (nat_text n)) = int n" for n by (simp only: digits_value_text)
  obtain c cs where t: "nat_text (nat i) = c # cs" "is_digit c"
    using nat_text_nonempty [of "nat i"] nat_text_digits [of "nat i"] by (cases "nat_text (nat i)") auto
  show ?thesis
  proof (cases "i < 0")
    case True
    then have "int_text i = CHR ''-'' # nat_text (nat (- i))" by (simp add: int_text_def)
    moreover have "\<not> is_space CHR ''-''" by (simp add: is_space_def)
    ultimately have "toInt64 (int_text i) = max (- (2 ^ 63)) (min (2 ^ 63 - 1) (- int (nat (- i))))"
      using d [of "nat (- i)"] by (simp add: toInt64_def Let_def)
    then show ?thesis using i True by simp
  next
    case False
    then have it: "int_text i = nat_text (nat i)" by (simp add: int_text_def)
    have "dropWhile is_space (nat_text (nat i)) = nat_text (nat i)" using t digit_not by simp
    moreover have "hd (nat_text (nat i)) \<noteq> CHR ''-''" "hd (nat_text (nat i)) \<noteq> CHR ''+''" using t digit_not by auto
    ultimately have "toInt64 (int_text i) = max (- (2 ^ 63)) (min (2 ^ 63 - 1) (int (nat i)))"
      using d [of "nat i"] it by (simp add: toInt64_def Let_def)
    then show ?thesis using i False by simp
  qed
qed

section \<open>A request and its answer\<close>

lemma int_text_nonempty: "int_text i \<noteq> []"
  by (simp add: int_text_def nat_text_nonempty)

definition first_byte :: "string \<Rightarrow> byte" where
  "first_byte x = (case x of [] \<Rightarrow> 0 | c # _ \<Rightarrow> byte_of_char c)"

lemma toCode_first: "toCode x = toCode y \<Longrightarrow> first_byte x = first_byte y"
proof -
  have low: "ucast (toCode x) = first_byte x" for x
  proof -
    have "(ucast (ucast (b :: byte) OR push_bit 8 (ucast (d :: byte)) :: 16 word) :: byte) = b" for b d
      by (rule bit_word_eqI) (auto simp: bit_simps)
    then show ?thesis by (cases x) (simp_all add: toCode_def first_byte_def str_bytes_def Let_def)
  qed
  assume "toCode x = toCode y"
  then show ?thesis using low [of x] low [of y] by simp
qed

lemma first_byte_number: "first_byte (int_text i) \<noteq> byte_of_char CHR ''I''"
proof -
  have nI: "byte_of_char c \<noteq> byte_of_char CHR ''I''" if "\<not> c = CHR ''I''" for c
    using that char_of_byte_of_char by metis
  have dI: "\<not> is_digit CHR ''I''" by (simp add: is_digit_def)
  have first: "first_byte (nat_text n) \<noteq> byte_of_char CHR ''I''" for n
  proof -
    obtain c cs where t: "nat_text n = c # cs" using nat_text_nonempty [of n] by (cases "nat_text n") auto
    then have "is_digit c" using nat_text_digits [of n] by simp
    then have "\<not> c = CHR ''I''" using dI by auto
    then show ?thesis using nI t by (simp add: first_byte_def)
  qed
  show ?thesis using first nI [of "CHR ''-''"] by (simp add: int_text_def first_byte_def)
qed

definition request_file :: "download_job \<Rightarrow> string" where
  "request_file d =
     (if dl_type d = TYPE_PARTIAL_LIST \<or> dl_type d = TYPE_TTH_LIST then dl_listPath d
      else if dl_type d = TYPE_FULL_LIST then
        (if isSet (dl_flags d) FLAG_XML_BZ_LIST then USER_LIST_NAME_BZ else USER_LIST_NAME_EXTRACTED)
      else ''TTH/'' @ HashValue_toBase32 (dl_tth d))"

definition request_marks :: "bool \<Rightarrow> string \<Rightarrow> download_job \<Rightarrow> string list" where
  "request_marks z mySID d =
     (if mySID \<noteq> [] then [''ID'' @ mySID] else []) @ (if z then [''ZL1''] else [])
     @ (if isSet (dl_flags d) FLAG_RECURSIVE_DOWNLOAD \<and> dl_type d = TYPE_PARTIAL_LIST then [''RE1''] else [])
     @ (if isSet (dl_flags d) FLAG_QUEUE_DOWNLOAD \<and> dl_type d = TYPE_PARTIAL_LIST then [''TL1''] else [])"

lemma getCommand_fields:
  "ac_params (getCommand zlib ct mySID d) =
     [transfer_names (dl_type d), request_file d, int_text (sg_start (dl_segment d)), int_text (sg_size (dl_segment d))]
     @ request_marks (zlib \<and> ct) mySID d"
  "ac_cmdInt (getCommand zlib ct mySID d) = toCommand ''GET''" "ac_type (getCommand zlib ct mySID d) = CHR ''C''"
  "ac_to (getCommand zlib ct mySID d) = 0" "ac_from (getCommand zlib ct mySID d) = 0"
  "ac_features (getCommand zlib ct mySID d) = []"
  by (simp_all add: getCommand_def Let_def addParam_def addParam_named_def adc_new_def request_file_def request_marks_def)

lemma marks_codes:
  "toCode ''TL'' \<noteq> toCode ''ZL1''" "toCode ''TL'' \<noteq> toCode ''RE1''" "(toCode ''TL'' = toCode ''TL1'') = True"
  "toCode ''RE'' \<noteq> toCode ''ZL1''" "(toCode ''RE'' = toCode ''RE1'') = True" "toCode ''RE'' \<noteq> toCode ''TL1''"
  "(toCode ''ZL'' = toCode ''ZL1'') = True" "toCode ''ZL'' \<noteq> toCode ''RE1''" "toCode ''ZL'' \<noteq> toCode ''TL1''"
  "toCode ''ID'' \<noteq> toCode ''ZL1''" "toCode ''ID'' \<noteq> toCode ''RE1''" "toCode ''ID'' \<noteq> toCode ''TL1''"
  by code_simp+

lemma id_code: "toCode (''ID'' @ s) = toCode ''ID''"
  by (simp add: toCode_def str_bytes_def)

lemma id_codes: "toCode ''TL'' \<noteq> toCode (''ID'' @ s)" "toCode ''RE'' \<noteq> toCode (''ID'' @ s)" "toCode ''ZL'' \<noteq> toCode (''ID'' @ s)"
  unfolding id_code by code_simp+

lemma request_flags:
  assumes "ac_params c = [a, b, n, m] @ request_marks z mySID d"
  shows "hasFlag c ''TL'' 4 \<longleftrightarrow> isSet (dl_flags d) FLAG_QUEUE_DOWNLOAD \<and> dl_type d = TYPE_PARTIAL_LIST"
    and "hasFlag c ''RE'' 4 \<longleftrightarrow> isSet (dl_flags d) FLAG_RECURSIVE_DOWNLOAD \<and> dl_type d = TYPE_PARTIAL_LIST"
    and "hasFlag c ''ZL'' 4 \<longleftrightarrow> z"
  unfolding hasFlag_def assms using id_codes [of mySID]
  by (simp_all add: request_marks_def marks_codes)

lemma find_id:
  assumes "\<forall>p\<in>set ps. first_byte p \<noteq> byte_of_char CHR ''I''"
  shows "find_param ''ID'' (ps @ request_marks z mySID d) = (if mySID = [] then None else Some mySID)"
proof -
  have "toCode ''ID'' \<noteq> toCode p" if "p \<in> set ps" for p
    using assms that toCode_first [of "''ID''" p] by (auto simp: first_byte_def)
  moreover have "find_param ''ID'' (ps @ qs) = find_param ''ID'' qs" if "\<forall>p\<in>set ps. toCode ''ID'' \<noteq> toCode p" for ps qs
    using that by (induction ps) auto
  ultimately have "find_param ''ID'' (ps @ request_marks z mySID d) = find_param ''ID'' (request_marks z mySID d)" by blast
  then show ?thesis using id_code [of mySID] by (simp add: request_marks_def marks_codes)
qed

definition in64 :: "segment \<Rightarrow> bool" where
  "in64 s \<longleftrightarrow> - (2 ^ 63) \<le> sg_start s \<and> sg_start s < 2 ^ 63 \<and> - (2 ^ 63) \<le> sg_size s \<and> sg_size s < 2 ^ 63"

definition wants_hashes :: "download_job \<Rightarrow> bool" where
  "wants_hashes d \<longleftrightarrow> isSet (dl_flags d) FLAG_QUEUE_DOWNLOAD \<and> dl_type d = TYPE_PARTIAL_LIST"

lemma command_wire_ok:
  assumes "ac_type c = CHR ''C''" and "wire_cmd c" and "ac_params c \<noteq> []" and "last (ac_params c) \<noteq> []"
  shows "wire_ok c sid" and "ac_params (received c sid) = ac_params c"
  using assms by (simp_all add: wire_ok_def isValidType_def has_from_def has_to_def received_def)

lemma wire_cmd_int: "ac_cmdInt c = ac_cmdInt d \<Longrightarrow> wire_cmd c = wire_cmd d"
  by (simp add: wire_cmd_def)

lemma wire_GET_SND: "wire_cmd (adc_new (toCommand ''GET'') 0 (CHR ''C''))" "wire_cmd (adc_new (toCommand ''SND'') 0 (CHR ''C''))"
  by code_simp+

lemma marks_nonempty: "p \<in> set (request_marks z mySID d) \<Longrightarrow> p \<noteq> []"
  by (auto simp: request_marks_def split: if_splits)

lemma getCommand_wire:
  "adc_of_line (butlast (adc_toString (getCommand zlib ct mySID d) sid False)) False
     = Inr (received (getCommand zlib ct mySID d) sid)"
  "ac_params (received (getCommand zlib ct mySID d) sid) = ac_params (getCommand zlib ct mySID d)"
proof -
  let ?c = "getCommand zlib ct mySID d"
  have w: "wire_cmd ?c" using wire_GET_SND(1) wire_cmd_int [of ?c "adc_new (toCommand ''GET'') 0 (CHR ''C'')"]
    by (simp add: getCommand_fields adc_new_def)
  have l: "ac_params ?c \<noteq> []" "last (ac_params ?c) \<noteq> []"
    using marks_nonempty [of "last (request_marks (zlib \<and> ct) mySID d)" "zlib \<and> ct" mySID d] int_text_nonempty
    by (auto simp: getCommand_fields)
  note cw = command_wire_ok [OF getCommand_fields(3) w l, of sid]
  show "adc_of_line (butlast (adc_toString ?c sid False)) False = Inr (received ?c sid)" by (rule adc_read_back [OF cw(1)])
  show "ac_params (received ?c sid) = ac_params ?c" by (rule cw(2))
qed

lemma snd_fields:
  "ac_params (snd_command c sg) = [getParam c 0, getParam c 1, int_text (sg_start sg), int_text (sg_size sg)]
     @ (if hasFlag c ''ZL'' 4 then [''ZL1''] else [])
     @ (if hasFlag c ''TL'' 4 \<and> getParam c 0 = transfer_names TYPE_PARTIAL_LIST then [''TL1''] else [])"
  "ac_cmdInt (snd_command c sg) = toCommand ''SND''" "ac_type (snd_command c sg) = CHR ''C''"
  by (simp_all add: snd_command_def Let_def addParam_def adc_new_def)

lemma snd_wire:
  "\<exists>r. adc_of_line (butlast (adc_toString (snd_command c sg) sid False)) False = Inr r \<and> ac_params r = ac_params (snd_command c sg)"
proof -
  let ?c = "snd_command c sg"
  have w: "wire_cmd ?c" using wire_GET_SND(2) wire_cmd_int [of ?c "adc_new (toCommand ''SND'') 0 (CHR ''C'')"]
    by (simp add: snd_fields adc_new_def)
  have l: "ac_params ?c \<noteq> []" "last (ac_params ?c) \<noteq> []" using int_text_nonempty by (auto simp: snd_fields)
  note cw = command_wire_ok [OF snd_fields(3) w l, of sid]
  show ?thesis using adc_read_back [OF cw(1)] cw(2) by blast
qed

lemma snd_read:
  assumes sg: "in64 sg" and r: "ac_params r = ac_params (snd_command c sg)"
  shows "getParam r 0 = getParam c 0" and "toInt64 (getParam r 2) = sg_start sg" and "toInt64 (getParam r 3) = sg_size sg"
    and "hasFlag r ''ZL'' 4 \<longleftrightarrow> hasFlag c ''ZL'' 4"
    and "hasFlag r ''TL'' 4 \<longleftrightarrow> hasFlag c ''TL'' 4 \<and> getParam c 0 = transfer_names TYPE_PARTIAL_LIST"
proof -
  show "getParam r 0 = getParam c 0" "toInt64 (getParam r 2) = sg_start sg" "toInt64 (getParam r 3) = sg_size sg"
    using sg by (simp_all add: getParam_def [of r] r snd_fields in64_def toInt64_text)
  show "hasFlag r ''ZL'' 4 \<longleftrightarrow> hasFlag c ''ZL'' 4"
    "hasFlag r ''TL'' 4 \<longleftrightarrow> hasFlag c ''TL'' 4 \<and> getParam c 0 = transfer_names TYPE_PARTIAL_LIST"
    by (simp_all add: hasFlag_def [of r] r snd_fields marks_codes)
qed


definition test_job :: download_job where
  "test_job = \<lparr>dl_type = TYPE_PARTIAL_LIST, dl_tth = [], dl_listPath = ''/a b/'', dl_segment = seg 0 (- 1),
     dl_flags = FLAG_QUEUE_DOWNLOAD\<rparr>"

lemma test_job_line:
  "butlast (adc_toString (getCommand True True ''AAAB'' test_job) 0 False)
     = ''CGET list /a'' @ [CHR 0x5C] @ ''sb/ 0 -1 IDAAAB ZL1 TL1''"
  by code_simp


end
