(* ===== verification/Search_Query.thy ===== *)
theory Search_Query
  imports Bloom Transfer_Commands Complex_Main
begin

text \<open>
  \<^bold>\<open>search/SearchQuery.cpp\<close>: what a search asks for (from the parameters of an ADC or NMDC search or from a
  search of the user), and whether a file or directory matches; the groups of extensions and the parameters of a
  search that \<^bold>\<open>hub/AdcHub.cpp\<close> sends; and the tokenizers of \<^bold>\<open>util/text/StringTokenizer.h\<close>.  Item and match types
  are the numbers of the enumerations, which the other side may set to any value.  The outer \<open>None\<close> of a result means
  that the code reads outside of a string or an empty vector.
\<close>

section \<open>Tokens\<close>

text \<open>\<open>StringTokenizer\<close> for a separator of one character; \<open>cur\<close> is what was read of the current token.\<close>

fun string_tokens :: "char \<Rightarrow> bool \<Rightarrow> string \<Rightarrow> string \<Rightarrow> string list" where
  "string_tokens t aAllowEmptyTokens cur [] = (if cur \<noteq> [] \<or> aAllowEmptyTokens then [cur] else [])"
| "string_tokens t aAllowEmptyTokens cur (c # s) =
     (if c = t then (if cur \<noteq> [] \<or> aAllowEmptyTokens then [cur] else []) @ string_tokens t aAllowEmptyTokens [] s
      else string_tokens t aAllowEmptyTokens (cur @ [c]) s)"

fun command_tokens :: "bool \<Rightarrow> string \<Rightarrow> string \<Rightarrow> string list" where
  "command_tokens quote cur [] = (if cur \<noteq> [] then [cur] else [])"
| "command_tokens quote cur (c # s) =
     (if c = CHR '' '' then
        (if \<not> quote then (if cur \<noteq> [] then [cur] else []) @ command_tokens quote [] s
         else command_tokens quote (cur @ [c]) s)
      else if c = CHR 0x22 then (if cur \<noteq> [] then [cur] else []) @ command_tokens (\<not> quote) [] s
      else command_tokens quote (cur @ [c]) s)"

definition parseSearchString :: "string \<Rightarrow> string list" where
  "parseSearchString aString = command_tokens False [] aString"

section \<open>Extensions\<close>

definition searchExtensions :: "string list list" where
  "searchExtensions =
    [[''ape'', ''flac'', ''m4a'', ''mid'', ''mp3'', ''mpc'', ''ogg'', ''ra'', ''wav'', ''wma''],
     [''7z'', ''ace'', ''arj'', ''bz2'', ''gz'', ''lha'', ''lzh'', ''rar'', ''tar'', ''z'', ''zip''],
     [''doc'', ''docx'', ''htm'', ''html'', ''nfo'', ''odf'', ''odp'', ''ods'', ''odt'', ''pdf'', ''ppt'', ''pptx'', ''rtf'', ''txt'',
      ''xls'', ''xlsx'', ''xml'', ''xps''],
     [''app'', ''bat'', ''cmd'', ''com'', ''dll'', ''exe'', ''jar'', ''msi'', ''ps1'', ''vbs'', ''wsf''],
     [''bmp'', ''cdr'', ''eps'', ''gif'', ''ico'', ''img'', ''jpeg'', ''jpg'', ''png'', ''ps'', ''psd'', ''sfw'', ''tga'', ''tif'', ''webp''],
     [''3gp'', ''asf'', ''asx'', ''avi'', ''divx'', ''flv'', ''mkv'', ''mov'', ''mp4'', ''mpeg'', ''mpg'', ''ogm'', ''pxp'', ''qt'', ''rm'',
      ''rmvb'', ''swf'', ''vob'', ''webm'', ''wmv'']]"

definition parseSearchExts :: "int \<Rightarrow> string list" where
  "parseSearchExts flag =
     fold (\<lambda>i ret. if bit flag i then searchExtensions ! i @ ret else ret) [0..<length searchExtensions] []"

text \<open>The merging algorithms of the standard library, which the code runs on vectors that may not be sorted.\<close>

fun set_difference :: "string list \<Rightarrow> string list \<Rightarrow> string list" where
  "set_difference [] ys = []"
| "set_difference (x # xs) [] = x # xs"
| "set_difference (x # xs) (y # ys) =
     (if x < y then x # set_difference xs (y # ys)
      else if y < x then set_difference (x # xs) ys
      else set_difference xs ys)"

fun set_symmetric_difference :: "string list \<Rightarrow> string list \<Rightarrow> string list" where
  "set_symmetric_difference [] ys = ys"
| "set_symmetric_difference (x # xs) [] = x # xs"
| "set_symmetric_difference (x # xs) (y # ys) =
     (if x < y then x # set_symmetric_difference xs (y # ys)
      else if y < x then y # set_symmetric_difference (x # xs) ys
      else set_symmetric_difference xs ys)"

text \<open>Splits the difference to a group: what stays, and what has to be excluded; \<open>None\<close> when that is more than two.\<close>

fun split_diff :: "string list \<Rightarrow> string list \<Rightarrow> string list \<Rightarrow> (string list \<times> string list) option" where
  "split_diff def [] rx = Some ([], rx)"
| "split_diff def (d # diff) rx =
     (if d \<notin> set def then map_option (\<lambda>(temp, rx). (d # temp, rx)) (split_diff def diff rx)
      else if length rx = 2 then None
      else split_diff def diff (rx @ [d]))"

fun group_loop :: "(nat \<times> string list) list \<Rightarrow> nat \<Rightarrow> string list \<Rightarrow> string list \<Rightarrow> nat \<times> string list \<times> string list" where
  "group_loop [] gr exts excluded = (gr, exts, excluded)"
| "group_loop ((i, def) # gs) gr exts excluded =
     (case split_diff def (set_symmetric_difference def exts) [] of
        None \<Rightarrow> group_loop gs gr exts excluded
      | Some (temp, rx) \<Rightarrow>
          if length temp \<le> 2 then (gr + 2 ^ i, temp, rx @ excluded)
          else group_loop gs (gr + 2 ^ i) temp (rx @ excluded))"

definition groupExtensions :: "string list \<Rightarrow> nat \<times> string list \<times> string list" where
  "groupExtensions exts = group_loop (enumerate 0 searchExtensions) 0 exts []"

section \<open>Queries\<close>

record recursion =
  rc_depthLen :: nat
  rc_recursionLevel :: int
  rc_positions :: "(nat option \<times> int) list"

record search_query =
  sq_include :: "pattern list"
  sq_exclude :: "pattern list"
  sq_ext :: "string list"
  sq_noExt :: "string list"
  sq_recursion :: "recursion option"
  sq_gt :: int
  sq_lt :: int
  sq_minDate :: int
  sq_maxDate :: int
  sq_root :: "byte list option"
  sq_maxResults :: nat
  sq_matchType :: int
  sq_addParents :: bool
  sq_itemType :: int
  sq_positions :: "nat option list"
  sq_matches :: nat

definition ITEM_ANY :: int where "ITEM_ANY = 0"
definition ITEM_FILE :: int where "ITEM_FILE = 1"
definition ITEM_DIRECTORY :: int where "ITEM_DIRECTORY = 2"

definition MATCH_PATH_PARTIAL :: int where "MATCH_PATH_PARTIAL = 0"
definition MATCH_NAME_PARTIAL :: int where "MATCH_NAME_PARTIAL = 1"
definition MATCH_NAME_EXACT :: int where "MATCH_NAME_EXACT = 2"

definition query_new :: "nat \<Rightarrow> search_query" where
  "query_new aMaxResults =
     \<lparr>sq_include = [], sq_exclude = [], sq_ext = [], sq_noExt = [], sq_recursion = None, sq_gt = 0, sq_lt = 2 ^ 63 - 1,
      sq_minDate = 0, sq_maxDate = 2 ^ 63 - 1, sq_root = None, sq_maxResults = aMaxResults, sq_matchType = MATCH_PATH_PARTIAL,
      sq_addParents = False, sq_itemType = ITEM_ANY, sq_positions = [], sq_matches = 0\<rparr>"

definition toInt :: "string \<Rightarrow> int" where
  "toInt aString = sint (word_of_int (toInt64 aString) :: 32 word)"

definition to_size_t :: "int \<Rightarrow> nat" where
  "to_size_t n = unat (word_of_int n :: 64 word)"

definition prepare :: "search_query \<Rightarrow> search_query" where
  "prepare q =
     (let q = q\<lparr>sq_positions := replicate (length (sq_include q)) None\<rparr>
      in if sq_ext q \<noteq> [] then q\<lparr>sq_itemType := ITEM_FILE\<rparr> else q)"

text \<open>One parameter of an ADC search other than a hash.\<close>

definition query_param :: "(wchar \<Rightarrow> wchar) \<Rightarrow> string \<Rightarrow> search_query \<Rightarrow> search_query" where
  "query_param lower p q =
     (let cmd = take 2 p; v = drop 2 p
      in if cmd = ''AN'' then q\<lparr>sq_include := addString lower v (sq_include q)\<rparr>
         else if cmd = ''NO'' then q\<lparr>sq_exclude := addString lower v (sq_exclude q)\<rparr>
         else if cmd = ''EX'' then q\<lparr>sq_ext := sq_ext q @ [text_toLower lower v]\<rparr>
         else if cmd = ''GR'' then q\<lparr>sq_ext := parseSearchExts (toInt v) @ sq_ext q\<rparr>
         else if cmd = ''RX'' then q\<lparr>sq_noExt := sq_noExt q @ [text_toLower lower v]\<rparr>
         else if cmd = ''GE'' then q\<lparr>sq_gt := toInt64 v\<rparr>
         else if cmd = ''LE'' then q\<lparr>sq_lt := toInt64 v\<rparr>
         else if cmd = ''EQ'' then q\<lparr>sq_gt := toInt64 v, sq_lt := toInt64 v\<rparr>
         else if cmd = ''TY'' then q\<lparr>sq_itemType := toInt v\<rparr>
         else if cmd = ''MT'' then q\<lparr>sq_matchType := toInt v mod 256\<rparr>
         else if cmd = ''OT'' then q\<lparr>sq_maxDate := toInt64 v\<rparr>
         else if cmd = ''NT'' then q\<lparr>sq_minDate := toInt64 v\<rparr>
         else if cmd = ''PP'' then q\<lparr>sq_addParents := (v ! 0 = CHR ''1'')\<rparr>
         else q)"

fun adc_params :: "(wchar \<Rightarrow> wchar) \<Rightarrow> string list \<Rightarrow> search_query \<Rightarrow> search_query" where
  "adc_params lower [] q = prepare q"
| "adc_params lower (p # params) q =
     (if length p \<le> 2 then adc_params lower params q
      else if take 2 p = ''TR'' then q\<lparr>sq_root := Some (HashValue_fromBase32 (drop 2 p))\<rparr>
      else adc_params lower params (query_param lower p q))"

definition adc_query :: "(wchar \<Rightarrow> wchar) \<Rightarrow> string list \<Rightarrow> nat \<Rightarrow> search_query" where
  "adc_query lower params aMaxResults = adc_params lower params (query_new aMaxResults)"

section \<open>Searches of the user and of NMDC hubs\<close>

definition TM_AUDIO :: int where "TM_AUDIO = 1"
definition TM_VIDEO :: int where "TM_VIDEO = 6"
definition TM_DIRECTORY :: int where "TM_DIRECTORY = 7"
definition TM_TTH :: int where "TM_TTH = 8"
definition TM_FILE :: int where "TM_FILE = 9"
definition SIZE_ATLEAST :: int where "SIZE_ATLEAST = 1"
definition SIZE_ATMOST :: int where "SIZE_ATMOST = 2"
definition SIZE_EXACT :: int where "SIZE_EXACT = 3"

record search =
  se_minSize :: "int option"
  se_maxSize :: "int option"
  se_fileType :: int
  se_query :: string
  se_exts :: "string list"
  se_excluded :: "string list"
  se_minDate :: "int option"
  se_maxDate :: "int option"
  se_returnParents :: bool
  se_matchType :: int
  se_maxResults :: int
  se_requireReply :: bool
  se_path :: string
  se_token :: string
  se_key :: string

definition setLegacySize :: "int \<Rightarrow> int \<Rightarrow> search \<Rightarrow> search" where
  "setLegacySize aSize aSizeMode s =
     (if aSizeMode = SIZE_ATLEAST then s\<lparr>se_minSize := Some aSize\<rparr>
      else if aSizeMode = SIZE_ATMOST then s\<lparr>se_maxSize := Some aSize\<rparr>
      else if aSizeMode = SIZE_EXACT then s\<lparr>se_maxSize := Some aSize, se_minSize := Some aSize\<rparr>
      else s)"

definition parseLegacySize :: "search \<Rightarrow> int \<times> int" where
  "parseLegacySize s =
     (case (se_minSize s, se_maxSize s) of
        (Some a, Some b) \<Rightarrow> if a = b then (a, SIZE_EXACT) else (a, SIZE_ATLEAST)
      | (Some a, None) \<Rightarrow> (a, SIZE_ATLEAST)
      | (None, Some b) \<Rightarrow> (b, SIZE_ATMOST)
      | (None, None) \<Rightarrow> (0, 0))"

definition parseItemType :: "int \<Rightarrow> int" where
  "parseItemType aType = (if aType = TM_DIRECTORY then ITEM_DIRECTORY else if aType = TM_FILE then ITEM_FILE else ITEM_ANY)"

definition user_query :: "(wchar \<Rightarrow> wchar) \<Rightarrow> string \<Rightarrow> string list \<Rightarrow> string list \<Rightarrow> int \<Rightarrow> search_query" where
  "user_query lower aSearch aExcluded aExt aMatchType =
     (let q = (query_new 0)\<lparr>sq_matchType := aMatchType\<rparr>;
          q = q\<lparr>sq_include := fold (addString lower) (parseSearchString aSearch) []\<rparr>;
          q = q\<lparr>sq_exclude := fold (addString lower) aExcluded []\<rparr>;
          q = q\<lparr>sq_ext := map (text_toLower lower) aExt\<rparr>
      in prepare q)"

definition fromSearch :: "(wchar \<Rightarrow> wchar) \<Rightarrow> search \<Rightarrow> search_query" where
  "fromSearch lower s =
     (let q = (if se_fileType s = TM_TTH then (query_new 0)\<lparr>sq_root := Some (HashValue_fromBase32 (se_query s))\<rparr>
               else
                 let q = user_query lower (se_query s) (se_excluded s) (se_exts s) (se_matchType s);
                     q = (case se_minSize s of None \<Rightarrow> q | Some n \<Rightarrow> q\<lparr>sq_gt := n\<rparr>);
                     q = (case se_maxSize s of None \<Rightarrow> q | Some n \<Rightarrow> q\<lparr>sq_lt := n\<rparr>)
                 in q\<lparr>sq_itemType := parseItemType (se_fileType s)\<rparr>)
      in q\<lparr>sq_addParents := se_returnParents s, sq_maxResults := to_size_t (se_maxResults s)\<rparr>)"

definition nmdc_query :: "(wchar \<Rightarrow> wchar) \<Rightarrow> string \<Rightarrow> int \<Rightarrow> int \<Rightarrow> int \<Rightarrow> nat \<Rightarrow> search_query" where
  "nmdc_query lower nmdcString aSizeMode size' aFileType aMaxResults =
     (let q = query_new aMaxResults
      in prepare
          (if aFileType = TM_TTH \<and> take 4 nmdcString = ''TTH:'' then q\<lparr>sq_root := Some (HashValue_fromBase32 (drop 4 nmdcString))\<rparr>
           else
             let q = q\<lparr>sq_include := fold (addString lower) (filter (\<lambda>t. t \<noteq> []) (string_tokens (CHR ''$'') False [] (text_toLower lower nmdcString))) []\<rparr>;
                 q = (if aSizeMode = SIZE_ATLEAST then q\<lparr>sq_gt := size'\<rparr>
                      else if aSizeMode = SIZE_ATMOST then q\<lparr>sq_lt := size'\<rparr> else q)
             in if TM_AUDIO \<le> aFileType \<and> aFileType \<le> TM_VIDEO then q\<lparr>sq_ext := parseSearchExts (2 ^ nat (aFileType - 1))\<rparr>
                else if aFileType = TM_DIRECTORY then q\<lparr>sq_itemType := ITEM_DIRECTORY\<rparr>
                else q))"

section \<open>Matching\<close>

definition ends_with :: "string \<Rightarrow> string \<Rightarrow> bool" where
  "ends_with name i \<longleftrightarrow> length i \<le> length name \<and> drop (length name - length i) name = takeWhile (\<lambda>c. c \<noteq> CHR 0x00) i"

definition hasExt :: "string \<Rightarrow> search_query \<Rightarrow> bool \<times> search_query" where
  "hasExt name q =
     (if sq_ext q = [] then (True, q)
      else
        let q = (if sq_noExt q \<noteq> [] then q\<lparr>sq_ext := set_difference (sq_ext q) (sq_noExt q), sq_noExt := []\<rparr> else q)
        in (list_ex (ends_with name) (sq_ext q), q))"

definition matchesSize :: "search_query \<Rightarrow> int \<Rightarrow> bool" where
  "matchesSize q aSize \<longleftrightarrow> sq_gt q \<le> aSize \<and> aSize \<le> sq_lt q"

definition matchesDate :: "search_query \<Rightarrow> int \<Rightarrow> bool" where
  "matchesDate q aDate \<longleftrightarrow> aDate = 0 \<or> sq_minDate q \<le> aDate \<and> aDate \<le> sq_maxDate q"

definition resetPositions :: "search_query \<Rightarrow> search_query" where
  "resetPositions q =
     (if 0 < sq_matches q then q\<lparr>sq_positions := replicate (length (sq_positions q)) None, sq_matches := 0\<rparr> else q)"

definition completes :: "recursion \<Rightarrow> nat option list \<Rightarrow> bool" where
  "completes r compareTo \<longleftrightarrow>
     list_all (\<lambda>j. \<not> (fst (rc_positions r ! j) = None \<and> compareTo ! j = None)) [0..<length (rc_positions r)]"

definition rc_isComplete :: "recursion \<Rightarrow> bool" where
  "rc_isComplete r \<longleftrightarrow> list_all (\<lambda>p. fst p \<noteq> None) (rc_positions r)"

definition positionsComplete :: "search_query \<Rightarrow> bool" where
  "positionsComplete q \<longleftrightarrow>
     sq_matches q = length (sq_include q) \<or> (case sq_recursion q of None \<Rightarrow> False | Some r \<Rightarrow> completes r (sq_positions q))"

text \<open>Matches the patterns against a name and keeps the positions.\<close>

definition match_include :: "string \<Rightarrow> bool \<Rightarrow> search_query \<Rightarrow> search_query option" where
  "match_include aName aResume q =
     (let q = resetPositions q
      in case ss_matchLower (sq_include q) aName aResume (Some (sq_positions q)) of
           Some (m, Some rs) \<Rightarrow> Some (q\<lparr>sq_matches := m, sq_positions := rs\<rparr>)
         | _ \<Rightarrow> None)"

definition matchesFileLower :: "string \<Rightarrow> int \<Rightarrow> int \<Rightarrow> search_query \<Rightarrow> (bool \<times> search_query) option" where
  "matchesFileLower aName aSize aDate q =
     (if \<not> matchesDate q aDate \<or> \<not> matchesSize q aSize then Some (False, q)
      else if sq_matchType q = MATCH_NAME_EXACT \<and> sq_include q = [] then None
      else if sq_matchType q = MATCH_NAME_EXACT \<and> pt_str (hd (sq_include q)) \<noteq> aName then Some (False, q)
      else
        case match_include aName (sq_recursion q \<noteq> None) q of
          None \<Rightarrow> None
        | Some q \<Rightarrow>
            if \<not> positionsComplete q then Some (False, q)
            else
              case hasExt aName q of
                (False, q) \<Rightarrow> Some (False, q)
              | (True, q) \<Rightarrow> map_option (\<lambda>excluded. (\<not> excluded, q)) (match_any_lower (sq_exclude q) aName))"

definition matchesFile ::
    "(wchar \<Rightarrow> wchar) \<Rightarrow> string \<Rightarrow> int \<Rightarrow> int \<Rightarrow> byte list \<Rightarrow> search_query \<Rightarrow> (bool \<times> search_query) option" where
  "matchesFile lower aName aSize aDate aTTH q =
     (if sq_itemType q = ITEM_DIRECTORY then Some (False, q)
      else case sq_root q of
        Some r \<Rightarrow> Some (aTTH = r, q)
      | None \<Rightarrow> matchesFileLower (text_toLower lower aName) aSize aDate q)"

definition matchesStr :: "(wchar \<Rightarrow> wchar) \<Rightarrow> string \<Rightarrow> search_query \<Rightarrow> (bool \<times> search_query) option" where
  "matchesStr lower aStr q = matchesFileLower (text_toLower lower aStr) 0 0 q"

definition matchesDirectory :: "(wchar \<Rightarrow> wchar) \<Rightarrow> string \<Rightarrow> search_query \<Rightarrow> bool option" where
  "matchesDirectory lower aName q =
     (if sq_itemType q = ITEM_FILE then Some False else match_all lower (sq_include q) aName)"

definition matchesAnyDirectoryLower :: "string \<Rightarrow> search_query \<Rightarrow> (bool \<times> search_query) option" where
  "matchesAnyDirectoryLower aName q =
     (if sq_matchType q \<noteq> MATCH_PATH_PARTIAL \<and> sq_itemType q = ITEM_FILE then Some (False, q)
      else map_option (\<lambda>q. (0 < sq_matches q, q)) (match_include aName True q))"

section \<open>Positions and points\<close>

definition isSeparator :: "char \<Rightarrow> bool" where
  "isSeparator c \<longleftrightarrow>
     (let n = (of_char c :: nat) in 32 \<le> n \<and> n \<le> 47 \<or> 58 \<le> n \<and> n \<le> 64 \<or> 91 \<le> n \<and> n \<le> 96 \<or> 123 \<le> n \<and> n \<le> 127)"

text \<open>A character of a string or the zero at its end.\<close>

definition str_at :: "string \<Rightarrow> nat \<Rightarrow> char option" where
  "str_at s i = (if i < length s then Some (s ! i) else if i = length s then Some (CHR 0x00) else None)"

definition start_points :: "string \<Rightarrow> string \<Rightarrow> nat \<Rightarrow> int option" where
  "start_points aName pat pos =
     (if pos = 0 then Some 20
      else if pat = [] then None
      else if isSeparator (hd pat) then Some 0
      else map_option (\<lambda>c. if isSeparator c then 10 else 0) (str_at aName (pos - 1)))"

definition end_points :: "string \<Rightarrow> string \<Rightarrow> nat \<Rightarrow> int option" where
  "end_points aName pat endPos =
     (if endPos = length aName then Some 20
      else if pat = [] then None
      else if isSeparator (last pat) then Some 0
      else map_option (\<lambda>c. if isSeparator c then 10 else 0) (str_at aName endPos))"

fun point_list :: "string \<Rightarrow> pattern list \<Rightarrow> nat option list \<Rightarrow> (nat option \<times> int) list option" where
  "point_list aName ps [] = Some []"
| "point_list aName [] (None # rs) = map_option ((#) (None, 0)) (point_list aName [] rs)"
| "point_list aName (p # ps) (None # rs) = map_option ((#) (None, 0)) (point_list aName ps rs)"
| "point_list aName [] (Some pos # rs) = None"
| "point_list aName (p # ps) (Some pos # rs) =
     (case (start_points aName (pt_str p) pos, end_points aName (pt_str p) (pos + pt_plen p), point_list aName ps rs) of
        (Some a, Some b, Some ret) \<Rightarrow> Some ((Some pos, a + b) # ret)
      | _ \<Rightarrow> None)"

definition toPointList :: "search_query \<Rightarrow> string \<Rightarrow> (nat option \<times> int) list option" where
  "toPointList q aName = point_list aName (sq_include q) (sq_positions q)"

definition rc_merge :: "(nat option \<times> int) list \<Rightarrow> recursion \<Rightarrow> bool \<times> (nat option \<times> int) list" where
  "rc_merge mergeTo parent =
     (let old = rc_positions parent
      in case find (\<lambda>j. fst (mergeTo ! j) = None \<and> fst (old ! j) \<noteq> None) [0..<length old] of
           None \<Rightarrow> (False, mergeTo)
         | Some startPos \<Rightarrow>
             (True, fold (\<lambda>j m. case m ! j of
                                  (None, _) \<Rightarrow> m[j := old ! j]
                                | (Some p, n) \<Rightarrow> m[j := (Some (p + rc_depthLen parent), n)])
                      [startPos..<length old] mergeTo))"

definition recursion_new :: "search_query \<Rightarrow> string \<Rightarrow> recursion option" where
  "recursion_new q aName =
     map_option
       (\<lambda>ps. case sq_recursion q of
               None \<Rightarrow> \<lparr>rc_depthLen = 0, rc_recursionLevel = 0, rc_positions = ps\<rparr>
             | Some r \<Rightarrow>
                 (case rc_merge ps r of
                    (True, ps) \<Rightarrow> \<lparr>rc_depthLen = rc_depthLen r, rc_recursionLevel = rc_recursionLevel r, rc_positions = ps\<rparr>
                  | (False, ps) \<Rightarrow> \<lparr>rc_depthLen = 0, rc_recursionLevel = 0, rc_positions = ps\<rparr>))
       (toPointList q aName)"

definition rc_increase :: "nat \<Rightarrow> recursion \<Rightarrow> recursion" where
  "rc_increase aLen r = r\<lparr>rc_recursionLevel := rc_recursionLevel r + 1, rc_depthLen := rc_depthLen r + aLen\<rparr>"

definition rc_decrease :: "nat \<Rightarrow> recursion \<Rightarrow> recursion" where
  "rc_decrease aLen r = r\<lparr>rc_recursionLevel := rc_recursionLevel r - 1, rc_depthLen := rc_depthLen r - aLen\<rparr>"

definition getResultPositions :: "search_query \<Rightarrow> string \<Rightarrow> (nat option \<times> int) list option" where
  "getResultPositions q aName =
     map_option
       (\<lambda>ret. case sq_recursion q of
                None \<Rightarrow> ret
              | Some r \<Rightarrow> if None \<in> set (sq_positions q) then snd (rc_merge ret r) else ret)
       (toPointList q aName)"

fun adc_path_loop :: "(wchar \<Rightarrow> wchar) \<Rightarrow> string list \<Rightarrow> search_query \<Rightarrow> search_query option" where
  "adc_path_loop lower [] q = Some q"
| "adc_path_loop lower (s # sl) q =
     (case match_include (text_toLower lower s) True q of
        None \<Rightarrow> None
      | Some q \<Rightarrow>
          if sl = [] then Some q
          else
            case (if 0 < sq_matches q then map_option (\<lambda>r. q\<lparr>sq_recursion := Some r\<rparr>) (recursion_new q s) else Some q) of
              None \<Rightarrow> None
            | Some q \<Rightarrow> adc_path_loop lower sl (q\<lparr>sq_recursion := map_option (rc_increase (length s)) (sq_recursion q)\<rparr>))"

definition matchesAdcPath :: "(wchar \<Rightarrow> wchar) \<Rightarrow> string \<Rightarrow> search_query \<Rightarrow> (bool \<times> search_query) option" where
  "matchesAdcPath lower aPath q =
     (let sl = string_tokens (CHR ''/'') False [] aPath
      in if sl = [] then Some (False, q)
         else map_option (\<lambda>q. (positionsComplete q, q)) (adc_path_loop lower sl q))"

section \<open>Relevance\<close>

text \<open>
  Scores are rational numbers here and \<open>double\<close> in the code; positions are 64-bit and \<open>npos\<close> is the largest of them.
\<close>

definition pos_value :: "nat option \<Rightarrow> nat" where
  "pos_value p = (case p of None \<Rightarrow> 2 ^ 64 - 1 | Some n \<Rightarrow> n)"

definition positions_sorted :: "(nat option \<times> int) list \<Rightarrow> bool" where
  "positions_sorted ps \<longleftrightarrow>
     sorted_wrt (\<lambda>(p, a) (q, b). pos_value p < pos_value q \<or> pos_value p = pos_value q \<and> a \<le> b) ps"

definition extra_distance :: "pattern list \<Rightarrow> (nat option \<times> int) list \<Rightarrow> nat" where
  "extra_distance ps positions =
     (let minDistance = sum_list (map (\<lambda>p. word_of_nat (pt_plen p) :: 64 word) ps);
          minDistance = minDistance + word_of_nat (length ps) - word_of_nat (pt_plen (last ps)) - 1
      in unat ((word_of_nat (pos_value (fst (last positions))) - word_of_nat (pos_value (fst (hd positions)))) - minDistance))"

definition relevance :: "search_query \<Rightarrow> int \<Rightarrow> bool \<Rightarrow> (nat option \<times> int) list \<Rightarrow> rat" where
  "relevance q aLevel aIsDirectory positions =
     (let scores = (if 0 < aLevel then 9 / of_int aLevel else 10) :: rat; maxPoints = 10
      in if positions = [] then scores / maxPoints
         else
           let recursionLevel = (case sq_recursion q of
                   Some r \<Rightarrow> if sq_matches q \<noteq> length (sq_include q) then rc_recursionLevel r else 0
                 | None \<Rightarrow> 0);
               isSorted = positions_sorted positions;
               scores = (if isSorted then scores + 120 else scores);
               maxPoints = maxPoints + 120;
               maxPosPoints = of_nat (length (sq_include q)) * 20 + 20 * of_int (recursionLevel + 1);
               curPosPoints = of_int (sum_list (map snd positions));
               scores = (if isSorted then scores + curPosPoints else scores + curPosPoints / maxPosPoints * 10);
               maxPoints = maxPoints + maxPosPoints;
               extraDistance = extra_distance (sq_include q) positions;
               scores = (if isSorted then scores + (if 0 < extraDistance then max (1 / of_nat extraDistance * 20) 0 else 30) else scores);
               maxPoints = maxPoints + 30;
               startPos = pos_value (fst (hd positions));
               scores = (if isSorted then scores + (if 0 < startPos then 1 / of_nat startPos * 20 else 30) else scores);
               maxPoints = maxPoints + 30;
               scores = (if aIsDirectory then scores + 5 else scores);
               maxPoints = maxPoints + 5;
               scores = scores / maxPoints
           in if 0 < recursionLevel \<and> list_all (\<lambda>p. p = None) (sq_positions q) then scores / of_int (recursionLevel + 1) else scores)"

definition getRelevanceScore :: "search_query \<Rightarrow> int \<Rightarrow> bool \<Rightarrow> string \<Rightarrow> rat option" where
  "getRelevanceScore q aLevel aIsDirectory aName = map_option (relevance q aLevel aIsDirectory) (getResultPositions q aName)"

section \<open>Sending a search\<close>

text \<open>The parameters of a search without its extensions; \<open>secure\<close>: the hub is encrypted and searches are active.\<close>

definition search_params :: "string \<Rightarrow> bool \<Rightarrow> search \<Rightarrow> string list" where
  "search_params hubToken secure s =
     (if se_token s \<noteq> [] then [''TO'' @ hubToken @ ''/'' @ se_token s] else []) @
     (if se_fileType s = TM_TTH then [''TR'' @ se_query s]
      else
        (case se_minSize s of None \<Rightarrow> [] | Some n \<Rightarrow> [''GE'' @ int_text n]) @
        (case se_maxSize s of None \<Rightarrow> [] | Some n \<Rightarrow> [''LE'' @ int_text n]) @
        map (\<lambda>t. ''AN'' @ t) (parseSearchString (se_query s)) @
        map (\<lambda>e. ''NO'' @ e) (se_excluded s) @
        (if se_fileType s = TM_DIRECTORY then [''TY2''] else if se_fileType s = TM_FILE then [''TY1''] else []) @
        (case se_minDate s of None \<Rightarrow> [] | Some n \<Rightarrow> [''NT'' @ int_text n]) @
        (case se_maxDate s of None \<Rightarrow> [] | Some n \<Rightarrow> [''OT'' @ int_text n]) @
        (if se_key s \<noteq> [] \<and> secure then [''KY'' @ se_key s] else []))"

text \<open>What a direct search of a user with the support for it starts with.\<close>

definition direct_params :: "search \<Rightarrow> string list" where
  "direct_params s =
     (if \<not> isAdcRoot (se_path s) then [''PA'' @ se_path s] else []) @
     (if se_requireReply s then [''RE1''] else []) @
     (if se_returnParents s then [''PP1''] else []) @
     (if se_matchType s \<noteq> MATCH_PATH_PARTIAL then [''MT'' @ int_text (se_matchType s)] else []) @
     [''MR'' @ int_text (se_maxResults s)]"

datatype sega = SEGA_ANY | SEGA_REQUIRED | SEGA_EXCLUDED

text \<open>
  The commands that a search becomes, with the users they are for; \<open>direct\<close> is whether the user of a direct search
  supports groups of extensions.
\<close>

definition group_params :: "nat \<Rightarrow> string list \<Rightarrow> string list \<Rightarrow> string list" where
  "group_params gr exts excluded = map (\<lambda>e. ''EX'' @ e) exts @ [''GR'' @ int_text (int gr)] @ map (\<lambda>e. ''RX'' @ e) excluded"

definition handleSearchExtensions :: "string list \<Rightarrow> string list \<Rightarrow> bool option \<Rightarrow> (string list \<times> sega) list" where
  "handleSearchExtensions params exts direct =
     (let all = params @ map (\<lambda>e. ''EX'' @ e) exts
      in if length exts \<le> 2 then [(all, SEGA_ANY)]
         else
           case groupExtensions (sort exts) of
             (gr, rest, excluded) \<Rightarrow>
               if gr = 0 then [(params, SEGA_ANY)]
               else
                 let grouped = params @ group_params gr rest excluded
                 in (case direct of
                       Some sega \<Rightarrow> [(if sega then grouped else all, SEGA_ANY)]
                     | None \<Rightarrow> [(grouped, SEGA_REQUIRED), (all, SEGA_EXCLUDED)]))"

definition sendSearch :: "string \<Rightarrow> bool \<Rightarrow> search \<Rightarrow> bool option \<Rightarrow> string list \<Rightarrow> (string list \<times> sega) list" where
  "sendSearch hubToken secure s direct first =
     (let params = first @ search_params hubToken secure s
      in if se_fileType s = TM_TTH then [(params, SEGA_ANY)] else handleSearchExtensions params (se_exts s) direct)"

section \<open>The parameters of a search\<close>

lemma byte_high_less: "(w :: byte) AND 0x80 = 0 \<Longrightarrow> w < 0x80"
proof -
  assume h: "w AND 0x80 = 0"
  have b7: "\<not> bit w 7"
  proof
    assume "bit w 7"
    then have "bit (w AND 0x80) 7" by (simp add: bit_simps)
    then show False using h by simp
  qed
  have "w = take_bit 7 w"
    by (rule bit_word_eqI) (use b7 in \<open>auto simp: bit_take_bit_iff less_Suc_eq eval_nat_numeral\<close>)
  then have "unat w < 2 ^ 7" by (metis take_bit_nat_less_exp unsigned_take_bit_eq)
  then show "w < 0x80" by (simp add: word_less_nat_alt)
qed

lemma toLower_ascii:
  assumes "\<forall>c\<in>set s. byte_of_char c AND 0x80 = 0 \<and> lower (ucast (byte_of_char c)) = ucast (byte_of_char c)"
  shows "text_toLower lower s = s"
proof -
  have "toLower_loop lower s = s"
    using assms
  proof (induction s)
    case Nil
    then show ?case by (subst toLower_loop.simps) simp
  next
    case (Cons c s)
    let ?b = "byte_of_char c"
    have b: "?b AND 0x80 = 0" "lower (ucast ?b) = ucast ?b" using Cons.prems by auto
    then have lt: "?b < 0x80" by (simp add: byte_high_less)
    have n: "?b AND 0xC0 \<noteq> 0xC0"
    proof
      assume e: "?b AND 0xC0 = 0xC0"
      show False using arg_cong [OF e, of "\<lambda>x. x AND 0x80"] b(1) by (simp add: and.assoc)
    qed
    have dec: "utf8ToWc (c # s) = (1, ucast ?b)" using b(1) n by (simp add: utf8ToWc_def byte_at_def)
    have "take_bit 32 (unat ?b) = unat ?b" by (rule take_bit_nat_eq_self) (use lt in \<open>simp add: word_less_nat_alt\<close>)
    then have "unat (ucast ?b :: wchar) < 0x80" using lt by (simp add: word_less_nat_alt unsigned_ucast_eq)
    then have w: "(ucast ?b :: wchar) < 0x80" by (simp add: word_less_nat_alt)
    have "ucast (ucast ?b :: wchar) = ?b" by (rule bit_word_eqI) (auto simp: bit_simps)
    then have enc: "wcToUtf8 (ucast ?b) = [c]"
      using w by (simp add: wcToUtf8_def invalid_wc_def wc_bytes_def word_less_nat_alt word_le_nat_alt bytes_str_def)
    show ?case by (subst toLower_loop.simps) (use dec enc b(2) Cons in simp)
  qed
  then show ?thesis by (simp add: text_toLower_def)
qed

text \<open>What a parameter makes of a query when it is not a hash.\<close>

definition take_param :: "(wchar \<Rightarrow> wchar) \<Rightarrow> string \<Rightarrow> search_query \<Rightarrow> search_query" where
  "take_param lower p q = (if length p \<le> 2 then q else query_param lower p q)"

definition no_hash :: "string list \<Rightarrow> bool" where
  "no_hash params \<longleftrightarrow> (\<forall>p\<in>set params. 2 < length p \<longrightarrow> take 2 p \<noteq> ''TR'')"

lemma adc_params_fold: "no_hash params \<Longrightarrow> adc_params lower params q = prepare (fold (take_param lower) params q)"
  by (induction params arbitrary: q) (auto simp: no_hash_def take_param_def)

lemma no_hash_append [simp]: "no_hash (xs @ ys) \<longleftrightarrow> no_hash xs \<and> no_hash ys"
  by (auto simp: no_hash_def)

lemma take_param_text:
  "take_param lower (''AN'' @ v) q = q\<lparr>sq_include := addString lower v (sq_include q)\<rparr>"
  "take_param lower (''NO'' @ v) q = q\<lparr>sq_exclude := addString lower v (sq_exclude q)\<rparr>"
  "take_param lower (''EX'' @ v) q = q\<lparr>sq_ext := sq_ext q @ (if v = [] then [] else [text_toLower lower v])\<rparr>"
  "take_param lower (''RX'' @ v) q = q\<lparr>sq_noExt := sq_noExt q @ (if v = [] then [] else [text_toLower lower v])\<rparr>"
  by (simp_all add: take_param_def query_param_def addString_def)

lemma take_params_fold:
  "fold (take_param lower) (map (\<lambda>v. ''AN'' @ v) vs) q = q\<lparr>sq_include := fold (addString lower) vs (sq_include q)\<rparr>"
  "fold (take_param lower) (map (\<lambda>v. ''NO'' @ v) vs) q = q\<lparr>sq_exclude := fold (addString lower) vs (sq_exclude q)\<rparr>"
  "fold (take_param lower) (map (\<lambda>v. ''EX'' @ v) vs) q = q\<lparr>sq_ext := sq_ext q @ map (text_toLower lower) (filter (\<lambda>v. v \<noteq> []) vs)\<rparr>"
  "fold (take_param lower) (map (\<lambda>v. ''RX'' @ v) vs) q = q\<lparr>sq_noExt := sq_noExt q @ map (text_toLower lower) (filter (\<lambda>v. v \<noteq> []) vs)\<rparr>"
  by (induction vs arbitrary: q) (simp_all add: take_param_text del: append_Cons)

lemma toInt_text: "- (2 ^ 31) \<le> n \<Longrightarrow> n < 2 ^ 31 \<Longrightarrow> toInt (int_text n) = n"
  by (simp add: toInt_def toInt64_text signed_of_int signed_take_bit_int_eq_self)

definition int64_value :: "int \<Rightarrow> bool" where
  "int64_value n \<longleftrightarrow> - (2 ^ 63) \<le> n \<and> n < 2 ^ 63"

lemma take_param_number:
  assumes "int64_value n"
  shows "take_param lower (''GE'' @ int_text n) q = q\<lparr>sq_gt := n\<rparr>"
    and "take_param lower (''LE'' @ int_text n) q = q\<lparr>sq_lt := n\<rparr>"
    and "take_param lower (''NT'' @ int_text n) q = q\<lparr>sq_minDate := n\<rparr>"
    and "take_param lower (''OT'' @ int_text n) q = q\<lparr>sq_maxDate := n\<rparr>"
  using assms int_text_nonempty [of n] by (simp_all add: take_param_def query_param_def toInt64_text int64_value_def)

lemma take_param_small:
  "0 \<le> n \<Longrightarrow> n < 256 \<Longrightarrow> take_param lower (''MT'' @ int_text n) q = q\<lparr>sq_matchType := n\<rparr>"
  "0 \<le> n \<Longrightarrow> n < 256 \<Longrightarrow> take_param lower (''GR'' @ int_text n) q = q\<lparr>sq_ext := parseSearchExts n @ sq_ext q\<rparr>"
  using int_text_nonempty [of n] by (simp_all add: take_param_def query_param_def toInt_text)

lemma take_param_other:
  "take_param lower (''TO'' @ v) q = q" "take_param lower (''KY'' @ v) q = q" "take_param lower (''PA'' @ v) q = q"
  "take_param lower (''MR'' @ v) q = q" "take_param lower ''RE1'' q = q" "take_param lower ''PP1'' q = q\<lparr>sq_addParents := True\<rparr>"
  by (simp_all add: take_param_def query_param_def)

lemma toInt_digit: "toInt ''1'' = 1" "toInt ''2'' = 2"
  by code_simp+

lemma take_param_type: "take_param lower ''TY1'' q = q\<lparr>sq_itemType := 1\<rparr>" "take_param lower ''TY2'' q = q\<lparr>sq_itemType := 2\<rparr>"
  by (simp_all add: take_param_def query_param_def toInt_digit)

lemmas take_params = take_params_fold take_param_number take_param_small take_param_other take_param_type

lemma no_hash_simps [simp]: "no_hash []" "no_hash (p # ps) \<longleftrightarrow> (2 < length p \<longrightarrow> take 2 p \<noteq> ''TR'') \<and> no_hash ps"
  by (auto simp: no_hash_def)

lemma no_hash_map: "[a, b] \<noteq> ''TR'' \<Longrightarrow> no_hash (map ((@) [a, b]) vs)" "[a, b] \<noteq> ''TR'' \<Longrightarrow> no_hash (map (\<lambda>v. a # b # v) vs)"
  by (auto simp: no_hash_def)

text \<open>Numbers of a search are 64-bit.\<close>

definition search_ok :: "search \<Rightarrow> bool" where
  "search_ok s \<longleftrightarrow> se_fileType s \<noteq> TM_TTH \<and> 0 \<le> se_matchType s \<and> se_matchType s < 256
     \<and> (\<forall>n. se_minSize s = Some n \<or> se_maxSize s = Some n \<or> se_minDate s = Some n \<or> se_maxDate s = Some n \<longrightarrow> int64_value n)"

definition sent_query :: "(wchar \<Rightarrow> wchar) \<Rightarrow> search \<Rightarrow> bool \<Rightarrow> nat \<Rightarrow> search_query" where
  "sent_query lower s direct n =
     (query_new n)\<lparr>sq_addParents := direct \<and> se_returnParents s, sq_matchType := (if direct then se_matchType s else MATCH_PATH_PARTIAL),
        sq_gt := (case se_minSize s of None \<Rightarrow> 0 | Some n \<Rightarrow> n), sq_lt := (case se_maxSize s of None \<Rightarrow> 2 ^ 63 - 1 | Some n \<Rightarrow> n),
        sq_include := fold (addString lower) (parseSearchString (se_query s)) [], sq_exclude := fold (addString lower) (se_excluded s) [],
        sq_itemType := parseItemType (se_fileType s), sq_minDate := (case se_minDate s of None \<Rightarrow> 0 | Some n \<Rightarrow> n),
        sq_maxDate := (case se_maxDate s of None \<Rightarrow> 2 ^ 63 - 1 | Some n \<Rightarrow> n)\<rparr>"

text \<open>The optional parameters.\<close>

lemma take_optional:
  "fold (take_param lower) (if b then [''TO'' @ v] else []) q = q"
  "fold (take_param lower) (if b then [''KY'' @ v] else []) q = q"
  "fold (take_param lower) (if b then [''PA'' @ v] else []) q = q"
  "fold (take_param lower) (if b then [''RE1''] else []) q = q"
  "fold (take_param lower) (if b then [''PP1''] else []) q = q\<lparr>sq_addParents := b \<or> sq_addParents q\<rparr>"
  "0 \<le> m \<Longrightarrow> m < 256 \<Longrightarrow> fold (take_param lower) (if b then [''MT'' @ int_text m] else []) q
    = q\<lparr>sq_matchType := (if b then m else sq_matchType q)\<rparr>"
  "fold (take_param lower) (if b then [''TY2''] else if c then [''TY1''] else []) q
    = q\<lparr>sq_itemType := (if b then 2 else if c then 1 else sq_itemType q)\<rparr>"
  by (simp_all add: take_params del: append_Cons)

lemma take_numbers:
  assumes "\<And>n. i = Some n \<Longrightarrow> int64_value n"
  shows "fold (take_param lower) (case i of None \<Rightarrow> [] | Some n \<Rightarrow> [''GE'' @ int_text n]) q = q\<lparr>sq_gt := (case i of None \<Rightarrow> sq_gt q | Some n \<Rightarrow> n)\<rparr>"
    and "fold (take_param lower) (case i of None \<Rightarrow> [] | Some n \<Rightarrow> [''LE'' @ int_text n]) q = q\<lparr>sq_lt := (case i of None \<Rightarrow> sq_lt q | Some n \<Rightarrow> n)\<rparr>"
    and "fold (take_param lower) (case i of None \<Rightarrow> [] | Some n \<Rightarrow> [''NT'' @ int_text n]) q = q\<lparr>sq_minDate := (case i of None \<Rightarrow> sq_minDate q | Some n \<Rightarrow> n)\<rparr>"
    and "fold (take_param lower) (case i of None \<Rightarrow> [] | Some n \<Rightarrow> [''OT'' @ int_text n]) q = q\<lparr>sq_maxDate := (case i of None \<Rightarrow> sq_maxDate q | Some n \<Rightarrow> n)\<rparr>"
  using assms by (cases i; simp add: take_params del: append_Cons)+

lemma search_params_query:
  assumes "search_ok s" and first: "first = (if direct then direct_params s else [])"
  shows "no_hash (first @ search_params hubToken secure s)"
    and "fold (take_param lower) (first @ search_params hubToken secure s) (query_new n) = sent_query lower s direct n"
proof -
  have ok: "se_fileType s \<noteq> TM_TTH" "0 \<le> se_matchType s" "se_matchType s < 256"
    "\<And>n. se_minSize s = Some n \<Longrightarrow> int64_value n" "\<And>n. se_maxSize s = Some n \<Longrightarrow> int64_value n"
    "\<And>n. se_minDate s = Some n \<Longrightarrow> int64_value n" "\<And>n. se_maxDate s = Some n \<Longrightarrow> int64_value n"
    using assms(1) by (auto simp: search_ok_def)
  have "no_hash first" unfolding first direct_params_def by simp
  moreover have "no_hash (search_params hubToken secure s)"
    using ok(1) unfolding search_params_def by (simp add: no_hash_map split: option.split)
  ultimately show "no_hash (first @ search_params hubToken secure s)" by simp
  have f: "fold (take_param lower) first (query_new n)
      = (query_new n)\<lparr>sq_addParents := direct \<and> se_returnParents s, sq_matchType := (if direct then se_matchType s else MATCH_PATH_PARTIAL)\<rparr>"
  proof (cases direct)
    case True
    then show ?thesis using ok(2,3) unfolding first direct_params_def
      by (simp add: take_optional take_param_other query_new_def del: append_Cons)
  next
    case False
    then show ?thesis by (simp add: first query_new_def)
  qed
  have num: "fold (take_param lower) (case se_minSize s of None \<Rightarrow> [] | Some n \<Rightarrow> [''GE'' @ int_text n]) q = q\<lparr>sq_gt := (case se_minSize s of None \<Rightarrow> sq_gt q | Some n \<Rightarrow> n)\<rparr>"
    "fold (take_param lower) (case se_maxSize s of None \<Rightarrow> [] | Some n \<Rightarrow> [''LE'' @ int_text n]) q = q\<lparr>sq_lt := (case se_maxSize s of None \<Rightarrow> sq_lt q | Some n \<Rightarrow> n)\<rparr>"
    "fold (take_param lower) (case se_minDate s of None \<Rightarrow> [] | Some n \<Rightarrow> [''NT'' @ int_text n]) q = q\<lparr>sq_minDate := (case se_minDate s of None \<Rightarrow> sq_minDate q | Some n \<Rightarrow> n)\<rparr>"
    "fold (take_param lower) (case se_maxDate s of None \<Rightarrow> [] | Some n \<Rightarrow> [''OT'' @ int_text n]) q = q\<lparr>sq_maxDate := (case se_maxDate s of None \<Rightarrow> sq_maxDate q | Some n \<Rightarrow> n)\<rparr>" for q
    by (rule take_numbers, erule ok)+
  show "fold (take_param lower) (first @ search_params hubToken secure s) (query_new n) = sent_query lower s direct n"
    unfolding fold_append comp_def f search_params_def if_not_P [OF ok(1)] take_optional take_params_fold num
    by (simp add: query_new_def sent_query_def parseItemType_def ITEM_ANY_def ITEM_FILE_def ITEM_DIRECTORY_def cong: option.case_cong)
qed

section \<open>Groups of extensions\<close>

lemma symmetric_difference:
  assumes "sorted_wrt (<) xs" and "sorted_wrt (<) ys"
  shows "set (set_symmetric_difference xs ys) = (set xs - set ys) \<union> (set ys - set xs) \<and> sorted_wrt (<) (set_symmetric_difference xs ys)"
  using assms
proof (induction xs ys rule: set_symmetric_difference.induct)
  case (3 x xs y ys)
  consider "x < y" | "y < x" | "x = y" by (rule linorder_less_linear [of x y, THEN disjE]) auto
  then show ?case
  proof cases
    case 1
    moreover from this have "x \<notin> set (y # ys)" using 3(5) by auto
    ultimately show ?thesis using 3 by (auto dest: less_trans)
  next
    case 2
    moreover from this have "y \<notin> set (x # xs)" using 3(4) by auto
    ultimately show ?thesis using 3 by (auto dest: less_trans)
  next
    case eq: 3
    then show ?thesis using 3 by auto
  qed
qed auto

lemma set_difference_bounds: "set xs - set ys \<subseteq> set (set_difference xs ys) \<and> set (set_difference xs ys) \<subseteq> set xs"
  by (induction xs ys rule: set_difference.induct) auto

lemma set_difference_prefix:
  "sorted_wrt (<) xs \<Longrightarrow> sorted_wrt (<) ys \<Longrightarrow> set ys \<subseteq> set xs \<Longrightarrow> set_difference (xs @ zs) ys = filter (\<lambda>x. x \<notin> set ys) xs @ zs"
proof (induction xs arbitrary: ys)
  case Nil
  then show ?case by (cases zs) simp_all
next
  case (Cons x xs)
  show ?case
  proof (cases ys)
    case Nil
    then show ?thesis by simp
  next
    case (Cons y ys')
    have xy: "x = y \<or> x < y" using Cons.prems Cons by auto
    show ?thesis
    proof (cases "x = y")
      case True
      then have "set ys' \<subseteq> set xs" using Cons.prems Cons by auto
      then have "set_difference (xs @ zs) ys' = filter (\<lambda>x. x \<notin> set ys') xs @ zs" using Cons.IH Cons.prems Cons by simp
      moreover have "filter (\<lambda>x. x \<notin> set ys') xs = filter (\<lambda>z. z \<notin> set ys) xs" using Cons.prems Cons True by (intro filter_cong) auto
      ultimately show ?thesis using Cons True by simp
    next
      case False
      then have lt: "x < y" using xy by simp
      then have "x \<notin> set ys" using Cons.prems(2) Cons by auto
      moreover from this have "set ys \<subseteq> set xs" using Cons.prems(3) by auto
      ultimately show ?thesis using Cons.IH Cons.prems Cons lt by simp
    qed
  qed
qed

lemma split_diff_filter:
  "split_diff def diff rx = Some (temp, rx') \<Longrightarrow> temp = filter (\<lambda>d. d \<notin> set def) diff \<and> rx' = rx @ filter (\<lambda>d. d \<in> set def) diff"
proof (induction diff arbitrary: rx temp)
  case (Cons d diff)
  then show ?case by (cases "d \<in> set def") (fastforce split: if_splits)+
qed simp

lemma bit_add_power:
  assumes "n < 2 ^ i"
  shows "bit (n + 2 ^ i :: nat) k \<longleftrightarrow> bit n k \<or> k = i"
proof -
  consider "k < i" | "k = i" | "i < k" by linarith
  then show ?thesis
  proof cases
    case 1
    then have "(2 :: nat) ^ i = 2 ^ k * (2 * 2 ^ (i - k - 1))" by (metis Suc_diff_Suc diff_Suc_1 le_add_diff_inverse less_imp_le power_Suc power_add)
    then have "(n + 2 ^ i) div 2 ^ k = n div 2 ^ k + 2 * 2 ^ (i - k - 1)" by simp
    then show ?thesis using 1 by (simp add: bit_iff_odd)
  next
    case 2
    then show ?thesis using assms by (simp add: bit_iff_odd)
  next
    case 3
    have "n + 2 ^ i < 2 ^ Suc i" using assms by simp
    also have "(2 :: nat) ^ Suc i \<le> 2 ^ k" using 3 by (intro power_increasing) auto
    finally show ?thesis using assms 3 by (simp add: bit_iff_odd)
  qed
qed

text \<open>The extensions of the groups of a number.\<close>

definition group_set :: "nat \<Rightarrow> string set" where
  "group_set gr = \<Union> ((\<lambda>i. set (searchExtensions ! i)) ` {i. i < 6 \<and> bit gr i})"

lemma distinct_concat_disjoint:
  "distinct (concat xss) \<Longrightarrow> i < length xss \<Longrightarrow> j < length xss \<Longrightarrow> i \<noteq> j \<Longrightarrow> set (xss ! i) \<inter> set (xss ! j) = {}"
proof (induction xss arbitrary: i j)
  case (Cons xs xss)
  have d: "set xs \<inter> set (xss ! k) = {}" if "k < length xss" for k using Cons.prems(1) that by (fastforce simp: set_conv_nth [of xss])
  show ?case
    using Cons d by (cases i; cases j) (auto simp: Int_commute)
qed simp

lemma searchExtensions_facts:
  "length searchExtensions = 6" "\<forall>g\<in>set searchExtensions. sorted_wrt (<) g" "distinct (concat searchExtensions)"
  by code_simp+

lemma groups_disjoint: "i < 6 \<Longrightarrow> j < 6 \<Longrightarrow> i \<noteq> j \<Longrightarrow> set (searchExtensions ! i) \<inter> set (searchExtensions ! j) = {}"
  using distinct_concat_disjoint [OF searchExtensions_facts(3)] searchExtensions_facts(1) by simp

lemma set_parseSearchExts: "set (parseSearchExts (int gr)) = group_set gr"
proof -
  have "set (fold (\<lambda>i ret. if bit (int gr) i then searchExtensions ! i @ ret else ret) is acc)
      = \<Union> ((\<lambda>i. set (searchExtensions ! i)) ` {i \<in> set is. bit gr i}) \<union> set acc" for "is" acc
    by (induction "is" arbitrary: acc) (auto simp: bit_of_nat_iff_bit)
  from this [of "[0..<6]" "[]"] show ?thesis by (simp add: parseSearchExts_def searchExtensions_facts(1) group_set_def)
qed


text \<open>
  What holds while groups are taken: the groups so far and the rest are what is wanted and what is excluded.
\<close>

definition grouped :: "string set \<Rightarrow> nat \<Rightarrow> nat \<Rightarrow> string list \<Rightarrow> string list \<Rightarrow> bool" where
  "grouped E lo gr exts excluded \<longleftrightarrow>
     gr < 2 ^ lo \<and> sorted_wrt (<) exts \<and> group_set gr \<union> set exts = E \<union> set excluded \<and> set excluded \<inter> E = {}
     \<and> set exts \<subseteq> E \<and> set exts \<inter> group_set gr = {}"

lemma group_set_add:
  assumes "gr < 2 ^ i" and "i < 6"
  shows "group_set (gr + 2 ^ i) = group_set gr \<union> set (searchExtensions ! i)" and "group_set gr \<inter> set (searchExtensions ! i) = {}"
proof -
  have b: "bit gr k \<Longrightarrow> k < i" for k
    using assms(1) by (metis bit_nat_iff not_le nat_less_le bit_take_bit_iff take_bit_nat_eq_self)
  show "group_set (gr + 2 ^ i) = group_set gr \<union> set (searchExtensions ! i)"
    using assms by (auto simp: group_set_def bit_add_power)
  show "group_set gr \<inter> set (searchExtensions ! i) = {}"
    using groups_disjoint [OF _ assms(2)] b by (fastforce simp: group_set_def)
qed

lemma grouped_step:
  assumes g: "grouped E i gr exts excluded" and i: "i < 6"
    and s: "split_diff (searchExtensions ! i) (set_symmetric_difference (searchExtensions ! i) exts) [] = Some (temp, rx)"
  shows "grouped E (Suc i) (gr + 2 ^ i) temp (rx @ excluded)"
proof -
  let ?d = "searchExtensions ! i" and ?D = "set_symmetric_difference (searchExtensions ! i) exts"
  have sd: "sorted_wrt (<) ?d" using searchExtensions_facts i by simp
  have D: "set ?D = (set ?d - set exts) \<union> (set exts - set ?d)" "sorted_wrt (<) ?D"
    using symmetric_difference [OF sd] g by (auto simp: grouped_def)
  have temp: "temp = filter (\<lambda>d. d \<notin> set ?d) ?D" "rx = filter (\<lambda>d. d \<in> set ?d) ?D"
    using split_diff_filter [OF s] by simp_all
  then have st: "set temp = set exts - set ?d" "set rx = set ?d - set exts" using D(1) by auto
  note add = group_set_add [of gr i, OF _ i]
  have gr: "gr < 2 ^ i" using g by (simp add: grouped_def)
  have "set rx \<inter> E = {}" using g add(2) [OF gr] st by (auto simp: grouped_def)
  then show ?thesis
    using g add [OF gr] st gr D(2) unfolding temp(1)
    by (auto simp: grouped_def sorted_wrt_filter)
qed

text \<open>Going through the groups from one on.\<close>

lemma group_loop_Cons:
  assumes "i < 6"
  shows "group_loop (enumerate i (drop i searchExtensions)) gr exts excluded =
    (case split_diff (searchExtensions ! i) (set_symmetric_difference (searchExtensions ! i) exts) [] of
       None \<Rightarrow> group_loop (enumerate (Suc i) (drop (Suc i) searchExtensions)) gr exts excluded
     | Some (temp, rx) \<Rightarrow>
         if length temp \<le> 2 then (gr + 2 ^ i, temp, rx @ excluded)
         else group_loop (enumerate (Suc i) (drop (Suc i) searchExtensions)) (gr + 2 ^ i) temp (rx @ excluded))"
proof -
  have "drop i searchExtensions = searchExtensions ! i # drop (Suc i) searchExtensions"
    using assms searchExtensions_facts(1) by (simp add: Cons_nth_drop_Suc)
  then show ?thesis by simp
qed

lemma group_loop_end: "group_loop (enumerate 6 (drop 6 searchExtensions)) gr exts excluded = (gr, exts, excluded)"
  using searchExtensions_facts(1) by simp

lemma grouped_loop:
  assumes "grouped E i gr exts excluded" and "i \<le> 6"
    and "group_loop (enumerate i (drop i searchExtensions)) gr exts excluded = (gr', rest, excluded')"
  shows "grouped E 6 gr' rest excluded' \<and> (\<forall>k. bit gr k \<longrightarrow> bit gr' k) \<and> gr \<le> gr' \<and> (gr' = gr \<longrightarrow> excluded' = excluded)"
  using assms
proof (induction "6 - i" arbitrary: i gr exts excluded)
  case 0
  then show ?case by (simp add: group_loop_end)
next
  case (Suc n)
  then have i: "i < 6" by simp
  have lo: "grouped E j gr' rest excluded' \<Longrightarrow> j \<le> 6 \<Longrightarrow> grouped E 6 gr' rest excluded'" for j gr' rest excluded'
    using power_increasing [of j 6 "2 :: nat"] by (fastforce simp: grouped_def)
  show ?case
  proof (cases "split_diff (searchExtensions ! i) (set_symmetric_difference (searchExtensions ! i) exts) []")
    case None
    moreover have "grouped E (Suc i) gr exts excluded" using Suc.prems(1) by (auto simp: grouped_def)
    ultimately show ?thesis using Suc.hyps(1) [of "Suc i" gr exts excluded] Suc.hyps(2) Suc.prems(3) i by (simp add: group_loop_Cons)
  next
    case (Some tr)
    then obtain temp rx where s: "split_diff (searchExtensions ! i) (set_symmetric_difference (searchExtensions ! i) exts) [] = Some (temp, rx)"
      by (cases tr) simp
    note st = grouped_step [OF Suc.prems(1) i s]
    have b: "bit (gr + 2 ^ i) k \<longleftrightarrow> bit gr k \<or> k = i" for k
      using Suc.prems(1) by (intro bit_add_power) (simp add: grouped_def)
    show ?thesis
    proof (cases "length temp \<le> 2")
      case True
      then show ?thesis using lo [OF st] s b i Suc.prems(3) by (auto simp: group_loop_Cons)
    next
      case False
      then have "group_loop (enumerate (Suc i) (drop (Suc i) searchExtensions)) (gr + 2 ^ i) temp (rx @ excluded) = (gr', rest, excluded')"
        using Suc.prems(3) s i by (simp add: group_loop_Cons)
      from Suc.hyps(1) [OF _ st _ this] Suc.hyps(2) i
      have r: "grouped E 6 gr' rest excluded'" "\<And>k. bit gr k \<or> k = i \<Longrightarrow> bit gr' k" "gr + 2 ^ i \<le> gr'" by (auto simp: b)
      moreover have "(0 :: nat) < 2 ^ i" by simp
      ultimately have "gr < gr'" by linarith
      then show ?thesis using r by auto
    qed
  qed
qed

lemma one_group_sorted:
  assumes "grouped E i 0 exts []" and "i \<le> 6"
    and "group_loop (enumerate i (drop i searchExtensions)) 0 exts [] = (2 ^ m, rest, excluded)"
  shows "sorted_wrt (<) excluded"
  using assms
proof (induction "6 - i" arbitrary: i exts)
  case 0
  then show ?case by (simp add: group_loop_end)
next
  case (Suc n)
  then have i: "i < 6" by simp
  show ?case
  proof (cases "split_diff (searchExtensions ! i) (set_symmetric_difference (searchExtensions ! i) exts) []")
    case None
    moreover have "grouped E (Suc i) 0 exts []" using Suc.prems(1) by (auto simp: grouped_def)
    ultimately show ?thesis using Suc.hyps(1) [of "Suc i" exts] Suc.hyps(2) Suc.prems(3) i by (simp add: group_loop_Cons)
  next
    case (Some tr)
    then obtain temp rx where s: "split_diff (searchExtensions ! i) (set_symmetric_difference (searchExtensions ! i) exts) [] = Some (temp, rx)"
      by (cases tr) simp
    have "sorted_wrt (<) (set_symmetric_difference (searchExtensions ! i) exts)"
      using symmetric_difference [of "searchExtensions ! i" exts] searchExtensions_facts(1,2) i Suc.prems(1) by (simp add: grouped_def)
    then have rx: "sorted_wrt (<) rx" using split_diff_filter [OF s] by (simp add: sorted_wrt_filter)
    show ?thesis
    proof (cases "length temp \<le> 2")
      case True
      then show ?thesis using s i Suc.prems(3) rx by (simp add: group_loop_Cons)
    next
      case False
      then have r: "group_loop (enumerate (Suc i) (drop (Suc i) searchExtensions)) (2 ^ i) temp rx = (2 ^ m, rest, excluded)"
        using Suc.prems(3) s i by (simp add: group_loop_Cons)
      have g: "grouped E (Suc i) (2 ^ i) temp rx" using grouped_step [OF Suc.prems(1) i s] by simp
      have "bit (2 ^ i :: nat) i" by (simp add: bit_exp_iff)
      then have "bit (2 ^ m :: nat) i" using grouped_loop [OF g _ r] i by simp
      then have "m = i" by (simp add: bit_exp_iff)
      then show ?thesis using grouped_loop [OF g _ r] i rx by simp
    qed
  qed
qed

lemma groupExtensions_sets:
  assumes "distinct exts" and "groupExtensions (sort exts) = (gr, rest, excluded)"
  shows "group_set gr \<union> set rest = set exts \<union> set excluded" and "set excluded \<inter> set exts = {}" and "set rest \<subseteq> set exts"
    and "gr < 64" and "gr = 2 ^ m \<Longrightarrow> sorted_wrt (<) excluded"
proof -
  have "sorted_wrt (<) (sort exts)" using assms(1) by (simp add: strict_sorted_iff)
  then have g: "grouped (set exts) 0 0 (sort exts) []" by (simp add: grouped_def group_set_def)
  have l: "group_loop (enumerate 0 (drop 0 searchExtensions)) 0 (sort exts) [] = (gr, rest, excluded)"
    using assms(2) by (simp add: groupExtensions_def)
  have "grouped (set exts) 6 gr rest excluded" using grouped_loop [OF g _ l] by simp
  then show "group_set gr \<union> set rest = set exts \<union> set excluded" "set excluded \<inter> set exts = {}" "set rest \<subseteq> set exts" "gr < 64"
    by (auto simp: grouped_def)
  show "sorted_wrt (<) excluded" if "gr = 2 ^ m" using one_group_sorted [OF g _ l [unfolded that]] by simp
qed

definition received_exts :: "search_query \<Rightarrow> string list" where
  "received_exts q = (if sq_noExt q \<noteq> [] then set_difference (sq_ext q) (sq_noExt q) else sq_ext q)"

lemma hasExt_received: "fst (hasExt name q) \<longleftrightarrow> sq_ext q = [] \<or> (\<exists>e\<in>set (received_exts q). ends_with name e)"
  by (simp add: hasExt_def received_exts_def list_ex_iff)

text \<open>Extensions that the lower case conversion of both sides leaves alone, as it does those of the groups.\<close>

definition lower_exts :: "(wchar \<Rightarrow> wchar) \<Rightarrow> string list \<Rightarrow> bool" where
  "lower_exts lower exts \<longleftrightarrow> distinct exts \<and> (\<forall>e\<in>set exts \<union> set (concat searchExtensions). e \<noteq> [] \<and> text_toLower lower e = e)"

lemma group_set_exts: "group_set gr \<subseteq> set (concat searchExtensions)"
  using searchExtensions_facts(1) by (force simp: group_set_def)

lemma lower_exts_map:
  assumes "lower_exts lower exts" and "set es \<subseteq> set exts \<union> group_set gr"
  shows "map (text_toLower lower) (filter (\<lambda>v. v \<noteq> []) es) = es"
proof -
  have "\<forall>e\<in>set es. e \<noteq> [] \<and> text_toLower lower e = e" using assms group_set_exts unfolding lower_exts_def by blast
  then show ?thesis by (induction es) simp_all
qed

lemma take_exts:
  assumes "lower_exts lower exts"
  shows "fold (take_param lower) (map (\<lambda>e. ''EX'' @ e) exts) q = q\<lparr>sq_ext := sq_ext q @ exts\<rparr>"
  unfolding take_params_fold lower_exts_map [OF assms Un_upper1 [of _ "group_set 0"]] by (rule refl)

lemma take_group:
  assumes "lower_exts lower exts" and "groupExtensions (sort exts) = (gr, rest, excluded)"
  shows "fold (take_param lower) (group_params gr rest excluded) q
    = q\<lparr>sq_ext := parseSearchExts (int gr) @ sq_ext q @ rest, sq_noExt := sq_noExt q @ excluded\<rparr>"
proof -
  have d: "distinct exts" using assms(1) by (simp add: lower_exts_def)
  note g = groupExtensions_sets [OF d assms(2)]
  have "set rest \<subseteq> set exts \<union> group_set gr" "set excluded \<subseteq> set exts \<union> group_set gr" using g(1-3) by auto
  note m = lower_exts_map [OF assms(1) this(1)] lower_exts_map [OF assms(1) this(2)]
  show ?thesis using take_param_small(2) [of "int gr" lower] g(4)
    unfolding group_params_def fold_append comp_def take_params_fold m by (simp del: append_Cons)
qed

lemma received_group:
  assumes "distinct exts" and g: "groupExtensions (sort exts) = (gr, rest, excluded)"
    and q: "sq_ext q = parseSearchExts (int gr) @ rest" "sq_noExt q = excluded"
  shows "set exts \<subseteq> set (received_exts q) \<and> set (received_exts q) \<subseteq> set exts \<union> set excluded"
    and "excluded = [] \<or> (\<exists>m. gr = 2 ^ m) \<Longrightarrow> set (received_exts q) = set exts"
proof -
  note s = groupExtensions_sets [OF assms(1) g]
  have e: "set (sq_ext q) = set exts \<union> set excluded" using s(1) by (simp add: q set_parseSearchExts)
  show b: "set exts \<subseteq> set (received_exts q) \<and> set (received_exts q) \<subseteq> set exts \<union> set excluded"
    using set_difference_bounds [of "sq_ext q" excluded] e s(2) by (auto simp: received_exts_def q(2))
  assume one: "excluded = [] \<or> (\<exists>m. gr = 2 ^ m)"
  show "set (received_exts q) = set exts"
  proof (cases "excluded = []")
    case True
    then show ?thesis using b by (simp add: subset_antisym)
  next
    case False
    then obtain m where m: "gr = 2 ^ m" using one by blast
    have "(2 :: nat) ^ m < 2 ^ 6" using s(4) m by simp
    then have m6: "m < 6" by (rule power_less_imp_less_exp [rotated]) simp
    have gm: "group_set gr = set (searchExtensions ! m)" using m6 by (auto simp: group_set_def m bit_exp_iff)
    have "parseSearchExts (2 ^ m) = searchExtensions ! m"
    proof -
      have "fold (\<lambda>i ret. if bit (2 ^ m :: int) i then searchExtensions ! i @ ret else ret) [0..<k] []
          = (if m < k then searchExtensions ! m else [])" for k
        by (induction k) (auto simp: bit_exp_iff)
      then show ?thesis using m6 searchExtensions_facts(1) by (simp add: parseSearchExts_def)
    qed
    then have "sq_ext q = searchExtensions ! m @ rest" by (simp add: q(1) m)
    moreover have "sorted_wrt (<) (searchExtensions ! m)" using searchExtensions_facts(1,2) m6 by simp
    moreover have "set excluded \<subseteq> set (searchExtensions ! m)" using s(1-3) gm by blast
    ultimately have "received_exts q = filter (\<lambda>x. x \<notin> set excluded) (searchExtensions ! m) @ rest"
      using set_difference_prefix s(5) [OF m] False by (simp add: received_exts_def q(2))
    then show ?thesis using s(1-3) gm by auto
  qed
qed


text \<open>Three sound formats; and all compressed files and all sound but one format.\<close>

definition test_search :: "string list \<Rightarrow> search" where
  "test_search exts =
     \<lparr>se_minSize = Some 1000, se_maxSize = None, se_fileType = 0, se_query = ''my words'', se_exts = exts, se_excluded = [''not''],
      se_minDate = None, se_maxDate = None, se_returnParents = False, se_matchType = 0, se_maxResults = 10, se_requireReply = False,
      se_path = ''/'', se_token = ''t'', se_key = []\<rparr>"

definition test_exts :: "string list" where
  "test_exts = removeAll ''mp3'' (searchExtensions ! 0) @ searchExtensions ! 1"

lemma lower_exts_test:
  assumes "distinct exts" and "set exts \<subseteq> set (concat searchExtensions)"
  shows "lower_exts (\<lambda>c. c) exts"
proof -
  have "list_all (\<lambda>e. e \<noteq> [] \<and> list_all (\<lambda>c. byte_of_char c AND 0x80 = 0) e) (concat searchExtensions)" by code_simp
  then have "e \<noteq> [] \<and> text_toLower (\<lambda>c. c) e = e" if "e \<in> set (concat searchExtensions)" for e
    using that toLower_ascii [of e "\<lambda>c. c"] unfolding list_all_iff by blast
  then show ?thesis using assms unfolding lower_exts_def by blast
qed

lemma test_groups:
  "groupExtensions (sort [''mp3'', ''ogg'', ''wav'']) = (0, [''mp3'', ''ogg'', ''wav''], [])"
  "groupExtensions (sort test_exts) = (3, [], [''mp3''])"
  "distinct test_exts" "length test_exts = 20" "set test_exts \<subseteq> set (concat searchExtensions)"
  "''mp3'' \<in> set (set_difference (parseSearchExts 3) [''mp3''])"
  by code_simp+

lemma test_search_ok: "search_ok (test_search exts)"
  by (simp add: search_ok_def test_search_def TM_TTH_def int64_value_def)


text \<open>With two groups the other side does not take the excluded format off: its list of extensions is not sorted.\<close>

lemma two_groups_keep_excluded:
  "groupExtensions (sort test_exts) = (3, [], [''mp3'']) \<and> ''mp3'' \<notin> set test_exts
   \<and> ''mp3'' \<in> set (set_difference (parseSearchExts 3) [''mp3''])"
  using test_groups(2,6) by (simp add: test_exts_def searchExtensions_def)

end
