(* ===== verification/Dual_String.thy ===== *)
theory Dual_String
  imports Paths
begin

text \<open>
  \<^bold>\<open>util/text/DualString.cpp\<close>: a name kept in lower case with a bit for every character that was not, from which the
  original name is made again.  The conversions of characters are parameters; \<open>None\<close> means that the code uses
  a bit outside of the array.
\<close>

section \<open>The class\<close>

record dual_string =
  ds_charSizes :: "32 word list option"
  ds_str :: string

definition initSizeArray :: "nat \<Rightarrow> 32 word list" where
  "initSizeArray strLen = replicate (if strLen mod 32 = 0 then strLen div 32 else strLen div 32 + 1) 0"

text \<open>The position in the array after a character of so many bytes.\<close>

definition next_bit :: "nat \<Rightarrow> nat \<times> nat \<Rightarrow> nat \<times> nat" where
  "next_bit n p = (case p of (arrayPos, bitPos) \<Rightarrow> if 32 \<le> bitPos + n then (arrayPos + 1, bitPos + n - 32) else (arrayPos, bitPos + n))"

lemma utf8_step_shorter: "(n, c) = utf8ToWc s \<Longrightarrow> s \<noteq> [] \<Longrightarrow> length s - nat \<bar>n\<bar> < length s"
  using utf8ToWc_nonzero [of s] by (cases "utf8ToWc s"; cases s) auto

function dual_init_loop ::
    "nat \<Rightarrow> string \<Rightarrow> string \<Rightarrow> nat \<times> nat \<Rightarrow> 32 word list option \<Rightarrow> 32 word list option option" where
  "dual_init_loop len iNormal iLower p charSizes =
     (if iLower = [] \<or> hd iLower = CHR 0x00 then Some charSizes
      else
        let (nNormal, cNormal) = utf8ToWc iNormal; (nLower, cLower) = utf8ToWc iLower;
            next = (\<lambda>charSizes. dual_init_loop len (drop (nat \<bar>nNormal\<bar>) iNormal) (drop (nat \<bar>nLower\<bar>) iLower)
                                  (next_bit (nat \<bar>nLower\<bar>) p) charSizes)
        in if cNormal \<noteq> cLower then
             let t = (case charSizes of None \<Rightarrow> initSizeArray len | Some t \<Rightarrow> t)
             in if fst p < length t then next (Some (t[fst p := t ! fst p OR push_bit (snd p) 1])) else None
           else next charSizes)"
  by pat_completeness auto
termination
  by (relation "measure (\<lambda>(len, n, l, p, cs). length l)") (auto dest: utf8_step_shorter)

definition dual_string_new :: "(wchar \<Rightarrow> wchar) \<Rightarrow> string \<Rightarrow> dual_string option" where
  "dual_string_new lower aStr =
     (let str = text_toLower lower aStr
      in map_option (\<lambda>charSizes. \<lparr>ds_charSizes = charSizes, ds_str = str\<rparr>) (dual_init_loop (length aStr) aStr str (0, 0) None))"

function dual_normal_loop :: "(wchar \<Rightarrow> wchar) \<Rightarrow> 32 word list \<Rightarrow> string \<Rightarrow> nat \<times> nat \<Rightarrow> string \<Rightarrow> string option" where
  "dual_normal_loop upper charSizes iLower p ret =
     (if iLower = [] then Some ret
      else if length charSizes \<le> fst p then None
      else if bit (charSizes ! fst p) (snd p) then
        let (nLower, cLower) = utf8ToWc iLower
        in dual_normal_loop upper charSizes (drop (nat \<bar>nLower\<bar>) iLower) (next_bit (nat \<bar>nLower\<bar>) p) (ret @ wcToUtf8 (upper cLower))
      else dual_normal_loop upper charSizes (tl iLower) (next_bit 1 p) (ret @ [hd iLower]))"
  by pat_completeness auto
termination
  by (relation "measure (\<lambda>(u, cs, l, p, r). length l)") (auto dest: utf8_step_shorter)

declare dual_init_loop.simps [simp del] dual_normal_loop.simps [simp del]

definition ds_getNormal :: "(wchar \<Rightarrow> wchar) \<Rightarrow> dual_string \<Rightarrow> string option" where
  "ds_getNormal upper d =
     (case ds_charSizes d of None \<Rightarrow> Some (ds_str d) | Some t \<Rightarrow> dual_normal_loop upper t (ds_str d) (0, 0) [])"

definition lowerCaseOnly :: "dual_string \<Rightarrow> bool" where
  "lowerCaseOnly d \<longleftrightarrow> ds_charSizes d = None"

section \<open>Positions of bits\<close>

definition tbit :: "32 word list \<Rightarrow> nat \<Rightarrow> bool" where
  "tbit t q = bit (t ! (q div 32)) (q mod 32)"

definition bit_pos :: "nat \<Rightarrow> nat \<times> nat" where
  "bit_pos q = (q div 32, q mod 32)"

lemma next_bit_pos: "n \<le> 32 \<Longrightarrow> next_bit n (bit_pos q) = bit_pos (q + n)"
proof -
  assume n: "n \<le> 32"
  show ?thesis
  proof (cases "32 \<le> q mod 32 + n")
    case True
    have "q + n = 32 * (q div 32 + 1) + (q mod 32 + n - 32)" using True by simp
    moreover have "q mod 32 + n - 32 < 32" using n True by (simp add: less_diff_conv2 add_mono1 add.commute)
    ultimately have "(q + n) div 32 = q div 32 + 1" "(q + n) mod 32 = q mod 32 + n - 32"
      by (simp_all only: div_mult_self4 mod_mult_self4 div_less mod_less)
    then show ?thesis using True by (simp add: next_bit_def bit_pos_def)
  next
    case False
    have "q + n = 32 * (q div 32) + (q mod 32 + n)" by simp
    then have "(q + n) div 32 = q div 32" "(q + n) mod 32 = q mod 32 + n"
      using False by (metis div_less div_mult_self4 add_0 not_le zero_neq_numeral add.commute, metis False mod_less mod_mult_self4 not_le)
    then show ?thesis using False by (simp add: next_bit_def bit_pos_def)
  qed
qed

lemma tbit_update:
  assumes "q div 32 < length t"
  shows "tbit (t[q div 32 := t ! (q div 32) OR push_bit (q mod 32) 1]) r \<longleftrightarrow> tbit t r \<or> r = q"
proof -
  have "r = q \<longleftrightarrow> r div 32 = q div 32 \<and> r mod 32 = q mod 32" by (metis div_mult_mod_eq)
  then show ?thesis using assms by (auto simp: tbit_def nth_list_update bit_simps)
qed

text \<open>A text of characters, and the positions of those that are not lower case.\<close>

definition text_of :: "wchar list \<Rightarrow> string" where
  "text_of cs = concat (map wcToUtf8 cs)"

fun marks :: "(wchar \<Rightarrow> wchar) \<Rightarrow> nat \<Rightarrow> wchar list \<Rightarrow> nat set" where
  "marks lower q [] = {}"
| "marks lower q (c # cs) = (if c \<noteq> lower c then {q} else {}) \<union> marks lower (q + utf8_len (lower c)) cs"

lemma utf8_len_bounds: "1 \<le> utf8_len c" "utf8_len c \<le> 4"
  by (simp_all add: utf8_len_def wc_bytes_def)

lemma marks_bounds: "r \<in> marks lower q cs \<Longrightarrow> q \<le> r \<and> r < q + length (text_of (map lower cs)) \<or> \<not> (\<forall>c\<in>set cs. \<not> invalid_wc (lower c))"
proof (induction cs arbitrary: q)
  case (Cons c cs)
  then show ?case using utf8_len_bounds(1) [of "lower c"] length_wcToUtf8 [of "lower c"]
    by (fastforce simp: text_of_def split: if_splits)
qed simp

definition good_chars :: "(wchar \<Rightarrow> wchar) \<Rightarrow> wchar list \<Rightarrow> bool" where
  "good_chars lower cs \<longleftrightarrow> (\<forall>c\<in>set cs. c \<noteq> 0 \<and> lower c \<noteq> 0 \<and> \<not> invalid_wc c \<and> \<not> invalid_wc (lower c))"

lemma text_of_simps [simp]: "text_of [] = []" "text_of (c # cs) = wcToUtf8 c @ text_of cs"
  by (simp_all add: text_of_def)

lemma wcToUtf8_start:
  assumes "c \<noteq> 0" and "\<not> invalid_wc c"
  shows "wcToUtf8 c \<noteq> []" and "hd (wcToUtf8 c) \<noteq> CHR 0x00"
proof -
  show n: "wcToUtf8 c \<noteq> []" using length_wcToUtf8 [OF assms(2)] utf8_len_bounds(1) [of c] by auto
  have "byte_at (wcToUtf8 c) 0 \<noteq> 0"
    using byte_at_0_wc [of "wcToUtf8 c"] utf8ToWc_wcToUtf8 [OF assms(2), of "[]"] assms(1) by auto
  then show "hd (wcToUtf8 c) \<noteq> CHR 0x00" using n by (cases "wcToUtf8 c") (auto simp: byte_at_def byte_of_char_def)
qed

lemma text_toLower_chars:
  assumes "good_chars lower cs"
  shows "text_toLower lower (text_of cs) = text_of (map lower cs)"
proof -
  have "toLower_loop lower (text_of cs) = text_of (map lower cs)"
    using assms
  proof (induction cs)
    case Nil
    then show ?case by (subst toLower_loop.simps) simp
  next
    case (Cons c cs)
    have ok: "c \<noteq> 0" "\<not> invalid_wc c" using Cons.prems by (simp_all add: good_chars_def)
    have "drop (utf8_len c) (wcToUtf8 c @ text_of cs) = text_of cs" using length_wcToUtf8 [OF ok(2)] by simp
    then show ?case
      using Cons wcToUtf8_start [OF ok] utf8ToWc_wcToUtf8 [OF ok(2), of "text_of cs"]
      by (subst toLower_loop.simps) (simp add: good_chars_def)
  qed
  moreover have "cs = []" if "text_of cs = []" using that assms wcToUtf8_start by (cases cs) (auto simp: good_chars_def)
  ultimately show ?thesis by (auto simp: text_toLower_def)
qed

lemma init_step:
  assumes "iLower \<noteq> []" and "hd iLower \<noteq> CHR 0x00"
    and "utf8ToWc iNormal = (int n, c)" and "utf8ToWc iLower = (int m, d)"
  shows "dual_init_loop len iNormal iLower p charSizes =
    (let t = (case charSizes of None \<Rightarrow> initSizeArray len | Some t \<Rightarrow> t)
     in if c \<noteq> d then
          if fst p < length t
          then dual_init_loop len (drop n iNormal) (drop m iLower) (next_bit m p) (Some (t[fst p := t ! fst p OR push_bit (snd p) 1]))
          else None
        else dual_init_loop len (drop n iNormal) (drop m iLower) (next_bit m p) charSizes)"
  using assms by (subst dual_init_loop.simps) (simp add: Let_def)

lemma init_marks:
  assumes "good_chars lower cs" and "\<forall>r\<in>marks lower q cs. r div 32 < length (case charSizes of None \<Rightarrow> initSizeArray len | Some t \<Rightarrow> t)"
  shows "\<exists>charSizes'. dual_init_loop len (text_of cs) (text_of (map lower cs)) (bit_pos q) charSizes = Some charSizes'
    \<and> (marks lower q cs = {} \<longrightarrow> charSizes' = charSizes)
    \<and> (charSizes \<noteq> None \<or> marks lower q cs \<noteq> {} \<longrightarrow> charSizes' \<noteq> None)
    \<and> (\<forall>t t'. t = (case charSizes of None \<Rightarrow> initSizeArray len | Some t \<Rightarrow> t) \<longrightarrow> charSizes' = Some t' \<longrightarrow>
         length t' = length t \<and> (\<forall>r. tbit t' r \<longleftrightarrow> tbit t r \<or> r \<in> marks lower q cs))"
  using assms
proof (induction cs arbitrary: q charSizes)
  case Nil
  then show ?case by (subst dual_init_loop.simps) auto
next
  case (Cons c cs)
  have ok: "c \<noteq> 0" "\<not> invalid_wc c" "lower c \<noteq> 0" "\<not> invalid_wc (lower c)" "good_chars lower cs"
    using Cons.prems(1) by (simp_all add: good_chars_def)
  let ?q = "q + utf8_len (lower c)"
  let ?t = "case charSizes of None \<Rightarrow> initSizeArray len | Some t \<Rightarrow> t"
  have dr: "drop (utf8_len x) (wcToUtf8 x @ rest) = rest" if "\<not> invalid_wc x" for x rest using length_wcToUtf8 [OF that] by simp
  have nb: "next_bit (utf8_len (lower c)) (bit_pos q) = bit_pos ?q" using utf8_len_bounds(2) [of "lower c"] by (intro next_bit_pos) simp
  have start: "text_of (map lower (c # cs)) \<noteq> []" "hd (text_of (map lower (c # cs))) \<noteq> CHR 0x00"
    using wcToUtf8_start [OF ok(3,4)] by simp_all
  have step: "dual_init_loop len (text_of (c # cs)) (text_of (map lower (c # cs))) (bit_pos q) charSizes =
    (if c \<noteq> lower c then
       if q div 32 < length ?t
       then dual_init_loop len (text_of cs) (text_of (map lower cs)) (bit_pos ?q) (Some (?t[q div 32 := ?t ! (q div 32) OR push_bit (q mod 32) 1]))
       else None
     else dual_init_loop len (text_of cs) (text_of (map lower cs)) (bit_pos ?q) charSizes)"
    using init_step [OF start, of "text_of (c # cs)" "utf8_len c" c "utf8_len (lower c)" "lower c" len "bit_pos q" charSizes]
      utf8ToWc_wcToUtf8 [OF ok(2), of "text_of cs"] utf8ToWc_wcToUtf8 [OF ok(4), of "text_of (map lower cs)"] dr [OF ok(2)] dr [OF ok(4)]
    unfolding text_of_simps list.map nb Let_def by (simp add: bit_pos_def)
  show ?case
  proof (cases "c = lower c")
    case True
    then have m: "marks lower q (c # cs) = marks lower ?q cs" by simp
    have "\<forall>r\<in>marks lower ?q cs. r div 32 < length ?t" using Cons.prems(2) unfolding m .
    from Cons.IH [OF ok(5) this] show ?thesis unfolding step m using True by (simp only: if_False simp_thms)
  next
    case False
    have q: "q div 32 < length ?t" using Cons.prems(2) False by simp
    let ?u = "?t[q div 32 := ?t ! (q div 32) OR push_bit (q mod 32) 1]"
    have "\<forall>r\<in>marks lower ?q cs. r div 32 < length (case Some ?u of None \<Rightarrow> initSizeArray len | Some t \<Rightarrow> t)" using Cons.prems(2) by simp
    from Cons.IH [OF ok(5) this] obtain t' where
      t': "dual_init_loop len (text_of cs) (text_of (map lower cs)) (bit_pos ?q) (Some ?u) = Some (Some t')"
        "length t' = length ?t" "\<And>r. tbit t' r \<longleftrightarrow> tbit ?u r \<or> r \<in> marks lower ?q cs" by auto
    then show ?thesis using step False q tbit_update [OF q] by auto
  qed
qed

lemma normal_bytes:
  assumes "\<forall>r. q \<le> r \<and> r < q + length xs \<longrightarrow> \<not> tbit t r \<and> r div 32 < length t"
  shows "dual_normal_loop upper t (xs @ rest) (bit_pos q) ret = dual_normal_loop upper t rest (bit_pos (q + length xs)) (ret @ xs)"
  using assms
proof (induction xs arbitrary: q ret)
  case (Cons x xs)
  have "\<not> tbit t q \<and> q div 32 < length t" using Cons.prems by simp
  then have "dual_normal_loop upper t ((x # xs) @ rest) (bit_pos q) ret = dual_normal_loop upper t (xs @ rest) (bit_pos (q + 1)) (ret @ [x])"
    by (subst dual_normal_loop.simps) (simp add: next_bit_pos, simp add: bit_pos_def tbit_def)
  then show ?case using Cons.IH [of "q + 1" "ret @ [x]"] Cons.prems by simp
qed simp

lemma normal_text:
  assumes "good_chars lower cs" and "\<forall>c\<in>set cs. c \<noteq> lower c \<longrightarrow> upper (lower c) = c"
    and "\<forall>r. q \<le> r \<and> r < q + length (text_of (map lower cs)) \<longrightarrow> (tbit t r \<longleftrightarrow> r \<in> marks lower q cs) \<and> r div 32 < length t"
  shows "dual_normal_loop upper t (text_of (map lower cs)) (bit_pos q) ret = Some (ret @ text_of cs)"
  using assms
proof (induction cs arbitrary: q ret)
  case Nil
  then show ?case by (subst dual_normal_loop.simps) simp
next
  case (Cons c cs)
  have ok: "c \<noteq> 0" "\<not> invalid_wc c" "lower c \<noteq> 0" "\<not> invalid_wc (lower c)" "good_chars lower cs"
    using Cons.prems(1) by (simp_all add: good_chars_def)
  let ?n = "utf8_len (lower c)"
  have n: "length (wcToUtf8 (lower c)) = ?n" "1 \<le> ?n" using length_wcToUtf8 [OF ok(4)] utf8_len_bounds(1) by simp_all
  have mk: "r \<in> marks lower (q + ?n) cs \<Longrightarrow> q + ?n \<le> r" for r
    using marks_bounds [of r lower "q + ?n" cs] ok(5) by (auto simp: good_chars_def)
  have rest: "\<forall>r. q + ?n \<le> r \<and> r < q + ?n + length (text_of (map lower cs)) \<longrightarrow> (tbit t r \<longleftrightarrow> r \<in> marks lower (q + ?n) cs) \<and> r div 32 < length t"
    using Cons.prems(3) n by (auto simp: add.assoc)
  have IH: "dual_normal_loop upper t (text_of (map lower cs)) (bit_pos (q + ?n)) ret = Some (ret @ text_of cs)" for ret
    using Cons.IH [OF ok(5) _ rest] Cons.prems(2) by simp
  show ?case
  proof (cases "c = lower c")
    case True
    have "\<forall>r. q \<le> r \<and> r < q + length (wcToUtf8 (lower c)) \<longrightarrow> \<not> tbit t r \<and> r div 32 < length t"
      using Cons.prems(3) n mk True [symmetric] by (fastforce simp: not_le)
    from normal_bytes [OF this] show ?thesis using IH n True [symmetric] by simp
  next
    case False
    have "tbit t q" "q div 32 < length t" using Cons.prems(3) n False by auto
    moreover have "next_bit ?n (bit_pos q) = bit_pos (q + ?n)" using utf8_len_bounds(2) [of "lower c"] by (intro next_bit_pos) simp
    moreover have "drop ?n (wcToUtf8 (lower c) @ text_of (map lower cs)) = text_of (map lower cs)" using n by simp
    ultimately have "dual_normal_loop upper t (text_of (map lower (c # cs))) (bit_pos q) ret
        = dual_normal_loop upper t (text_of (map lower cs)) (bit_pos (q + ?n)) (ret @ wcToUtf8 (upper (lower c)))"
      using wcToUtf8_start(1) [OF ok(3,4)] utf8ToWc_wcToUtf8 [OF ok(4), of "text_of (map lower cs)"]
      by (subst dual_normal_loop.simps) (simp, simp add: bit_pos_def tbit_def)
    then show ?thesis using IH Cons.prems(2) False by simp
  qed
qed

section \<open>Round trip\<close>

lemma marks_empty: "marks lower q cs = {} \<longleftrightarrow> map lower cs = cs"
  by (induction cs arbitrary: q) auto

lemma init_table_bits: "q div 32 < length (initSizeArray len) \<Longrightarrow> \<not> tbit (initSizeArray len) q"
  by (simp add: tbit_def initSizeArray_def)

text \<open>
  C39: A name of valid characters is kept in lower case, and the original name is made again from it, when the upper
  case form of every character that was changed is that character again and the lower case text is not longer than
  the array that is allocated for the bits.  Otherwise the name is lost (the dotted capital I, the Kelvin sign), or, when
  the lower case characters are longer than the originals, a bit is set outside of the array.
\<close>

theorem dual_string_round_trip:
  assumes ok: "good_chars lower cs" and up: "\<forall>c\<in>set cs. c \<noteq> lower c \<longrightarrow> upper (lower c) = c"
    and len: "length (text_of (map lower cs)) \<le> 32 * length (initSizeArray (length (text_of cs)))"
  shows "\<exists>d. dual_string_new lower (text_of cs) = Some d \<and> ds_str d = text_of (map lower cs)
    \<and> ds_getNormal upper d = Some (text_of cs) \<and> (lowerCaseOnly d \<longleftrightarrow> map lower cs = cs)"
proof -
  let ?n = "length (text_of cs)"
  have inside: "r div 32 < length (initSizeArray ?n)" if "r < length (text_of (map lower cs))" for r
    using that len by (simp add: less_mult_imp_div_less mult.commute)
  have mk: "\<forall>r\<in>marks lower 0 cs. r div 32 < length (case None of None \<Rightarrow> initSizeArray ?n | Some t \<Rightarrow> t)"
    using marks_bounds [of _ lower 0 cs] ok inside by (fastforce simp: good_chars_def)
  obtain sizes where s: "dual_init_loop ?n (text_of cs) (text_of (map lower cs)) (0, 0) None = Some sizes"
    "marks lower 0 cs = {} \<longrightarrow> sizes = None" "marks lower 0 cs \<noteq> {} \<longrightarrow> sizes \<noteq> None"
    "\<And>t. sizes = Some t \<Longrightarrow> length t = length (initSizeArray ?n) \<and> (\<forall>r. tbit t r \<longleftrightarrow> tbit (initSizeArray ?n) r \<or> r \<in> marks lower 0 cs)"
    using init_marks [OF ok mk] by (auto simp: bit_pos_def)
  have lowerOnly: "sizes = None \<longleftrightarrow> map lower cs = cs" using s(2,3) marks_empty [of lower 0 cs] by auto
  let ?d = "\<lparr>ds_charSizes = sizes, ds_str = text_of (map lower cs)\<rparr>"
  have "dual_string_new lower (text_of cs) = Some ?d"
    using s(1) by (simp add: dual_string_new_def text_toLower_chars [OF ok] Let_def)
  moreover have "ds_getNormal upper ?d = Some (text_of cs)"
  proof (cases sizes)
    case None
    then show ?thesis using lowerOnly by (simp add: ds_getNormal_def)
  next
    case (Some t)
    have "\<forall>r. 0 \<le> r \<and> r < 0 + length (text_of (map lower cs)) \<longrightarrow> (tbit t r \<longleftrightarrow> r \<in> marks lower 0 cs) \<and> r div 32 < length t"
      using s(4) [OF Some] inside init_table_bits by auto
    from normal_text [OF ok up this, of "[]"] show ?thesis using Some by (simp add: ds_getNormal_def bit_pos_def)
  qed
  ultimately show ?thesis using lowerOnly by (auto simp: lowerCaseOnly_def)
qed

text \<open>A small table of letters: A, the dotted capital I, and a letter whose small form takes three bytes instead of two.\<close>

definition test_lower :: "wchar \<Rightarrow> wchar" where
  "test_lower c = (if c = 0x41 then 0x61 else if c = 0x130 then 0x69 else if c = 0x23A then 0x2C65 else c)"

definition test_upper :: "wchar \<Rightarrow> wchar" where
  "test_upper c = (if c = 0x61 then 0x41 else if c = 0x69 then 0x49 else if c = 0x2C65 then 0x23A else c)"

lemma test_lost_name:
  "map_option (ds_getNormal test_upper) (dual_string_new test_lower (text_of [0x130])) = Some (Some ''I'')"
  by code_simp

lemma test_bit_outside: "dual_string_new test_lower (text_of (replicate 12 0x23A)) = None"
  by code_simp

theorem dual_string_round_trip_witness:
  "(\<exists>d. dual_string_new test_lower ''Ab'' = Some d \<and> ds_str d = ''ab'' \<and> ds_getNormal test_upper d = Some ''Ab'')
   \<and> map_option (ds_getNormal test_upper) (dual_string_new test_lower (text_of [0x130])) = Some (Some ''I'')
   \<and> dual_string_new test_lower (text_of (replicate 12 0x23A)) = None"
proof -
  have g: "good_chars test_lower [0x41, 0x62]" "\<forall>c\<in>set [0x41, 0x62]. c \<noteq> test_lower c \<longrightarrow> test_upper (test_lower c) = c"
    "length (text_of (map test_lower [0x41, 0x62])) \<le> 32 * length (initSizeArray (length (text_of [0x41, 0x62])))"
    unfolding good_chars_def by code_simp+
  have t: "text_of [0x41, 0x62] = ''Ab''" "text_of (map test_lower [0x41, 0x62]) = ''ab''" by code_simp+
  show ?thesis using dual_string_round_trip [OF g] test_lost_name test_bit_outside unfolding t by blast
qed

end
