(* ===== verification/Share_Directory.thy ===== *)
theory Share_Directory
  imports Search_Query Dual_String Sorted_Vector
begin

text \<open>
  \<^bold>\<open>share/ShareDirectory.cpp\<close>: the tree of shared directories and files, how it is looked up and counted, and the
  search of a query in it.  A directory of the code knows its parent by pointer; here a directory that is reached
  from another is named by the path to it.  Names are compared in lower case.
\<close>

section \<open>Directories and files\<close>

record share_root =
  rt_name :: dual_string
  rt_path :: string
  rt_profiles :: "int set"
  rt_incoming :: bool
  rt_cacheDirty :: bool
  rt_refreshState :: nat
  rt_refreshTaskToken :: "nat option"
  rt_lastRefreshTime :: int

record share_file =
  sf_name :: dual_string
  sf_size :: int
  sf_lastWrite :: int
  sf_tth :: "byte list"

datatype share_dir =
  Share_Dir (sd_name: dual_string) (sd_root: "share_root option") (sd_lastWrite: int) (sd_size: int)
    (sd_files: "share_file list") (sd_directories: "share_dir list")

definition file_key :: "share_file \<Rightarrow> string" where
  "file_key f = ds_str (sf_name f)"

definition dir_key :: "share_dir \<Rightarrow> string" where
  "dir_key d = ds_str (sd_name d)"

definition isRoot :: "share_dir \<Rightarrow> bool" where
  "isRoot d \<longleftrightarrow> sd_root d \<noteq> None"

definition getVirtualNameLower :: "share_dir \<Rightarrow> string" where
  "getVirtualNameLower d = (case sd_root d of Some r \<Rightarrow> ds_str (rt_name r) | None \<Rightarrow> dir_key d)"

definition getVirtualName :: "(wchar \<Rightarrow> wchar) \<Rightarrow> share_dir \<Rightarrow> string option" where
  "getVirtualName upper d = ds_getNormal upper (case sd_root d of Some r \<Rightarrow> rt_name r | None \<Rightarrow> sd_name d)"

section \<open>Counting\<close>

fun getTotalSize :: "share_dir \<Rightarrow> int" where
  "getTotalSize (Share_Dir name aRoot lastWrite size' files directories) = foldl (\<lambda>tmp d. tmp + getTotalSize d) size' directories"

record content_info =
  ci_directories :: int
  ci_files :: int

fun getContentInfo :: "share_dir \<Rightarrow> int \<times> content_info \<Rightarrow> int \<times> content_info" where
  "getContentInfo (Share_Dir name aRoot lastWrite size' files directories) acc =
     (case fold getContentInfo directories acc of
        (n, info) \<Rightarrow>
          (n + size', info\<lparr>ci_directories := ci_directories info + int (length directories), ci_files := ci_files info + int (length files)\<rparr>))"

fun getProfileInfo :: "share_dir \<Rightarrow> int \<times> nat \<Rightarrow> int \<times> nat" where
  "getProfileInfo (Share_Dir name aRoot lastWrite size' files directories) (totalSize, filesCount) =
     fold getProfileInfo directories (totalSize + size', filesCount + length files)"

record share_stats =
  ss_totalAge :: int
  ss_totalDirs :: nat
  ss_totalSize :: int
  ss_totalFiles :: nat
  ss_lowerCaseFiles :: nat
  ss_totalStrLen :: nat

definition count_file :: "share_file \<Rightarrow> share_stats \<Rightarrow> share_stats" where
  "count_file f s =
     s\<lparr>ss_totalSize := ss_totalSize s + sf_size f, ss_totalAge := ss_totalAge s + sf_lastWrite f,
       ss_totalStrLen := ss_totalStrLen s + length (ds_str (sf_name f)),
       ss_lowerCaseFiles := ss_lowerCaseFiles s + of_bool (lowerCaseOnly (sf_name f))\<rparr>"

fun countStats :: "share_dir \<Rightarrow> share_stats \<Rightarrow> share_stats" where
  "countStats (Share_Dir name aRoot lastWrite size' files directories) s =
     (let s = fold count_file files (fold countStats directories s)
      in s\<lparr>ss_totalStrLen := ss_totalStrLen s + length (ds_str name), ss_totalDirs := ss_totalDirs s + length directories,
           ss_totalFiles := ss_totalFiles s + length files\<rparr>)"

section \<open>Lookup\<close>

definition findFileLower :: "share_dir \<Rightarrow> string \<Rightarrow> share_file option" where
  "findFileLower d aNameLower =
     (let p = sv_find str_compare file_key aNameLower (sd_files d)
      in if p < length (sd_files d) then Some (sd_files d ! p) else None)"

definition findDirectoryLower :: "share_dir \<Rightarrow> string \<Rightarrow> share_dir option" where
  "findDirectoryLower d aNameLower =
     (let p = sv_find str_compare dir_key aNameLower (sd_directories d)
      in if p < length (sd_directories d) then Some (sd_directories d ! p) else None)"

lemma size_member: "(e :: share_dir) \<in> set ds \<Longrightarrow> size e < size_list size ds"
  by (induction ds) auto

lemma findDirectoryLower_size: "findDirectoryLower d n = Some e \<Longrightarrow> size e < size d"
proof -
  assume "findDirectoryLower d n = Some e"
  then have "e \<in> set (sd_directories d)" by (auto simp: findDirectoryLower_def Let_def split: if_splits)
  then show ?thesis using size_member by (cases d) fastforce
qed

text \<open>A path without a separator is looked up again in the directory that was found.\<close>

function findDirectoryByPath :: "(wchar \<Rightarrow> wchar) \<Rightarrow> share_dir \<Rightarrow> string \<Rightarrow> char \<Rightarrow> share_dir option" where
  "findDirectoryByPath lower d aPath aSeparator =
     (let p = str_find [aSeparator] aPath 0
      in case findDirectoryLower d (text_toLower lower (case p of Some p \<Rightarrow> take p aPath | None \<Rightarrow> aPath)) of
           None \<Rightarrow> None
         | Some e \<Rightarrow>
             (case p of
                None \<Rightarrow> findDirectoryByPath lower e aPath aSeparator
              | Some p \<Rightarrow> if p + 1 = length aPath then Some e else findDirectoryByPath lower e (drop (p + 1) aPath) aSeparator))"
  by pat_completeness auto
termination
  by (relation "measure (\<lambda>(_, d, _, _). size d)") (auto dest: findDirectoryLower_size)

declare findDirectoryByPath.simps [simp del]

section \<open>Search\<close>

text \<open>A result names its directory by the lower case names on the way to it.\<close>

datatype share_item = Found_Directory "string list" | Found_File "string list" share_file

type_synonym share_results = "(share_item \<times> rat) list"

text \<open>\<open>multiset::emplace\<close> in the order of falling scores: after the results of the same score.\<close>

definition emplace_result :: "share_item \<Rightarrow> rat \<Rightarrow> share_results \<Rightarrow> share_results" where
  "emplace_result i score rs = takeWhile (\<lambda>r. score \<le> snd r) rs @ (i, score) # dropWhile (\<lambda>r. score \<le> snd r) rs"

fun search_files :: "string list \<Rightarrow> int \<Rightarrow> share_file list \<Rightarrow> share_results \<times> search_query \<Rightarrow> (share_results \<times> search_query) option" where
  "search_files path aLevel [] st = Some st"
| "search_files path aLevel (f # files) (results, q) =
     (case matchesFileLower (file_key f) (sf_size f) (sf_lastWrite f) q of
        None \<Rightarrow> None
      | Some (False, q) \<Rightarrow> search_files path aLevel files (results, q)
      | Some (True, q) \<Rightarrow>
          (case getRelevanceScore q aLevel False (file_key f) of
             None \<Rightarrow> None
           | Some score \<Rightarrow>
               let results = emplace_result (Found_File path f) score results
               in if sq_addParents q then Some (results, q) else search_files path aLevel files (results, q)))"

text \<open>The part of the search that matches the name of a directory.\<close>

definition search_name :: "string list \<Rightarrow> int \<Rightarrow> share_dir \<Rightarrow> share_results \<times> search_query \<Rightarrow> (share_results \<times> search_query) option" where
  "search_name path aLevel d st =
     (case st of (results, q) \<Rightarrow>
        (case matchesAnyDirectoryLower (getVirtualNameLower d) q of
           None \<Rightarrow> None
         | Some (False, q) \<Rightarrow> Some (results, q)
         | Some (True, q) \<Rightarrow>
             let complete = positionsComplete q;
                 valid = complete \<or> list_ex (\<lambda>j. sq_positions q ! j \<noteq> None \<and> 2 < pt_plen (sq_include q ! j)) [0..<length (sq_positions q)]
             in case (if sq_itemType q \<noteq> ITEM_FILE \<and> complete \<and> sq_gt q = 0 \<and> matchesDate q (sd_lastWrite d)
                      then map_option (\<lambda>score. emplace_result (Found_Directory path) score results)
                             (getRelevanceScore q aLevel True (dir_key d))
                      else Some results) of
                  None \<Rightarrow> None
                | Some results \<Rightarrow>
                    if sq_matchType q = MATCH_PATH_PARTIAL \<and> valid
                    then map_option (\<lambda>r. (results, q\<lparr>sq_recursion := Some r\<rparr>)) (recursion_new q (getVirtualNameLower d))
                    else Some (results, q)))"

fun search_dir :: "string list \<Rightarrow> int \<Rightarrow> share_dir \<Rightarrow> share_results \<times> search_query \<Rightarrow> (share_results \<times> search_query) option"
  and search_dirs :: "string list \<Rightarrow> int \<Rightarrow> share_dir list \<Rightarrow> share_results \<times> search_query \<Rightarrow> (share_results \<times> search_query) option" where
  "search_dir pathAbove aLevel (Share_Dir name aRoot lastWrite size' files directories) (results, q) =
     (let d = Share_Dir name aRoot lastWrite size' files directories; dirName = getVirtualNameLower d;
          path = pathAbove @ [dirName]; old = sq_recursion q
      in case match_any_lower (sq_exclude q) dirName of
           None \<Rightarrow> None
         | Some True \<Rightarrow> Some (results, q)
         | Some False \<Rightarrow>
             (case search_name path aLevel d (results, q) of
                None \<Rightarrow> None
              | Some (results, q) \<Rightarrow>
                  let q = q\<lparr>sq_recursion := map_option (rc_increase (length dirName)) (sq_recursion q)\<rparr>
                  in case (if sq_itemType q \<noteq> ITEM_DIRECTORY then search_files path (aLevel + 1) files (results, q) else Some (results, q)) of
                       None \<Rightarrow> None
                     | Some st \<Rightarrow>
                         map_option (\<lambda>(results, q). (results, q\<lparr>sq_recursion := old\<rparr>)) (search_dirs path (aLevel + 1) directories st)))"
| "search_dirs path aLevel [] st = Some st"
| "search_dirs path aLevel (d # ds) st =
     (case search_dir path aLevel d st of None \<Rightarrow> None | Some st \<Rightarrow> search_dirs path aLevel ds st)"

text \<open>\<open>ShareTree::matchBloom\<close> and the recursive part of \<open>ShareTree::searchText\<close>.\<close>

definition matchBloom :: "bool list \<Rightarrow> search_query \<Rightarrow> bool" where
  "matchBloom bloom q \<longleftrightarrow> list_all (\<lambda>p. bf_match 5 bloom (pt_str p)) (sq_include q)"

definition search_roots :: "bool list \<Rightarrow> share_dir list \<Rightarrow> search_query \<Rightarrow> (share_results \<times> search_query) option" where
  "search_roots bloom roots q = (if \<not> matchBloom bloom q then Some ([], q) else search_dirs [] 0 roots ([], q))"

end
