(* ===== verification/Share_Search.thy ===== *)
theory Share_Search
  imports Share_Directory "HOL-Library.Multiset"
begin

text \<open>
  What the search of \<open>Share_Directory\<close> finds: the files and directories whose names, with those of the directories
  above them, hold all words of the query.  \<open>found_dir\<close> says it without positions, scores and the state of the query.
\<close>

section \<open>Words and names\<close>

definition words :: "search_query \<Rightarrow> nat set" where
  "words q = {..<length (sq_include q)}"

definition name_hits :: "search_query \<Rightarrow> string \<Rightarrow> nat set" where
  "name_hits q name = {j \<in> words q. sublist (pt_str (sq_include q ! j)) name}"

definition name_excluded :: "search_query \<Rightarrow> string \<Rightarrow> bool" where
  "name_excluded q name \<longleftrightarrow> (\<exists>p\<in>set (sq_exclude q). sublist (pt_str p) name)"

definition ext_ok :: "search_query \<Rightarrow> string \<Rightarrow> bool" where
  "ext_ok q name \<longleftrightarrow> sq_ext q = [] \<or> (\<exists>e\<in>set (received_exts q). ends_with name e)"

text \<open>A file, when the words of \<open>H\<close> were found above it.\<close>

definition file_hit :: "search_query \<Rightarrow> nat set \<Rightarrow> share_file \<Rightarrow> bool" where
  "file_hit q H f \<longleftrightarrow>
     matchesDate q (sf_lastWrite f) \<and> matchesSize q (sf_size f)
     \<and> (sq_matchType q = MATCH_NAME_EXACT \<longrightarrow> pt_str (hd (sq_include q)) = file_key f)
     \<and> name_hits q (file_key f) \<union> H = words q \<and> ext_ok q (file_key f) \<and> \<not> name_excluded q (file_key f)"

definition found_files :: "search_query \<Rightarrow> string list \<Rightarrow> nat set \<Rightarrow> share_file list \<Rightarrow> share_item list" where
  "found_files q path H files =
     (let fs = map (Found_File path) (filter (file_hit q H) files) in if sq_addParents q then take 1 fs else fs)"

definition name_counts :: "search_query \<Rightarrow> string \<Rightarrow> bool" where
  "name_counts q name \<longleftrightarrow> \<not> (sq_matchType q \<noteq> MATCH_PATH_PARTIAL \<and> sq_itemType q = ITEM_FILE) \<and> name_hits q name \<noteq> {}"

text \<open>
  The words found on the way when a directory is entered: those of its name count when they complete the query or one
  of them has more than two characters.
\<close>

definition words_below :: "search_query \<Rightarrow> nat set \<Rightarrow> string \<Rightarrow> nat set" where
  "words_below q H name =
     (if name_counts q name \<and> sq_matchType q = MATCH_PATH_PARTIAL
        \<and> (name_hits q name \<union> H = words q \<or> (\<exists>j\<in>name_hits q name. 2 < length (pt_str (sq_include q ! j))))
      then name_hits q name \<union> H else H)"

definition dir_hit :: "search_query \<Rightarrow> nat set \<Rightarrow> share_dir \<Rightarrow> bool" where
  "dir_hit q H d \<longleftrightarrow>
     name_counts q (getVirtualNameLower d) \<and> sq_itemType q \<noteq> ITEM_FILE \<and> name_hits q (getVirtualNameLower d) \<union> H = words q
     \<and> sq_gt q = 0 \<and> matchesDate q (sd_lastWrite d)"

fun found_dir :: "search_query \<Rightarrow> string list \<Rightarrow> nat set \<Rightarrow> share_dir \<Rightarrow> share_item list" where
  "found_dir q pathAbove H (Share_Dir name aRoot lastWrite size' files directories) =
     (let d = Share_Dir name aRoot lastWrite size' files directories; dirName = getVirtualNameLower d;
          path = pathAbove @ [dirName]; H' = words_below q H dirName
      in if name_excluded q dirName then []
         else (if dir_hit q H d then [Found_Directory path] else [])
            @ (if sq_itemType q \<noteq> ITEM_DIRECTORY then found_files q path H' files else [])
            @ concat (map (found_dir q path H') directories))"

section \<open>The state of a query\<close>

definition held :: "search_query \<Rightarrow> nat set" where
  "held q = (case sq_recursion q of None \<Rightarrow> {} | Some r \<Rightarrow> {j \<in> words q. fst (rc_positions r ! j) \<noteq> None})"

definition query_inv :: "search_query \<Rightarrow> bool" where
  "query_inv q \<longleftrightarrow>
     (\<forall>p\<in>set (sq_include q) \<union> set (sq_exclude q). good_pattern p) \<and> length (sq_positions q) = length (sq_include q)
     \<and> (sq_matches q = 0 \<longrightarrow> sq_positions q = replicate (length (sq_include q)) None)
     \<and> (\<forall>r. sq_recursion q = Some r \<longrightarrow> length (rc_positions r) = length (sq_include q))
     \<and> (sq_ext q = [] \<or> received_exts q \<noteq> []) \<and> (sq_matchType q = MATCH_NAME_EXACT \<longrightarrow> sq_include q \<noteq> [])"

text \<open>What a query asks for does not change while it is matched.\<close>

definition same_query :: "search_query \<Rightarrow> search_query \<Rightarrow> bool" where
  "same_query q q' \<longleftrightarrow>
     (\<exists>ext noExt positions matches. q' = q\<lparr>sq_ext := ext, sq_noExt := noExt, sq_positions := positions, sq_matches := matches\<rparr>)
     \<and> (\<forall>name. ext_ok q' name = ext_ok q name)"

lemma same_query_refl [simp]: "same_query q q"
proof -
  have "q = q\<lparr>sq_ext := sq_ext q, sq_noExt := sq_noExt q, sq_positions := sq_positions q, sq_matches := sq_matches q\<rparr>" by simp
  then show ?thesis unfolding same_query_def by blast
qed

lemma same_query_trans: "same_query q q' \<Longrightarrow> same_query q' q'' \<Longrightarrow> same_query q q''"
  by (fastforce simp: same_query_def)

lemma same_query_fields:
  assumes "same_query q q'"
  shows "sq_include q' = sq_include q" "sq_exclude q' = sq_exclude q" "sq_recursion q' = sq_recursion q" "sq_gt q' = sq_gt q"
    "sq_matchType q' = sq_matchType q" "sq_addParents q' = sq_addParents q" "sq_itemType q' = sq_itemType q"
    "matchesDate q' = matchesDate q" "matchesSize q' = matchesSize q" "ext_ok q' = ext_ok q"
  using assms by (auto simp: same_query_def matchesDate_def [abs_def] matchesSize_def [abs_def])

text \<open>A query whose recursion is replaced.\<close>

definition same_but_recursion :: "search_query \<Rightarrow> search_query \<Rightarrow> bool" where
  "same_but_recursion q q' \<longleftrightarrow> same_query q (q'\<lparr>sq_recursion := sq_recursion q\<rparr>)"

lemma ext_ok_recursion [simp]: "ext_ok (q\<lparr>sq_recursion := r\<rparr>) = ext_ok q"
  by (simp add: ext_ok_def [abs_def] received_exts_def)

lemma received_exts_recursion [simp]: "received_exts (q\<lparr>sq_recursion := r\<rparr>) = received_exts q"
  by (simp add: received_exts_def)

lemma found_same:
  assumes "same_but_recursion q q'"
  shows "words q' = words q" "name_hits q' = name_hits q" "name_excluded q' = name_excluded q" "file_hit q' = file_hit q"
    "found_files q' = found_files q" "name_counts q' = name_counts q" "words_below q' = words_below q" "dir_hit q' = dir_hit q"
proof -
  note f = same_query_fields [OF assms [unfolded same_but_recursion_def], simplified]
  have m: "matchesDate (q'\<lparr>sq_recursion := r\<rparr>) = matchesDate q'" "matchesSize (q'\<lparr>sq_recursion := r\<rparr>) = matchesSize q'" for r
    by (simp_all add: matchesDate_def [abs_def] matchesSize_def [abs_def])
  show w: "words q' = words q" "name_hits q' = name_hits q" "name_excluded q' = name_excluded q"
    using f by (simp_all add: words_def name_hits_def [abs_def] name_excluded_def [abs_def])
  show h: "file_hit q' = file_hit q" using f w m by (simp add: file_hit_def [abs_def])
  show "found_files q' = found_files q" using f h by (simp add: found_files_def [abs_def])
  show c: "name_counts q' = name_counts q" using f w by (simp add: name_counts_def [abs_def])
  show "words_below q' = words_below q" unfolding words_below_def [abs_def] w c using f by simp
  show "dir_hit q' = dir_hit q" using f w c m by (simp add: dir_hit_def [abs_def])
qed

lemma found_dir_same: "same_but_recursion q q' \<Longrightarrow> found_dir q' path H d = found_dir q path H d"
proof (induction d arbitrary: path H)
  case (Share_Dir name aRoot lastWrite size' files directories)
  have i: "sq_itemType q' = sq_itemType q"
    using same_query_fields(7) [OF Share_Dir.prems [unfolded same_but_recursion_def]] by simp
  show ?case using Share_Dir.IH [OF _ Share_Dir.prems] by (simp add: found_same [OF Share_Dir.prems] i Let_def cong: map_cong)
qed


section \<open>Matching a name\<close>

definition matched :: "search_query \<Rightarrow> string \<Rightarrow> bool \<Rightarrow> search_query" where
  "matched q name resume =
     (let cs = chosen name None (sq_include q)
      in if resume \<or> None \<notin> set cs then q\<lparr>sq_matches := length (filter (\<lambda>a. a \<noteq> None) cs), sq_positions := cs\<rparr>
         else q\<lparr>sq_matches := 0, sq_positions := replicate (length (sq_include q)) None\<rparr>)"

lemma reset_positions:
  assumes "query_inv q"
  shows "sq_positions (resetPositions q) = replicate (length (sq_include q)) None"
    and "sq_include (resetPositions q) = sq_include q"
    and "(resetPositions q)\<lparr>sq_matches := m, sq_positions := ps\<rparr> = q\<lparr>sq_matches := m, sq_positions := ps\<rparr>"
  using assms by (simp_all add: query_inv_def resetPositions_def)

lemma match_include_matched:
  assumes "query_inv q"
  shows "match_include name resume q = Some (matched q name resume)"
proof -
  have g: "\<forall>p\<in>set (sq_include q). good_pattern p" using assms by (simp add: query_inv_def)
  show ?thesis
    unfolding match_include_def Let_def reset_positions(1,2) [OF assms] matchLower_chosen [OF g] matched_def
    by (simp add: reset_positions(3) [OF assms] del: not_None_eq)
qed

lemma chosen_hits:
  assumes "query_inv q" and "j < length (sq_include q)"
  shows "chosen name None (sq_include q) ! j \<noteq> None \<longleftrightarrow> j \<in> name_hits q name"
  using assms chosen_None [of j "sq_include q" name None] by (auto simp: query_inv_def name_hits_def words_def)

lemma None_chosen:
  assumes "query_inv q"
  shows "None \<in> set (chosen name None (sq_include q)) \<longleftrightarrow> name_hits q name \<noteq> words q"
proof -
  have "None \<notin> set (chosen name None (sq_include q)) \<longleftrightarrow> (\<forall>j<length (sq_include q). j \<in> name_hits q name)"
    using chosen_hits [OF assms] by (metis in_set_conv_nth length_chosen)
  also have "\<dots> \<longleftrightarrow> name_hits q name = words q" by (auto simp: name_hits_def words_def)
  finally show ?thesis by blast
qed

lemma matched_fields [simp]:
  "sq_include (matched q name resume) = sq_include q" "sq_recursion (matched q name resume) = sq_recursion q"
  "sq_itemType (matched q name resume) = sq_itemType q" "sq_matchType (matched q name resume) = sq_matchType q"
  "sq_gt (matched q name resume) = sq_gt q" "sq_exclude (matched q name resume) = sq_exclude q"
  "sq_addParents (matched q name resume) = sq_addParents q" "sq_ext (matched q name resume) = sq_ext q"
  "sq_noExt (matched q name resume) = sq_noExt q"
  by (simp_all add: matched_def Let_def)

lemma matched_complete:
  assumes "query_inv q" and "resume \<or> sq_recursion q = None"
  shows "positionsComplete (matched q name resume) \<longleftrightarrow> name_hits q name \<union> held q = words q"
proof -
  let ?cs = "chosen name None (sq_include q)"
  have m: "sq_matches (matched q name resume) = length (sq_include q) \<longleftrightarrow> name_hits q name = words q"
  proof (cases "name_hits q name = words q")
    case True
    then have c: "None \<notin> set ?cs" using None_chosen [OF assms(1)] by blast
    then have "\<forall>a\<in>set ?cs. a \<noteq> None" by metis
    then have "length (filter (\<lambda>a. a \<noteq> None) ?cs) = length (sq_include q)" by (simp only: filter_True length_chosen)
    then show ?thesis using True c by (simp add: matched_def)
  next
    case False
    then have c: "None \<in> set ?cs" using None_chosen [OF assms(1)] by blast
    then have "length (filter (\<lambda>a. a \<noteq> None) ?cs) < length (sq_include q)" "sq_include q \<noteq> []"
      using length_filter_less [of None ?cs "\<lambda>a. a \<noteq> None"] by auto
    then show ?thesis using False c unfolding matched_def Let_def by (auto simp del: not_None_eq)
  qed
  show ?thesis
  proof (cases "sq_recursion q")
    case None
    then show ?thesis using m by (simp add: positionsComplete_def held_def)
  next
    case (Some r)
    then have "resume" using assms(2) by simp
    then have p: "sq_positions (matched q name resume) = ?cs" by (simp add: matched_def Let_def)
    have l: "length (rc_positions r) = length (sq_include q)" using assms(1) Some by (simp add: query_inv_def)
    have "completes r ?cs \<longleftrightarrow> (\<forall>j<length (sq_include q). j \<in> name_hits q name \<or> j \<in> held q)"
      using chosen_hits [OF assms(1), of _ name] Some by (auto simp: completes_def list_all_iff l held_def words_def)
    also have "\<dots> \<longleftrightarrow> name_hits q name \<union> held q = words q" by (auto simp: name_hits_def words_def held_def Some)
    finally have c: "completes r ?cs \<longleftrightarrow> name_hits q name \<union> held q = words q" .
    have w: "name_hits q name = words q \<Longrightarrow> name_hits q name \<union> held q = words q" by (auto simp: words_def held_def Some)
    have "positionsComplete (matched q name resume) \<longleftrightarrow> name_hits q name = words q \<or> completes r ?cs"
      unfolding positionsComplete_def matched_fields m Some p by simp
    then show ?thesis using c w by blast
  qed
qed

lemma matched_matches:
  assumes "query_inv q"
  shows "0 < sq_matches (matched q name True) \<longleftrightarrow> name_hits q name \<noteq> {}"
proof -
  let ?cs = "chosen name None (sq_include q)"
  have "0 < sq_matches (matched q name True) \<longleftrightarrow> (\<exists>a\<in>set ?cs. a \<noteq> None)"
    unfolding matched_def Let_def by (simp add: filter_empty_conv del: not_None_eq)
  also have "\<dots> \<longleftrightarrow> (\<exists>j<length ?cs. ?cs ! j \<noteq> None)" by (metis in_set_conv_nth)
  also have "\<dots> \<longleftrightarrow> (\<exists>j<length (sq_include q). j \<in> name_hits q name)"
    using chosen_hits [OF assms, of _ name] unfolding length_chosen by blast
  also have "\<dots> \<longleftrightarrow> name_hits q name \<noteq> {}" by (auto simp: name_hits_def words_def)
  finally show ?thesis .
qed

lemma matched_inv:
  assumes "query_inv q"
  shows "query_inv (matched q name resume)" and "same_query q (matched q name resume)"
proof -
  have z: "length (filter (\<lambda>a. a \<noteq> None) cs) = 0 \<Longrightarrow> cs = replicate (length cs) None" for cs :: "nat option list"
    by (induction cs) (auto split: if_splits)
  have r: "received_exts (matched q name resume) = received_exts q" by (simp add: received_exts_def)
  show "query_inv (matched q name resume)"
    using assms z [of "chosen name None (sq_include q)"] unfolding query_inv_def r
    by (auto simp: matched_def Let_def simp del: not_None_eq)
  have e: "ext_ok (matched q name resume) n = ext_ok q n" for n by (simp add: ext_ok_def r)
  have "matched q name resume = q\<lparr>sq_ext := sq_ext q, sq_noExt := sq_noExt q,
      sq_positions := sq_positions (matched q name resume), sq_matches := sq_matches (matched q name resume)\<rparr>"
    by (simp add: matched_def Let_def)
  then show "same_query q (matched q name resume)" unfolding same_query_def using e by blast
qed


section \<open>Scores\<close>

lemma point_list_bounds:
  assumes "list_all2 (\<lambda>p a. \<forall>k. a = Some k \<longrightarrow> pt_str p \<noteq> [] \<and> k + pt_plen p \<le> length name) ps rs"
  shows "\<exists>pl. point_list name ps rs = Some pl \<and> map fst pl = rs"
  using assms
proof (induction rule: list_all2_induct)
  case (Cons p ps a rs)
  show ?case
  proof (cases a)
    case (Some k)
    with Cons(1) have b: "pt_str p \<noteq> []" "k + pt_plen p \<le> length name" by auto
    then have "start_points name (pt_str p) k \<noteq> None" "end_points name (pt_str p) (k + pt_plen p) \<noteq> None"
      by (auto simp: start_points_def end_points_def str_at_def)
    then show ?thesis using Some Cons.IH by auto
  qed (use Cons.IH in auto)
qed simp

lemma chosen_bounds:
  assumes "\<forall>p\<in>set ps. good_pattern p"
  shows "list_all2 (\<lambda>p a. \<forall>k. a = Some k \<longrightarrow> pt_str p \<noteq> [] \<and> k + pt_plen p \<le> length name) ps (chosen name prev ps)"
  using assms
proof (induction ps arbitrary: prev)
  case (Cons p ps)
  have "k \<in> set (occurrences (pt_str p) name)" if "pick_pos prev (occurrences (pt_str p) name) = Some k" for k
    using that find_Some_iff [of _ "occurrences (pt_str p) name" k]
    by (auto simp: pick_pos_def split: option.splits if_splits)
  moreover have "k + pt_plen p \<le> length name" if "k \<in> set (occurrences (pt_str p) name)" for k
  proof -
    have "length (take (length (pt_str p)) (drop k name)) = length (pt_str p)" "k < length name"
      using that by (simp_all add: occurrences_def)
    then show ?thesis using Cons.prems by (auto simp: good_pattern_def)
  qed
  ultimately show ?case using Cons by (auto simp: Let_def good_pattern_def)
qed simp

lemma matched_points:
  assumes "query_inv q"
  obtains pl where "toPointList (matched q name resume) name = Some pl" and "map fst pl = sq_positions (matched q name resume)"
proof -
  have g: "\<forall>p\<in>set (sq_include q). good_pattern p" using assms by (simp add: query_inv_def)
  have "list_all2 (\<lambda>p a. \<forall>k. a = Some k \<longrightarrow> pt_str p \<noteq> [] \<and> k + pt_plen p \<le> length name) ps (replicate (length ps) None)" for ps
    by (simp add: list_all2_conv_all_nth)
  then have "list_all2 (\<lambda>p a. \<forall>k. a = Some k \<longrightarrow> pt_str p \<noteq> [] \<and> k + pt_plen p \<le> length name) (sq_include q) (sq_positions (matched q name resume))"
    using chosen_bounds [OF g, of name None] unfolding matched_def Let_def by (auto simp del: not_None_eq)
  from point_list_bounds [OF this] show ?thesis using that by (auto simp: toPointList_def)
qed

lemma score_exists:
  assumes "query_inv q"
  obtains score where "getRelevanceScore (matched q name resume) l d name = Some score"
  by (rule matched_points [OF assms, of name resume]) (use that in \<open>auto simp: getRelevanceScore_def getResultPositions_def\<close>)

section \<open>Positions from above\<close>

lemma rc_merge_positions:
  assumes "length ps = length (rc_positions r)"
  shows "length (snd (rc_merge ps r)) = length ps"
    and "j < length ps \<Longrightarrow> fst (snd (rc_merge ps r) ! j) = None \<longleftrightarrow> fst (ps ! j) = None \<and> fst (rc_positions r ! j) = None"
proof -
  let ?old = "rc_positions r"
  let ?f = "\<lambda>j m. case m ! j of (None, _) \<Rightarrow> m[j := ?old ! j] | (Some p, n) \<Rightarrow> m[j := (Some (p + rc_depthLen r), n)]"
  have f: "length (fold ?f [k..<k + n] ps) = length ps
      \<and> (\<forall>j<length ps. fst (fold ?f [k..<k + n] ps ! j) = None \<longleftrightarrow>
           fst (ps ! j) = None \<and> (k \<le> j \<and> j < k + n \<longrightarrow> fst (?old ! j) = None))" if "k + n \<le> length ps" for k n
    using that
  proof (induction n)
    case (Suc n)
    then have IH: "length (fold ?f [k..<k + n] ps) = length ps"
      "\<And>j. j < length ps \<Longrightarrow> fst (fold ?f [k..<k + n] ps ! j) = None \<longleftrightarrow>
           fst (ps ! j) = None \<and> (k \<le> j \<and> j < k + n \<longrightarrow> fst (?old ! j) = None)" by auto
    have l: "length (?f (k + n) (fold ?f [k..<k + n] ps)) = length ps" using IH(1) by (auto split: prod.splits option.splits)
    have "fst (?f (k + n) (fold ?f [k..<k + n] ps) ! j) = None \<longleftrightarrow>
        fst (fold ?f [k..<k + n] ps ! j) = None \<and> (j = k + n \<longrightarrow> fst (?old ! j) = None)" if "j < length ps" for j
      using that IH(1) Suc.prems by (cases "j = k + n") (auto split: prod.splits option.splits)
    then show ?case using l IH(2) Suc.prems by (auto simp: less_Suc_eq)
  qed auto
  show "length (snd (rc_merge ps r)) = length ps"
  proof (cases "find (\<lambda>j. fst (ps ! j) = None \<and> fst (?old ! j) \<noteq> None) [0..<length ?old]")
    case (Some k)
    then have "k < length ?old" by (auto simp: find_Some_iff)
    then show ?thesis using f [of k "length ?old - k"] Some assms by (simp add: rc_merge_def Let_def)
  qed (simp add: rc_merge_def)
  show "fst (snd (rc_merge ps r) ! j) = None \<longleftrightarrow> fst (ps ! j) = None \<and> fst (?old ! j) = None" if j: "j < length ps"
  proof (cases "find (\<lambda>j. fst (ps ! j) = None \<and> fst (?old ! j) \<noteq> None) [0..<length ?old]")
    case None
    then have "rc_merge ps r = (False, ps)" by (simp add: rc_merge_def Let_def)
    moreover have "j \<in> set [0..<length ?old]" using j assms by simp
    then have "\<not> (fst (ps ! j) = None \<and> fst (?old ! j) \<noteq> None)" using None unfolding find_None_iff by blast
    ultimately show ?thesis by auto
  next
    case (Some k)
    then have k: "k < length ?old" "\<forall>i<k. \<not> (fst (ps ! i) = None \<and> fst (?old ! i) \<noteq> None)" by (auto simp: find_Some_iff)
    have "fst (snd (rc_merge ps r) ! j) = None \<longleftrightarrow> fst (ps ! j) = None \<and> (k \<le> j \<longrightarrow> fst (?old ! j) = None)"
      using f [of k "length ?old - k"] Some assms k(1) j by (simp add: rc_merge_def Let_def)
    then show ?thesis using k(2) by (meson not_le_imp_less)
  qed
qed


section \<open>Files and directories\<close>

lemma excluded_match: "query_inv q \<Longrightarrow> match_any_lower (sq_exclude q) name = Some (name_excluded q name)"
  using match_any_sublists [of "sq_exclude q" name] by (simp add: query_inv_def name_excluded_def)

lemma hasExt_same:
  assumes "query_inv q"
  shows "fst (hasExt name q) \<longleftrightarrow> ext_ok q name" and "same_query q (snd (hasExt name q))" and "query_inv (snd (hasExt name q))"
    and "sq_positions (snd (hasExt name q)) = sq_positions q" "sq_matches (snd (hasExt name q)) = sq_matches q"
proof -
  show "fst (hasExt name q) \<longleftrightarrow> ext_ok q name" by (simp add: hasExt_received ext_ok_def)
  have e: "sq_ext q \<noteq> [] \<Longrightarrow> received_exts q \<noteq> []" using assms by (simp add: query_inv_def)
  have h: "snd (hasExt name q) = q\<lparr>sq_ext := if sq_ext q = [] then [] else received_exts q,
      sq_noExt := if sq_ext q = [] then sq_noExt q else [], sq_positions := sq_positions q, sq_matches := sq_matches q\<rparr>"
    by (simp add: hasExt_def received_exts_def Let_def)
  have r: "received_exts (snd (hasExt name q)) = (if sq_ext q = [] then received_exts q else received_exts q)" if "sq_ext q \<noteq> []"
    using that by (simp add: h received_exts_def)
  have ok: "ext_ok (snd (hasExt name q)) n = ext_ok q n" for n
    using e r by (cases "sq_ext q = []") (simp_all add: ext_ok_def h)
  show "same_query q (snd (hasExt name q))" unfolding same_query_def using h ok by blast
  show "query_inv (snd (hasExt name q))" using assms e r unfolding query_inv_def by (cases "sq_ext q = []") (simp_all add: h)
  show "sq_positions (snd (hasExt name q)) = sq_positions q" "sq_matches (snd (hasExt name q)) = sq_matches q" by (simp_all add: h)
qed

lemma same_score:
  assumes "same_query q q'" and "sq_positions q' = sq_positions q" "sq_matches q' = sq_matches q"
  shows "getRelevanceScore q' = getRelevanceScore q"
proof (intro ext)
  fix l d name
  note f = same_query_fields [OF assms(1)] assms(2,3)
  have "relevance q' l d = relevance q l d" unfolding relevance_def f by (rule refl)
  moreover have "getResultPositions q' name = getResultPositions q name" unfolding getResultPositions_def toPointList_def f by (rule refl)
  ultimately show "getRelevanceScore q' l d name = getRelevanceScore q l d name" by (simp add: getRelevanceScore_def)
qed

lemma match_file:
  assumes q: "query_inv q"
  obtains q' where
    "matchesFileLower (file_key f) (sf_size f) (sf_lastWrite f) q = Some (file_hit q (held q) f, q')"
    "same_query q q'" "query_inv q'" "file_hit q (held q) f \<Longrightarrow> getRelevanceScore q' l d (file_key f) \<noteq> None"
proof -
  let ?n = "file_key f" and ?res = "sq_recursion q \<noteq> None"
  let ?m = "matched q ?n ?res"
  have exact: "sq_matchType q = MATCH_NAME_EXACT \<Longrightarrow> sq_include q \<noteq> []" using q by (simp add: query_inv_def)
  have complete: "positionsComplete ?m \<longleftrightarrow> name_hits q ?n \<union> held q = words q" by (rule matched_complete [OF q]) auto
  note m = matched_inv [OF q, of ?n ?res]
  note h = hasExt_same [OF m(1), of ?n]
  have x: "match_any_lower (sq_exclude (snd (hasExt ?n ?m))) ?n = Some (name_excluded q ?n)"
    using excluded_match [OF h(3), of ?n] same_query_fields(2) [OF same_query_trans [OF m(2) h(2)]] by (simp add: name_excluded_def)
  have e: "fst (hasExt ?n ?m) \<longleftrightarrow> ext_ok q ?n" using h(1) same_query_fields(10) [OF m(2)] by simp
  have score: "getRelevanceScore (snd (hasExt ?n ?m)) l d ?n \<noteq> None"
    unfolding same_score [OF h(2,4,5)] by (rule score_exists [OF q, of ?n ?res l d]) simp
  show thesis
  proof (cases "matchesDate q (sf_lastWrite f) \<and> matchesSize q (sf_size f) \<and> (sq_matchType q = MATCH_NAME_EXACT \<longrightarrow> pt_str (hd (sq_include q)) = ?n)")
    case False
    then show thesis using that [of q] q exact by (auto simp: matchesFileLower_def file_hit_def)
  next
    case True
    obtain b q2 where b: "hasExt ?n ?m = (b, q2)" by (cases "hasExt ?n ?m")
    have r: "matchesFileLower ?n (sf_size f) (sf_lastWrite f) q =
        (if \<not> (name_hits q ?n \<union> held q = words q) then Some (False, ?m)
         else if \<not> ext_ok q ?n then Some (False, snd (hasExt ?n ?m)) else Some (\<not> name_excluded q ?n, snd (hasExt ?n ?m)))"
    proof -
      have n: "\<not> (sq_matchType q = MATCH_NAME_EXACT \<and> sq_include q = [])" "\<not> (\<not> matchesDate q (sf_lastWrite f) \<or> \<not> matchesSize q (sf_size f))"
        "\<not> (sq_matchType q = MATCH_NAME_EXACT \<and> pt_str (hd (sq_include q)) \<noteq> ?n)" using exact True by blast+
      have "matchesFileLower ?n (sf_size f) (sf_lastWrite f) q =
        (if \<not> positionsComplete ?m then Some (False, ?m)
         else case hasExt ?n ?m of (False, q) \<Rightarrow> Some (False, q)
              | (True, q) \<Rightarrow> map_option (\<lambda>excluded. (\<not> excluded, q)) (match_any_lower (sq_exclude q) ?n))"
        unfolding matchesFileLower_def n [THEN if_not_P] match_include_matched [OF q] by simp
      then show ?thesis using e x unfolding complete b by (cases b) simp_all
    qed
    show thesis
      using that [of ?m] that [of "snd (hasExt ?n ?m)"] m h(2,3) same_query_trans [OF m(2) h(2)] score r True
      by (auto simp: file_hit_def split: if_splits)
  qed
qed


section \<open>Results\<close>

definition results_sorted :: "share_results \<Rightarrow> bool" where
  "results_sorted rs \<longleftrightarrow> sorted_wrt (\<lambda>a b. snd b \<le> snd a) rs"

lemma emplace_result_sorted:
  assumes "results_sorted rs"
  shows "results_sorted (emplace_result i score rs)"
    and "mset (map fst (emplace_result i score rs)) = add_mset i (mset (map fst rs))"
proof -
  let ?P = "\<lambda>r :: share_item \<times> rat. score \<le> snd r"
  have "\<forall>r\<in>set (dropWhile ?P rs). snd r \<le> score"
    using assms by (induction rs) (auto simp: results_sorted_def)
  moreover have "sorted_wrt (\<lambda>a b. snd b \<le> snd a) (takeWhile ?P rs @ dropWhile ?P rs)"
    using assms by (simp add: results_sorted_def)
  ultimately show "results_sorted (emplace_result i score rs)"
    unfolding results_sorted_def emplace_result_def sorted_wrt_append by (auto dest: set_takeWhileD intro: order_trans)
  have "mset (map fst rs) = mset (map fst (takeWhile ?P rs)) + mset (map fst (dropWhile ?P rs))"
    by (metis map_append mset_append takeWhile_dropWhile_id)
  then show "mset (map fst (emplace_result i score rs)) = add_mset i (mset (map fst rs))" by (simp add: emplace_result_def)
qed

lemma same_recursion:
  assumes "same_query q q'"
  shows "same_but_recursion q q'"
proof -
  have "q'\<lparr>sq_recursion := sq_recursion q\<rparr> = q'" using same_query_fields(3) [OF assms] by (simp add: eq_commute)
  then show ?thesis using assms by (simp add: same_but_recursion_def)
qed

lemma held_same:
  assumes "same_query q q'"
  shows "held q' = held q"
  unfolding held_def same_query_fields(3) [OF assms] found_same(1) [OF same_recursion [OF assms]] by (rule refl)

lemma found_files_simps:
  "found_files q path H [] = []"
  "found_files q path H (f # files) =
     (if file_hit q H f then Found_File path f # (if sq_addParents q then [] else found_files q path H files)
      else found_files q path H files)"
  by (simp_all add: found_files_def Let_def)

lemma search_files_found:
  assumes "query_inv q" and "results_sorted rs"
  shows "\<exists>rs' q'. search_files path l files (rs, q) = Some (rs', q') \<and> same_query q q' \<and> query_inv q' \<and> results_sorted rs'
    \<and> mset (map fst rs') = mset (map fst rs) + mset (found_files q path (held q) files)"
  using assms
proof (induction files arbitrary: rs q)
  case Nil
  then show ?case by (simp add: found_files_simps)
next
  case (Cons f files)
  obtain q1 where q1: "matchesFileLower (file_key f) (sf_size f) (sf_lastWrite f) q = Some (file_hit q (held q) f, q1)"
    "same_query q q1" "query_inv q1" "file_hit q (held q) f \<Longrightarrow> getRelevanceScore q1 l False (file_key f) \<noteq> None"
    using match_file [OF Cons.prems(1), of f l False] by metis
  note same = found_same [OF same_recursion [OF q1(2)]] held_same [OF q1(2)] same_query_fields(6) [OF q1(2)]
  show ?case
  proof (cases "file_hit q (held q) f")
    case False
    then show ?thesis using Cons.IH [OF q1(3) Cons.prems(2)] q1(1,2) same same_query_trans [OF q1(2)] by (auto simp: found_files_simps)
  next
    case True
    then obtain score where s: "getRelevanceScore q1 l False (file_key f) = Some score" using q1(4) by blast
    note e = emplace_result_sorted [OF Cons.prems(2), of "Found_File path f" score]
    show ?thesis
    proof (cases "sq_addParents q")
      case True
      then show ?thesis using \<open>file_hit q (held q) f\<close> q1 s e same by (simp add: found_files_simps)
    next
      case False
      then show ?thesis
        using \<open>file_hit q (held q) f\<close> Cons.IH [OF q1(3) e(1)] q1(1,2) s e(2) same same_query_trans [OF q1(2)]
        by (auto simp: found_files_simps)
    qed
  qed
qed


lemma recursion_new_held:
  assumes "query_inv q"
  obtains r where "recursion_new (matched q name True) name = Some r" and "length (rc_positions r) = length (sq_include q)"
    and "{j \<in> words q. fst (rc_positions r ! j) \<noteq> None} = name_hits q name \<union> held q"
proof -
  obtain pl where pl: "toPointList (matched q name True) name = Some pl" "map fst pl = sq_positions (matched q name True)"
    by (rule matched_points [OF assms])
  have l: "length pl = length (sq_include q)" using arg_cong [OF pl(2), of length] by (simp add: matched_def Let_def)
  have h: "fst (pl ! j) \<noteq> None \<longleftrightarrow> j \<in> name_hits q name" if "j < length (sq_include q)" for j
  proof -
    have "fst (pl ! j) = chosen name None (sq_include q) ! j"
      using arg_cong [OF pl(2), of "\<lambda>xs. xs ! j"] that l by (simp add: matched_def Let_def)
    then show ?thesis using chosen_hits [OF assms(1) that] by simp
  qed
  have n: "name_hits q name \<subseteq> words q" by (auto simp: name_hits_def)
  show thesis
  proof (cases "sq_recursion q")
    case None
    then show thesis
      using that [of "\<lparr>rc_depthLen = 0, rc_recursionLevel = 0, rc_positions = pl\<rparr>"] pl(1) l h n
      by (auto simp: recursion_new_def held_def words_def)
  next
    case (Some r)
    then have lr: "length pl = length (rc_positions r)" using assms(1) l by (simp add: query_inv_def)
    obtain b ps where m: "rc_merge pl r = (b, ps)" by (cases "rc_merge pl r")
    note mp = rc_merge_positions [OF lr, unfolded m, simplified]
    define d where "d = (if b then \<lparr>rc_depthLen = rc_depthLen r, rc_recursionLevel = rc_recursionLevel r, rc_positions = ps\<rparr>
        else \<lparr>rc_depthLen = 0, rc_recursionLevel = 0, rc_positions = ps\<rparr>)"
    have p: "rc_positions d = ps" by (simp add: d_def)
    have "recursion_new (matched q name True) name = Some d" using pl(1) m Some by (cases b) (simp_all add: recursion_new_def d_def)
    moreover have "j \<in> words q \<Longrightarrow> fst (ps ! j) \<noteq> None \<longleftrightarrow> j \<in> name_hits q name \<or> fst (rc_positions r ! j) \<noteq> None" for j
      using mp(2) [of j] h [of j] l by (simp add: words_def del: not_None_eq)
    then have "{j \<in> words q. fst (ps ! j) \<noteq> None} = name_hits q name \<union> held q" using n unfolding held_def Some by auto
    ultimately show thesis using that [of d] mp(1) l p by simp
  qed
qed


lemma search_name_found:
  assumes "query_inv q" and "results_sorted rs" and "dir_key d = getVirtualNameLower d"
  shows "\<exists>rs' q'. search_name path l d (rs, q) = Some (rs', q') \<and> same_but_recursion q q' \<and> query_inv q' \<and> results_sorted rs'
    \<and> held q' = words_below q (held q) (getVirtualNameLower d)
    \<and> mset (map fst rs') = mset (map fst rs) + mset (if dir_hit q (held q) d then [Found_Directory path] else [])"
proof -
  let ?n = "getVirtualNameLower d"
  let ?m = "matched q ?n True"
  note m = matched_inv [OF assms(1), of ?n True]
  note sm = same_recursion [OF m(2)] held_same [OF m(2)]
  show ?thesis
  proof (cases "name_counts q ?n")
    case False
    then have r: "search_name path l d (rs, q) = Some (rs, q) \<or> search_name path l d (rs, q) = Some (rs, ?m)"
      using matched_matches [OF assms(1), of ?n]
      by (auto simp: search_name_def matchesAnyDirectoryLower_def match_include_matched [OF assms(1)] name_counts_def)
    have "words_below q (held q) ?n = held q" "\<not> dir_hit q (held q) d"
      using False by (simp_all add: words_below_def dir_hit_def)
    then show ?thesis using r assms(1,2) sm m same_recursion [OF same_query_refl, of q] by fastforce
  next
    case True
    define complete where "complete \<longleftrightarrow> name_hits q ?n \<union> held q = words q"
    define valid where "valid \<longleftrightarrow> complete \<or> (\<exists>j\<in>name_hits q ?n. 2 < length (pt_str (sq_include q ! j)))"
    have any: "matchesAnyDirectoryLower ?n q = Some (True, ?m)"
      using True matched_matches [OF assms(1), of ?n]
      by (auto simp: matchesAnyDirectoryLower_def match_include_matched [OF assms(1)] name_counts_def)
    have c: "positionsComplete ?m = complete" using matched_complete [OF assms(1)] by (simp add: complete_def)
    have "(\<exists>j<length (sq_include q). chosen ?n None (sq_include q) ! j \<noteq> None \<and> 2 < pt_plen (sq_include q ! j))
        \<longleftrightarrow> (\<exists>j\<in>name_hits q ?n. 2 < length (pt_str (sq_include q ! j)))"
    proof -
      have p: "pt_plen (sq_include q ! j) = length (pt_str (sq_include q ! j))" if "j < length (sq_include q)" for j
        using assms(1) nth_mem [OF that] by (simp add: query_inv_def good_pattern_def)
      have n: "j \<in> name_hits q ?n \<Longrightarrow> j < length (sq_include q)" for j by (simp add: name_hits_def words_def)
      show ?thesis unfolding Bex_def using chosen_hits [OF assms(1), of _ ?n] p n by (intro ex_cong1) metis
    qed
    moreover have "sq_positions ?m = chosen ?n None (sq_include q)" by (simp add: matched_def Let_def)
    ultimately have v: "(complete \<or> list_ex (\<lambda>j. sq_positions ?m ! j \<noteq> None \<and> 2 < pt_plen (sq_include ?m ! j)) [0..<length (sq_positions ?m)]) = valid"
      by (simp add: valid_def list_ex_iff Bex_def del: not_None_eq)
    obtain score where s: "getRelevanceScore ?m l True (dir_key d) = Some score"
      unfolding assms(3) by (rule score_exists [OF assms(1)])
    have hit: "sq_itemType ?m \<noteq> ITEM_FILE \<and> complete \<and> sq_gt ?m = 0 \<and> matchesDate ?m (sd_lastWrite d) \<longleftrightarrow> dir_hit q (held q) d"
      using True same_query_fields(8) [OF m(2)] by (auto simp: dir_hit_def complete_def)
    define rs' where "rs' = (if dir_hit q (held q) d then emplace_result (Found_Directory path) score rs else rs)"
    have rs': "results_sorted rs'" "mset (map fst rs') = mset (map fst rs) + mset (if dir_hit q (held q) d then [Found_Directory path] else [])"
      using emplace_result_sorted [OF assms(2)] assms(2) by (simp_all add: rs'_def)
    have r: "search_name path l d (rs, q) =
        (if sq_matchType q = MATCH_PATH_PARTIAL \<and> valid
         then map_option (\<lambda>r. (rs', ?m\<lparr>sq_recursion := Some r\<rparr>)) (recursion_new ?m ?n) else Some (rs', ?m))"
      unfolding search_name_def prod.case any option.case bool.case Let_def c v hit s by (simp add: rs'_def)
    show ?thesis
    proof (cases "sq_matchType q = MATCH_PATH_PARTIAL \<and> valid")
      case False
      then have "words_below q (held q) ?n = held q" by (auto simp: words_below_def valid_def complete_def)
      then show ?thesis using r rs' sm m False by auto
    next
      case below: True
      then have w: "words_below q (held q) ?n = name_hits q ?n \<union> held q"
        using True by (auto simp: words_below_def valid_def complete_def)
      obtain r' where r': "recursion_new ?m ?n = Some r'" "length (rc_positions r') = length (sq_include q)"
        "{j \<in> words q. fst (rc_positions r' ! j) \<noteq> None} = name_hits q ?n \<union> held q"
        by (rule recursion_new_held [OF assms(1)])
      let ?q' = "?m\<lparr>sq_recursion := Some r'\<rparr>"
      have "same_but_recursion q ?q'" using sm(1) by (simp add: same_but_recursion_def)
      moreover have "query_inv ?q'" using m(1) r'(2) by (simp add: query_inv_def)
      moreover have "held ?q' = name_hits q ?n \<union> held q"
        using r'(3) found_same(1) [OF \<open>same_but_recursion q ?q'\<close>] by (simp add: held_def)
      ultimately show ?thesis using r r'(1) rs' w below by auto
    qed
  qed
qed


section \<open>The tree\<close>

text \<open>The names of a directory under which it is found and by which it is scored agree.\<close>

fun names_ok :: "share_dir \<Rightarrow> bool" where
  "names_ok (Share_Dir name aRoot lastWrite size' files directories) \<longleftrightarrow>
     (case aRoot of None \<Rightarrow> True | Some r \<Rightarrow> ds_str (rt_name r) = ds_str name) \<and> list_all names_ok directories"

definition dir_found :: "string list \<Rightarrow> int \<Rightarrow> share_dir \<Rightarrow> share_results \<Rightarrow> search_query \<Rightarrow> bool" where
  "dir_found path l d rs q \<longleftrightarrow>
     (\<exists>rs' q'. search_dir path l d (rs, q) = Some (rs', q') \<and> same_query q q' \<and> query_inv q' \<and> results_sorted rs'
        \<and> mset (map fst rs') = mset (map fst rs) + mset (found_dir q path (held q) d))"

lemma search_dirs_found:
  assumes "\<And>d rs q. d \<in> set ds \<Longrightarrow> query_inv q \<Longrightarrow> results_sorted rs \<Longrightarrow> dir_found path l d rs q"
    and "query_inv q" and "results_sorted rs"
  shows "\<exists>rs' q'. search_dirs path l ds (rs, q) = Some (rs', q') \<and> same_query q q' \<and> query_inv q' \<and> results_sorted rs'
    \<and> mset (map fst rs') = mset (map fst rs) + mset (concat (map (found_dir q path (held q)) ds))"
  using assms
proof (induction ds arbitrary: rs q)
  case (Cons d ds)
  obtain rs1 q1 where one: "search_dir path l d (rs, q) = Some (rs1, q1)" "same_query q q1" "query_inv q1" "results_sorted rs1"
    "mset (map fst rs1) = mset (map fst rs) + mset (found_dir q path (held q) d)"
    using Cons.prems unfolding dir_found_def by (meson list.set_intros(1))
  obtain rs2 q2 where two: "search_dirs path l ds (rs1, q1) = Some (rs2, q2)" "same_query q1 q2" "query_inv q2" "results_sorted rs2"
    "mset (map fst rs2) = mset (map fst rs1) + mset (concat (map (found_dir q1 path (held q1)) ds))"
    using Cons.IH [OF _ one(3,4)] Cons.prems(1) by (meson list.set_intros(2))
  have m: "map (found_dir q1 path (held q1)) ds = map (found_dir q path (held q)) ds"
    using found_dir_same [OF same_recursion [OF one(2)]] held_same [OF one(2)] by simp
  have "mset (map fst rs2) = mset (map fst rs) + mset (concat (map (found_dir q path (held q)) (d # ds)))"
    unfolding two(5) one(5) m by simp
  moreover have "search_dirs path l (d # ds) (rs, q) = Some (rs2, q2)" using one(1) two(1) by simp
  ultimately show ?case using two(3,4) same_query_trans [OF one(2) two(2)] by blast
qed simp

lemma held_increase: "held (q\<lparr>sq_recursion := map_option (rc_increase n) (sq_recursion q)\<rparr>) = held q"
  by (cases "sq_recursion q") (simp_all add: held_def rc_increase_def words_def)

lemma same_recursion_back:
  assumes "same_but_recursion q q2" and "same_query q2 q4"
  shows "same_query q (q4\<lparr>sq_recursion := sq_recursion q\<rparr>)"
proof -
  obtain e n p m where "q4 = q2\<lparr>sq_ext := e, sq_noExt := n, sq_positions := p, sq_matches := m\<rparr>"
    using assms(2) unfolding same_query_def by blast
  then have "q4\<lparr>sq_recursion := sq_recursion q\<rparr> =
      q2\<lparr>sq_recursion := sq_recursion q, sq_ext := e, sq_noExt := n, sq_positions := p, sq_matches := m\<rparr>" by simp
  moreover have "ext_ok q4 = ext_ok q2" using assms(2) by (rule same_query_fields)
  ultimately have "same_query (q2\<lparr>sq_recursion := sq_recursion q\<rparr>) (q4\<lparr>sq_recursion := sq_recursion q\<rparr>)"
    unfolding same_query_def ext_ok_recursion by metis
  then show ?thesis using assms(1) unfolding same_but_recursion_def by (rule same_query_trans [rotated])
qed

lemma search_dir_found:
  assumes "names_ok d" and "query_inv q" and "results_sorted rs"
  shows "dir_found path l d rs q"
  using assms
proof (induction d arbitrary: path l rs q)
  case (Share_Dir name aRoot lastWrite size' files directories)
  let ?d = "Share_Dir name aRoot lastWrite size' files directories"
  let ?n = "getVirtualNameLower ?d" and ?path = "path @ [getVirtualNameLower ?d]"
  note q = Share_Dir.prems(2)
  show ?case
  proof (cases "name_excluded q ?n")
    case True
    then show ?thesis using excluded_match [OF q, of ?n] q Share_Dir.prems(3) by (simp add: dir_found_def Let_def)
  next
    case False
    have "dir_key ?d = ?n" using Share_Dir.prems(1) by (auto simp: dir_key_def getVirtualNameLower_def split: option.splits)
    then obtain rs1 q1 where one: "search_name ?path l ?d (rs, q) = Some (rs1, q1)" "same_but_recursion q q1" "query_inv q1"
      "results_sorted rs1" "held q1 = words_below q (held q) ?n"
      "mset (map fst rs1) = mset (map fst rs) + mset (if dir_hit q (held q) ?d then [Found_Directory ?path] else [])"
      using search_name_found [OF q Share_Dir.prems(3), of ?d ?path l] by blast
    define q2 where "q2 = q1\<lparr>sq_recursion := map_option (rc_increase (length ?n)) (sq_recursion q1)\<rparr>"
    have q2: "same_but_recursion q q2" "query_inv q2" "held q2 = words_below q (held q) ?n"
      using one(2,3,5) held_increase [of "length ?n" q1]
      by (auto simp: q2_def same_but_recursion_def query_inv_def rc_increase_def)
    have item: "sq_itemType q2 = sq_itemType q" using same_query_fields(7) [OF q2(1) [unfolded same_but_recursion_def]] by simp
    define ff where "ff = (if sq_itemType q \<noteq> ITEM_DIRECTORY then found_files q ?path (words_below q (held q) ?n) files else [])"
    obtain rs3 q3 where three: "(if sq_itemType q2 \<noteq> ITEM_DIRECTORY then search_files ?path (l + 1) files (rs1, q2) else Some (rs1, q2)) = Some (rs3, q3)"
      "same_query q2 q3" "query_inv q3" "results_sorted rs3" "mset (map fst rs3) = mset (map fst rs1) + mset ff"
      using search_files_found [OF q2(2) one(4), of ?path "l + 1" files] q2(2) one(4)
      unfolding ff_def item q2(3) found_same(5) [OF q2(1)] by (cases "sq_itemType q \<noteq> ITEM_DIRECTORY") auto
    have IH: "e \<in> set directories \<Longrightarrow> query_inv q \<Longrightarrow> results_sorted rs \<Longrightarrow> dir_found ?path (l + 1) e rs q" for e rs q
      using Share_Dir.IH Share_Dir.prems(1) by (auto simp: list_all_iff)
    obtain rs4 q4 where four: "search_dirs ?path (l + 1) directories (rs3, q3) = Some (rs4, q4)" "same_query q3 q4" "query_inv q4"
      "results_sorted rs4" "mset (map fst rs4) = mset (map fst rs3) + mset (concat (map (found_dir q3 ?path (held q3)) directories))"
      using search_dirs_found [OF IH three(3,4)] by blast
    let ?q' = "q4\<lparr>sq_recursion := sq_recursion q\<rparr>"
    have s24: "same_query q2 q4" by (rule same_query_trans [OF three(2) four(2)])
    have result: "search_dir path l ?d (rs, q) = Some (rs4, ?q')"
    proof -
      have x: "match_any_lower (sq_exclude q) ?n = Some False" using False excluded_match [OF q, of ?n] by simp
      show ?thesis
        unfolding search_dir.simps Let_def x option.case bool.case one(1) prod.case q2_def [symmetric] three(1) four(1) by simp
    qed
    have same: "same_query q ?q'"
      using q2(1) s24 by (rule same_recursion_back)
    have sub: "found_dir q3 ?path (held q3) e = found_dir q ?path (words_below q (held q) ?n) e" for e
      using found_dir_same [OF same_recursion [OF three(2)]] found_dir_same [OF q2(1)] held_same [OF three(2)] q2(3) by simp
    have "query_inv ?q'" using four(3) q same_query_fields(1) [OF same] by (simp add: query_inv_def)
    then show ?thesis using False result same four(4,5) one(6) three(5) unfolding dir_found_def sub
      by (simp add: Let_def ff_def)
  qed
qed


section \<open>The filter\<close>

text \<open>The names that \<open>addDirName\<close> and \<open>File::updateIndices\<close> add to the filter of the share.\<close>

fun dir_names :: "share_dir \<Rightarrow> string list" where
  "dir_names (Share_Dir name aRoot lastWrite size' files directories) =
     getVirtualNameLower (Share_Dir name aRoot lastWrite size' files directories) # map file_key files @ concat (map dir_names directories)"

definition named :: "search_query \<Rightarrow> string set \<Rightarrow> nat set" where
  "named q N = {j \<in> words q. \<exists>n\<in>N. sublist (pt_str (sq_include q ! j)) n}"

lemma name_hits_named: "n \<in> N \<Longrightarrow> name_hits q n \<subseteq> named q N"
  by (auto simp: name_hits_def named_def)

lemma found_named:
  assumes "H \<subseteq> named q N" and "set (dir_names d) \<subseteq> N" and "found_dir q path H d \<noteq> []"
  shows "named q N = words q"
  using assms
proof (induction d arbitrary: path H)
  case (Share_Dir name aRoot lastWrite size' files directories)
  let ?d = "Share_Dir name aRoot lastWrite size' files directories"
  let ?n = "getVirtualNameLower ?d" and ?path = "path @ [getVirtualNameLower ?d]"
  let ?H = "words_below q H ?n"
  have n: "?n \<in> N" "file_key ` set files \<subseteq> N" "\<And>e. e \<in> set directories \<Longrightarrow> set (dir_names e) \<subseteq> N"
    using Share_Dir.prems(2) by auto
  have H: "?H \<subseteq> named q N" using Share_Dir.prems(1) name_hits_named [OF n(1)] by (auto simp: words_below_def)
  have w: "named q N \<subseteq> words q" by (auto simp: named_def)
  consider (dir) "dir_hit q H ?d" | (files) "found_files q ?path ?H files \<noteq> []"
    | (below) e where "e \<in> set directories" "found_dir q ?path ?H e \<noteq> []"
    using Share_Dir.prems(3) by (auto simp: Let_def split: if_splits)
  then show ?case
  proof cases
    case dir
    then show ?thesis using Share_Dir.prems(1) name_hits_named [OF n(1), of q] w by (auto simp: dir_hit_def)
  next
    case files
    then obtain f where "f \<in> set files" "file_hit q ?H f" by (auto simp: found_files_def Let_def filter_empty_conv split: if_splits)
    then have "file_key f \<in> N" "name_hits q (file_key f) \<union> ?H = words q" using n(2) by (auto simp: file_hit_def)
    moreover note name_hits_named [OF this(1), of q]
    ultimately show ?thesis using H w by (metis Un_least subset_antisym)
  next
    case below
    then show ?thesis using Share_Dir.IH [OF below(1) H n(3) [OF below(1)]] by blast
  qed
qed

lemma bloom_passes:
  assumes "t \<noteq> []" and "named q (set names) = words q"
  shows "matchBloom (fold (bf_add 5) names t) q"
proof -
  have "bf_match 5 (fold (bf_add 5) names t) (pt_str p)" if p: "p \<in> set (sq_include q)" for p
  proof -
    obtain j where j: "j < length (sq_include q)" "p = sq_include q ! j" using p by (metis in_set_conv_nth)
    then have "j \<in> named q (set names)" using assms(2) by (simp add: words_def)
    then obtain n where "n \<in> set names" "sublist (pt_str p) n" using j(2) by (auto simp: named_def)
    then show ?thesis using share_bloom.pass_names [OF assms(1)] by blast
  qed
  then show ?thesis by (simp add: matchBloom_def list_all_iff)
qed

section \<open>Properties\<close>



text \<open>A shared directory with one song; a search for two words, one in the name of the directory.\<close>

definition test_song :: share_file where
  "test_song = \<lparr>sf_name = \<lparr>ds_charSizes = None, ds_str = ''a song.mp3''\<rparr>, sf_size = 100, sf_lastWrite = 0, sf_tth = []\<rparr>"

definition test_root :: share_dir where
  "test_root =
     Share_Dir \<lparr>ds_charSizes = None, ds_str = ''some band''\<rparr> None 0 100
       [test_song, test_song\<lparr>sf_name := \<lparr>ds_charSizes = None, ds_str = ''other.txt''\<rparr>\<rparr>] []"

definition test_words :: search_query where
  "test_words = (query_new 10)\<lparr>sq_include := [test_pattern ''band'', test_pattern ''song''], sq_positions := [None, None]\<rparr>"

lemma test_found: "found_dir test_words [] {} test_root = [Found_File [''some band''] test_song]"
proof -
  let ?q = test_words
  have w: "words ?q = {0, 1}" by (auto simp: words_def test_words_def)
  have s: "sublist ''band'' ''some band''" "sublist ''song'' ''a song.mp3''" "\<not> sublist ''song'' ''some band''" "\<not> sublist ''band'' ''a song.mp3''"
    "\<not> sublist ''song'' ''other.txt''" "\<not> sublist ''band'' ''other.txt''" by code_simp+
  have hits: "name_hits ?q ''some band'' = {0}" "name_hits ?q ''a song.mp3'' = {1}" "name_hits ?q ''other.txt'' = {}"
    using s unfolding name_hits_def w by (auto simp: test_words_def test_pattern_def)
  have e: "\<not> name_excluded ?q n" "ext_ok ?q n" for n by (simp_all add: name_excluded_def ext_ok_def test_words_def query_new_def)
  have "name_counts ?q ''some band''" using hits by (simp add: name_counts_def test_words_def query_new_def ITEM_FILE_def ITEM_ANY_def)
  moreover have "sq_matchType ?q = MATCH_PATH_PARTIAL" by (simp add: test_words_def query_new_def)
  moreover have "(2 :: nat) < length (pt_str (sq_include ?q ! 0))" by (simp add: test_words_def test_pattern_def)
  ultimately have below: "words_below ?q {} ''some band'' = {0}" using hits by (simp add: words_below_def)
  have dir: "\<not> dir_hit ?q {} test_root" using hits w by (auto simp: dir_hit_def test_root_def getVirtualNameLower_def dir_key_def)
  have files: "file_hit ?q {0} test_song"
    "\<not> file_hit ?q {0} (test_song\<lparr>sf_name := \<lparr>ds_charSizes = None, ds_str = ''other.txt''\<rparr>\<rparr>)"
    using e hits w
    by (auto simp: file_hit_def file_key_def test_song_def matchesDate_def matchesSize_def test_words_def query_new_def
        MATCH_PATH_PARTIAL_def MATCH_NAME_EXACT_def)
  have n: "getVirtualNameLower test_root = ''some band''" by (simp add: getVirtualNameLower_def dir_key_def test_root_def)
  have "sq_itemType ?q \<noteq> ITEM_DIRECTORY" "\<not> sq_addParents ?q" by (simp_all add: test_words_def query_new_def ITEM_ANY_def ITEM_DIRECTORY_def)
  then show ?thesis using n dir e(1) files below unfolding test_root_def
    by (simp add: Let_def found_files_simps)
qed


end
