(* ===== verification/Spec2Isabelle.thy ===== *)
theory Spec2Isabelle
  imports Merkle_Verify Adc User_Queue File_Queue Sorted_Vector Directory_Counts Upload_Slots
    Buffered_Socket Share_Search
begin

text \<open>
  \<^bold>\<open>AirDC++: a verification library.\<close>  AirDC++ is a file sharing client for the Advanced Direct Connect
  network.  Its core (\<open>src/airdcpp-core/airdcpp\<close>; the paths below are relative to it) connects to hubs,
  searches, and downloads the parts of a file from several users at once.  The library models the parts
  that decide whether a download is right: the hashes that identify and verify files, the commands that
  clients exchange, the text they carry, and the queue that decides what is fetched from whom.

  \<^bold>\<open>How the parts interact.\<close>  A file is named by the root of its Tiger tree.  A client sends \<open>AdcCommand\<close>s;
  their parameters are UTF-8 text (\<open>Text\<close>) and base32 hashes (\<open>Encoder\<close>, \<open>HashValue\<close>).  \<open>QueueManager\<close>
  keeps the queued files (\<open>QueueItem\<close>) in bundles (\<open>Bundle\<close>) and finds a file for a user through
  \<open>UserQueue\<close>, which asks \<open>Bundle::getNextQI\<close>, which asks \<open>QueueItem::hasSegment\<close>, which runs the search
  of \<open>QueueItem::getNextSegment\<close> over the finished and running segments.  The received bytes pass a
  \<open>MerkleCheckOutputStream\<close>, which compares them with the leaves of the tree; a finished segment is
  recorded by \<open>QueueItem::addFinishedSegment\<close> and counted by \<open>Bundle::addFinishedSegment\<close>.  A file list that
  is downloaded as a whole becomes a bundle through \<open>PathUtil\<close>; \<open>FileQueue\<close> finds its files by path and hash,
  \<open>BundleQueue\<close> its directories, and \<open>PrioritySearchQueue\<close> the bundle to look for sources of.  In the other
  direction a request of a connection is read by \<open>UploadParser\<close>, gets a slot from \<open>UploadManager\<close> or a place in
  \<open>UploadQueueManager\<close>, and is answered through an input stream; \<open>ThrottleManager\<close> limits both directions.
  The bytes of a connection pass \<open>BufferedSocket\<close>, which cuts them into lines (commands) and counted data, and sends
  the answer; \<open>Download::getCommand\<close> writes the request and \<open>DownloadManager\<close> checks the answer against it.
  A search of the user (\<open>Search\<close>) is sent by \<open>AdcHub\<close> as commands; a received one becomes a \<open>SearchQuery\<close>, which
  matches names through \<open>StringSearch\<close>, behind a \<open>BloomFilter\<close> of the names of the share, in the tree of
  \<open>ShareDirectory\<close>s, whose names are kept as \<open>DualString\<close>s.

  \<^bold>\<open>Theories and code.\<close>
  \<^item> \<open>Prelude\<close>: bytes and characters (a \<open>string\<close> of the code is a list of characters, a buffer a list of
    bytes), bits of bytes, lists, signed remainders, and the locale \<open>codec\<close> of a pair of functions that
    print and read.
  \<^item> \<open>Base32\<close>: \<open>hash/value/Encoder.cpp\<close> and \<open>HashValue.h\<close>; the digits are characterised by the five-bit
    groups of five bytes.  \<open>codec\<close> is interpreted on the texts of hash values.
  \<^item> \<open>Tiger_Tables\<close>, \<open>Tiger\<close>, \<open>Tiger_Test\<close>: \<open>hash/value/TigerHash.cpp\<close>: the four tables, both variants
    of the compression function (64-bit and portable) on 64-bit words, the buffering of \<open>update\<close> and the
    padding of \<open>finalize\<close>, related to a reference that absorbs a padded message; a published digest is
    computed in the kernel.
  \<^item> \<open>Merkle\<close>, \<open>Tree_Hash\<close>: \<open>hash/value/MerkleTree.h\<close> (the stack of partial groups, the root, block
    sizes with their 64-bit wrap-around) and the reference \<open>tree_hash\<close>; \<open>merkle_inv\<close> relates the two.  The
    hasher is a parameter, the function from a message to its digest.
  \<^item> \<open>Merkle_Check\<close>, \<open>Merkle_Verify\<close>: \<open>MerkleCheckOutputStream.h\<close>, \<open>MerkleTreeOutputStream.h\<close>, and the
    branch of \<open>DownloadManager::endData\<close> that accepts a tree.  The locale \<open>fixed_digest\<close> states what is used
    of a hasher (digests of one length) and is interpreted on the Tiger digest of \<open>Tiger\<close>.
  \<^item> \<open>Adc\<close>: \<open>protocol/AdcCommand.cpp\<close>: the parser with its states and every error, the printers, named
    parameters and the dispatch of \<open>CommandHandler\<close>.  The locale \<open>codec\<close> is interpreted on session ids.
  \<^item> \<open>Utf8\<close>: \<open>util/text/Text.cpp\<close> (UTF-8 decoding, encoding, repair, validation) and the comparisons
    without case of \<open>util/Util.cpp\<close>.  The table of lower case letters is a parameter.
  \<^item> \<open>Segments\<close>: \<open>core/classes/Segment.h\<close> and the finished segments of \<open>queue/QueueItem.cpp\<close>; the
    abstraction of a set of segments is the set of bytes it covers.
  \<^item> \<open>Queue_Types\<close>: priorities (an instance of the class \<open>linorder\<close>), flag words, users, settings, and
    \<open>transfer/Transfer.cpp\<close>.
  \<^item> \<open>Queue_Item\<close>: state, construction, orders, progress, sources, names and downloads of
    \<open>queue/QueueItem.cpp\<close>.
  \<^item> \<open>Next_Segment\<close>: \<open>getNextSegment\<close>, \<open>checkOverlaps\<close>, \<open>hasSegment\<close> and \<open>pickSearchItem\<close>.
  \<^item> \<open>Bundle\<close>: \<open>queue/Bundle.cpp\<close>: sizes, files, sources, the queues by priority and user, running
    downloads.  The locale \<open>strict_weak\<close> states what \<open>upper_bound\<close> needs of an order; it is interpreted on
    the order of bundles and on the order of files by priority.  \<open>bundle_step\<close> is the step relation of the
    calls that change the accounts.
  \<^item> \<open>User_Queue\<close>: \<open>queue/UserQueue.cpp\<close>: the queues by user over stores of files and bundles (the code
    shares them by pointer; the model by number), with the step relation \<open>queue_step\<close>.
  \<^item> \<open>Paths\<close>: \<open>util/PathUtil.cpp\<close> (parts of paths, cleaning of names received from others, comparison of
    subdirectories) and the way from a file list to the files of a bundle.
  \<^item> \<open>Dupes\<close>: the classes of duplicates of \<open>util/DupeUtil.cpp\<close>.
  \<^item> \<open>Sorted_Vector\<close>: \<open>core/classes/SortedVector.h\<close>.  The locale \<open>key_order\<close> states what its binary search
    needs of a comparison; it is interpreted on the comparison of strings and on that of paths.
  \<^item> \<open>File_Queue\<close>: \<open>queue/FileQueue.cpp\<close>: the queued files by path, hash and token, with the step relation
    \<open>fq_step\<close>.
  \<^item> \<open>Search_Queue\<close>: \<open>util/classes/PrioritySearchQueue.h\<close>: which bundle is searched for next, and when.
  \<^item> \<open>Bundle_Queue\<close>, \<open>Directory_Counts\<close>: \<open>queue/BundleQueue.cpp\<close>: bundles by token and directory, the counts
    of files of every directory, the files to search for.  \<open>dir_step\<close> is the step relation of the calls that
    add and remove files, \<open>dirs_inv\<close> its invariant.
  \<^item> \<open>Bandwidth\<close>: \<open>connection/ThrottleManager.cpp\<close> (the tokens of a second, kept as 64-bit words) and the automatic
    numbers of slots and limits of \<open>util/AutoLimitUtil.cpp\<close>.
  \<^item> \<open>Upload_Queue\<close>: \<open>transfer/upload/UploadQueueManager.cpp\<close>: the users that wait for a slot and those told of one.
  \<^item> \<open>Streams\<close>: \<open>core/io/stream\<close> and the stack of streams of \<open>Download::open\<close>.  The locale \<open>output_stream\<close> states what a
    buffered stream needs of the stream below (a write adds its bytes or fails, a flush adds nothing); it is
    interpreted on strings, on a shared file and on the buffered file itself.
  \<^item> \<open>Upload_File\<close>: \<open>transfer/upload/UploadFileParser.cpp\<close> and \<open>UploadRequest.h\<close>: what a request asks for and the stream
    that answers it.
  \<^item> \<open>Upload_Manager\<close>, \<open>Upload_Slots\<close>: \<open>transfer/upload/UploadManager.cpp\<close>: slots, running and delayed uploads, and every
    handler of a connection.  Slot counters keep their 8 and 16 bits.  \<open>um_step\<close> is the step relation of the events,
    \<open>um_inv\<close> its invariant.
  \<^item> \<open>Buffered_Socket\<close>: \<open>connection/socket/BufferedSocket.cpp\<close>: the modes of a connection, reading (\<open>threadRead\<close>)
    against a listener that may change the mode, and sending a file (\<open>threadSendFile\<close>); \<open>feeds\<close> is the meaning of
    the bytes one at a time.
  \<^item> \<open>Transfer_Commands\<close>: \<open>Download::getCommand\<close>, the commands of \<open>UploadManager.cpp\<close> that answer it, and the check of
    the answer in \<open>transfer/download/DownloadManager.cpp\<close>, with numbers as text (\<open>util/Util.h\<close>).
  \<^item> \<open>String_Search\<close>: \<open>util/text/StringSearch.cpp\<close>: quick search with 16-bit shifts, and lists of patterns with the positions
    they are found at.
  \<^item> \<open>Bloom\<close>: \<open>core/classes/BloomFilter.h\<close> and \<open>hash/value/HashBloom.cpp\<close>.  The locale \<open>name_filter\<close> states what a search
    needs of a filter (what was added passes, and keeps passing); it is interpreted on the filter of the share.
  \<^item> \<open>Search_Query\<close>: \<open>search/SearchQuery.cpp\<close>, \<open>search/Search.h\<close> and the searches of \<open>hub/AdcHub.cpp\<close>: how a search is sent,
    with its extensions grouped, how it is read, and how a query matches names and scores what it matched.
  \<^item> \<open>Dual_String\<close>: \<open>util/text/DualString.cpp\<close>: names in lower case with bits for the letters that were not.
  \<^item> \<open>Share_Directory\<close>, \<open>Share_Search\<close>: \<open>share/ShareDirectory.cpp\<close> and the recursive search of \<open>share/ShareTree.cpp\<close>: the tree
    of shared directories, and what a query finds in it, against the specification \<open>found_dir\<close>.

  \<^bold>\<open>What the lemmas show.\<close>  Encodings are round trips with exact conditions (\<open>Base32\<close>, \<open>Adc\<close>, \<open>Utf8\<close>);
  incremental routines compute their one-shot references (\<open>Tiger\<close>, \<open>Merkle_Verify\<close>); a download that passes
  the verifying stream and is flushed is the file, or a hash collision is exhibited; the search for a
  segment ends, and what it returns may be requested, or every block is taken; the finished segments stay
  consolidated; the counters of a bundle are the sums over its files along every run; the queues of a user
  hold exactly the bundles that have the user as a source, in order, along every run; the file chosen for a
  user is the first available one by priority and position.  Cleaned paths and accepted file lists stay inside
  the directory they are given; a sorted vector is a map; the maps of queued files agree along every run; the
  directories of a bundle carry the counts of their files along every run of additions and removals, and a
  completed file is counted wrongly; popping an item to search keeps the queues.  Segments written through their
  own streams end up in their ranges of the file in any order of calls; a request for a shared file is answered
  with its bytes; no second passes more bytes than its limit; the slot counters of the upload manager count the
  connections that hold slots along every run of events, and no more users get one than are configured.  Quick search finds
  the first occurrence; the filters have no false negatives; a search arrives as what it was, except for extensions in the
  cases named; a name in two cases is made again where its letters allow it; a search of the share finds what it is for.

  \<^bold>\<open>Conventions.\<close>  Words of the code that wrap (hash state, tree sizes, ticks) are machine words; file
  positions and sizes (\<open>int64_t\<close>, far below overflow) are integers, and signed division truncates.  A
  function that may read past the end of a container or call through a null pointer has an \<open>option\<close>
  result, and \<open>None\<close> is that undefined behaviour; \<open>Inl\<close> is an exception.  Objects that the code shares are
  numbers in a store.  The search loop of \<open>getNextSegment\<close>, the loop of \<open>tree_block_size\<close> and the loop over a
  path in \<open>getDirectoryName\<close> may run forever and are \<open>partial_function (option)\<close>, and so are the loops of quick search;
  the properties show when they return, the loop over a path excepted.  No fuel is used.  The scores of results, doubles of the code, are rational numbers.

  \<^bold>\<open>Parameters.\<close>  The database of hashes, the clock, random numbers, the state of users and hubs and the
  settings are arguments (records \<open>env\<close>, \<open>users\<close>, \<open>settings\<close>, \<open>limit_settings\<close>, and words); for uploads also the
  share and the files on disk (\<open>share_env\<close>) and the hooks for slots (\<open>upload_env\<close>).

  \<^bold>\<open>Not modelled.\<close>  The managers that own threads, sockets, files and listeners (\<open>QueueManager\<close>,
  \<open>ConnectionManager\<close>, \<open>ClientManager\<close>, \<open>DownloadManager\<close> beyond the branch above, \<open>HashManager\<close>, \<open>ShareManager\<close>, the hubs) call the operations modelled here under locks and add input and
  output; listener calls are left out of every operation.  Localised texts, settings tables, the web
  interface, TLS, geolocation, and the parts that only wrap the operating system or third-party libraries
  have no content that the kernel could check.  Of the queue, writing to XML, status texts and checks of
  files on disk are left out.
\<close>

end
